(* ===== verification/Go_Base.thy ===== *)
theory Go_Base
  imports Main "HOL-Library.Multiset"
begin

section \<open>Prelude: what the Go language gives the modelled code\<close>

text \<open>
  Types, helpers and generic lemmas that every component shares.

  \<^item> \<open>wrap64\<close> is Go's \<open>int\<close> and \<open>int64\<close> arithmetic on a 64-bit machine. The model uses
    \<open>int\<close> and writes \<open>wrap64\<close> where an operand is not bounded by the code.
  \<^item> A Go \<open>time.Time\<close> is the number of nanoseconds since the zero \<open>Time\<close>
    (1 January of year 1, UTC), so \<open>IsZero\<close> is \<open>t = 0\<close>, \<open>Before\<close> is \<open><\<close> and
    \<open>Add\<close> is \<open>+\<close>. \<open>Sub\<close> saturates at the bounds of a \<open>Duration\<close>. A \<open>Duration\<close>
    is its number of nanoseconds.
  \<^item> A fallible function returns \<open>'e + 'a\<close>: \<open>Inl\<close> the error, \<open>Inr\<close> the value.
  \<^item> \<open>machine\<close> and \<open>guarded_machine\<close> are the interfaces of the components that are
    state machines: a step function and an invariant every step keeps.
  \<^item> \<open>comparator\<close> is the interface of a Go comparison function (\<open>cmp\<close> returning a
    negative, zero or positive number) as \<open>slices.SortFunc\<close> needs it.
\<close>

named_theorems go_defs "definitions of the Go library functions, for unfolding"
named_theorems run_simps "how the state machines' runs unfold"

subsection \<open>Integers\<close>

definition wrap64 :: "int \<Rightarrow> int" where
  "wrap64 n = (n + 2 ^ 63) mod 2 ^ 64 - 2 ^ 63"

lemma wrap64_id [simp]: "- (2 ^ 63) \<le> n \<Longrightarrow> n < 2 ^ 63 \<Longrightarrow> wrap64 n = n"
  by (simp add: wrap64_def)

lemma wrap64_range: "- (2 ^ 63) \<le> wrap64 n \<and> wrap64 n < 2 ^ 63"
proof -
  have "0 \<le> (n + 2 ^ 63) mod 2 ^ 64" and "(n + 2 ^ 63) mod 2 ^ 64 < (2 ^ 64 :: int)"
    by simp_all
  then show ?thesis by (simp add: wrap64_def)
qed

text \<open>Go's integer division and remainder truncate towards zero.\<close>

definition quot :: "int \<Rightarrow> int \<Rightarrow> int" where
  "quot a b = sgn a * sgn b * (\<bar>a\<bar> div \<bar>b\<bar>)"

lemma quot_nonneg [simp]: "0 \<le> a \<Longrightarrow> 0 < b \<Longrightarrow> quot a b = a div b"
  by (cases "a = 0") (simp_all add: quot_def)

subsection \<open>Times and durations\<close>

type_synonym gotime = int
type_synonym duration = int

abbreviation (input) nanosecond :: duration where "nanosecond \<equiv> 1"
abbreviation (input) millisecond :: duration where "millisecond \<equiv> 1000000"
abbreviation (input) second :: duration where "second \<equiv> 1000000000"
abbreviation (input) minute :: duration where "minute \<equiv> 60000000000"
abbreviation (input) hour :: duration where "hour \<equiv> 3600000000000"

text \<open>The zero \<open>Time\<close> and \<open>IsZero\<close>.\<close>

abbreviation (input) zero_time :: gotime where "zero_time \<equiv> 0"

definition max_duration :: duration where "max_duration = 2 ^ 63 - 1"
definition min_duration :: duration where "min_duration = - (2 ^ 63)"

text \<open>\<open>t.Sub(u)\<close>.\<close>

definition time_sub :: "gotime \<Rightarrow> gotime \<Rightarrow> duration" where
  "time_sub t u = max min_duration (min max_duration (t - u))"

lemma time_sub_small: "0 \<le> t - u \<Longrightarrow> t - u < 2 ^ 63 \<Longrightarrow> time_sub t u = t - u"
  by (simp add: time_sub_def max_duration_def min_duration_def)

lemma time_sub_le_iff: "0 \<le> d \<Longrightarrow> d < max_duration \<Longrightarrow> time_sub t u \<le> d \<longleftrightarrow> t - u \<le> d"
  by (auto simp: time_sub_def max_duration_def min_duration_def)

lemma time_sub_gt_iff: "0 \<le> d \<Longrightarrow> d < max_duration \<Longrightarrow> d < time_sub t u \<longleftrightarrow> d < t - u"
  by (auto simp: time_sub_def max_duration_def min_duration_def)

text \<open>Seconds between the zero \<open>Time\<close> and 1 January 1970, and \<open>t.Unix()\<close>.\<close>

definition unix_epoch_sec :: int where "unix_epoch_sec = 62135596800"

definition unix_sec :: "gotime \<Rightarrow> int" where
  "unix_sec t = t div second - unix_epoch_sec"

definition unix_milli :: "gotime \<Rightarrow> int" where
  "unix_milli t = t div millisecond - unix_epoch_sec * 1000"

text \<open>\<open>time.UnixMilli(ms)\<close>.\<close>

definition from_unix_milli :: "int \<Rightarrow> gotime" where
  "from_unix_milli ms = (ms + unix_epoch_sec * 1000) * millisecond"

text \<open>\<open>t.Truncate(d)\<close> rounds down to a multiple of \<open>d\<close> since the zero \<open>Time\<close>.\<close>

definition time_truncate :: "gotime \<Rightarrow> duration \<Rightarrow> gotime" where
  "time_truncate t d = (if d \<le> 0 then t else t - t mod d)"

subsection \<open>Lists and options\<close>

lemma foldl_append_map: "foldl (\<lambda>acc x. acc @ [f x]) ys xs = ys @ map f xs"
  by (induction xs arbitrary: ys) auto

lemma takeWhile_eq_filter_sorted:
  assumes "sorted_wrt (\<lambda>x y. P y \<longrightarrow> P x) xs"
  shows "takeWhile P xs = filter P xs"
  using assms by (induction xs) (auto simp: filter_empty_conv)

lemma map_upt_nth_take: "n \<le> length xs \<Longrightarrow> map (\<lambda>i. xs ! i) [0..<n] = take n xs"
  by (simp add: list_eq_iff_nth_eq)

lemma sum_list_filter_split:
  fixes f :: "'a \<Rightarrow> int"
  shows "sum_list (map f (filter P xs)) + sum_list (map f (filter (\<lambda>x. \<not> P x) xs)) = sum_list (map f xs)"
  by (induction xs) auto

subsection \<open>Runs of a state machine\<close>

text \<open>
  \<open>run_ok step ok s es\<close>: every event of the run is allowed (\<open>ok\<close>) in the state it meets.
\<close>

fun run_ok :: "('s \<Rightarrow> 'e \<Rightarrow> 's) \<Rightarrow> ('s \<Rightarrow> 'e \<Rightarrow> bool) \<Rightarrow> 's \<Rightarrow> 'e list \<Rightarrow> bool" where
  "run_ok step ok s [] = True"
| "run_ok step ok s (e # es) = (ok s e \<and> run_ok step ok (step s e) es)"

declare run_ok.simps [run_simps]

lemma run_ok_append:
  "run_ok step ok s (es @ fs) \<longleftrightarrow> run_ok step ok s es \<and> run_ok step ok (foldl step s es) fs"
  by (induction es arbitrary: s) auto

locale guarded_machine =
  fixes step :: "'s \<Rightarrow> 'e \<Rightarrow> 's"
    and ok :: "'s \<Rightarrow> 'e \<Rightarrow> bool"
    and inv :: "'s \<Rightarrow> bool"
  assumes inv_step: "inv s \<Longrightarrow> ok s e \<Longrightarrow> inv (step s e)"
begin

lemma inv_run: "inv s \<Longrightarrow> run_ok step ok s es \<Longrightarrow> inv (foldl step s es)"
  by (induction es arbitrary: s) (auto intro: inv_step)

lemma inv_prefix: "inv s \<Longrightarrow> run_ok step ok s (es @ fs) \<Longrightarrow> inv (foldl step s es)"
  by (simp add: run_ok_append inv_run)

end

text \<open>A machine every event of which is allowed in every state.\<close>

locale machine =
  fixes step :: "'s \<Rightarrow> 'e \<Rightarrow> 's"
    and inv :: "'s \<Rightarrow> bool"
  assumes inv_any_step: "inv s \<Longrightarrow> inv (step s e)"

sublocale machine \<subseteq> guarded_machine step "\<lambda>_ _. True" inv
  by unfold_locales (rule inv_any_step)

context machine begin

lemma run_ok_any: "run_ok step (\<lambda>_ _. True) s es"
  by (induction es arbitrary: s) auto

lemma inv_any_run: "inv s \<Longrightarrow> inv (foldl step s es)"
  by (rule inv_run [OF _ run_ok_any])

end

subsection \<open>Comparison functions and stable sorting\<close>

text \<open>
  \<open>slices.SortStableFunc\<close> and, for a comparison that never returns 0 on different
  elements, \<open>slices.SortFunc\<close>: a stable insertion sort.
\<close>

fun insert_by :: "('a \<Rightarrow> 'a \<Rightarrow> int) \<Rightarrow> 'a \<Rightarrow> 'a list \<Rightarrow> 'a list" where
  "insert_by c x [] = [x]"
| "insert_by c x (y # ys) = (if c x y \<le> 0 then x # y # ys else y # insert_by c x ys)"

fun stable_sort :: "('a \<Rightarrow> 'a \<Rightarrow> int) \<Rightarrow> 'a list \<Rightarrow> 'a list" where
  "stable_sort c [] = []"
| "stable_sort c (x # xs) = insert_by c x (stable_sort c xs)"

lemma mset_insert_by: "mset (insert_by c x xs) = add_mset x (mset xs)"
  by (induction xs) auto

lemma mset_stable_sort [simp]: "mset (stable_sort c xs) = mset xs"
  by (induction xs) (auto simp: mset_insert_by)

lemma set_insert_by [simp]: "set (insert_by c x xs) = insert x (set xs)"
  by (induction xs) auto

lemma set_stable_sort [simp]: "set (stable_sort c xs) = set xs"
  by (induction xs) auto

lemma length_stable_sort [simp]: "length (stable_sort c xs) = length xs"
  using mset_stable_sort [of c xs] mset_eq_length by blast

lemma distinct_stable_sort [simp]:
  "distinct (map f (stable_sort c xs)) \<longleftrightarrow> distinct (map f xs)"
  using mset_stable_sort [of c xs] by (metis mset_eq_imp_distinct_iff mset_map)

locale comparator =
  fixes cmp :: "'a \<Rightarrow> 'a \<Rightarrow> int"
  assumes cmp_swap: "cmp x y < 0 \<longleftrightarrow> 0 < cmp y x"
    and cmp_trans: "cmp x y \<le> 0 \<Longrightarrow> cmp y z \<le> 0 \<Longrightarrow> cmp x z \<le> 0"
begin

lemma cmp_total: "cmp x y \<le> 0 \<or> cmp y x \<le> 0"
  using cmp_swap [of x y] cmp_swap [of y x] by linarith

lemma cmp_le_swap: "\<not> cmp x y \<le> 0 \<Longrightarrow> cmp y x \<le> 0"
  using cmp_total by blast

lemma cmp_refl: "cmp x x = 0"
  using cmp_swap [of x x] by linarith

lemma cmp_zero_swap: "cmp x y = 0 \<longleftrightarrow> cmp y x = 0"
  using cmp_swap [of x y] cmp_swap [of y x] by linarith

lemma sorted_insert_by:
  "sorted_wrt (\<lambda>x y. cmp x y \<le> 0) xs \<Longrightarrow> sorted_wrt (\<lambda>x y. cmp x y \<le> 0) (insert_by cmp x xs)"
  by (induction xs) (auto intro: cmp_trans dest: cmp_le_swap)

lemma sorted_stable_sort: "sorted_wrt (\<lambda>x y. cmp x y \<le> 0) (stable_sort cmp xs)"
  by (induction xs) (auto intro: sorted_insert_by)

end

text \<open>\<open>cmp.Compare\<close> and \<open>Time.Compare\<close>, \<open>cmp.Compare\<close> of strings, and \<open>cmp.Or\<close> of two comparisons.\<close>

definition cmp_int :: "int \<Rightarrow> int \<Rightarrow> int" where
  "cmp_int a b = (if a < b then - 1 else if b < a then 1 else 0)"

fun cmp_string :: "string \<Rightarrow> string \<Rightarrow> int" where
  "cmp_string [] [] = 0"
| "cmp_string [] (y # ys) = - 1"
| "cmp_string (x # xs) [] = 1"
| "cmp_string (x # xs) (y # ys) =
     (if (of_char x :: nat) < of_char y then - 1 else if (of_char y :: nat) < of_char x then 1 else cmp_string xs ys)"

definition cmp_or :: "('a \<Rightarrow> 'a \<Rightarrow> int) \<Rightarrow> ('a \<Rightarrow> 'a \<Rightarrow> int) \<Rightarrow> 'a \<Rightarrow> 'a \<Rightarrow> int" where
  "cmp_or c d x y = (if c x y \<noteq> 0 then c x y else d x y)"

interpretation int_order: comparator cmp_int
  by unfold_locales (auto simp: cmp_int_def split: if_splits)

lemma cmp_string_eq_0: "cmp_string a b = 0 \<longleftrightarrow> a = b"
  by (induction a b rule: cmp_string.induct) (auto simp: not_less)

lemma cmp_string_trans: "cmp_string x y \<le> 0 \<Longrightarrow> cmp_string y z \<le> 0 \<Longrightarrow> cmp_string x z \<le> 0"
proof (induction x y arbitrary: z rule: cmp_string.induct)
  case (4 x xs y ys)
  obtain w zs where z: "z = w # zs" using 4(3) by (cases z) auto
  consider "of_char x < (of_char y :: nat)" "of_char y \<le> (of_char w :: nat)" | "of_char x = (of_char y :: nat)" "of_char y < (of_char w :: nat)"
    | "of_char x = (of_char y :: nat)" "of_char y = (of_char w :: nat)" "cmp_string xs ys \<le> 0" "cmp_string ys zs \<le> 0"
    using 4(2,3) unfolding z by (auto simp: not_less split: if_split_asm)
  then show ?case
  proof cases
    case 3
    then show ?thesis using 4(1) [of zs] unfolding z by simp
  qed (simp_all add: z)
next
  case (2 y ys)
  then show ?case by (cases z) simp_all
qed simp_all

interpretation string_order: comparator cmp_string
proof
  show "cmp_string x y < 0 \<longleftrightarrow> 0 < cmp_string y x" for x y
    by (induction x y rule: cmp_string.induct) simp_all
qed (rule cmp_string_trans)

lemma comparator_key: "comparator c \<Longrightarrow> comparator (\<lambda>x y. c (f x) (f y))"
  by (simp add: comparator_def)

lemma comparator_flip: "comparator c \<Longrightarrow> comparator (\<lambda>x y. c y x)"
  by (simp add: comparator_def)

lemma comparator_or:
  assumes "comparator c" and "comparator d"
  shows "comparator (cmp_or c d)"
proof
  note c = comparator.cmp_swap [OF assms(1)] comparator.cmp_trans [OF assms(1)] comparator.cmp_zero_swap [OF assms(1)]
  note d = comparator.cmp_swap [OF assms(2)] comparator.cmp_trans [OF assms(2)]
  show "cmp_or c d x y < 0 \<longleftrightarrow> 0 < cmp_or c d y x" for x y
    using c(1) [of x y] c(3) [of x y] d(1) [of x y] by (auto simp: cmp_or_def)
  show "cmp_or c d x z \<le> 0" if xy: "cmp_or c d x y \<le> 0" and yz: "cmp_or c d y z \<le> 0" for x y z
  proof -
    have le: "c x y \<le> 0" "c y z \<le> 0" using xy yz by (auto simp: cmp_or_def split: if_splits)
    then have xz: "c x z \<le> 0" by (rule c(2))
    show ?thesis
    proof (cases "c x z = 0")
      case True
      then have "c z x \<le> 0" using c(3) [of x z] by simp
      then have "c y x \<le> 0" "c z y \<le> 0" using c(2) le by blast+
      then have "c x y = 0" "c y z = 0" using le c(1) [of x y] c(1) [of y z] by linarith+
      then show ?thesis using True xy yz d(2) by (simp add: cmp_or_def)
    qed (use xz in \<open>simp add: cmp_or_def\<close>)
  qed
qed

end
