(* ===== verification/Go_Text.thy ===== *)
theory Go_Text
  imports Go_Base
begin

section \<open>Strings as Go has them\<close>

text \<open>
  A Go string is a sequence of bytes, here a \<open>string\<close> (each \<open>char\<close> is a byte). A \<open>range\<close>
  loop, \<open>unicode/utf8\<close> and \<open>unicode\<close> see runes: \<open>runes s\<close> lists the runes of \<open>s\<close>, each
  with the bytes it came from; a malformed byte is the rune U+FFFD (65533) of one byte. The
  functions of \<open>strings\<close>, \<open>strconv\<close> and \<open>unicode\<close> that the modelled code calls follow.
\<close>

subsection \<open>Runes\<close>

abbreviation (input) code :: "char \<Rightarrow> nat" where "code c \<equiv> of_char c"

definition is_cont :: "nat \<Rightarrow> bool" where
  "is_cont b \<longleftrightarrow> 128 \<le> b \<and> b < 192"

definition rune_error :: nat where "rune_error = 65533"

text \<open>\<open>utf8.DecodeRune\<close> of a non-empty sequence of byte values: the rune and its width.\<close>

definition decode_rune :: "nat list \<Rightarrow> nat \<times> nat" where
  "decode_rune bs = (case bs of
      [] \<Rightarrow> (rune_error, 0)
    | a # r1 \<Rightarrow>
       (if a < 128 then (a, 1)
        else case r1 of
          [] \<Rightarrow> (rune_error, 1)
        | b # r2 \<Rightarrow>
           (if 194 \<le> a \<and> a < 224 then
              (if is_cont b then ((a - 192) * 64 + (b - 128), 2) else (rune_error, 1))
            else case r2 of
              [] \<Rightarrow> (rune_error, 1)
            | c # r3 \<Rightarrow>
               (if 224 \<le> a \<and> a < 240 then
                  (if is_cont b \<and> is_cont c \<and> (a = 224 \<longrightarrow> 160 \<le> b) \<and> (a = 237 \<longrightarrow> b < 160)
                   then ((a - 224) * 4096 + (b - 128) * 64 + (c - 128), 3) else (rune_error, 1))
                else case r3 of
                  [] \<Rightarrow> (rune_error, 1)
                | d # _ \<Rightarrow>
                   (if 240 \<le> a \<and> a < 245 \<and> is_cont b \<and> is_cont c \<and> is_cont d
                       \<and> (a = 240 \<longrightarrow> 144 \<le> b) \<and> (a = 244 \<longrightarrow> b < 144)
                    then ((a - 240) * 262144 + (b - 128) * 4096 + (c - 128) * 64 + (d - 128), 4)
                    else (rune_error, 1))))))"

lemma decode_rune_ascii [simp]: "a < 128 \<Longrightarrow> decode_rune (a # bs) = (a, 1)"
  by (simp add: decode_rune_def)

lemma decode_rune_ge: "128 \<le> a \<Longrightarrow> 128 \<le> fst (decode_rune (a # bs))"
  by (auto simp: decode_rune_def is_cont_def rune_error_def split: list.splits)

function runes :: "string \<Rightarrow> (nat \<times> string) list" where
  "runes [] = []"
| "runes (c # cs) =
     (let (r, k) = decode_rune (map of_char (take 4 (c # cs)))
      in (r, c # take (k - 1) cs) # runes (drop (k - 1) cs))"
  by pat_completeness auto
termination by (relation "measure length") auto

definition rune_values :: "string \<Rightarrow> nat list" where
  "rune_values s = map fst (runes s)"

text \<open>\<open>utf8.RuneCountInString\<close> and \<open>utf8.ValidString\<close>.\<close>

definition rune_count :: "string \<Rightarrow> nat" where
  "rune_count s = length (runes s)"

definition valid_utf8 :: "string \<Rightarrow> bool" where
  "valid_utf8 s \<longleftrightarrow> list_all (\<lambda>(r, b). \<not> (r = rune_error \<and> length b = 1)) (runes s)"

lemma runes_bytes: "concat (map snd (runes s)) = s"
proof (induction s rule: runes.induct)
  case (2 c cs)
  obtain r k where rk: "decode_rune (map of_char (take 4 (c # cs))) = (r, k)"
    by (cases "decode_rune (map of_char (take 4 (c # cs)))")
  from "2.IH" [OF rk [symmetric] refl] show ?case by (simp add: rk [simplified])
qed simp

definition ascii :: "string \<Rightarrow> bool" where
  "ascii s \<longleftrightarrow> list_all (\<lambda>c. code c < 128) s"

lemma runes_Cons_ascii [simp]:
  "code c < 128 \<Longrightarrow> runes (c # cs) = (code c, [c]) # runes cs"
  by simp

lemma runes_ascii: "ascii s \<Longrightarrow> runes s = map (\<lambda>c. (code c, [c])) s"
  unfolding ascii_def by (induction s) (auto simp del: runes.simps(2))

lemma rune_values_ascii: "\<forall>c \<in> set s. code c < 128 \<Longrightarrow> rune_values s = map of_char s"
  using runes_ascii [of s] by (simp add: rune_values_def ascii_def list_all_iff o_def)

text \<open>To evaluate code that reads a literal text.\<close>

lemmas text_eval = rune_values_ascii char_of_def bit_0

lemma rune_count_ascii: "ascii s \<Longrightarrow> rune_count s = length s"
  by (simp add: rune_count_def runes_ascii)

lemma valid_utf8_ascii: "ascii s \<Longrightarrow> valid_utf8 s"
  by (auto simp: valid_utf8_def runes_ascii ascii_def list_all_iff rune_error_def)

subsection \<open>Classes of runes\<close>

text \<open>\<open>unicode.IsSpace\<close>: the runes with the property White\_Space.\<close>

definition is_space :: "nat \<Rightarrow> bool" where
  "is_space r \<longleftrightarrow> (9 \<le> r \<and> r \<le> 13) \<or> r = 32 \<or> r = 133 \<or> r = 160 \<or> r = 5760
     \<or> (8192 \<le> r \<and> r \<le> 8202) \<or> r = 8232 \<or> r = 8233 \<or> r = 8239 \<or> r = 8287 \<or> r = 12288"

text \<open>\<open>unicode.IsControl\<close>: category Cc.\<close>

definition is_control :: "nat \<Rightarrow> bool" where
  "is_control r \<longleftrightarrow> r < 32 \<or> (127 \<le> r \<and> r < 160)"

text \<open>\<open>unicode.Is(unicode.Pd, r)\<close>: the dashes.\<close>

definition is_dash :: "nat \<Rightarrow> bool" where
  "is_dash r \<longleftrightarrow> r = 45 \<or> r = 1418 \<or> r = 1470 \<or> r = 5120 \<or> r = 6150 \<or> (8208 \<le> r \<and> r \<le> 8213)
     \<or> r = 11799 \<or> r = 11802 \<or> r = 11834 \<or> r = 11835 \<or> r = 11840 \<or> r = 11869 \<or> r = 12316
     \<or> r = 12336 \<or> r = 12448 \<or> r = 65073 \<or> r = 65074 \<or> r = 65112 \<or> r = 65123 \<or> r = 65293
     \<or> r = 69293"

text \<open>
  The ASCII rune that \<open>unicode.ToLower\<close>, \<open>unicode.ToUpper\<close> and case folding give a rune, and
  the rune itself where that is no ASCII rune (so that no ASCII string compares equal to it).
  Beyond ASCII, ToLower makes ASCII of U+0130 (\<open>i\<close>) and U+212A (\<open>k\<close>), ToUpper of U+0131
  (\<open>I\<close>) and U+017F (\<open>S\<close>); folding identifies U+017F with \<open>s\<close> and U+212A with \<open>k\<close>.
\<close>

definition lower_rune :: "nat \<Rightarrow> nat" where
  "lower_rune r = (if 65 \<le> r \<and> r \<le> 90 then r + 32 else if r = 304 then 105
     else if r = 8490 then 107 else r)"

definition upper_rune :: "nat \<Rightarrow> nat" where
  "upper_rune r = (if 97 \<le> r \<and> r \<le> 122 then r - 32 else if r = 305 then 73
     else if r = 383 then 83 else r)"

definition fold_rune :: "nat \<Rightarrow> nat" where
  "fold_rune r = (if 65 \<le> r \<and> r \<le> 90 then r + 32 else if r = 383 then 115
     else if r = 8490 then 107 else r)"

text \<open>\<open>strings.ToLower(s) == k\<close> and \<open>strings.EqualFold(s, k)\<close> for a lower-case ASCII \<open>k\<close>.\<close>

definition lower_is :: "string \<Rightarrow> string \<Rightarrow> bool" where
  "lower_is s k \<longleftrightarrow> map lower_rune (rune_values s) = map of_char k"

definition equal_fold :: "string \<Rightarrow> string \<Rightarrow> bool" where
  "equal_fold s k \<longleftrightarrow> map fold_rune (rune_values s) = map of_char k"

subsection \<open>Package strings\<close>

definition trim_runes :: "(nat \<times> string) list \<Rightarrow> (nat \<times> string) list" where
  "trim_runes rs = rev (dropWhile (is_space \<circ> fst) (rev (dropWhile (is_space \<circ> fst) rs)))"

text \<open>\<open>strings.TrimSpace\<close>.\<close>

definition trim_space :: "string \<Rightarrow> string" where
  "trim_space s = concat (map snd (trim_runes (runes s)))"

text \<open>\<open>strings.Fields\<close>.\<close>

fun fields_of :: "(nat \<times> string) list \<Rightarrow> string \<Rightarrow> string list" where
  "fields_of [] w = (if w = [] then [] else [w])"
| "fields_of ((r, b) # rs) w =
     (if is_space r then (if w = [] then [] else [w]) @ fields_of rs [] else fields_of rs (w @ b))"

definition fields :: "string \<Rightarrow> string list" where
  "fields s = fields_of (runes s) []"

text \<open>\<open>strings.Split\<close> on a one-byte separator, \<open>strings.Cut\<close> at one and \<open>strings.Join\<close>.\<close>

fun split_on :: "char \<Rightarrow> string \<Rightarrow> string list" where
  "split_on c [] = [[]]"
| "split_on c (x # xs) = (if x = c then [] # split_on c xs
     else case split_on c xs of [] \<Rightarrow> [[x]] | w # ws \<Rightarrow> (x # w) # ws)"

definition cut :: "char \<Rightarrow> string \<Rightarrow> string \<times> string \<times> bool" where
  "cut c s = (takeWhile (\<lambda>x. x \<noteq> c) s, drop 1 (dropWhile (\<lambda>x. x \<noteq> c) s), c \<in> set s)"

fun join :: "string \<Rightarrow> string list \<Rightarrow> string" where
  "join sep [] = []"
| "join sep [x] = x"
| "join sep (x # y # ys) = x @ sep @ join sep (y # ys)"

definition has_prefix :: "string \<Rightarrow> string \<Rightarrow> bool" where
  "has_prefix s p \<longleftrightarrow> take (length p) s = p"

text \<open>\<open>strings.CutPrefix\<close>, as an option.\<close>

definition cut_prefix :: "string \<Rightarrow> string \<Rightarrow> string option" where
  "cut_prefix s p = (if has_prefix s p then Some (drop (length p) s) else None)"

lemma has_prefix_append [simp]: "has_prefix (p @ s) p"
  by (simp add: has_prefix_def)

lemma cut_prefix_append [simp]: "cut_prefix (p @ s) p = Some s"
  by (simp add: cut_prefix_def)

lemma cut_prefix_Some: "cut_prefix s p = Some r \<longleftrightarrow> s = p @ r"
  by (auto simp: cut_prefix_def has_prefix_def split: if_splits) (metis append_take_drop_id)

lemma split_on_nonempty [simp]: "split_on c s \<noteq> []"
  by (induction s) (auto split: list.splits)

lemma split_on_no_sep: "c \<notin> set s \<Longrightarrow> split_on c s = [s]"
  by (induction s) auto

lemma split_on_append: "c \<notin> set w \<Longrightarrow> split_on c (w @ c # s) = w # split_on c s"
  by (induction w) auto

lemma split_on_join:
  "xs \<noteq> [] \<Longrightarrow> \<forall>x \<in> set xs. c \<notin> set x \<Longrightarrow> split_on c (join [c] xs) = xs"
  by (induction "[c]" xs rule: join.induct) (auto simp: split_on_no_sep split_on_append)

lemma join_split_on: "join [c] (split_on c s) = s"
proof (induction s)
  case (Cons x s)
  then show ?case
    by (cases "split_on c s" rule: list.exhaust) (auto, (metis append_Cons append_Nil join.simps list.exhaust)+)
qed simp

lemma split_on_parts: "x \<in> set (split_on c s) \<Longrightarrow> c \<notin> set x"
  by (induction s arbitrary: x) (auto split: list.splits if_splits)

subsection \<open>Package strconv\<close>

definition is_digit :: "char \<Rightarrow> bool" where
  "is_digit c \<longleftrightarrow> 48 \<le> code c \<and> code c \<le> 57"

definition digit_val :: "char \<Rightarrow> nat" where
  "digit_val c = code c - 48"

definition digits_val :: "string \<Rightarrow> nat" where
  "digits_val s = foldl (\<lambda>v c. 10 * v + digit_val c) 0 s"

text \<open>\<open>strconv.Atoi\<close> (\<open>None\<close> for an error): an optional sign, digits, a value of 64 bits.\<close>

definition atoi :: "string \<Rightarrow> int option" where
  "atoi s =
     (let neg = (case s of c # _ \<Rightarrow> c = CHR ''-'' | [] \<Rightarrow> False);
          ds = (case s of c # cs \<Rightarrow> if c = CHR ''-'' \<or> c = CHR ''+'' then cs else s | [] \<Rightarrow> [])
      in if ds = [] \<or> \<not> list_all is_digit ds then None
         else let v = (if neg then - int (digits_val ds) else int (digits_val ds))
              in if - (2 ^ 63) \<le> v \<and> v < 2 ^ 63 then Some v else None)"

lemma atoi_range: "atoi s = Some v \<Longrightarrow> - (2 ^ 63) \<le> v \<and> v < 2 ^ 63"
  by (auto simp: atoi_def Let_def split: if_splits)

fun show_nat :: "nat \<Rightarrow> string" where
  "show_nat n = (if n < 10 then [char_of (48 + n)] else show_nat (n div 10) @ [char_of (48 + n mod 10)])"

declare show_nat.simps [simp del]

text \<open>\<open>strconv.Itoa\<close>.\<close>

definition itoa :: "int \<Rightarrow> string" where
  "itoa n = (if n < 0 then CHR ''-'' # show_nat (nat (- n)) else show_nat (nat n))"

lemma is_digit_char_of: "(m::nat) < 10 \<Longrightarrow> is_digit (char_of (48 + m))"
  by (simp add: is_digit_def of_char_of)

lemma show_nat_digits: "list_all is_digit (show_nat n) \<and> show_nat n \<noteq> []"
proof (induction n rule: show_nat.induct)
  case (1 n)
  then show ?case
    by (subst (1 2) show_nat.simps) (auto simp: is_digit_char_of)
qed

lemma digits_val_snoc: "digits_val (s @ [c]) = 10 * digits_val s + digit_val c"
  by (simp add: digits_val_def)

lemma digits_val_show_nat [simp]: "digits_val (show_nat n) = n"
proof (induction n rule: show_nat.induct)
  case (1 n)
  show ?case
  proof (cases "n < 10")
    case True
    then show ?thesis
      by (subst show_nat.simps) (simp add: digits_val_def digit_val_def of_char_of)
  next
    case False
    with "1.IH" show ?thesis
      by (subst show_nat.simps) (simp add: digits_val_snoc digit_val_def of_char_of)
  qed
qed

lemma digit_not_sign: "is_digit c \<Longrightarrow> c \<noteq> CHR ''-'' \<and> c \<noteq> CHR ''+''"
  by (auto simp: is_digit_def)

lemma atoi_digits:
  assumes "s \<noteq> []" and "list_all is_digit s"
  shows "atoi s = (if int (digits_val s) < 2 ^ 63 then Some (int (digits_val s)) else None)"
proof -
  from assms obtain c cs where s: "s = c # cs" and "is_digit c"
    by (cases s) auto
  then show ?thesis using assms digit_not_sign [of c] by (simp add: atoi_def)
qed

lemma atoi_itoa: "- (2 ^ 63) \<le> n \<Longrightarrow> n < 2 ^ 63 \<Longrightarrow> atoi (itoa n) = Some n"
  using show_nat_digits [of "nat n"] show_nat_digits [of "nat (- n)"]
  by (auto simp: itoa_def atoi_digits) (simp add: atoi_def)

end
