(* ===== verification/Go_Crypto.thy ===== *)
theory Go_Crypto
  imports Go_Text "HOL-Library.Word"
begin

unbundle bit_operations_syntax

section \<open>Bytes, digests and encodings of the Go standard library\<close>

text \<open>
  A \<open>[]byte\<close> is a list of \<open>8 word\<close>. The packages \<open>crypto/sha1\<close>, \<open>crypto/hmac\<close>,
  \<open>crypto/sha256\<close>, \<open>encoding/hex\<close> and \<open>encoding/base32\<close> as the modelled code calls them:
  FIPS 180-4, RFC 2104 and RFC 4648 written out, on \<open>32 word\<close> where they compute modulo 2^32.
\<close>

type_synonym bytes = "8 word list"

definition bytes_of :: "string \<Rightarrow> bytes" where
  "bytes_of s = map of_char s"

definition string_of :: "bytes \<Rightarrow> string" where
  "string_of bs = map (\<lambda>b. char_of (unat b)) bs"

lemma unat_byte_of_char: "unat (of_char c :: 8 word) = of_char c"
proof -
  have "(of_char c :: 8 word) = of_nat (of_char c)" by (simp add: of_nat_of_char)
  moreover have "of_char c < (256 :: nat)" by simp
  ultimately show ?thesis by (simp add: unat_of_nat del: of_nat_of_char)
qed

lemma string_of_bytes_of [simp]: "string_of (bytes_of s) = s"
  by (simp add: string_of_def bytes_of_def o_def unat_byte_of_char)

subsection \<open>Words and blocks\<close>

definition be32 :: "bytes \<Rightarrow> 32 word" where
  "be32 bs = foldl (\<lambda>v b. v * 256 + ucast b) 0 (take 4 bs)"

definition bytes32 :: "32 word \<Rightarrow> bytes" where
  "bytes32 w = [ucast (drop_bit 24 w), ucast (drop_bit 16 w), ucast (drop_bit 8 w), ucast w]"

text \<open>\<open>binary.BigEndian.PutUint64\<close>.\<close>

definition bytes64 :: "64 word \<Rightarrow> bytes" where
  "bytes64 w = map (\<lambda>i. ucast (drop_bit (56 - 8 * i) w)) [0..<8]"

definition sha_pad :: "bytes \<Rightarrow> bytes" where
  "sha_pad m = m @ [0x80] @ replicate ((119 - length m mod 64) mod 64) 0
                 @ bytes64 (of_nat (8 * length m))"

fun chunks :: "nat \<Rightarrow> 'a list \<Rightarrow> 'a list list" where
  "chunks n xs = (if n = 0 \<or> xs = [] then [] else take n xs # chunks n (drop n xs))"

declare chunks.simps [simp del]

definition rotl32 :: "nat \<Rightarrow> 32 word \<Rightarrow> 32 word" where
  "rotl32 n w = push_bit n w OR drop_bit (32 - n) w"

definition rotr32 :: "nat \<Rightarrow> 32 word \<Rightarrow> 32 word" where
  "rotr32 n w = rotl32 (32 - n) w"

subsection \<open>SHA-1 and HMAC\<close>

text \<open>The message schedule, newest word first: \<open>n\<close> more words.\<close>

fun sha1_schedule :: "nat \<Rightarrow> 32 word list \<Rightarrow> 32 word list" where
  "sha1_schedule 0 ws = rev ws"
| "sha1_schedule (Suc n) ws =
     sha1_schedule n (rotl32 1 (ws ! 2 XOR ws ! 7 XOR ws ! 13 XOR ws ! 15) # ws)"

definition sha1_round ::
  "nat \<times> 32 word \<times> 32 word \<times> 32 word \<times> 32 word \<times> 32 word \<Rightarrow> 32 word
     \<Rightarrow> nat \<times> 32 word \<times> 32 word \<times> 32 word \<times> 32 word \<times> 32 word" where
  "sha1_round st w = (case st of (i, a, b, c, d, e) \<Rightarrow>
     let fk = (if i < 20 then ((b AND c) OR (NOT b AND d), 0x5A827999)
               else if i < 40 then (b XOR c XOR d, 0x6ED9EBA1)
               else if i < 60 then ((b AND c) OR (b AND d) OR (c AND d), 0x8F1BBCDC)
               else (b XOR c XOR d, 0xCA62C1D6))
     in (Suc i, rotl32 5 a + fst fk + e + snd fk + w, a, rotl32 30 b, c, d))"

definition sha1_block :: "32 word list \<Rightarrow> bytes \<Rightarrow> 32 word list" where
  "sha1_block h blk =
     (let ws = sha1_schedule 64 (rev (map be32 (chunks 4 blk)))
      in case foldl sha1_round (0, h ! 0, h ! 1, h ! 2, h ! 3, h ! 4) ws of
           (_, a, b, c, d, e) \<Rightarrow> [h ! 0 + a, h ! 1 + b, h ! 2 + c, h ! 3 + d, h ! 4 + e])"

definition sha1 :: "bytes \<Rightarrow> bytes" where
  "sha1 m = concat (map bytes32 (foldl sha1_block
     [0x67452301, 0xEFCDAB89, 0x98BADCFE, 0x10325476, 0xC3D2E1F0] (chunks 64 (sha_pad m))))"

definition hmac_sha1 :: "bytes \<Rightarrow> bytes \<Rightarrow> bytes" where
  "hmac_sha1 key m =
     (let k0 = (if 64 < length key then sha1 key else key);
          k = k0 @ replicate (64 - length k0) 0
      in sha1 (map (\<lambda>b. b XOR 0x5c) k @ sha1 (map (\<lambda>b. b XOR 0x36) k @ m)))"

lemma length_foldl_block:
  "length h = 5 \<Longrightarrow> length (foldl sha1_block h bs) = 5"
  by (induction bs arbitrary: h) (simp_all add: sha1_block_def Let_def split: prod.splits)

lemma length_sha1: "length (sha1 m) = 20"
proof -
  have "length (concat (map bytes32 ws)) = 4 * length ws" for ws
    by (induction ws) (simp_all add: bytes32_def)
  then show ?thesis by (simp add: sha1_def length_foldl_block)
qed

lemma length_hmac_sha1: "length (hmac_sha1 key m) = 20"
  by (simp add: hmac_sha1_def Let_def length_sha1)

subsection \<open>SHA-256\<close>

definition sha256_k :: "32 word list" where
  "sha256_k = [
     0x428A2F98, 0x71374491, 0xB5C0FBCF, 0xE9B5DBA5, 0x3956C25B, 0x59F111F1, 0x923F82A4, 0xAB1C5ED5,
     0xD807AA98, 0x12835B01, 0x243185BE, 0x550C7DC3, 0x72BE5D74, 0x80DEB1FE, 0x9BDC06A7, 0xC19BF174,
     0xE49B69C1, 0xEFBE4786, 0x0FC19DC6, 0x240CA1CC, 0x2DE92C6F, 0x4A7484AA, 0x5CB0A9DC, 0x76F988DA,
     0x983E5152, 0xA831C66D, 0xB00327C8, 0xBF597FC7, 0xC6E00BF3, 0xD5A79147, 0x06CA6351, 0x14292967,
     0x27B70A85, 0x2E1B2138, 0x4D2C6DFC, 0x53380D13, 0x650A7354, 0x766A0ABB, 0x81C2C92E, 0x92722C85,
     0xA2BFE8A1, 0xA81A664B, 0xC24B8B70, 0xC76C51A3, 0xD192E819, 0xD6990624, 0xF40E3585, 0x106AA070,
     0x19A4C116, 0x1E376C08, 0x2748774C, 0x34B0BCB5, 0x391C0CB3, 0x4ED8AA4A, 0x5B9CCA4F, 0x682E6FF3,
     0x748F82EE, 0x78A5636F, 0x84C87814, 0x8CC70208, 0x90BEFFFA, 0xA4506CEB, 0xBEF9A3F7, 0xC67178F2]"

fun sha256_schedule :: "nat \<Rightarrow> 32 word list \<Rightarrow> 32 word list" where
  "sha256_schedule 0 ws = rev ws"
| "sha256_schedule (Suc n) ws =
     (let x = ws ! 1; y = ws ! 14;
          s1 = rotr32 17 x XOR rotr32 19 x XOR drop_bit 10 x;
          s0 = rotr32 7 y XOR rotr32 18 y XOR drop_bit 3 y
      in sha256_schedule n ((s1 + ws ! 6 + s0 + ws ! 15) # ws))"

definition sha256_round :: "32 word list \<Rightarrow> 32 word \<times> 32 word \<Rightarrow> 32 word list" where
  "sha256_round st kw =
     (let a = st ! 0; e = st ! 4;
          t1 = st ! 7 + (rotr32 6 e XOR rotr32 11 e XOR rotr32 25 e)
                 + ((e AND st ! 5) XOR (NOT e AND st ! 6)) + fst kw + snd kw;
          t2 = (rotr32 2 a XOR rotr32 13 a XOR rotr32 22 a)
                 + ((a AND st ! 1) XOR (a AND st ! 2) XOR (st ! 1 AND st ! 2))
      in [t1 + t2, a, st ! 1, st ! 2, st ! 3 + t1, e, st ! 5, st ! 6])"

definition sha256_block :: "32 word list \<Rightarrow> bytes \<Rightarrow> 32 word list" where
  "sha256_block h blk =
     (let ws = sha256_schedule 48 (rev (map be32 (chunks 4 blk)))
      in map2 (+) h (foldl sha256_round h (zip sha256_k ws)))"

definition sha256 :: "bytes \<Rightarrow> bytes" where
  "sha256 m = concat (map bytes32 (foldl sha256_block [
     0x6A09E667, 0xBB67AE85, 0x3C6EF372, 0xA54FF53A, 0x510E527F, 0x9B05688C, 0x1F83D9AB, 0x5BE0CD19]
     (chunks 64 (sha_pad m))))"

lemma length_sha256_rounds: "length h = 8 \<Longrightarrow> length (foldl sha256_round h kws) = 8"
  by (induction kws arbitrary: h) (simp_all add: sha256_round_def Let_def)

lemma length_sha256_blocks: "length h = 8 \<Longrightarrow> length (foldl sha256_block h bs) = 8"
  by (induction bs arbitrary: h) (simp_all add: sha256_block_def Let_def length_sha256_rounds)

lemma length_sha256: "length (sha256 m) = 32"
proof -
  have "length (concat (map bytes32 ws)) = 4 * length ws" for ws
    by (induction ws) (simp_all add: bytes32_def)
  then show ?thesis by (simp add: sha256_def length_sha256_blocks)
qed

subsection \<open>Hexadecimal and base32\<close>

definition hex_digits :: string where "hex_digits = ''0123456789abcdef''"

text \<open>\<open>hex.EncodeToString\<close>.\<close>

definition hex_encode :: "bytes \<Rightarrow> string" where
  "hex_encode bs = concat (map (\<lambda>b. [hex_digits ! unat (drop_bit 4 b), hex_digits ! unat (b AND 15)]) bs)"

lemma length_hex_encode [simp]: "length (hex_encode bs) = 2 * length bs"
  by (induction bs) (simp_all add: hex_encode_def)

text \<open>
  Base32 without padding over an alphabet of 32 characters: the bits of the bytes, the most
  significant first, in groups of five; the last group is filled up with zero bits.
\<close>

definition bits_of :: "nat \<Rightarrow> nat \<Rightarrow> bool list" where
  "bits_of n v = map (\<lambda>i. odd (v div 2 ^ (n - 1 - i))) [0..<n]"

definition bits_val :: "bool list \<Rightarrow> nat" where
  "bits_val bs = foldl (\<lambda>v b. 2 * v + of_bool b) 0 bs"

definition byte_bits :: "bytes \<Rightarrow> bool list" where
  "byte_bits bs = concat (map (\<lambda>b. bits_of 8 (unat b)) bs)"

definition b32_char :: "string \<Rightarrow> bool list \<Rightarrow> char" where
  "b32_char alphabet g = alphabet ! bits_val (g @ replicate (5 - length g) False)"

definition b32_encode :: "string \<Rightarrow> bytes \<Rightarrow> string" where
  "b32_encode alphabet bs = map (b32_char alphabet) (chunks 5 (byte_bits bs))"

definition b32_std :: string where "b32_std = ''ABCDEFGHIJKLMNOPQRSTUVWXYZ234567''"

text \<open>
  \<open>DecodeString\<close> of the standard alphabet without padding, on the values of the runes:
  line breaks are skipped, a character outside the alphabet is an error (\<open>None\<close>), and a last
  group of 1, 3 or 6 characters gives no byte.
\<close>

definition b32_value :: "nat \<Rightarrow> nat option" where
  "b32_value r = (if 65 \<le> r \<and> r \<le> 90 then Some (r - 65) else if 50 \<le> r \<and> r \<le> 55 then Some (r - 24) else None)"

definition b32_group_bytes :: "nat \<Rightarrow> nat" where
  "b32_group_bytes n = (if n = 8 then 5 else if n = 7 then 4 else if n = 5 then 3
     else if n = 4 then 2 else if n = 2 then 1 else 0)"

definition b32_group :: "nat list \<Rightarrow> bytes" where
  "b32_group vs = take (b32_group_bytes (length vs))
     (map (\<lambda>g. of_nat (bits_val g)) (chunks 8 (concat (map (bits_of 5) vs))))"

definition b32_decode :: "nat list \<Rightarrow> bytes option" where
  "b32_decode rs =
     (case those (map b32_value (filter (\<lambda>r. r \<noteq> 10 \<and> r \<noteq> 13) rs)) of
        None \<Rightarrow> None
      | Some vs \<Rightarrow> Some (concat (map b32_group (chunks 8 vs))))"

subsection \<open>Base32 decodes what it encoded\<close>

lemma chunks_Nil [simp]: "chunks n [] = []"
  by (simp add: chunks.simps)

lemma chunks_step: "0 < n \<Longrightarrow> length xs = n \<Longrightarrow> chunks n (xs @ ys) = xs # chunks n ys"
  by (subst chunks.simps) auto

lemma chunks_append:
  "0 < n \<Longrightarrow> length xs = k * n \<Longrightarrow> chunks n (xs @ ys) = chunks n xs @ chunks n ys"
proof (induction k arbitrary: xs)
  case (Suc k)
  then have *: "length (take n xs) = n" "length (drop n xs) = k * n" by simp_all
  have "chunks n (xs @ ys) = take n xs # chunks n (drop n xs @ ys)"
    using chunks_step [of n "take n xs" "drop n xs @ ys"] * Suc.prems(1) by (metis append.assoc append_take_drop_id)
  moreover have "chunks n xs = take n xs # chunks n (drop n xs)"
    using chunks_step [of n "take n xs" "drop n xs"] * Suc.prems(1) by simp
  ultimately show ?case using Suc.IH [OF Suc.prems(1) *(2)] by simp
qed simp

lemma length_chunks: "0 < n \<Longrightarrow> length (chunks n xs) = (length xs + n - 1) div n"
proof (induction n xs rule: chunks.induct)
  case (1 n xs)
  show ?case
  proof (cases "xs = []")
    case False
    with 1 have "length (chunks n xs) = Suc ((length (drop n xs) + n - 1) div n)"
      by (subst chunks.simps) simp
    also have "\<dots> = (length xs + n - 1) div n"
    proof (cases "n \<le> length xs")
      case True
      then have "length xs + n - 1 = n + (length (drop n xs) + n - 1)" using 1(2) by simp
      then show ?thesis using 1(2) div_add_self1 [of n "length (drop n xs) + n - 1"] by simp
    next
      case False
      then have "length xs + n - 1 = n + (length xs - 1)" "length (drop n xs) + n - 1 = n - 1"
        using \<open>xs \<noteq> []\<close> by (cases xs; simp)+
      then show ?thesis using False 1(2) div_add_self1 [of n "length xs - 1"] by simp
    qed
    finally show ?thesis .
  qed (simp add: 1(2))
qed

lemma chunks_bound: "0 < n \<Longrightarrow> g \<in> set (chunks n xs) \<Longrightarrow> length g \<le> n \<and> g \<noteq> []"
  by (induction n xs rule: chunks.induct) (subst (asm) chunks.simps, auto split: if_splits)

lemma length_bits_of [simp]: "length (bits_of n v) = n"
  by (simp add: bits_of_def)

lemma bits_val_snoc: "bits_val (bs @ [b]) = 2 * bits_val bs + of_bool b"
  by (simp add: bits_val_def)

lemma bits_of_Suc: "bits_of (Suc n) v = bits_of n (v div 2) @ [odd v]"
proof -
  have "map (\<lambda>i. odd (v div 2 ^ (Suc n - 1 - i))) [0..<n] = map (\<lambda>i. odd (v div 2 div 2 ^ (n - 1 - i))) [0..<n]"
  proof (rule map_cong [OF refl])
    fix i assume "i \<in> set [0..<n]"
    then have "Suc n - 1 - i = Suc (n - 1 - i)" by auto
    then show "odd (v div 2 ^ (Suc n - 1 - i)) = odd (v div 2 div 2 ^ (n - 1 - i))"
      by (simp add: div_mult2_eq)
  qed
  then show ?thesis by (simp add: bits_of_def)
qed

lemma bits_val_bits_of: "v < 2 ^ n \<Longrightarrow> bits_val (bits_of n v) = v"
proof (induction n arbitrary: v)
  case 0
  then show ?case by (simp add: bits_of_def bits_val_def)
next
  case (Suc n)
  have "v div 2 < 2 ^ n" using Suc.prems by simp
  with Suc.IH show ?case by (simp add: bits_of_Suc bits_val_snoc)
qed

lemma bits_of_bits_val: "bits_of (length bs) (bits_val bs) = bs"
proof (induction bs rule: rev_induct)
  case (snoc b bs)
  then show ?case by (cases b) (simp_all add: bits_of_Suc bits_val_snoc)
qed (simp add: bits_of_def)

lemma bits_val_less: "bits_val bs < 2 ^ length bs"
  by (induction bs rule: rev_induct) (simp_all add: bits_val_snoc, simp add: bits_val_def)

lemma b32_value_char:
  "list_all (\<lambda>v. b32_value (of_char (b32_std ! v)) = Some v
     \<and> of_char (b32_std ! v) \<noteq> (10::nat) \<and> of_char (b32_std ! v) \<noteq> (13::nat)
     \<and> b32_std ! v \<noteq> CHR '' '' \<and> b32_std ! v \<noteq> CHR ''='' \<and> upper_rune (of_char (b32_std ! v)) = of_char (b32_std ! v)
     \<and> of_char (b32_std ! v) < (128::nat)) [0..<32]"
  by (simp add: b32_std_def b32_value_def upper_rune_def upt_rec)



definition pad5 :: "bool list \<Rightarrow> bool list" where
  "pad5 g = g @ replicate (5 - length g) False"

lemma pad5_chunks:
  "\<exists>z < 5. concat (map pad5 (chunks 5 xs)) = xs @ replicate z False"
proof (induction "5::nat" xs rule: chunks.induct)
  case (1 xs)
  consider (nil) "xs = []" | (short) "xs \<noteq> []" "length xs \<le> 5" | (long) "5 < length xs" by linarith
  then show ?case
  proof cases
    case nil
    then show ?thesis by (intro exI [of _ 0]) simp
  next
    case short
    then have "chunks 5 xs = [xs]" by (subst chunks.simps) simp
    then show ?thesis using short by (intro exI [of _ "5 - length xs"]) (cases xs; simp add: pad5_def)
  next
    case long
    then have "xs \<noteq> []" by auto
    then obtain z where "z < 5" "concat (map pad5 (chunks 5 (drop 5 xs))) = drop 5 xs @ replicate z False"
      using 1 by auto
    moreover have "chunks 5 xs = take 5 xs # chunks 5 (drop 5 xs)"
      using \<open>xs \<noteq> []\<close> by (subst chunks.simps) simp
    moreover have "pad5 (take 5 xs) = take 5 xs" using long by (simp add: pad5_def)
    ultimately show ?thesis by (intro exI [of _ z]) simp
  qed
qed

lemma take_byte_chunks:
  "take (length bs) (map (\<lambda>g. of_nat (bits_val g)) (chunks 8 (byte_bits bs @ zs))) = bs"
proof (induction bs)
  case (Cons b bs)
  have "unat b < 2 ^ 8" using unsigned_less [of b] by simp
  then have "of_nat (bits_val (bits_of 8 (unat b))) = b" by (simp add: bits_val_bits_of)
  moreover have "chunks 8 (byte_bits (b # bs) @ zs) = bits_of 8 (unat b) # chunks 8 (byte_bits bs @ zs)"
    by (simp add: byte_bits_def chunks_step)
  ultimately show ?case using Cons by simp
qed simp

lemma length_byte_bits [simp]: "length (byte_bits bs) = 8 * length bs"
  by (induction bs) (simp_all add: byte_bits_def)

definition b32_vals :: "bytes \<Rightarrow> nat list" where
  "b32_vals bs = map (\<lambda>g. bits_val (pad5 g)) (chunks 5 (byte_bits bs))"

lemma length_b32_vals: "length (b32_vals bs) = (8 * length bs + 4) div 5"
  by (simp add: b32_vals_def length_chunks)

lemma b32_vals_bits: "\<exists>z. concat (map (bits_of 5) (b32_vals bs)) = byte_bits bs @ replicate z False"
proof -
  have "map (bits_of 5) (b32_vals bs) = map pad5 (chunks 5 (byte_bits bs))"
    unfolding b32_vals_def map_map o_def
  proof (rule map_cong [OF refl])
    fix g assume "g \<in> set (chunks 5 (byte_bits bs))"
    then have "length (pad5 g) = 5" using chunks_bound [of 5 g] by (auto simp: pad5_def)
    then show "bits_of 5 (bits_val (pad5 g)) = pad5 g" by (metis bits_of_bits_val)
  qed
  then show ?thesis using pad5_chunks [of "byte_bits bs"] by auto
qed

lemma b32_group_vals:
  assumes "length bs \<le> 5"
  shows "b32_group (b32_vals bs) = bs"
proof -
  have "b32_group_bytes (length (b32_vals bs)) = length bs"
  proof -
    have "length bs \<in> {0, 1, 2, 3, 4, 5}"
      using assms unfolding insert_iff empty_iff by linarith
    then show ?thesis by (auto simp: length_b32_vals b32_group_bytes_def)
  qed
  then show ?thesis
    using b32_vals_bits [of bs] take_byte_chunks [of bs] by (auto simp: b32_group_def)
qed

lemma byte_bits_append: "byte_bits (xs @ ys) = byte_bits xs @ byte_bits ys"
  by (simp add: byte_bits_def)

lemma b32_vals_append: "length xs = 5 \<Longrightarrow> b32_vals (xs @ ys) = b32_vals xs @ b32_vals ys"
  using chunks_append [of 5 "byte_bits xs" 8 "byte_bits ys"]
  by (simp add: b32_vals_def byte_bits_append)

lemma b32_groups_vals: "concat (map b32_group (chunks 8 (b32_vals bs))) = bs"
proof (induction "5::nat" bs rule: chunks.induct)
  case (1 bs)
  consider (nil) "bs = []" | (short) "bs \<noteq> []" "length bs \<le> 5" | (long) "5 < length bs" by linarith
  then show ?case
  proof cases
    case nil
    then show ?thesis by (simp add: b32_vals_def byte_bits_def)
  next
    case short
    then have "0 < length (b32_vals bs)" "length (b32_vals bs) \<le> 8"
      by (cases bs; simp add: length_b32_vals)+
    then have "chunks 8 (b32_vals bs) = [b32_vals bs]"
      by (subst chunks.simps) auto
    then show ?thesis using short by (simp add: b32_group_vals)
  next
    case long
    then have "bs \<noteq> []" and five: "length (take 5 bs) = 5" by auto
    have "b32_vals bs = b32_vals (take 5 bs) @ b32_vals (drop 5 bs)"
      using b32_vals_append [OF five, of "drop 5 bs"] by simp
    moreover have "length (b32_vals (take 5 bs)) = 8" using five by (simp add: length_b32_vals)
    ultimately show ?thesis
      using 1 \<open>bs \<noteq> []\<close> five by (simp add: chunks_step b32_group_vals)
  qed
qed

lemma b32_encode_vals: "b32_encode a bs = map (\<lambda>v. a ! v) (b32_vals bs)"
  by (simp add: b32_encode_def b32_vals_def b32_char_def pad5_def)

lemma b32_vals_less: "v \<in> set (b32_vals bs) \<Longrightarrow> v < 32"
proof -
  assume "v \<in> set (b32_vals bs)"
  then obtain g where "v = bits_val (pad5 g)" "g \<in> set (chunks 5 (byte_bits bs))"
    by (auto simp: b32_vals_def)
  moreover from this have "length (pad5 g) = 5" using chunks_bound [of 5 g] by (auto simp: pad5_def)
  ultimately show ?thesis using bits_val_less [of "pad5 g"] by simp
qed

lemma b32_std_char:
  assumes "c \<in> set (b32_encode b32_std bs)"
  shows "code c < 128" and "c \<noteq> CHR '' ''" and "c \<noteq> CHR ''=''" and "upper_rune (of_char c) = of_char c"
  using assms b32_value_char by (auto simp: b32_encode_vals list_all_iff dest: b32_vals_less)

lemma b32_decode_encode: "b32_decode (map of_char (b32_encode b32_std bs)) = Some bs"
proof -
  have *: "b32_value (of_char (b32_std ! v)) = Some v" "of_char (b32_std ! v) \<noteq> (10::nat)"
    "of_char (b32_std ! v) \<noteq> (13::nat)" if "v \<in> set (b32_vals bs)" for v
    using b32_value_char b32_vals_less [OF that] by (auto simp: list_all_iff)
  then have "filter (\<lambda>r. r \<noteq> (10::nat) \<and> r \<noteq> 13) (map of_char (b32_encode b32_std bs)) = map of_char (b32_encode b32_std bs)"
    by (auto simp: b32_encode_vals filter_id_conv)
  moreover have "map b32_value (map of_char (b32_encode b32_std bs)) = map Some (b32_vals bs)"
    using *(1) by (auto simp: b32_encode_vals)
  moreover have "those (map Some vs) = Some vs" for vs :: "nat list"
    by (induction vs) auto
  ultimately show ?thesis by (simp only: b32_decode_def) (simp add: b32_groups_vals)
qed

end
