(* ===== verification/Totp.thy ===== *)
theory Totp
  imports Go_Crypto
begin

section \<open>One-time passwords (internal/totp)\<close>

text \<open>
  RFC 6238 codes: the time step, the code of a step, the check of a typed code with its replay
  protection, the secret's text forms and the \<open>otpauth://\<close> link of the QR code. The package
  keeps no state. A secret is its key bytes; \<open>io.Reader\<close> randomness is the bytes it delivers.
\<close>

subsection \<open>Definitions\<close>

definition digits_len :: nat where "digits_len = 6"
definition period :: duration where "period = 30 * second"
definition window :: int where "window = 1"
definition secret_size :: nat where "secret_size = 20"

record secret =
  s_key :: bytes

datatype totp_error = Err_Malformed | Err_Wrong | Err_Reused

text \<open>\<open>io.ReadFull(rand, key)\<close>: \<open>None\<close> when the reader ends early.\<close>

definition read_full :: "nat \<Rightarrow> bytes \<Rightarrow> bytes option" where
  "read_full n rand = (if n \<le> length rand then Some (take n rand) else None)"

definition new_secret :: "bytes \<Rightarrow> secret option" where
  "new_secret rand = (case read_full secret_size rand of
     None \<Rightarrow> None | Some key \<Rightarrow> Some \<lparr>s_key = key\<rparr>)"

definition parse_secret :: "string \<Rightarrow> secret option" where
  "parse_secret s =
     (let clean = map upper_rune (filter (\<lambda>r. r \<noteq> 32 \<and> r \<noteq> 61) (rune_values s))
      in case b32_decode clean of
           None \<Rightarrow> None
         | Some key \<Rightarrow> if length key < 16 \<or> 64 < length key then None else Some \<lparr>s_key = key\<rparr>)"

definition base32 :: "secret \<Rightarrow> string" where
  "base32 s = b32_encode b32_std (s_key s)"

text \<open>The loop of \<open>Grouped\<close>, from position \<open>i\<close>.\<close>

function grouped_loop :: "string \<Rightarrow> nat \<Rightarrow> string \<Rightarrow> string" where
  "grouped_loop b i out =
     (if i < length b
      then grouped_loop b (i + 4)
             ((if 0 < i then out @ '' '' else out) @ take (min (i + 4) (length b) - i) (drop i b))
      else out)"
  by pat_completeness auto
termination by (relation "measure (\<lambda>(b, i, _). length b - i)") auto

declare grouped_loop.simps [simp del]

definition grouped :: "secret \<Rightarrow> string" where
  "grouped s = grouped_loop (base32 s) 0 []"

definition secret_is_zero :: "secret \<Rightarrow> bool" where
  "secret_is_zero s \<longleftrightarrow> length (s_key s) = 0"

definition step :: "gotime \<Rightarrow> int" where
  "step t = (let u = unix_sec t; p = quot period second
             in if u < 0 then quot (u - p + 1) p else quot u p)"

text \<open>\<open>fmt.Sprintf("%0*d", digits, n)\<close>.\<close>

definition pad_decimal :: "nat \<Rightarrow> nat \<Rightarrow> string" where
  "pad_decimal w n = replicate (w - length (show_nat n)) (CHR ''0'') @ show_nat n"

definition hotp :: "bytes \<Rightarrow> 64 word \<Rightarrow> nat \<Rightarrow> string" where
  "hotp key counter digits =
     (let sum = hmac_sha1 key (bytes64 counter);
          off = last sum AND 0x0f;
          n = be32 (drop (unat off) sum) AND 0x7fffffff;
          m = foldl (\<lambda>m _. m * 10) (1 :: 32 word) [0..<digits]
      in pad_decimal digits (unat (n mod m)))"

definition code_at :: "secret \<Rightarrow> gotime \<Rightarrow> string" where
  "code_at s t = hotp (s_key s) (of_int (step t)) digits_len"

text \<open>\<open>Normalize\<close>; \<open>None\<close> in the loop is its early return.\<close>

fun normalize_loop :: "nat list \<Rightarrow> string \<Rightarrow> string option" where
  "normalize_loop [] b = Some b"
| "normalize_loop (r # rs) b =
     (if 48 \<le> r \<and> r \<le> 57 then normalize_loop rs (b @ [char_of r])
      else if is_space r \<or> r = 45 then normalize_loop rs b
      else None)"

definition normalize :: "string \<Rightarrow> string \<times> bool" where
  "normalize s =
     (if 32 < length s then ([], False)
      else case normalize_loop (rune_values s) [] of
             None \<Rightarrow> ([], False)
           | Some b \<Rightarrow> (b, length b = digits_len))"

text \<open>One round of \<open>Verify\<close>'s loop: the state is \<open>(matched, reused)\<close>.\<close>

definition verify_round :: "bytes \<Rightarrow> string \<Rightarrow> int \<Rightarrow> int \<times> bool \<Rightarrow> int \<Rightarrow> int \<times> bool" where
  "verify_round key digits last_step mr st =
     (if st < 0 \<or> hotp key (of_int st) digits_len \<noteq> digits then mr
      else if last_step < st then (st, snd mr)
      else (fst mr, True))"

definition verify :: "secret \<Rightarrow> string \<Rightarrow> gotime \<Rightarrow> int \<Rightarrow> totp_error + int" where
  "verify s txt t last_step =
     (case normalize txt of (digits, ok) \<Rightarrow>
        if \<not> ok then Inl Err_Malformed
        else if secret_is_zero s then Inl Err_Wrong
        else let now = step t;
                 mr = foldl (verify_round (s_key s) digits last_step) (-1, False)
                        [now - window .. now + window]
             in if 0 \<le> fst mr then Inr (fst mr)
                else if snd mr then Inl Err_Reused
                else Inl Err_Wrong)"

datatype label_error =
    Label_Empty string | Label_Long string | Label_Not_Utf8 string | Label_Colon string | Label_Control string

definition check_label :: "string \<Rightarrow> string \<Rightarrow> label_error option" where
  "check_label what v =
     (if v = [] then Some (Label_Empty what)
      else if 128 < length v then Some (Label_Long what)
      else if \<not> valid_utf8 v then Some (Label_Not_Utf8 what)
      else if 58 \<in> set (rune_values v) then Some (Label_Colon what)
      else if list_ex is_control (rune_values v) then Some (Label_Control what)
      else None)"

definition unreserved :: "char \<Rightarrow> bool" where
  "unreserved c \<longleftrightarrow> (65 \<le> code c \<and> code c \<le> 90) \<or> (97 \<le> code c \<and> code c \<le> 122)
     \<or> (48 \<le> code c \<and> code c \<le> 57) \<or> c = CHR ''-'' \<or> c = CHR ''.'' \<or> c = CHR ''_'' \<or> c = CHR ''~''"

definition upper_hex :: string where "upper_hex = ''0123456789ABCDEF''"

fun escape :: "string \<Rightarrow> string" where
  "escape [] = []"
| "escape (c # s) =
     (if unreserved c then [c]
      else [CHR ''%'', upper_hex ! (code c div 16), upper_hex ! (code c mod 16)]) @ escape s"

datatype uri_error = No_Secret | Bad_Label label_error

definition key_uri :: "secret \<Rightarrow> string \<Rightarrow> string \<Rightarrow> uri_error + string" where
  "key_uri s issuer account =
     (if secret_is_zero s then Inl No_Secret
      else case check_label ''issuer'' issuer of Some e \<Rightarrow> Inl (Bad_Label e) | None \<Rightarrow>
        case check_label ''account name'' account of Some e \<Rightarrow> Inl (Bad_Label e) | None \<Rightarrow>
          Inr (''otpauth://totp/'' @ escape issuer @ '':'' @ escape account @ ''?secret='' @ base32 s
               @ ''&issuer='' @ escape issuer))"

subsection \<open>The time step\<close>

lemma step_div: "step t = unix_sec t div 30"
proof (cases "unix_sec t < 0")
  case True
  then have "step t = - ((29 - unix_sec t) div 30)"
    by (simp add: step_def period_def quot_def Let_def)
  moreover have "(29 - unix_sec t) div 30 = - (unix_sec t div 30)"
    by (rule int_div_pos_eq [where r = "29 - unix_sec t mod 30"])
      (use div_mult_mod_eq [of "unix_sec t" 30] pos_mod_bound [of 30 "unix_sec t"] in linarith)+
  ultimately show ?thesis by simp
qed (simp add: step_def period_def Let_def)

lemma step_mono: "t \<le> u \<Longrightarrow> step t \<le> step u"
  by (simp add: step_div unix_sec_def zdiv_mono1)

subsection \<open>Codes are six digits\<close>

lemma pad_decimal_digits: "list_all is_digit (pad_decimal w n)"
  using show_nat_digits [of n] by (auto simp: pad_decimal_def list_all_iff is_digit_def)

lemma length_show_nat: "0 < w \<Longrightarrow> n < 10 ^ w \<Longrightarrow> length (show_nat n) \<le> w"
proof (induction n arbitrary: w rule: show_nat.induct)
  case (1 n)
  then obtain v where w: "w = Suc v" by (cases w) auto
  show ?case
  proof (cases "n < 10")
    case True
    then show ?thesis using 1(2) by (subst show_nat.simps) simp
  next
    case False
    then have "0 < v" using 1(3) w by (cases v) auto
    moreover have "n div 10 < 10 ^ v" using 1(3) w by (simp add: div_less_iff_less_mult mult.commute)
    ultimately show ?thesis using 1(1) [OF False] False w by (subst show_nat.simps) simp
  qed
qed

lemma hotp_digits: "list_all is_digit (hotp key c 6)"
  by (simp add: hotp_def Let_def pad_decimal_digits)

lemma hotp_length: "length (hotp key c 6) = 6"
proof -
  have "unat (n mod 1000000) < 10 ^ 6" for n :: "32 word"
    by (simp add: unat_mod)
  then have "length (show_nat (unat (n mod 1000000))) \<le> 6" for n :: "32 word"
    by (intro length_show_nat) simp_all
  then show ?thesis
    by (simp add: hotp_def Let_def pad_decimal_def upt_rec)
qed

lemma normalize_loop_digits:
  "list_all is_digit s \<Longrightarrow> normalize_loop (rune_values s) b = Some (b @ s)"
proof (induction s arbitrary: b)
  case (Cons c s)
  then have "code c < 128" by (auto simp: is_digit_def)
  with Cons show ?case
    by (simp add: rune_values_def is_digit_def del: runes.simps(2))
qed (simp add: rune_values_def)

lemma normalize_hotp [simp]: "normalize (hotp key c 6) = (hotp key c 6, True)"
  using normalize_loop_digits [OF hotp_digits] by (simp add: normalize_def hotp_length digits_len_def)

subsection \<open>What Verify accepts\<close>

text \<open>The steps whose code the typed digits are, and that are still unused.\<close>

definition matches :: "secret \<Rightarrow> string \<Rightarrow> gotime \<Rightarrow> int set" where
  "matches s digits t = {st \<in> {step t - 1 .. step t + 1}. 0 \<le> st \<and> hotp (s_key s) (of_int st) 6 = digits}"

lemma finite_matches [simp]: "finite {st \<in> matches s digits t. P st}"
  by (rule finite_subset [of _ "{step t - 1 .. step t + 1}"]) (auto simp: matches_def)

lemma window_steps: "[now - window .. now + window] = [now - 1, now, now + 1]"
  by (simp add: window_def upto_rec1)

lemma verify_loop:
  fixes ms :: "int list"
  assumes "sorted ms"
  shows "foldl (verify_round key d last_step) (m, r) ms =
    (let M = filter (\<lambda>st. 0 \<le> st \<and> hotp key (of_int st) digits_len = d) ms
     in (foldl (\<lambda>m st. if last_step < st then st else m) m M, r \<or> list_ex (\<lambda>st. \<not> last_step < st) M))"
  using assms by (induction ms arbitrary: m r) (auto simp: verify_round_def Let_def)

lemma foldl_last: "foldl (\<lambda>m st. if P st then st else m) m M = (case rev (filter P M) of [] \<Rightarrow> m | x # _ \<Rightarrow> x)"
  by (induction M rule: rev_induct) auto

lemma hd_rev_sorted: "sorted (M :: int list) \<Longrightarrow> rev M = x # xs \<Longrightarrow> x = Max (set M)"
proof -
  assume "sorted M" "rev M = x # xs"
  then have "M = rev xs @ [x]" by (metis rev_rev_ident rev.simps(2))
  with \<open>sorted M\<close> show ?thesis
    by (auto simp: sorted_append intro!: Max_eqI [symmetric])
qed

lemma verify_cases:
  assumes "normalize txt = (d, True)" and "\<not> secret_is_zero s"
  shows "verify s txt t last_step =
    (if {st \<in> matches s d t. last_step < st} \<noteq> {} then Inr (Max {st \<in> matches s d t. last_step < st})
     else if matches s d t \<noteq> {} then Inl Err_Reused else Inl Err_Wrong)"
proof -
  define M where "M = filter (\<lambda>st. 0 \<le> st \<and> hotp (s_key s) (of_int st) digits_len = d)
    [step t - 1, step t, step t + 1]"
  have sorted: "sorted (filter (\<lambda>st. last_step < st) M)" by (simp add: M_def)
  have "x \<in> {step t - 1 .. step t + 1} \<longleftrightarrow> x \<in> set [step t - 1, step t, step t + 1]" for x
    by (simp, linarith)
  then have set: "set M = matches s d t"
    unfolding M_def matches_def set_filter digits_len_def by blast
  let ?F = "filter (\<lambda>st. last_step < st) M"
  have F: "set ?F = {st \<in> matches s d t. last_step < st}" using set by auto
  have "foldl (verify_round (s_key s) d last_step) (-1, False) [step t - window .. step t + window]
    = (case rev ?F of [] \<Rightarrow> -1 | x # _ \<Rightarrow> x, list_ex (\<lambda>st. \<not> last_step < st) M)"
    unfolding window_steps
    by (subst verify_loop, simp) (simp only: Let_def foldl_last simp_thms flip: M_def)
  moreover have "(case rev ?F of [] \<Rightarrow> -1 | x # _ \<Rightarrow> x) = (if set ?F \<noteq> {} then Max (set ?F) else -1)"
  proof (cases "rev ?F")
    case (Cons a l)
    then have "set ?F \<noteq> {}" by (metis list.distinct(1) rev.simps(1) set_empty)
    then show ?thesis unfolding Cons hd_rev_sorted [OF sorted Cons] list.case by (simp only: not_False_eq_True if_True)
  qed (simp add: filter_empty_conv)
  moreover have "0 \<le> Max {st \<in> matches s d t. last_step < st}"
    if "{st \<in> matches s d t. last_step < st} \<noteq> {}"
  proof -
    from Max_in [OF finite_matches that] show ?thesis by (auto simp: matches_def)
  qed
  moreover have "list_ex (\<lambda>st. \<not> last_step < st) M \<longleftrightarrow> matches s d t \<noteq> {}"
    if "{st \<in> matches s d t. last_step < st} = {}"
    using that set by (auto simp: list_ex_iff)
  ultimately show ?thesis using assms unfolding F by (auto simp: verify_def Let_def)
qed

lemma verify_Inr:
  assumes "verify s txt t last_step = Inr st"
  shows "\<bar>st - step t\<bar> \<le> 1 \<and> 0 \<le> st \<and> last_step < st \<and> \<not> secret_is_zero s
    \<and> normalize txt = (hotp (s_key s) (of_int st) 6, True)"
proof -
  obtain d where d: "normalize txt = (d, True)" and key: "\<not> secret_is_zero s"
    using assms by (auto simp: verify_def split: prod.splits if_splits)
  let ?M = "{st \<in> matches s d t. last_step < st}"
  have "?M \<noteq> {}" "st = Max ?M"
    using assms unfolding verify_cases [OF d key] by (auto split: if_splits)
  then have "st \<in> ?M" using Max_in [OF finite_matches] by metis
  then show ?thesis using d key by (auto simp: matches_def)
qed

lemma verify_own_code:
  assumes "\<not> secret_is_zero s" "\<bar>step u - step t\<bar> \<le> 1" "0 \<le> step u" "last_step < step u"
  shows "\<exists>st. verify s (code_at s u) t last_step = Inr st"
proof -
  have "step u \<in> {st \<in> matches s (code_at s u) t. last_step < st}"
    using assms by (simp add: matches_def code_at_def digits_len_def abs_le_iff)
  then have "{st \<in> matches s (code_at s u) t. last_step < st} \<noteq> {}" by blast
  moreover have "normalize (code_at s u) = (code_at s u, True)"
    by (simp add: code_at_def digits_len_def)
  ultimately show ?thesis by (simp add: verify_cases [OF _ assms(1)])
qed

subsection \<open>The text forms of a secret\<close>

lemma grouped_loop_drop:
  "filter (\<lambda>c. c \<noteq> CHR '' '') (grouped_loop b i out)
     = filter (\<lambda>c. c \<noteq> CHR '' '') out @ filter (\<lambda>c. c \<noteq> CHR '' '') (drop i b)"
proof (induction b i out rule: grouped_loop.induct)
  case (1 b i out)
  show ?case
  proof (cases "i < length b")
    case True
    have "take (min (i + 4) (length b) - i) (drop i b) @ drop (i + 4) b = drop i b"
      by (cases "i + 4 \<le> length b") (simp_all add: min_def, metis add.commute append_take_drop_id drop_drop)
    then have "filter (\<lambda>c. c \<noteq> CHR '' '') (take (min (i + 4) (length b) - i) (drop i b))
        @ filter (\<lambda>c. c \<noteq> CHR '' '') (drop (i + 4) b) = filter (\<lambda>c. c \<noteq> CHR '' '') (drop i b)"
      by (metis filter_append)
    then show ?thesis using True 1 by (subst grouped_loop.simps) auto
  qed (subst grouped_loop.simps, simp)
qed

lemma grouped_loop_chars:
  "set (grouped_loop b i out) \<subseteq> set out \<union> set b \<union> {CHR '' ''}"
proof (induction b i out rule: grouped_loop.induct)
  case (1 b i out)
  show ?case
  proof (cases "i < length b")
    case True
    have "set (take (min (i + 4) (length b) - i) (drop i b)) \<subseteq> set b"
      by (meson order_trans set_drop_subset set_take_subset)
    then show ?thesis using 1 [OF True] True by (subst grouped_loop.simps) (auto split: if_splits)
  qed (subst grouped_loop.simps, auto)
qed

lemma parse_clean:
  assumes "\<forall>c \<in> set txt. code c < 128" and "filter (\<lambda>c. c \<noteq> CHR '' '') txt = base32 s"
    and "16 \<le> length (s_key s)" and "length (s_key s) \<le> 64"
  shows "parse_secret txt = Some s"
proof -
  have char: "code c = 32 \<longleftrightarrow> c = CHR '' ''" "code c = 61 \<longleftrightarrow> c = CHR ''=''" for c
    using of_char_eq_iff [of c "CHR '' ''"] of_char_eq_iff [of c "CHR ''=''"] by auto
  have "map upper_rune (filter (\<lambda>r. r \<noteq> 32 \<and> r \<noteq> 61) (rune_values txt))
      = map upper_rune (map of_char (filter (\<lambda>c. c \<noteq> CHR ''='') (filter (\<lambda>c. c \<noteq> CHR '' '') txt)))"
    using assms(1) by (simp add: rune_values_ascii filter_map o_def char conj_commute)
  also have "\<dots> = map of_char (base32 s)"
    using b32_std_char [of _ "s_key s"] assms(2)
    by (auto simp: base32_def filter_id_conv)
  finally show ?thesis
    using assms(3,4) by (simp add: parse_secret_def base32_def b32_decode_encode)
qed

lemma parse_base32:
  assumes "16 \<le> length (s_key s)" and "length (s_key s) \<le> 64"
  shows "parse_secret (base32 s) = Some s"
proof (rule parse_clean [OF _ _ assms])
  show "\<forall>c \<in> set (base32 s). code c < 128" using b32_std_char(1) by (auto simp: base32_def)
  show "filter (\<lambda>c. c \<noteq> CHR '' '') (base32 s) = base32 s"
    using b32_std_char(2) by (auto simp: base32_def filter_id_conv)
qed

lemma parse_grouped:
  assumes "16 \<le> length (s_key s)" and "length (s_key s) \<le> 64"
  shows "parse_secret (grouped s) = Some s"
proof (rule parse_clean [OF _ _ assms])
  show "\<forall>c \<in> set (grouped s). code c < 128"
    using grouped_loop_chars [of "base32 s" 0 "[]"] b32_std_char(1) by (fastforce simp: grouped_def base32_def)
  show "filter (\<lambda>c. c \<noteq> CHR '' '') (grouped s) = base32 s"
    using b32_std_char(2) by (auto simp: grouped_def grouped_loop_drop base32_def filter_id_conv)
qed

text \<open>A secret of the lengths RFC 4226 allows is read back from both forms the dashboard shows or
  stores, the plain base32 and the groups of four.\<close>

theorem secret_round_trip:
  assumes "16 \<le> length (s_key s)" and "length (s_key s) \<le> 64"
  shows "parse_secret (base32 s) = Some s \<and> parse_secret (grouped s) = Some s"
  using parse_base32 [OF assms] parse_grouped [OF assms] by simp

theorem secret_round_trip_witness:
  "parse_secret (grouped \<lparr>s_key = bytes_of ''12345678901234567890''\<rparr>) = Some \<lparr>s_key = bytes_of ''12345678901234567890''\<rparr>"
  using secret_round_trip [of "\<lparr>s_key = bytes_of ''12345678901234567890''\<rparr>"] by (simp add: bytes_of_def)

subsection \<open>Percent-encoding\<close>

text \<open>The decoder of RFC 3986, to state that \<open>escape\<close> loses nothing.\<close>

definition hex_value :: "char \<Rightarrow> nat" where
  "hex_value c = (if is_digit c then code c - 48 else code c - 55)"

fun unescape :: "string \<Rightarrow> string" where
  "unescape (p # a # b # s) =
     (if p = CHR ''%'' then char_of (16 * hex_value a + hex_value b) # unescape s else p # unescape (a # b # s))"
| "unescape s = s"

lemma upper_hex_value:
  "list_all (\<lambda>n. hex_value (upper_hex ! n) = n \<and> unreserved (upper_hex ! n)) [0..<16]"
  by code_simp

lemma unescape_step:
  "p \<noteq> CHR ''%'' \<Longrightarrow> unescape (p # s) = p # unescape s"
  by (cases "p # s" rule: unescape.cases) auto

lemma unescape_escape: "unescape (escape s) = s"
proof (induction s)
  case (Cons c s)
  show ?case
  proof (cases "unreserved c")
    case True
    then have "c \<noteq> CHR ''%''" by (auto simp: unreserved_def)
    then show ?thesis using True Cons by (simp add: unescape_step)
  next
    case False
    have "code c div 16 < 16" "code c mod 16 < 16" using nat_of_char_less_256 [of c] by arith+
    then have "hex_value (upper_hex ! (code c div 16)) = code c div 16"
      "hex_value (upper_hex ! (code c mod 16)) = code c mod 16"
      using upper_hex_value by (simp_all add: list_all_iff)
    then show ?thesis using False Cons by simp
  qed
qed simp

lemma escape_chars: "c \<in> set (escape s) \<Longrightarrow> unreserved c \<or> c = CHR ''%''"
proof (induction s)
  case (Cons x s)
  have "code x div 16 < 16" "code x mod 16 < 16" using nat_of_char_less_256 [of x] by arith+
  then have "unreserved (upper_hex ! (code x div 16))" "unreserved (upper_hex ! (code x mod 16))"
    using upper_hex_value by (simp_all add: list_all_iff)
  with Cons show ?case by (auto split: if_splits)
qed simp

text \<open>Percent-encoding loses nothing and cannot change the link's structure: it is undone by RFC 3986
  decoding and leaves only unreserved characters and percent signs, whatever bytes the names have.\<close>

theorem escape_round_trip:
  "unescape (escape s) = s \<and> list_all (\<lambda>c. unreserved c \<or> c = CHR ''%'') (escape s)"
  using unescape_escape escape_chars by (auto simp: list_all_iff)

text \<open>C5: A typed code is accepted exactly when its digits are the code of a time step within one of the
  current one, not before 1970 and beyond the last accepted; the step reported is the latest such one.\<close>

theorem verify_accepts_iff:
  "verify s entry t last_step = Inr st \<longleftrightarrow>
     snd (normalize entry) \<and> \<not> secret_is_zero s
     \<and> {u \<in> matches s (fst (normalize entry)) t. last_step < u} \<noteq> {}
     \<and> st = Max {u \<in> matches s (fst (normalize entry)) t. last_step < u}"
proof (cases "snd (normalize entry) \<and> \<not> secret_is_zero s")
  case True
  then have "normalize entry = (fst (normalize entry), True)" by (cases "normalize entry") auto
  then show ?thesis using True verify_cases by (auto split: if_splits)
next
  case False
  then show ?thesis by (auto simp: verify_def split: prod.splits)
qed

end
