(* ===== verification/Recovery_Codes.thy ===== *)
theory Recovery_Codes
  imports Totp
begin

section \<open>Recovery codes (internal/twofactor/recovery.go)\<close>

text \<open>
  Ten codes of 80 random bits each, stored as SHA-256 hashes; a used code's hash is replaced by
  the empty string. The lemmas: the codes of a new set are accepted as they are shown, each once.
\<close>

subsection \<open>Definitions\<close>

definition recovery_code_count :: nat where "recovery_code_count = 10"
definition low_recovery_codes :: nat where "low_recovery_codes = 3"
definition recovery_alphabet :: string where "recovery_alphabet = ''abcdefghijkmnpqrstuvwxyz23456789''"
definition recovery_len :: nat where "recovery_len = 16"

record recovery_set =
  hashes :: "string list"
  rs_created_at :: gotime

datatype recovery_error = Random_Too_Short | Random_Repeated

definition hash_recovery :: "string \<Rightarrow> string" where
  "hash_recovery norm = hex_encode (sha256 (bytes_of (''playkeeper recovery code v1'' @ [CHR 0x00] @ norm)))"

text \<open>The loop of \<open>NewRecoveryCodes\<close>: the remaining slices of \<open>raw\<close>, the hashes and codes made.\<close>

fun new_codes_loop :: "bytes list \<Rightarrow> string list \<Rightarrow> string list \<Rightarrow> recovery_error + string list \<times> string list" where
  "new_codes_loop [] hs cs = Inr (hs, cs)"
| "new_codes_loop (r # rs) hs cs =
     (let c = b32_encode recovery_alphabet r; h = hash_recovery c
      in if h \<in> set hs then Inl Random_Repeated
         else new_codes_loop rs (hs @ [h])
                (cs @ [take 4 c @ ''-'' @ take 4 (drop 4 c) @ ''-'' @ take 4 (drop 8 c) @ ''-'' @ take 4 (drop 12 c)]))"

definition new_recovery_codes :: "bytes \<Rightarrow> gotime \<Rightarrow> recovery_error + recovery_set \<times> string list" where
  "new_recovery_codes rand now =
     (case read_full (recovery_code_count * recovery_len * 5 div 8) rand of
        None \<Rightarrow> Inl Random_Too_Short
      | Some raw \<Rightarrow>
          let size = length raw div recovery_code_count
          in case new_codes_loop (map (\<lambda>i. take size (drop (i * size) raw)) [0..<recovery_code_count]) [] [] of
               Inl e \<Rightarrow> Inl e
             | Inr (hs, cs) \<Rightarrow> Inr (\<lparr>hashes = hs, rs_created_at = now\<rparr>, cs))"

definition remaining :: "recovery_set \<Rightarrow> nat" where
  "remaining s = foldl (\<lambda>n h. if h \<noteq> [] then n + 1 else n) 0 (hashes s)"

definition use_norm :: "recovery_set \<Rightarrow> string \<Rightarrow> recovery_set \<times> bool" where
  "use_norm s norm =
     (let want = hash_recovery norm;
          match = foldl (\<lambda>m (i, h). if h \<noteq> [] \<and> h = want then int i else m) (-1) (enumerate 0 (hashes s))
      in if match < 0 then (s, False)
         else (\<lparr>hashes = (hashes s)[nat match := []], rs_created_at = rs_created_at s\<rparr>, True))"

fun normalize_recovery_loop :: "nat list \<Rightarrow> string \<Rightarrow> string option" where
  "normalize_recovery_loop [] b = Some b"
| "normalize_recovery_loop (r # rs) b =
     (let r = (if 65 \<le> r \<and> r \<le> 90 then r + 32 else r)
      in if is_space r \<or> is_dash r then normalize_recovery_loop rs b
         else if r < 128 \<and> char_of r \<in> set recovery_alphabet then normalize_recovery_loop rs (b @ [char_of r])
         else None)"

definition normalize_recovery :: "string \<Rightarrow> string \<times> bool" where
  "normalize_recovery txt =
     (if 64 < length txt then ([], False)
      else case normalize_recovery_loop (rune_values txt) [] of
             None \<Rightarrow> ([], False)
           | Some b \<Rightarrow> (b, length b = recovery_len))"

definition use_code :: "recovery_set \<Rightarrow> string \<Rightarrow> recovery_set \<times> bool" where
  "use_code s txt = (case normalize_recovery txt of (norm, ok) \<Rightarrow>
     if \<not> ok then (s, False) else use_norm s norm)"

subsection \<open>Sets of hashes\<close>

text \<open>What holds of every stored set: the unused hashes are distinct.\<close>

definition unused :: "recovery_set \<Rightarrow> string list" where
  "unused s = filter (\<lambda>h. h \<noteq> []) (hashes s)"

definition set_ok :: "recovery_set \<Rightarrow> bool" where
  "set_ok s \<longleftrightarrow> distinct (unused s)"

lemma remaining_unused: "remaining s = length (unused s)"
proof -
  have "foldl (\<lambda>n h. if h \<noteq> [] then n + 1 else n) k hs = k + length (filter (\<lambda>h. h \<noteq> []) hs)"
    for k and hs :: "string list"
    by (induction hs arbitrary: k) auto
  then show ?thesis by (simp add: remaining_def unused_def)
qed

lemma hash_recovery_nonempty [simp]: "hash_recovery norm \<noteq> []"
proof -
  have "length (hash_recovery norm) = 64" by (simp add: hash_recovery_def length_sha256)
  then show ?thesis by auto
qed


definition last_match :: "string \<Rightarrow> string list \<Rightarrow> int" where
  "last_match want hs = foldl (\<lambda>m (i, h). if h \<noteq> [] \<and> h = want then int i else m) (-1) (enumerate 0 hs)"

lemma last_match_snoc:
  "last_match want (hs @ [h]) = (if h \<noteq> [] \<and> h = want then int (length hs) else last_match want hs)"
  by (simp add: last_match_def enumerate_append_eq)

lemma last_match_found:
  assumes "want \<noteq> []"
  shows "(want \<notin> set hs \<longrightarrow> last_match want hs = -1)
    \<and> (want \<in> set hs \<longrightarrow> (\<exists>i < length hs. hs ! i = want \<and> last_match want hs = int i))"
proof (induction hs rule: rev_induct)
  case (snoc h hs)
  show ?case
  proof (cases "h = want")
    case True
    then show ?thesis using assms by (auto simp: last_match_snoc intro!: exI [of _ "length hs"])
  next
    case False
    then show ?thesis using snoc by (auto simp: last_match_snoc nth_append)
  qed
qed (simp add: last_match_def)

lemma filter_clear:
  assumes "i < length hs" and "hs ! i = h" and "h \<noteq> []" and "distinct (filter (\<lambda>h. h \<noteq> []) hs)"
  shows "filter (\<lambda>h. h \<noteq> []) (hs[i := []]) = removeAll h (filter (\<lambda>h. h \<noteq> []) hs)"
proof -
  have hs: "hs = take i hs @ h # drop (Suc i) hs" and "i = length (take i hs)"
    using assms(1,2) by (auto simp: id_take_nth_drop)
  then have "hs[i := []] = take i hs @ [] # drop (Suc i) hs"
    by (metis list_update_length)
  moreover have "h \<notin> set (filter (\<lambda>h. h \<noteq> []) (take i hs))" "h \<notin> set (filter (\<lambda>h. h \<noteq> []) (drop (Suc i) hs))"
    using assms(3,4) by (subst (asm) hs, auto)+
  ultimately show ?thesis
    using assms(3) by (subst (2) hs) (simp add: removeAll_id)
qed

text \<open>What \<open>use\<close> does, as an operation on the unused hashes.\<close>

lemma use_norm_spec:
  assumes "set_ok s"
  shows "if hash_recovery norm \<in> set (unused s)
    then \<exists>s'. use_norm s norm = (s', True) \<and> unused s' = removeAll (hash_recovery norm) (unused s)
          \<and> rs_created_at s' = rs_created_at s \<and> length (hashes s') = length (hashes s)
    else use_norm s norm = (s, False)"
proof -
  have use: "use_norm s norm = (if last_match (hash_recovery norm) (hashes s) < 0 then (s, False)
      else (\<lparr>hashes = (hashes s)[nat (last_match (hash_recovery norm) (hashes s)) := []],
             rs_created_at = rs_created_at s\<rparr>, True))"
    by (simp add: use_norm_def last_match_def Let_def)
  have "hash_recovery norm \<in> set (unused s) \<longleftrightarrow> hash_recovery norm \<in> set (hashes s)"
    by (simp add: unused_def)
  moreover have "unused \<lparr>hashes = (hashes s)[i := []], rs_created_at = t\<rparr> = removeAll (hash_recovery norm) (unused s)"
    if "i < length (hashes s)" "hashes s ! i = hash_recovery norm" for i t
    using filter_clear [OF that] assms by (simp add: unused_def set_ok_def)
  ultimately show ?thesis
    using last_match_found [OF hash_recovery_nonempty, of norm "hashes s"] by (auto simp: use)
qed

lemma use_norm_ok:
  assumes "set_ok s" and "use_norm s norm = (s', True)"
  shows "set_ok s'" and "hash_recovery norm \<in> set (unused s)"
    and "unused s' = removeAll (hash_recovery norm) (unused s)" and "remaining s = Suc (remaining s')"
proof -
  show in_set: "hash_recovery norm \<in> set (unused s)"
    and unused': "unused s' = removeAll (hash_recovery norm) (unused s)"
    using use_norm_spec [OF assms(1), of norm] assms(2) by (auto split: if_splits)
  then show "set_ok s'" using assms(1) by (simp add: set_ok_def distinct_removeAll)
  have "length (removeAll h xs) = length xs - 1" if "distinct xs" "h \<in> set xs" for h and xs :: "string list"
    using that by (metis distinct_remove1_removeAll length_remove1)
  then show "remaining s = Suc (remaining s')"
    using in_set unused' assms(1) length_pos_if_in_set [OF in_set]
    by (simp add: remaining_unused set_ok_def)
qed

subsection \<open>The codes of a new set\<close>

lemma recovery_alphabet_chars:
  "list_all (\<lambda>c. code c < 128 \<and> \<not> (65 \<le> code c \<and> code c \<le> 90) \<and> \<not> is_space (of_char c) \<and> \<not> is_dash (of_char c)
     \<and> char_of (code c) = c) recovery_alphabet"
  by (simp add: recovery_alphabet_def is_space_def is_dash_def)

lemma normalize_recovery_loop_append:
  "normalize_recovery_loop (xs @ ys) b =
     (case normalize_recovery_loop xs b of None \<Rightarrow> None | Some b' \<Rightarrow> normalize_recovery_loop ys b')"
  by (induction xs arbitrary: b) (auto simp: Let_def)

lemma normalize_recovery_loop_code:
  "set w \<subseteq> set recovery_alphabet \<Longrightarrow> normalize_recovery_loop (map of_char w) b = Some (b @ w)"
proof (induction w arbitrary: b)
  case (Cons c w)
  then have "code c < 128" "\<not> (65 \<le> code c \<and> code c \<le> 90)" "\<not> is_space (of_char c)" "\<not> is_dash (of_char c)"
    using recovery_alphabet_chars by (auto simp: list_all_iff)
  with Cons show ?case by (auto simp: Let_def)
qed simp

lemma normalize_recovery_dash: "normalize_recovery_loop (45 # rs) b = normalize_recovery_loop rs b"
  by (simp add: is_dash_def)

definition dashed :: "string \<Rightarrow> string" where
  "dashed c = take 4 c @ ''-'' @ take 4 (drop 4 c) @ ''-'' @ take 4 (drop 8 c) @ ''-'' @ take 4 (drop 12 c)"

lemma normalize_dashed:
  assumes "set c \<subseteq> set recovery_alphabet" and "length c = 16"
  shows "normalize_recovery (dashed c) = (c, True)"
proof -
  have parts: "set (take 4 (drop n c)) \<subseteq> set recovery_alphabet" for n
    using assms(1) by (meson order_trans set_drop_subset set_take_subset)
  have "take 4 c @ take 4 (drop 4 c) @ take 4 (drop 8 c) @ take 4 (drop 12 c) = c"
  proof -
    have "drop (n + 4) c = drop 4 (drop n c)" for n by (simp add: add.commute)
    from this [of 4] this [of 8] this [of 12] have "drop 12 c = drop 4 (drop 8 c)" "drop 8 c = drop 4 (drop 4 c)"
      by simp_all
    moreover have "take 4 (drop 12 c) = drop 12 c" using assms(2) by simp
    ultimately show ?thesis by (metis append_take_drop_id)
  qed
  moreover have "\<forall>x \<in> set (dashed c). code x < 128"
    using parts [of 0] parts [of 4] parts [of 8] parts [of 12] recovery_alphabet_chars
    by (auto simp: dashed_def list_all_iff)
  moreover have "length (dashed c) = 19" using assms(2) by (simp add: dashed_def)
  ultimately show ?thesis
    using normalize_recovery_loop_code [OF parts] normalize_recovery_loop_code [OF parts [of 0]]
      normalize_recovery_loop_code [OF parts [of 12]] assms(2)
    by (simp add: normalize_recovery_def rune_values_ascii)
      (simp add: dashed_def normalize_recovery_loop_append normalize_recovery_dash recovery_len_def
        del: normalize_recovery_loop.simps(2))
qed

lemma b32_recovery_code:
  assumes "length r = 10"
  shows "set (b32_encode recovery_alphabet r) \<subseteq> set recovery_alphabet"
    and "length (b32_encode recovery_alphabet r) = 16"
proof -
  have "length recovery_alphabet = 32" by (simp add: recovery_alphabet_def)
  then show "set (b32_encode recovery_alphabet r) \<subseteq> set recovery_alphabet"
    by (auto simp: b32_encode_vals dest!: b32_vals_less)
  show "length (b32_encode recovery_alphabet r) = 16"
    using assms by (simp add: b32_encode_vals length_b32_vals)
qed

lemma new_codes_loop_distinct:
  "new_codes_loop rs hs cs = Inr (hs', cs') \<Longrightarrow> distinct hs \<Longrightarrow> distinct hs'"
  by (induction rs arbitrary: hs cs) (auto simp: Let_def split: if_splits)

lemma new_codes_loop_spec:
  "new_codes_loop rs hs cs = Inr (hs', cs') \<Longrightarrow>
     hs' = hs @ map (hash_recovery \<circ> b32_encode recovery_alphabet) rs
     \<and> cs' = cs @ map (dashed \<circ> b32_encode recovery_alphabet) rs"
proof (induction rs arbitrary: hs cs)
  case (Cons r rs)
  let ?c = "b32_encode recovery_alphabet r"
  from Cons.prems have "new_codes_loop rs (hs @ [hash_recovery ?c]) (cs @ [dashed ?c]) = Inr (hs', cs')"
    by (simp add: Let_def dashed_def split: if_splits)
  from Cons.IH [OF this] show ?case by simp
qed simp

lemma new_recovery_codes_spec:
  assumes "new_recovery_codes rand now = Inr (s, cs)"
  shows "\<exists>ws. length ws = 10 \<and> (\<forall>w \<in> set ws. set w \<subseteq> set recovery_alphabet \<and> length w = 16)
     \<and> hashes s = map hash_recovery ws \<and> cs = map dashed ws \<and> distinct (hashes s) \<and> rs_created_at s = now"
proof -
  define rs where "rs = map (\<lambda>i. take 10 (drop (i * 10) (take 100 rand))) [0..<10]"
  have len: "100 \<le> length rand"
    using assms by (auto simp: new_recovery_codes_def read_full_def recovery_code_count_def recovery_len_def
        split: if_splits)
  have ten: "length rs = 10" and "\<forall>r \<in> set rs. length r = 10" using len by (auto simp: rs_def)
  from len have "new_recovery_codes rand now = (case new_codes_loop rs [] [] of
      Inl e \<Rightarrow> Inl e | Inr (hs, cs) \<Rightarrow> Inr (\<lparr>hashes = hs, rs_created_at = now\<rparr>, cs))"
    by (simp add: new_recovery_codes_def read_full_def recovery_code_count_def recovery_len_def Let_def
        flip: rs_def)
  with assms have loop: "new_codes_loop rs [] [] = Inr (hashes s, cs)" and "rs_created_at s = now"
    by (auto split: sum.splits)
  moreover have "hashes s = map hash_recovery (map (b32_encode recovery_alphabet) rs)"
    "cs = map dashed (map (b32_encode recovery_alphabet) rs)"
    using new_codes_loop_spec [OF loop] by simp_all
  moreover have "distinct (hashes s)" using new_codes_loop_distinct [OF loop] by simp
  ultimately show ?thesis
    using b32_recovery_code ten \<open>\<forall>r \<in> set rs. length r = 10\<close>
    by (intro exI [of _ "map (b32_encode recovery_alphabet) rs"]) auto
qed

end
