(* ===== verification/Two_Factor.thy ===== *)
theory Two_Factor
  imports Recovery_Codes
begin

section \<open>The second sign-in factor (internal/twofactor/twofactor.go)\<close>

text \<open>
  A user's factor as stored, and the steps that change it: starting a setup, confirming it,
  signing in, turning it off and renewing the recovery codes. Each step takes the stored factor
  and returns the one to store; \<open>tf_step\<close> runs them as the dashboard does, one at a time (the
  code requires load, step and store to be one unit). The QR code encoder is the parameter
  \<open>qr\<close> of the steps that show it: the SVG of a text, or \<open>None\<close> when it does not fit.
\<close>

subsection \<open>Definitions\<close>

definition issuer :: string where "issuer = ''Playkeeper''"
definition setup_ttl :: duration where "setup_ttl = 15 * minute"
definition lock_after :: int where "lock_after = 5"
definition block_after :: int where "block_after = 100"

record factor =
  f_secret :: secret
  f_created_at :: gotime
  f_confirmed_at :: gotime
  f_last_step :: int
  f_last_used_at :: gotime
  f_recovery :: recovery_set
  f_failures :: int
  f_locked_until :: gotime
  f_recovery_failures :: int
  f_revision :: int

definition zero_factor :: factor where
  "zero_factor = \<lparr>f_secret = \<lparr>s_key = []\<rparr>, f_created_at = 0, f_confirmed_at = 0, f_last_step = 0,
     f_last_used_at = 0, f_recovery = \<lparr>hashes = [], rs_created_at = 0\<rparr>, f_failures = 0,
     f_locked_until = 0, f_recovery_failures = 0, f_revision = 0\<rparr>"

datatype kind =
    Kind_Code_Malformed | Kind_App_Code_Malformed | Kind_Code_Wrong | Kind_Code_Reused
  | Kind_Recovery_Code_Wrong | Kind_App_Codes_Locked | Kind_App_Codes_Blocked | Kind_Password_Wrong
  | Kind_No_Setup | Kind_Setup_Expired | Kind_Off | Kind_On

text \<open>An \<open>*Error\<close> of the package, or an error passed on from one it calls.\<close>

record refusal =
  e_kind :: kind
  e_retry_after :: duration

datatype tf_error =
    Refused refusal | Secret_Failed | Uri_Failed uri_error | Qr_Failed | Recovery_Failed recovery_error

abbreviation refused :: "kind \<Rightarrow> tf_error" where
  "refused k \<equiv> Refused \<lparr>e_kind = k, e_retry_after = 0\<rparr>"

definition on :: "factor \<Rightarrow> bool" where
  "on f \<longleftrightarrow> f_confirmed_at f \<noteq> zero_time"

definition setup_error :: "factor \<Rightarrow> gotime \<Rightarrow> tf_error option" where
  "setup_error f now =
     (if on f then Some (refused Kind_On)
      else if secret_is_zero (f_secret f) then Some (refused Kind_No_Setup)
      else if \<not> now < f_created_at f + setup_ttl then Some (refused Kind_Setup_Expired)
      else None)"

record setup_info =
  qr_code_svg :: string
  manual_key :: string
  su_uri :: string
  su_issuer :: string
  su_account :: string
  expires_at :: gotime

definition show_setup :: "(string \<Rightarrow> string option) \<Rightarrow> factor \<Rightarrow> string \<Rightarrow> gotime \<Rightarrow> tf_error + setup_info" where
  "show_setup qr f account now =
     (case setup_error f now of Some e \<Rightarrow> Inl e | None \<Rightarrow>
        case key_uri (f_secret f) issuer account of Inl e \<Rightarrow> Inl (Uri_Failed e) | Inr uri \<Rightarrow>
        case qr uri of None \<Rightarrow> Inl Qr_Failed | Some svg \<Rightarrow>
          Inr \<lparr>qr_code_svg = svg, manual_key = grouped (f_secret f), su_uri = uri, su_issuer = issuer,
               su_account = account, expires_at = f_created_at f + setup_ttl\<rparr>)"

definition begin_setup ::
  "(string \<Rightarrow> string option) \<Rightarrow> factor \<Rightarrow> bool \<Rightarrow> string \<Rightarrow> gotime \<Rightarrow> bytes \<Rightarrow> factor \<times> (tf_error + setup_info)" where
  "begin_setup qr f password_ok account now rand =
     (if on f then (f, Inl (refused Kind_On))
      else if \<not> password_ok then (f, Inl (refused Kind_Password_Wrong))
      else case new_secret rand of None \<Rightarrow> (f, Inl Secret_Failed) | Some s \<Rightarrow>
        let next = zero_factor\<lparr>f_secret := s, f_created_at := now, f_revision := f_revision f + 1\<rparr>
        in case show_setup qr next account now of
             Inl e \<Rightarrow> (f, Inl e)
           | Inr su \<Rightarrow> (next, Inr su))"

definition confirm :: "factor \<Rightarrow> string \<Rightarrow> gotime \<Rightarrow> bytes \<Rightarrow> factor \<times> (tf_error + string list)" where
  "confirm f txt now rand =
     (case setup_error f now of Some e \<Rightarrow> (f, Inl e) | None \<Rightarrow>
        case verify (f_secret f) txt now (f_last_step f) of
          Inl Err_Malformed \<Rightarrow> (f, Inl (refused Kind_App_Code_Malformed))
        | Inl _ \<Rightarrow> (f, Inl (refused Kind_Code_Wrong))
        | Inr st \<Rightarrow>
            (case new_recovery_codes rand now of
               Inl e \<Rightarrow> (f, Inl (Recovery_Failed e))
             | Inr (rs, codes) \<Rightarrow>
                 (f\<lparr>f_confirmed_at := now, f_last_step := st, f_last_used_at := now, f_recovery := rs,
                    f_revision := f_revision f + 1\<rparr>, Inr codes)))"

datatype tf_method = Method_App_Code | Method_Recovery_Code

definition passed :: "factor \<Rightarrow> gotime \<Rightarrow> factor" where
  "passed f now = f\<lparr>f_failures := 0, f_recovery_failures := 0, f_locked_until := zero_time,
     f_last_used_at := now, f_revision := f_revision f + 1\<rparr>"

definition failed :: "factor \<Rightarrow> gotime \<Rightarrow> kind \<Rightarrow> factor \<times> (tf_error + tf_method)" where
  "failed f now k =
     (let f = f\<lparr>f_failures := f_failures f + 1, f_revision := f_revision f + 1\<rparr>
      in if block_after \<le> f_failures f then
           (f\<lparr>f_locked_until := zero_time\<rparr>, Inl (refused Kind_App_Codes_Blocked))
         else if lock_after \<le> f_failures f then
           (let f = f\<lparr>f_locked_until := now + minute * 2 ^ nat (min (f_failures f - lock_after) 4)\<rparr>
            in (f, Inl (Refused \<lparr>e_kind = Kind_App_Codes_Locked,
                                 e_retry_after = time_sub (f_locked_until f) now\<rparr>)))
         else (f, Inl (refused k)))"

definition check :: "factor \<Rightarrow> string \<Rightarrow> gotime \<Rightarrow> factor \<times> (tf_error + tf_method)" where
  "check f txt now =
     (case normalize_recovery txt of (norm, ok) \<Rightarrow>
        if ok then
          (case use_norm (f_recovery f) norm of (rs, used) \<Rightarrow>
             if \<not> used then
               (f\<lparr>f_recovery_failures := f_recovery_failures f + 1, f_revision := f_revision f + 1\<rparr>,
                Inl (refused Kind_Recovery_Code_Wrong))
             else (passed (f\<lparr>f_recovery := rs\<rparr>) now, Inr Method_Recovery_Code))
        else if \<not> snd (normalize txt) then (f, Inl (refused Kind_Code_Malformed))
        else if block_after \<le> f_failures f then (f, Inl (refused Kind_App_Codes_Blocked))
        else if now < f_locked_until f then
          (f, Inl (Refused \<lparr>e_kind = Kind_App_Codes_Locked, e_retry_after = time_sub (f_locked_until f) now\<rparr>))
        else case verify (f_secret f) txt now (f_last_step f) of
               Inl Err_Reused \<Rightarrow> (f, Inl (refused Kind_Code_Reused))
             | Inl _ \<Rightarrow> failed f now Kind_Code_Wrong
             | Inr st \<Rightarrow> (passed (f\<lparr>f_last_step := st\<rparr>) now, Inr Method_App_Code))"

datatype notice_kind =
  Notice_Failed_Attempts | Notice_Recovery_Code_Used | Notice_Recovery_Codes_Low | Notice_No_Recovery_Codes

record notice =
  n_kind :: notice_kind
  n_count :: int
  n_text :: string

definition new_notice :: "notice_kind \<Rightarrow> int \<Rightarrow> notice" where
  "new_notice k n = \<lparr>n_kind = k, n_count = n, n_text = (case k of
       Notice_Failed_Attempts \<Rightarrow>
         ''A wrong code was entered '' @ (if n \<noteq> 1 then itoa n @ '' times'' else ''once'')
         @ '' since your last sign-in. If that was not you, change your password: someone knows it.''
     | Notice_Recovery_Code_Used \<Rightarrow> ''You signed in with a recovery code. It will not work again.''
     | Notice_Recovery_Codes_Low \<Rightarrow>
         (if n = 1 then ''Only 1 recovery code is left. Make new ones on the Account page.''
          else ''Only '' @ itoa n @ '' recovery codes are left. Make new ones on the Account page.'')
     | Notice_No_Recovery_Codes \<Rightarrow>
         ''No recovery codes are left. Make new ones on the Account page, so you can still sign in if you lose your phone.'')\<rparr>"

record sign_in_result =
  r_method :: tf_method
  r_notices :: "notice list"

definition sign_in :: "factor \<Rightarrow> string \<Rightarrow> gotime \<Rightarrow> factor \<times> (tf_error + sign_in_result)" where
  "sign_in f txt now =
     (if \<not> on f then (f, Inl (refused Kind_Off))
      else let fails = f_failures f + f_recovery_failures f
      in case check f txt now of
           (f, Inl e) \<Rightarrow> (f, Inl e)
         | (f, Inr m) \<Rightarrow>
             let left = remaining (f_recovery f);
                 ns = (if 0 < fails then [new_notice Notice_Failed_Attempts fails] else []);
                 ns = ns @ (if m = Method_Recovery_Code then [new_notice Notice_Recovery_Code_Used (int left)] else []);
                 ns = ns @ (if left = 0 then [new_notice Notice_No_Recovery_Codes 0]
                            else if left \<le> low_recovery_codes then [new_notice Notice_Recovery_Codes_Low (int left)]
                            else [])
             in (f, Inr \<lparr>r_method = m, r_notices = ns\<rparr>))"

definition disable :: "factor \<Rightarrow> bool \<Rightarrow> string \<Rightarrow> gotime \<Rightarrow> factor \<times> tf_error option" where
  "disable f password_ok txt now =
     (if \<not> on f then (f, Some (refused Kind_Off))
      else if \<not> password_ok then (f, Some (refused Kind_Password_Wrong))
      else case check f txt now of
             (next, Inl e) \<Rightarrow> (next, Some e)
           | (_, Inr _) \<Rightarrow> (zero_factor, None))"

definition renew_recovery_codes ::
  "factor \<Rightarrow> bool \<Rightarrow> string \<Rightarrow> gotime \<Rightarrow> bytes \<Rightarrow> factor \<times> (tf_error + string list)" where
  "renew_recovery_codes f password_ok txt now rand =
     (if \<not> on f then (f, Inl (refused Kind_Off))
      else if \<not> password_ok then (f, Inl (refused Kind_Password_Wrong))
      else case new_recovery_codes rand now of
             Inl e \<Rightarrow> (f, Inl (Recovery_Failed e))
           | Inr (rs, codes) \<Rightarrow>
               (case check f txt now of
                  (next, Inl e) \<Rightarrow> (next, Inl e)
                | (next, Inr _) \<Rightarrow> (next\<lparr>f_recovery := rs\<rparr>, Inr codes)))"

datatype tf_state = State_Off | State_Pending | State_On

record status =
  st_state :: tf_state
  st_setup_expires_at :: gotime
  st_confirmed_at :: gotime
  st_last_used_at :: gotime
  st_recovery_codes_left :: nat
  st_recovery_codes_made_at :: gotime
  st_app_codes_locked_until :: gotime
  st_app_codes_blocked :: bool

definition no_status :: "tf_state \<Rightarrow> status" where
  "no_status s = \<lparr>st_state = s, st_setup_expires_at = 0, st_confirmed_at = 0, st_last_used_at = 0,
     st_recovery_codes_left = 0, st_recovery_codes_made_at = 0, st_app_codes_locked_until = 0,
     st_app_codes_blocked = False\<rparr>"

definition status_at :: "factor \<Rightarrow> gotime \<Rightarrow> status" where
  "status_at f now =
     (if on f then
        (let st = (no_status State_On)\<lparr>st_confirmed_at := f_confirmed_at f, st_last_used_at := f_last_used_at f,
               st_recovery_codes_left := remaining (f_recovery f),
               st_recovery_codes_made_at := rs_created_at (f_recovery f),
               st_app_codes_blocked := (block_after \<le> f_failures f)\<rparr>
         in if now < f_locked_until f then st\<lparr>st_app_codes_locked_until := f_locked_until f\<rparr> else st)
      else if setup_error f now = None then
        (no_status State_Pending)\<lparr>st_setup_expires_at := f_created_at f + setup_ttl\<rparr>
      else no_status State_Off)"

record challenge =
  c_methods :: "tf_method list"
  c_app_codes_locked_until :: gotime
  c_app_codes_blocked :: bool

definition challenge_at :: "factor \<Rightarrow> gotime \<Rightarrow> challenge" where
  "challenge_at f now =
     (let c = \<lparr>c_methods = [], c_app_codes_locked_until = 0, c_app_codes_blocked = False\<rparr>;
          c = (if block_after \<le> f_failures f then c\<lparr>c_app_codes_blocked := True\<rparr>
               else if now < f_locked_until f then c\<lparr>c_app_codes_locked_until := f_locked_until f\<rparr>
               else c\<lparr>c_methods := c_methods c @ [Method_App_Code]\<rparr>)
      in if 0 < remaining (f_recovery f) then c\<lparr>c_methods := c_methods c @ [Method_Recovery_Code]\<rparr> else c)"

definition minutes_text :: "duration \<Rightarrow> string" where
  "minutes_text d = (let m = quot (d + minute - 1) minute
     in if 1 < m then itoa m @ '' minutes'' else ''1 minute'')"

definition error_text :: "refusal \<Rightarrow> string" where
  "error_text e = (case e_kind e of
       Kind_Code_Malformed \<Rightarrow> ''Enter the 6-digit code from your authenticator app, or one of your recovery codes.''
     | Kind_App_Code_Malformed \<Rightarrow> ''Enter the 6-digit code from your authenticator app.''
     | Kind_Code_Wrong \<Rightarrow> ''That code is not correct.''
     | Kind_Code_Reused \<Rightarrow> ''That code has already been used.''
     | Kind_Recovery_Code_Wrong \<Rightarrow> ''That recovery code is not correct or has already been used.''
     | Kind_App_Codes_Locked \<Rightarrow> ''Too many wrong codes. Try again in '' @ minutes_text (e_retry_after e) @ ''.''
     | Kind_App_Codes_Blocked \<Rightarrow>
         ''Codes from your authenticator app are blocked after '' @ itoa block_after @ '' wrong codes in a row.''
     | Kind_Password_Wrong \<Rightarrow> ''Your password is not correct.''
     | Kind_No_Setup \<Rightarrow> ''Two-factor sign-in is not being set up.''
     | Kind_Setup_Expired \<Rightarrow> ''This two-factor setup has expired.''
     | Kind_Off \<Rightarrow> ''Two-factor sign-in is off.''
     | Kind_On \<Rightarrow> ''Two-factor sign-in is already on.'')"

definition hint_text :: "refusal \<Rightarrow> string" where
  "hint_text e = (case e_kind e of
       Kind_App_Code_Malformed \<Rightarrow> ''After you scan the QR code or type the key, the app shows a code under Playkeeper.''
     | Kind_Code_Wrong \<Rightarrow>
         ''Codes change every 30 seconds. If they keep failing, check that your phone sets its clock automatically.''
     | Kind_Code_Reused \<Rightarrow> ''Wait for the app to show the next code.''
     | Kind_Recovery_Code_Wrong \<Rightarrow> ''Each recovery code works once. Try another one from your list.''
     | Kind_App_Codes_Locked \<Rightarrow> ''You can use a recovery code now instead.''
     | Kind_App_Codes_Blocked \<Rightarrow>
         ''Use a recovery code, or on the server run: sudo playkeeper reset-2fa <username>. Then change your password, because someone may know it.''
     | Kind_No_Setup \<Rightarrow> ''Start again to get a new QR code.''
     | Kind_Setup_Expired \<Rightarrow> ''Start again to get a new QR code.''
     | Kind_On \<Rightarrow> ''To move it to a new phone, turn it off, then on again.''
     | _ \<Rightarrow> [])"

definition kind_of :: "tf_error \<Rightarrow> kind option" where
  "kind_of e = (case e of Refused r \<Rightarrow> Some (e_kind r) | _ \<Rightarrow> None)"

subsection \<open>Runs\<close>

text \<open>A request of the dashboard, with what it brings; \<open>tf_step\<close> is the factor it stores.\<close>

datatype tf_event =
    Ev_Begin bool string gotime bytes
  | Ev_Confirm string gotime bytes
  | Ev_Sign_In string gotime
  | Ev_Disable bool string gotime
  | Ev_Renew bool string gotime bytes

fun tf_step :: "(string \<Rightarrow> string option) \<Rightarrow> factor \<Rightarrow> tf_event \<Rightarrow> factor" where
  "tf_step qr f (Ev_Begin pw account now rand) = fst (begin_setup qr f pw account now rand)"
| "tf_step qr f (Ev_Confirm txt now rand) = fst (confirm f txt now rand)"
| "tf_step qr f (Ev_Sign_In txt now) = fst (sign_in f txt now)"
| "tf_step qr f (Ev_Disable pw txt now) = fst (disable f pw txt now)"
| "tf_step qr f (Ev_Renew pw txt now rand) = fst (renew_recovery_codes f pw txt now rand)"

text \<open>The code and time with which an event reaches \<open>check\<close>.\<close>

fun gate :: "factor \<Rightarrow> tf_event \<Rightarrow> (string \<times> gotime) option" where
  "gate f (Ev_Sign_In txt now) = (if on f then Some (txt, now) else None)"
| "gate f (Ev_Disable pw txt now) = (if on f \<and> pw then Some (txt, now) else None)"
| "gate f (Ev_Renew pw txt now rand) =
     (if on f \<and> pw \<and> \<not> isl (new_recovery_codes rand now) then Some (txt, now) else None)"
| "gate f _ = None"

text \<open>The request is answered as one that passed the second step; the step of the app code it accepts.\<close>

fun passes :: "factor \<Rightarrow> tf_event \<Rightarrow> bool" where
  "passes f (Ev_Sign_In txt now) = (\<not> isl (snd (sign_in f txt now)))"
| "passes f (Ev_Disable pw txt now) = (snd (disable f pw txt now) = None)"
| "passes f (Ev_Renew pw txt now rand) = (\<not> isl (snd (renew_recovery_codes f pw txt now rand)))"
| "passes f _ = False"

definition accepted_step :: "factor \<Rightarrow> tf_event \<Rightarrow> int option" where
  "accepted_step f e = (case e of
       Ev_Confirm txt now rand \<Rightarrow>
         (case confirm f txt now rand of (f', Inr _) \<Rightarrow> Some (f_last_step f') | _ \<Rightarrow> None)
     | _ \<Rightarrow> (case gate f e of None \<Rightarrow> None | Some (txt, now) \<Rightarrow>
         (case check f txt now of (f', Inr Method_App_Code) \<Rightarrow> Some (f_last_step f') | _ \<Rightarrow> None)))"

definition verified :: "factor \<Rightarrow> string \<Rightarrow> gotime \<Rightarrow> bool" where
  "verified f txt now \<longleftrightarrow> \<not> snd (normalize_recovery txt) \<and> snd (normalize txt)
     \<and> f_failures f < block_after \<and> \<not> now < f_locked_until f"

text \<open>The code typed into a request, and the request with another code.\<close>

fun entered :: "tf_event \<Rightarrow> (string \<times> gotime) option" where
  "entered (Ev_Sign_In txt now) = Some (txt, now)"
| "entered (Ev_Disable pw txt now) = Some (txt, now)"
| "entered (Ev_Renew pw txt now rand) = Some (txt, now)"
| "entered _ = None"

fun with_code :: "string \<Rightarrow> tf_event \<Rightarrow> tf_event" where
  "with_code c (Ev_Sign_In txt now) = Ev_Sign_In c now"
| "with_code c (Ev_Disable pw txt now) = Ev_Disable pw c now"
| "with_code c (Ev_Renew pw txt now rand) = Ev_Renew pw c now rand"
| "with_code c e = e"

text \<open>The app's codes around a time.\<close>

definition app_codes :: "factor \<Rightarrow> gotime \<Rightarrow> string list" where
  "app_codes f now = map (\<lambda>st. hotp (s_key (f_secret f)) (of_int st) 6) [step now - 1, step now, step now + 1]"

text \<open>
  A guess at the app code: six digits that are none of the app's codes, in a request that would pass
  with one of them. So whoever sends it learns that these digits are wrong.
\<close>

definition wrong_guess :: "factor \<Rightarrow> tf_event \<Rightarrow> bool" where
  "wrong_guess f e = (case entered e of None \<Rightarrow> False | Some (txt, now) \<Rightarrow>
     snd (normalize txt) \<and> \<not> snd (normalize_recovery txt) \<and> fst (normalize txt) \<notin> set (app_codes f now)
     \<and> list_ex (\<lambda>c. passes f (with_code c e)) (app_codes f now))"

fun accepted_steps :: "(string \<Rightarrow> string option) \<Rightarrow> factor \<Rightarrow> tf_event list \<Rightarrow> int list" where
  "accepted_steps qr f [] = []"
| "accepted_steps qr f (e # es) =
     (case accepted_step f e of None \<Rightarrow> [] | Some st \<Rightarrow> [st]) @ accepted_steps qr (tf_step qr f e) es"

fun wrong_guesses :: "(string \<Rightarrow> string option) \<Rightarrow> factor \<Rightarrow> tf_event list \<Rightarrow> int" where
  "wrong_guesses qr f [] = 0"
| "wrong_guesses qr f (e # es) = (if wrong_guess f e then 1 else 0) + wrong_guesses qr (tf_step qr f e) es"

subsection \<open>The outcomes of a check\<close>

lemmas const_defs = lock_after_def block_after_def

lemma verify_malformed: "snd (normalize txt) \<Longrightarrow> verify s txt t l \<noteq> Inl Err_Malformed"
  by (auto simp: verify_def Let_def split: prod.splits)

lemma failed_fields:
  "failed f now k = (f', r) \<Longrightarrow> f_failures f' = f_failures f + 1 \<and> f_revision f' = f_revision f + 1
     \<and> isl r \<and> f_recovery f' = f_recovery f \<and> f_last_step f' = f_last_step f \<and> f_secret f' = f_secret f
     \<and> f_confirmed_at f' = f_confirmed_at f \<and> f_recovery_failures f' = f_recovery_failures f
     \<and> f_created_at f' = f_created_at f \<and> f_last_used_at f' = f_last_used_at f"
  by (auto simp: failed_def Let_def split: if_splits)

lemma passed_fields [simp]:
  "f_failures (passed f now) = 0" "f_recovery_failures (passed f now) = 0" "f_locked_until (passed f now) = 0"
  "f_revision (passed f now) = f_revision f + 1" "f_recovery (passed f now) = f_recovery f"
  "f_last_step (passed f now) = f_last_step f" "f_secret (passed f now) = f_secret f"
  "f_confirmed_at (passed f now) = f_confirmed_at f"
  by (simp_all add: passed_def)

text \<open>The six ways a check ends.\<close>

lemma check_cases:
  assumes "check f txt now = (f', r)"
  obtains (recovery) norm rs where "normalize_recovery txt = (norm, True)" "use_norm (f_recovery f) norm = (rs, True)"
      "f' = passed (f\<lparr>f_recovery := rs\<rparr>) now" "r = Inr Method_Recovery_Code"
    | (recovery_wrong) norm rs where "normalize_recovery txt = (norm, True)" "use_norm (f_recovery f) norm = (rs, False)"
      "f' = f\<lparr>f_recovery_failures := f_recovery_failures f + 1, f_revision := f_revision f + 1\<rparr>"
      "r = Inl (refused Kind_Recovery_Code_Wrong)"
    | (ignored) e where "\<not> snd (normalize_recovery txt)" "\<not> verified f txt now" "f' = f" "r = Inl e"
    | (reused) "verified f txt now" "verify (f_secret f) txt now (f_last_step f) = Inl Err_Reused" "f' = f"
      "r = Inl (refused Kind_Code_Reused)"
    | (wrong) "verified f txt now" "verify (f_secret f) txt now (f_last_step f) = Inl Err_Wrong"
      "failed f now Kind_Code_Wrong = (f', r)"
    | (app) st where "verified f txt now" "verify (f_secret f) txt now (f_last_step f) = Inr st"
      "f' = passed (f\<lparr>f_last_step := st\<rparr>) now" "r = Inr Method_App_Code"
proof (cases "snd (normalize_recovery txt)")
  case True
  obtain norm where n: "normalize_recovery txt = (norm, True)" using True by (cases "normalize_recovery txt") auto
  obtain rs used where u: "use_norm (f_recovery f) norm = (rs, used)" by fastforce
  show ?thesis using assms n u that(1,2) by (cases used) (auto simp: check_def)
next
  case False
  then obtain norm where n: "normalize_recovery txt = (norm, False)" by (cases "normalize_recovery txt") auto
  show ?thesis
  proof (cases "verified f txt now")
    case True
    then have ok: "snd (normalize txt)" "f_failures f < block_after" "\<not> now < f_locked_until f"
      by (simp_all add: verified_def)
    then have eq: "check f txt now = (case verify (f_secret f) txt now (f_last_step f) of
               Inl Err_Reused \<Rightarrow> (f, Inl (refused Kind_Code_Reused))
             | Inl _ \<Rightarrow> failed f now Kind_Code_Wrong
             | Inr st \<Rightarrow> (passed (f\<lparr>f_last_step := st\<rparr>) now, Inr Method_App_Code))"
      by (simp add: check_def n)
    show ?thesis
    proof (cases "verify (f_secret f) txt now (f_last_step f)")
      case (Inl e)
      then have "check f txt now = (if e = Err_Reused then (f, Inl (refused Kind_Code_Reused)) else failed f now Kind_Code_Wrong)"
        by (cases e) (simp_all add: eq)
      moreover have "e \<noteq> Err_Malformed" using Inl verify_malformed [OF ok(1)] by auto
      ultimately show ?thesis
        using assms Inl reused [OF True] wrong [OF True] by (cases e) simp_all
    next
      case (Inr st)
      then show ?thesis using assms app [OF True Inr] by (simp add: eq)
    qed
  next
    case unv: False
    then have "\<exists>e. check f txt now = (f, Inl e)"
      using False by (auto simp: verified_def check_def n)
    then obtain e where "f' = f" "r = Inl e" using assms by auto
    then show ?thesis by (rule ignored [OF False unv])
  qed
qed

lemma verified_not_recovery: "verified f txt now \<Longrightarrow> \<not> snd (normalize_recovery txt)"
  by (simp add: verified_def)

text \<open>Each operation through its check.\<close>

lemma fst_sign_in: "fst (sign_in f txt now) = (if on f then fst (check f txt now) else f)"
  by (auto simp: sign_in_def Let_def split: prod.splits sum.splits)

lemma disable_cases:
  "disable f pw txt now =
     (if on f \<and> pw then (case check f txt now of (f', Inl e) \<Rightarrow> (f', Some e) | (_, Inr _) \<Rightarrow> (zero_factor, None))
      else (f, Some (refused (if on f then Kind_Password_Wrong else Kind_Off))))"
  by (simp add: disable_def)

lemma fst_renew:
  "fst (renew_recovery_codes f pw txt now rand) =
     (if on f \<and> pw then
        (case new_recovery_codes rand now of Inl _ \<Rightarrow> f | Inr (rs, codes) \<Rightarrow>
           (case check f txt now of (f', Inl _) \<Rightarrow> f' | (f', Inr _) \<Rightarrow> f'\<lparr>f_recovery := rs\<rparr>))
      else f)"
  by (auto simp: renew_recovery_codes_def split: sum.splits prod.splits)

lemma passes_gate:
  "passes f e \<longleftrightarrow> (case gate f e of None \<Rightarrow> False | Some (txt, now) \<Rightarrow> \<not> isl (snd (check f txt now)))"
  by (cases e) (auto simp: sign_in_def disable_def renew_recovery_codes_def Let_def isl_def split: sum.splits prod.splits)

text \<open>What an event stores: nothing new, a new setup, a confirmed factor, or what \<open>check\<close> gave.\<close>

lemma fst_begin:
  "fst (begin_setup qr f pw account now rand) = f \<or> \<not> on f \<and> (\<exists>s. fst (begin_setup qr f pw account now rand)
     = zero_factor\<lparr>f_secret := s, f_created_at := now, f_revision := f_revision f + 1\<rparr>)"
  by (cases "new_secret rand") (auto simp: begin_setup_def Let_def split: sum.splits)

lemma tf_step_cases:
  obtains (same) "tf_step qr f e = f" "gate f e = None" "accepted_step f e = None"
    | (started) s now where "\<not> on f" "gate f e = None"
      "tf_step qr f e = zero_factor\<lparr>f_secret := s, f_created_at := now, f_revision := f_revision f + 1\<rparr>"
      "accepted_step f e = None"
    | (confirmed) entry now rand st rs codes where "e = Ev_Confirm entry now rand" "\<not> on f" "\<not> secret_is_zero (f_secret f)"
      "verify (f_secret f) entry now (f_last_step f) = Inr st" "new_recovery_codes rand now = Inr (rs, codes)"
      "tf_step qr f e = f\<lparr>f_confirmed_at := now, f_last_step := st, f_last_used_at := now, f_recovery := rs,
                    f_revision := f_revision f + 1\<rparr>"
    | (checked) entry now where "on f" "gate f e = Some (entry, now)" "tf_step qr f e = fst (check f entry now)"
    | (disabled) entry now where "on f" "gate f e = Some (entry, now)" "tf_step qr f e = zero_factor" "passes f e"
      "e = Ev_Disable True entry now"
    | (renewed) entry now f' m rand rs codes where "on f" "gate f e = Some (entry, now)" "check f entry now = (f', Inr m)"
      "new_recovery_codes rand now = Inr (rs, codes)" "tf_step qr f e = f'\<lparr>f_recovery := rs\<rparr>"
      "e = Ev_Renew True entry now rand"
proof (cases e)
  case (Ev_Begin pw account now rand)
  then have "tf_step qr f e = f \<or> \<not> on f \<and> (\<exists>s. tf_step qr f e
      = zero_factor\<lparr>f_secret := s, f_created_at := now, f_revision := f_revision f + 1\<rparr>)"
    using fst_begin by simp
  moreover have "gate f e = None" "accepted_step f e = None" using Ev_Begin by (simp_all add: accepted_step_def)
  ultimately show ?thesis using same started by blast
next
  case (Ev_Confirm entry now rand)
  have same': "confirm f entry now rand = (f, Inl err) \<Longrightarrow> tf_step qr f e = f \<and> gate f e = None \<and> accepted_step f e = None" for err
    using Ev_Confirm by (simp add: accepted_step_def)
  show ?thesis
  proof (cases "\<exists>err. confirm f entry now rand = (f, Inl err)")
    case False
    then have "setup_error f now = None" by (auto simp: confirm_def split: option.splits)
    moreover from this False obtain st where st: "verify (f_secret f) entry now (f_last_step f) = Inr st"
      by (auto simp: confirm_def split: sum.splits totp_error.splits)
    moreover from calculation False obtain rs codes where "new_recovery_codes rand now = Inr (rs, codes)"
      by (cases "new_recovery_codes rand now") (auto simp: confirm_def)
    ultimately show ?thesis
      using that(3) [OF Ev_Confirm] Ev_Confirm by (auto simp: confirm_def setup_error_def split: if_splits)
  next
    case True
    then obtain err where "confirm f entry now rand = (f, Inl err)" by blast
    from same' [OF this] show ?thesis by (intro same) simp_all
  qed
next
  case (Ev_Sign_In entry now)
  then show ?thesis using that(1,4) by (cases "on f") (simp_all add: fst_sign_in accepted_step_def)
next
  case (Ev_Disable pw entry now)
  show ?thesis
  proof (cases "on f \<and> pw")
    case True
    then have gate: "gate f e = Some (entry, now)" using Ev_Disable by simp
    obtain f' r where c: "check f entry now = (f', r)" by fastforce
    show ?thesis
    proof (cases r)
      case (Inl err)
      then show ?thesis using that(4) [OF _ gate] True c Ev_Disable by (simp add: disable_cases)
    next
      case (Inr m)
      then show ?thesis using that(5) [OF _ gate] True c Ev_Disable gate by (simp add: disable_cases)
    qed
  qed (use that(1) Ev_Disable in \<open>auto simp: disable_cases accepted_step_def\<close>)
next
  case (Ev_Renew pw entry now rand)
  show ?thesis
  proof (cases "on f \<and> pw \<and> \<not> isl (new_recovery_codes rand now)")
    case True
    then have gate: "gate f e = Some (entry, now)" using Ev_Renew by simp
    obtain rs codes where n: "new_recovery_codes rand now = Inr (rs, codes)"
      using True by (cases "new_recovery_codes rand now") auto
    obtain f' r where c: "check f entry now = (f', r)" by fastforce
    show ?thesis
    proof (cases r)
      case (Inl err)
      then show ?thesis using that(4) [OF _ gate] True c n Ev_Renew by (simp add: fst_renew)
    next
      case (Inr m)
      then show ?thesis using that(6) [OF _ gate _ n] True c n Ev_Renew by (simp add: fst_renew)
    qed
  next
    case False
    then show ?thesis using that(1) Ev_Renew
      by (cases "new_recovery_codes rand now") (auto simp: fst_renew accepted_step_def)
  qed
qed

subsection \<open>The invariant of a stored factor\<close>

definition factor_ok :: "factor \<Rightarrow> bool" where
  "factor_ok f \<longleftrightarrow> 0 \<le> f_failures f \<and> f_failures f \<le> block_after \<and> 0 \<le> f_recovery_failures f
     \<and> 0 \<le> f_last_step f \<and> set_ok (f_recovery f)
     \<and> (f_failures f < lock_after \<or> f_failures f = block_after \<longrightarrow> f_locked_until f = zero_time)
     \<and> (\<not> on f \<longrightarrow> f_failures f = 0)"

lemma factor_ok_zero: "factor_ok zero_factor"
  by (simp add: factor_ok_def zero_factor_def set_ok_def unused_def const_defs)

lemma set_ok_new: "new_recovery_codes rand now = Inr (rs, codes) \<Longrightarrow> set_ok rs"
  by (drule new_recovery_codes_spec) (auto simp: set_ok_def unused_def)

lemma failed_locks:
  "failed f now k = (f', r) \<Longrightarrow> f_failures f < block_after \<Longrightarrow> 0 \<le> f_failures f \<Longrightarrow>
    (f_failures f' < lock_after \<longrightarrow> f_locked_until f' = f_locked_until f)
    \<and> (f_failures f' = block_after \<longrightarrow> f_locked_until f' = zero_time)
    \<and> (lock_after \<le> f_failures f' \<and> f_failures f' < block_after \<longrightarrow>
         f_locked_until f' = now + minute * 2 ^ nat (min (f_failures f' - lock_after) 4))"
  by (auto simp: failed_def Let_def const_defs split: if_splits)

lemma factor_ok_check:
  assumes "factor_ok f" and "check f txt now = (f', r)" and "on f"
  shows "factor_ok f'"
  using assms(2)
proof (cases rule: check_cases)
  case (recovery norm rs)
  then show ?thesis using assms(1) use_norm_ok(1) [of "f_recovery f" norm rs]
    by (auto simp: factor_ok_def const_defs)
next
  case (app st)
  then show ?thesis using assms(1) verify_Inr [OF app(2)] by (auto simp: factor_ok_def const_defs)
next
  case wrong
  then have "f_failures f < block_after" by (simp add: verified_def)
  then show ?thesis
    using assms(1,3) failed_fields [OF wrong(3)] failed_locks [OF wrong(3)]
    by (auto simp: factor_ok_def on_def const_defs)
qed (use assms in \<open>auto simp: factor_ok_def on_def\<close>)

lemma factor_ok_step: "factor_ok f \<Longrightarrow> factor_ok (tf_step qr f e)"
proof (cases rule: tf_step_cases [of qr f e])
  case (started s now)
  then show "factor_ok f \<Longrightarrow> ?thesis"
    by (auto simp: factor_ok_def zero_factor_def set_ok_def unused_def const_defs)
next
  case (confirmed entry now rand st rs codes)
  then show "factor_ok f \<Longrightarrow> ?thesis"
    using set_ok_new [OF confirmed(5)] verify_Inr [OF confirmed(4)] by (auto simp: factor_ok_def const_defs)
next
  case (checked entry now)
  then show "factor_ok f \<Longrightarrow> ?thesis"
    using factor_ok_check [of f entry now "fst (check f entry now)" "snd (check f entry now)"] by simp
next
  case (renewed entry now f' m rand rs codes)
  then show "factor_ok f \<Longrightarrow> ?thesis"
    using factor_ok_check [OF _ renewed(3)] set_ok_new [OF renewed(4)] by (auto simp: factor_ok_def on_def)
qed (simp_all add: factor_ok_zero)

interpretation tf: machine "tf_step qr" factor_ok for qr
  by unfold_locales (rule factor_ok_step)

subsection \<open>Replay protection\<close>

lemma check_last_step:
  assumes "check f txt now = (f', r)"
  shows "f_last_step f \<le> f_last_step f'"
    and "r = Inr Method_App_Code \<Longrightarrow> f_last_step f < f_last_step f' \<and> \<bar>f_last_step f' - step now\<bar> \<le> 1"
    and "f_confirmed_at f' = f_confirmed_at f"
  using assms
proof (atomize (full), cases rule: check_cases)
  case wrong
  then show "f_last_step f \<le> f_last_step f' \<and> (r = Inr Method_App_Code \<longrightarrow> f_last_step f < f_last_step f' \<and>
      \<bar>f_last_step f' - step now\<bar> \<le> 1) \<and> f_confirmed_at f' = f_confirmed_at f"
    using failed_fields [OF wrong(3)] by (auto simp: isl_def)
next
  case (app st)
  then show "f_last_step f \<le> f_last_step f' \<and> (r = Inr Method_App_Code \<longrightarrow> f_last_step f < f_last_step f' \<and>
      \<bar>f_last_step f' - step now\<bar> \<le> 1) \<and> f_confirmed_at f' = f_confirmed_at f"
    using verify_Inr [OF app(2)] by simp
qed simp_all

lemma accepted_gate:
  "gate f e = Some (entry, now) \<Longrightarrow> accepted_step f e =
     (case check f entry now of (f', Inr Method_App_Code) \<Rightarrow> Some (f_last_step f') | _ \<Rightarrow> None)"
  by (cases e) (auto simp: accepted_step_def)

lemma accepted_last_step:
  assumes "on (tf_step qr f e)"
  shows "f_last_step f \<le> f_last_step (tf_step qr f e)
    \<and> (\<forall>st. accepted_step f e = Some st \<longrightarrow> f_last_step f < st \<and> f_last_step (tf_step qr f e) = st)"
proof (cases rule: tf_step_cases [of qr f e])
  case (started s now)
  then show ?thesis using assms by (simp add: on_def zero_factor_def)
next
  case (confirmed entry now rand st rs codes)
  have "setup_error f now = None"
  proof (rule ccontr)
    assume "setup_error f now \<noteq> None"
    then have "tf_step qr f e = f" using confirmed(1) by (auto simp: confirm_def)
    then show False using confirmed(2) assms by simp
  qed
  then show ?thesis
    using confirmed verify_Inr [OF confirmed(4)] by (simp add: accepted_step_def confirm_def)
next
  case (checked entry now)
  obtain f' r where c: "check f entry now = (f', r)" by fastforce
  show ?thesis
    using check_last_step [OF c] checked c
    by (auto simp: accepted_gate [OF checked(2)] split: sum.splits tf_method.splits)
next
  case (disabled entry now)
  then show ?thesis using assms by (simp add: on_def zero_factor_def)
next
  case (renewed entry now f' m rand rs codes)
  show ?thesis
    using check_last_step [OF renewed(3)] renewed(3,5)
    by (auto simp: accepted_gate [OF renewed(2)] split: tf_method.splits)
qed simp

text \<open>C1: No app code works twice, and none works after a newer one: as long as the factor stays on,
  the time steps of the codes that were accepted, by whatever requests in whatever order and at
  whatever times, strictly increase, and all are beyond the step accepted before.\<close>

theorem app_codes_accepted_once:
  assumes "run_ok (tf_step qr) (\<lambda>f e. on (tf_step qr f e)) f es"
  shows "sorted_wrt (<) (accepted_steps qr f es) \<and> (\<forall>st \<in> set (accepted_steps qr f es). f_last_step f < st)"
  using assms
proof (induction es arbitrary: f)
  case (Cons e es)
  let ?f = "tf_step qr f e"
  have IH: "sorted_wrt (<) (accepted_steps qr ?f es)" "\<forall>st \<in> set (accepted_steps qr ?f es). f_last_step ?f < st"
    using Cons.IH [of ?f] Cons.prems by simp_all
  have "f_last_step f \<le> f_last_step ?f"
    "\<forall>st. accepted_step f e = Some st \<longrightarrow> f_last_step f < st \<and> f_last_step ?f = st"
    using accepted_last_step [of qr f e] Cons.prems by simp_all
  with IH show ?case by (cases "accepted_step f e") force+
qed simp

subsection \<open>How many guesses there are\<close>

lemma recovery_loop_length: "normalize_recovery_loop rs b = Some n \<Longrightarrow> length n \<le> length b + length rs"
proof (induction rs arbitrary: b)
  case (Cons r rs)
  then show ?case by (auto simp: Let_def split: if_splits dest!: Cons.IH)
qed simp

lemma not_recovery_hotp: "\<not> snd (normalize_recovery (hotp k c 6))"
proof -
  have "\<forall>x \<in> set (hotp k c 6). code x < 128" using hotp_digits [of k c] by (fastforce simp: list_all_iff is_digit_def)
  then have "length (rune_values (hotp k c 6)) = 6" by (simp add: rune_values_ascii hotp_length)
  then show ?thesis using recovery_loop_length [of "rune_values (hotp k c 6)" "[]"]
    by (auto simp: normalize_recovery_def recovery_len_def split: option.splits)
qed

text \<open>A guess is compared with the app's codes and counted.\<close>

lemma wrong_guess_counted:
  assumes "wrong_guess f e"
  obtains entry now where "gate f e = Some (entry, now)" and "verified f entry now"
    and "verify (f_secret f) entry now (f_last_step f) = Inl Err_Wrong"
proof -
  from assms obtain entry now c where e: "entered e = Some (entry, now)" "snd (normalize entry)" "\<not> snd (normalize_recovery entry)"
    "fst (normalize entry) \<notin> set (app_codes f now)" "c \<in> set (app_codes f now)" "passes f (with_code c e)"
    by (auto simp: wrong_guess_def list_ex_iff split: option.splits)
  have "gate f (with_code c e) = map_option (\<lambda>(txt, now). (c, now)) (gate f e)" by (cases e) auto
  moreover have "gate f e = None \<or> gate f e = Some (entry, now)" using e(1) by (cases e) auto
  ultimately have g: "gate f e = Some (entry, now)" "\<not> isl (snd (check f c now))"
    using e(6) by (auto simp: passes_gate split: option.splits)
  obtain f' r where ch: "check f c now = (f', r)" by fastforce
  have c: "\<not> snd (normalize_recovery c)" using e(5) not_recovery_hotp by (auto simp: app_codes_def)
  have open': "verified f c now \<and> (\<exists>st. verify (f_secret f) c now (f_last_step f) = Inr st)"
    using ch
  proof (cases rule: check_cases)
    case wrong
    then show ?thesis using failed_fields [OF wrong(3)] g(2) ch by simp
  qed (use c g(2) ch in auto)
  then have "\<not> secret_is_zero (f_secret f)" by (auto simp: verify_def split: prod.splits if_splits)
  moreover obtain d where d: "normalize entry = (d, True)" using e(2) by (cases "normalize entry") auto
  have "st \<notin> matches (f_secret f) d now" for st
  proof
    assume m: "st \<in> matches (f_secret f) d now"
    then have "st = step now - 1 \<or> st = step now \<or> st = step now + 1" unfolding matches_def by auto
    then show False using m e(4) d by (auto simp: matches_def app_codes_def)
  qed
  then have "matches (f_secret f) d now = {}" by blast
  ultimately have "verify (f_secret f) entry now (f_last_step f) = Inl Err_Wrong" using d by (simp add: verify_cases)
  moreover have "verified f entry now" using open' e(2,3) by (simp add: verified_def)
  ultimately show thesis using that g(1) by blast
qed

lemma step_guesses:
  assumes "factor_ok f" and "\<not> passes f e"
  shows "f_failures f + (if wrong_guess f e then 1 else 0) \<le> f_failures (tf_step qr f e)"
proof (cases "wrong_guess f e")
  case True
  then obtain entry now where w: "gate f e = Some (entry, now)" "verified f entry now"
    "verify (f_secret f) entry now (f_last_step f) = Inl Err_Wrong" by (rule wrong_guess_counted)
  have c: "check f entry now = failed f now Kind_Code_Wrong"
    using w(2,3) by (auto simp: check_def verified_def split: prod.splits)
  have "isl (snd (check f entry now))" using w(1) assms(2) by (simp add: passes_gate del: passes.simps)
  then have "tf_step qr f e = fst (check f entry now)"
    using w(1) by (cases e) (auto simp: fst_sign_in disable_cases fst_renew split: if_splits sum.splits prod.splits)
  then show ?thesis using True c failed_fields [of f now Kind_Code_Wrong "fst (failed f now Kind_Code_Wrong)" "snd (failed f now Kind_Code_Wrong)"]
    by simp
next
  case False
  show ?thesis
  proof (cases rule: tf_step_cases [of qr f e])
    case (checked entry now)
    obtain f' r where c: "check f entry now = (f', r)" by fastforce
    have "isl r" using assms(2) checked(2) c by (simp add: passes_gate)
    with c show ?thesis
    proof (cases rule: check_cases)
      case wrong
      then show ?thesis using failed_fields [OF wrong(3)] c checked(3) False by simp
    qed (use c checked(3) False in auto)
  next
    case (disabled entry now)
    then show ?thesis using assms(2) by simp
  next
    case (renewed entry now f' m rand rs codes)
    then show ?thesis using assms(2) by (simp add: passes_gate)
  qed (use assms(1) False in \<open>auto simp: zero_factor_def factor_ok_def\<close>)
qed

text \<open>C2: Someone who knows the password gets at most \<open>BlockAfter\<close> (100) guesses at the app code: in
  any sequence of requests in which no second step is passed, however they are spaced in time, at
  most 100, less those that were counted before, hold six wrong digits where the right ones would
  have passed.\<close>

theorem at_most_block_after_guesses:
  assumes "factor_ok f" and "run_ok (tf_step qr) (\<lambda>f e. \<not> passes f e) f es"
  shows "wrong_guesses qr f es \<le> block_after - f_failures f"
proof -
  have "f_failures f + wrong_guesses qr f es \<le> f_failures (foldl (tf_step qr) f es)"
    using assms
  proof (induction es arbitrary: f)
    case (Cons e es)
    then have "f_failures f + (if wrong_guess f e then 1 else 0) \<le> f_failures (tf_step qr f e)"
      by (intro step_guesses) simp_all
    then show ?case using Cons.IH [of "tf_step qr f e"] Cons.prems factor_ok_step [of f qr e] by simp
  qed simp
  moreover have "factor_ok (foldl (tf_step qr) f es)" by (rule tf.inv_any_run [OF assms(1)])
  ultimately show ?thesis by (simp add: factor_ok_def)
qed

subsection \<open>Witness data\<close>

definition sample_secret :: secret where
  "sample_secret = \<lparr>s_key = bytes_of ''12345678901234567890''\<rparr>"

definition sample_factor :: factor where
  "sample_factor = zero_factor\<lparr>f_secret := sample_secret, f_confirmed_at := 1,
     f_recovery := \<lparr>hashes = [hash_recovery ''abcdefghijkmnpqr'', []], rs_created_at = 1\<rparr>\<rparr>"

lemma verify_before_1970: "normalize txt = (d, True) \<Longrightarrow> \<not> secret_is_zero s \<Longrightarrow> step t < -1 \<Longrightarrow>
    verify s txt t l = Inl Err_Wrong"
  by (simp add: verify_cases matches_def)

lemma on_stays:
  "on f \<Longrightarrow> on (tf_step qr f (Ev_Sign_In entry now))"
  using check_last_step(3) [of f entry now "fst (check f entry now)" "snd (check f entry now)"]
  by (simp add: fst_sign_in on_def)

lemma sample_ok: "factor_ok sample_factor" "on sample_factor"
  by (simp_all add: factor_ok_def sample_factor_def zero_factor_def set_ok_def unused_def const_defs on_def)

lemma sample_wrong:
  "\<lbrakk>f_secret f = sample_secret; on f; f_failures f < lock_after; f_locked_until f = 0\<rbrakk> \<Longrightarrow>
    check f ''123456'' 1 = failed f 1 Kind_Code_Wrong"
proof -
  assume f: "f_secret f = sample_secret" "on f" "f_failures f < lock_after" "f_locked_until f = 0"
  have "normalize_recovery ''123456'' = ([], False)"
    by (simp add: normalize_recovery_def text_eval is_space_def is_dash_def recovery_alphabet_def)
  moreover have "normalize ''123456'' = (''123456'', True)"
    by (simp add: normalize_def text_eval digits_len_def)
  moreover have "step 1 < -1" by (simp add: step_div unix_sec_def unix_epoch_sec_def)
  moreover have "\<not> secret_is_zero sample_secret" by (simp add: secret_is_zero_def sample_secret_def bytes_of_def)
  ultimately show ?thesis using f by (simp add: check_def verify_before_1970 const_defs)
qed

theorem app_codes_accepted_once_witness:
  "sorted_wrt (<) (accepted_steps (\<lambda>u. Some u) sample_factor
      [Ev_Sign_In ''123456'' (from_unix_milli 1700000000000), Ev_Sign_In ''123456'' (from_unix_milli 1700000000000)])"
  using app_codes_accepted_once [of "\<lambda>u. Some u" sample_factor "[Ev_Sign_In ''123456'' (from_unix_milli 1700000000000), Ev_Sign_In ''123456'' (from_unix_milli 1700000000000)]"]
    on_stays sample_ok(2) by (simp del: tf_step.simps)

theorem at_most_block_after_guesses_witness:
  "wrong_guesses (\<lambda>u. Some u) sample_factor [Ev_Sign_In ''123456'' 1, Ev_Sign_In ''123456'' 1] \<le> 100"
proof -
  let ?f = "fst (failed sample_factor 1 Kind_Code_Wrong)"
  have s: "f_secret sample_factor = sample_secret" "f_failures sample_factor = 0" "f_locked_until sample_factor = 0"
    by (simp_all add: sample_factor_def zero_factor_def)
  have first: "check sample_factor ''123456'' 1 = failed sample_factor 1 Kind_Code_Wrong"
    using s sample_ok(2) by (intro sample_wrong) (simp_all add: const_defs)
  have f: "f_secret ?f = sample_secret" "f_failures ?f = 1" "f_locked_until ?f = 0" "on ?f"
    using s sample_ok(2) by (simp_all add: failed_def Let_def const_defs on_def)
  then have second: "check ?f ''123456'' 1 = failed ?f 1 Kind_Code_Wrong"
    by (intro sample_wrong) (simp_all add: const_defs)
  have isl: "isl (snd (failed g n k))" for g n k
    using failed_fields [of g n k "fst (failed g n k)" "snd (failed g n k)"] by simp
  have "run_ok (tf_step (\<lambda>u. Some u)) (\<lambda>f e. \<not> passes f e) sample_factor [Ev_Sign_In ''123456'' 1, Ev_Sign_In ''123456'' 1]"
    using first second f(4) sample_ok(2) isl by (simp add: passes_gate fst_sign_in del: passes.simps)
  then show ?thesis
    using at_most_block_after_guesses [OF sample_ok(1)] s by (fastforce simp: const_defs)
qed

subsection \<open>Locks\<close>

text \<open>After the fifth wrong code in a row app codes are locked for a minute, and each further one
  doubles the lock up to 16 minutes: until then every app code is refused without being compared
  or counted, and the refusal says how long the lock still lasts.\<close>

theorem wrong_codes_lock:
  assumes "check f entry now = (f', Inl e)" and "f_failures f' = f_failures f + 1" and "f_failures f = n"
    and "lock_after \<le> n + 1" and "n + 1 < block_after" and "now \<le> now'"
    and "now' < now + minute * 2 ^ nat (min (n + 1 - lock_after) 4)"
    and "\<not> snd (normalize_recovery entry')" and "snd (normalize entry')"
  shows "check f' entry' now' = (f', Inl (Refused \<lparr>e_kind = Kind_App_Codes_Locked,
    e_retry_after = now + minute * 2 ^ nat (min (n + 1 - lock_after) 4) - now'\<rparr>))"
  using assms(1)
proof (cases rule: check_cases)
  case wrong
  let ?d = "minute * 2 ^ nat (min (n + 1 - lock_after) 4) :: int"
  have "f_locked_until f' = now + ?d"
    using failed_locks [OF wrong(3)] assms(2-5) by (simp add: const_defs)
  moreover have "time_sub (now + ?d) now' = now + ?d - now'"
  proof (rule time_sub_small)
    have "(2::int) ^ nat (min (n + 1 - lock_after) 4) \<le> 2 ^ 4"
      by (rule power_increasing) simp_all
    then show "now + ?d - now' < 2 ^ 63" using assms(6) by simp
  qed (use assms(7) in simp)
  moreover obtain norm where "normalize_recovery entry' = (norm, False)"
    using assms(8) by (cases "normalize_recovery entry'") auto
  ultimately show ?thesis
    using assms by (simp add: check_def)
qed (use assms in auto)

theorem wrong_codes_lock_witness:
  "let f = sample_factor\<lparr>f_failures := 5\<rparr>; f' = fst (check f ''123456'' 1)
   in f_failures f' = 6 \<and> check f' ''654 321'' (1 + 90 * second)
        = (f', Inl (Refused \<lparr>e_kind = Kind_App_Codes_Locked, e_retry_after = 30 * second\<rparr>))"
proof -
  let ?f = "sample_factor\<lparr>f_failures := 5\<rparr>"
  let ?f' = "fst (failed ?f 1 Kind_Code_Wrong)"
  have n: "normalize_recovery ''123456'' = ([], False)" "normalize_recovery ''654 321'' = ([], False)"
    by (simp_all add: normalize_recovery_def text_eval is_space_def is_dash_def recovery_alphabet_def)
  have d: "normalize ''123456'' = (''123456'', True)" "normalize ''654 321'' = (''654321'', True)"
    by (simp_all add: normalize_def text_eval digits_len_def is_space_def)
  have "step 1 < -1" by (simp add: step_div unix_sec_def unix_epoch_sec_def)
  moreover have "\<not> secret_is_zero sample_secret" by (simp add: secret_is_zero_def sample_secret_def bytes_of_def)
  ultimately have "check ?f ''123456'' 1 = failed ?f 1 Kind_Code_Wrong"
    using n d by (simp add: check_def sample_factor_def zero_factor_def verify_before_1970 const_defs)
  moreover have "failed ?f 1 Kind_Code_Wrong = (?f', Inl (Refused \<lparr>e_kind = Kind_App_Codes_Locked, e_retry_after = 120 * second\<rparr>))"
    and six: "f_failures ?f' = 6"
    by (simp_all add: failed_def Let_def const_defs sample_factor_def zero_factor_def time_sub_def
        max_duration_def min_duration_def)
  ultimately have c: "check ?f ''123456'' 1 = (?f', Inl (Refused \<lparr>e_kind = Kind_App_Codes_Locked, e_retry_after = 120 * second\<rparr>))"
    by simp
  have "check ?f' ''654 321'' (1 + 90 * second) = (?f', Inl (Refused \<lparr>e_kind = Kind_App_Codes_Locked,
      e_retry_after = 1 + minute * 2 ^ nat (min (5 + 1 - lock_after) 4) - (1 + 90 * second)\<rparr>))"
    by (rule wrong_codes_lock [OF c]) (use six n d in \<open>simp_all add: const_defs\<close>)
  then show ?thesis using c six by (simp add: Let_def const_defs)
qed

subsection \<open>Recovery codes over a run\<close>

definition accepted_hash :: "factor \<Rightarrow> tf_event \<Rightarrow> string option" where
  "accepted_hash f e = (case gate f e of None \<Rightarrow> None | Some (txt, now) \<Rightarrow>
     (case check f txt now of (_, Inr Method_Recovery_Code) \<Rightarrow> Some (hash_recovery (fst (normalize_recovery txt)))
      | _ \<Rightarrow> None))"

fun accepted_hashes :: "(string \<Rightarrow> string option) \<Rightarrow> factor \<Rightarrow> tf_event list \<Rightarrow> string list" where
  "accepted_hashes qr f [] = []"
| "accepted_hashes qr f (e # es) =
     (case accepted_hash f e of None \<Rightarrow> [] | Some h \<Rightarrow> [h]) @ accepted_hashes qr (tf_step qr f e) es"

text \<open>The event keeps the factor on and does not replace the recovery codes by new ones.\<close>

definition keeps_codes :: "(string \<Rightarrow> string option) \<Rightarrow> factor \<Rightarrow> tf_event \<Rightarrow> bool" where
  "keeps_codes qr f e \<longleftrightarrow> on f \<and> on (tf_step qr f e)
     \<and> (case e of Ev_Renew pw txt now rand \<Rightarrow> isl (snd (renew_recovery_codes f pw txt now rand)) | _ \<Rightarrow> True)"

lemma keeps_codes_step:
  assumes "factor_ok f" and "keeps_codes qr f e"
  shows "(case accepted_hash f e of
      None \<Rightarrow> unused (f_recovery (tf_step qr f e)) = unused (f_recovery f)
    | Some h \<Rightarrow> h \<in> set (unused (f_recovery f))
        \<and> unused (f_recovery (tf_step qr f e)) = removeAll h (unused (f_recovery f)))"
proof (cases rule: tf_step_cases [of qr f e])
  case (checked entry now)
  obtain f' r where c: "check f entry now = (f', r)" by fastforce
  have ok: "set_ok (f_recovery f)" using assms(1) by (simp add: factor_ok_def)
  from c show ?thesis
  proof (cases rule: check_cases)
    case (recovery norm rs)
    then show ?thesis using checked c use_norm_ok(2,3) [OF ok recovery(2)] by (simp add: accepted_hash_def)
  next
    case wrong
    then show ?thesis using checked c failed_fields [OF wrong(3)] by (auto simp: accepted_hash_def isl_def)
  qed (use checked c in \<open>simp_all add: accepted_hash_def\<close>)
next
  case (renewed entry now f' m rand rs codes)
  then show ?thesis using assms(2) by (simp add: keeps_codes_def renew_recovery_codes_def)
qed (use assms(2) in \<open>auto simp: keeps_codes_def accepted_hash_def on_def zero_factor_def\<close>)

text \<open>C3: A recovery code works once: over any requests that keep the factor on and its set of codes,
  the stored hashes of the recovery codes that were accepted are all different, and each was an
  unused one of the set.\<close>

theorem recovery_codes_accepted_once:
  assumes "factor_ok f" and "run_ok (tf_step qr) (keeps_codes qr) f es"
  shows "distinct (accepted_hashes qr f es) \<and> set (accepted_hashes qr f es) \<subseteq> set (unused (f_recovery f))"
  using assms
proof (induction es arbitrary: f)
  case (Cons e es)
  have IH: "distinct (accepted_hashes qr (tf_step qr f e) es)
      \<and> set (accepted_hashes qr (tf_step qr f e) es) \<subseteq> set (unused (f_recovery (tf_step qr f e)))"
    using Cons.prems by (intro Cons.IH) (simp_all add: factor_ok_step)
  show ?case
    using IH keeps_codes_step [OF Cons.prems(1), of qr e] Cons.prems(2) by (cases "accepted_hash f e") auto
qed simp

theorem recovery_codes_accepted_once_witness:
  "distinct (accepted_hashes (\<lambda>u. Some u) sample_factor
     [Ev_Sign_In ''ABCD-efgh-jkmn-pqr'' 5, Ev_Sign_In ''abcd-EFGH-jkmn-pqr'' 6])"
  using recovery_codes_accepted_once [OF sample_ok(1), of "\<lambda>u. Some u" "[Ev_Sign_In ''ABCD-efgh-jkmn-pqr'' 5, Ev_Sign_In ''abcd-EFGH-jkmn-pqr'' 6]"]
    sample_ok(2) on_stays by (simp add: keeps_codes_def del: tf_step.simps)

text \<open>The set \<open>s\<close> stores the codes \<open>cs\<close>, shown as four dashed groups.\<close>

definition stores_codes :: "recovery_set \<Rightarrow> string list \<Rightarrow> bool" where
  "stores_codes s cs \<longleftrightarrow> (\<exists>ws. (\<forall>w \<in> set ws. set w \<subseteq> set recovery_alphabet \<and> length w = 16)
     \<and> hashes s = map hash_recovery ws \<and> cs = map dashed ws \<and> distinct (hashes s))"

text \<open>Making recovery codes gives ten codes and the set that stores them; it fails only when the
  random source ends early or repeats itself.\<close>

theorem new_codes_are_stored:
  "case new_recovery_codes rand now of
     Inl e \<Rightarrow> e = Random_Too_Short \<and> length rand < 100 \<or> e = Random_Repeated
   | Inr (s, cs) \<Rightarrow> length cs = 10 \<and> stores_codes s cs \<and> rs_created_at s = now"
proof (cases "new_recovery_codes rand now")
  case (Inl e)
  have "new_codes_loop rs hs cs = Inl e \<Longrightarrow> e = Random_Repeated" for rs hs cs
    by (induction rs hs cs rule: new_codes_loop.induct) (auto simp: Let_def split: if_splits)
  with Inl show ?thesis
    by (auto simp: new_recovery_codes_def read_full_def recovery_code_count_def recovery_len_def Let_def
        split: sum.splits prod.splits if_splits)
next
  case (Inr p)
  obtain s cs where p: "p = (s, cs)" by fastforce
  then show ?thesis using new_recovery_codes_spec [of rand now s cs] Inr by (auto simp: stores_codes_def)
qed

lemma check_stored_code:
  assumes "hashes (f_recovery f) = map hash_recovery ws" and "distinct (hashes (f_recovery f))"
    and "w \<in> set ws" and "set w \<subseteq> set recovery_alphabet" and "length w = 16"
  shows "\<exists>f'. check f (dashed w) now = (f', Inr Method_Recovery_Code)
    \<and> unused (f_recovery f') = removeAll (hash_recovery w) (unused (f_recovery f)) \<and> set_ok (f_recovery f')
    \<and> remaining (f_recovery f) = Suc (remaining (f_recovery f'))"
proof -
  have un: "unused (f_recovery f) = map hash_recovery ws"
    using assms(1) by (auto simp: unused_def filter_id_conv)
  have ok: "set_ok (f_recovery f)" using un assms(1,2) by (simp add: set_ok_def)
  obtain s' where s': "use_norm (f_recovery f) w = (s', True)"
    "unused s' = removeAll (hash_recovery w) (unused (f_recovery f))"
    using use_norm_spec [OF ok, of w] un assms(3) by auto
  then show ?thesis
    using normalize_dashed [OF assms(4,5)] use_norm_ok(1,4) [OF ok s'(1)] by (simp add: check_def)
qed

text \<open>Each of the codes a set stores passes the second step exactly once, whatever number of wrong
  codes went before and however long app codes are locked or blocked: afterwards the same code is
  refused, one code less is left, and the other codes still pass.\<close>

theorem each_recovery_code_works_once:
  assumes "stores_codes (f_recovery f) cs" and "c \<in> set cs"
  shows "\<exists>f'. check f c now = (f', Inr Method_Recovery_Code)
    \<and> remaining (f_recovery f') + 1 = remaining (f_recovery f)
    \<and> snd (check f' c later) = Inl (refused Kind_Recovery_Code_Wrong)
    \<and> (\<forall>c' \<in> set cs. c' \<noteq> c \<longrightarrow> snd (check f' c' later) = Inr Method_Recovery_Code)"
proof -
  obtain ws w where ws: "\<forall>w \<in> set ws. set w \<subseteq> set recovery_alphabet \<and> length w = 16"
    "hashes (f_recovery f) = map hash_recovery ws" "cs = map dashed ws" "distinct (hashes (f_recovery f))"
    and w: "w \<in> set ws" "c = dashed w"
    using assms by (auto simp: stores_codes_def)
  obtain f' where f': "check f c now = (f', Inr Method_Recovery_Code)"
      "unused (f_recovery f') = removeAll (hash_recovery w) (unused (f_recovery f))" "set_ok (f_recovery f')"
      "remaining (f_recovery f) = Suc (remaining (f_recovery f'))"
    using check_stored_code [OF ws(2,4) w(1)] ws(1) w by blast
  have un: "unused (f_recovery f) = map hash_recovery ws" using ws(2) by (auto simp: unused_def filter_id_conv)
  have norm: "normalize_recovery (dashed v) = (v, True)" if "v \<in> set ws" for v
    using normalize_dashed ws(1) that by blast
  have "snd (check f' c later) = Inl (refused Kind_Recovery_Code_Wrong)"
    using use_norm_spec [OF f'(3), of w] f'(2) norm [OF w(1)] w by (simp add: check_def)
  moreover have "snd (check f' c' later) = Inr Method_Recovery_Code" if "c' \<in> set cs" "c' \<noteq> c" for c'
  proof -
    obtain v where v: "v \<in> set ws" "c' = dashed v" using \<open>c' \<in> set cs\<close> ws(3) by auto
    then have "hash_recovery v \<in> set (unused (f_recovery f'))"
      using f'(2) un ws(2,4) w \<open>c' \<noteq> c\<close> by (auto simp: distinct_map inj_on_def)
    then show ?thesis
      using use_norm_spec [OF f'(3), of v] norm [OF v(1)] v(2) by (auto simp: check_def)
  qed
  ultimately show ?thesis using f'(1,4) by auto
qed

theorem each_recovery_code_works_once_witness:
  "let f = sample_factor\<lparr>f_failures := 100, f_recovery := \<lparr>hashes = [hash_recovery ''abcdefghijkmnpqr''], rs_created_at = 1\<rparr>\<rparr>
   in \<exists>f'. check f ''abcd-efgh-ijkm-npqr'' 7 = (f', Inr Method_Recovery_Code)
     \<and> remaining (f_recovery f') + 1 = remaining (f_recovery f)
     \<and> snd (check f' ''abcd-efgh-ijkm-npqr'' 8) = Inl (refused Kind_Recovery_Code_Wrong)"
proof -
  let ?f = "sample_factor\<lparr>f_failures := 100, f_recovery := \<lparr>hashes = [hash_recovery ''abcdefghijkmnpqr''], rs_created_at = 1\<rparr>\<rparr>"
  have "set ''abcdefghijkmnpqr'' \<subseteq> set recovery_alphabet \<and> length ''abcdefghijkmnpqr'' = 16
      \<and> dashed ''abcdefghijkmnpqr'' = ''abcd-efgh-ijkm-npqr''"
    by (simp add: recovery_alphabet_def dashed_def)
  then have "stores_codes (f_recovery ?f) [''abcd-efgh-ijkm-npqr'']"
    unfolding stores_codes_def by (intro exI [of _ "[''abcdefghijkmnpqr'']"]) simp
  from each_recovery_code_works_once [OF this, of "''abcd-efgh-ijkm-npqr''" 7 8] show ?thesis
    by (auto simp: Let_def)
qed

subsection \<open>What passes, and what changes\<close>

text \<open>C4: A request is answered as one that passed the second step (a session started, the factor turned off,
  new recovery codes shown) only with a proof: the typed text is an app code of a time step within one of
  the current one and beyond the last accepted, while app codes are neither locked nor blocked, or a
  recovery code whose hash is stored unused; and turning the factor off or renewing its codes needs the
  password too.\<close>

theorem second_step_needs_proof:
  assumes "passes f e"
  shows "on f \<and> (case e of Ev_Disable pw _ _ \<Rightarrow> pw | Ev_Renew pw _ _ _ \<Rightarrow> pw | _ \<Rightarrow> True)
    \<and> (\<exists>txt now. entered e = Some (txt, now) \<and>
        ((\<exists>st. fst (normalize txt) = hotp (s_key (f_secret f)) (of_int st) 6 \<and> \<bar>st - step now\<bar> \<le> 1 \<and> f_last_step f < st
             \<and> f_failures f < block_after \<and> f_locked_until f \<le> now)
         \<or> hash_recovery (fst (normalize_recovery txt)) \<in> set (hashes (f_recovery f))))"
proof -
  obtain entry now where g: "gate f e = Some (entry, now)" and "\<not> isl (snd (check f entry now))"
    using assms by (auto simp: passes_gate split: option.splits)
  then obtain f' m where c: "check f entry now = (f', Inr m)"
    by (metis isl_def prod.collapse sum.exhaust_sel)
  have pw: "on f \<and> (case e of Ev_Disable pw _ _ \<Rightarrow> pw | Ev_Renew pw _ _ _ \<Rightarrow> pw | _ \<Rightarrow> True) \<and> entered e = Some (entry, now)"
    using g by (cases e) (auto split: if_splits)
  from c show ?thesis
  proof (cases rule: check_cases)
    case (recovery norm rs)
    have "last_match (hash_recovery norm) (hashes (f_recovery f)) \<noteq> -1"
      using recovery(2) by (auto simp: use_norm_def last_match_def Let_def split: if_splits)
    then have "hash_recovery norm \<in> set (hashes (f_recovery f))"
      using last_match_found [OF hash_recovery_nonempty] by blast
    then show ?thesis using pw recovery(1) by auto
  next
    case (app st)
    then show ?thesis
      using pw verify_Inr [OF app(2)] by (auto simp: verified_def intro!: exI [of _ st])
  next
    case wrong
    then show ?thesis using failed_fields [OF wrong(3)] by simp
  qed simp_all
qed

theorem second_step_needs_proof_witness:
  "\<exists>now txt. passes sample_factor (Ev_Disable True txt now)
    \<and> hash_recovery (fst (normalize_recovery txt)) \<in> set (hashes (f_recovery sample_factor))"
proof -
  have n: "set ''abcdefghijkmnpqr'' \<subseteq> set recovery_alphabet" "length ''abcdefghijkmnpqr'' = 16"
    by (simp_all add: recovery_alphabet_def)
  have "use_norm (f_recovery sample_factor) ''abcdefghijkmnpqr''
      = (\<lparr>hashes = [[], []], rs_created_at = 1\<rparr>, True)"
    by (simp add: use_norm_def sample_factor_def)
  moreover have "gate sample_factor (Ev_Disable True (dashed ''abcdefghijkmnpqr'') 0) = Some (dashed ''abcdefghijkmnpqr'', 0)"
    using sample_ok(2) by simp
  ultimately have p: "passes sample_factor (Ev_Disable True (dashed ''abcdefghijkmnpqr'') 0)"
    using normalize_dashed [OF n] unfolding passes_gate by (simp add: check_def)
  with second_step_needs_proof [OF p] show ?thesis
    by (intro exI [of _ 0] exI [of _ "dashed ''abcdefghijkmnpqr''"])
      (use normalize_dashed [OF n] in \<open>auto simp: sample_factor_def\<close>)
qed

text \<open>A request leaves the stored factor as it is, or raises its revision by one, or deletes it; and
  a factor that is on is deleted only by turning it off with the password and a passed second step.\<close>

theorem every_change_counts:
  "tf_step qr f e = f \<or> f_revision (tf_step qr f e) = f_revision f + 1
    \<or> (on f \<and> tf_step qr f e = zero_factor \<and> passes f e \<and> (\<exists>txt now. e = Ev_Disable True txt now))"
proof (cases rule: tf_step_cases [of qr f e])
  case (checked entry now)
  obtain f' r where c: "check f entry now = (f', r)" by fastforce
  then show ?thesis
  proof (cases rule: check_cases)
    case wrong
    then show ?thesis using failed_fields [OF wrong(3)] checked(3) c by simp
  qed (use checked(3) c in simp_all)
next
  case (renewed entry now f' m rand rs codes)
  from renewed(3) show ?thesis
  proof (cases rule: check_cases)
    case wrong
    then show ?thesis using failed_fields [OF wrong(3)] by simp
  qed (use renewed(5) in simp_all)
qed auto

subsection \<open>Setting up\<close>

text \<open>Setting up works: when a setup was started, a phone that was given the key the page shows, and
  whose clock is within one time step of the server's, shows a code that confirms it at any moment
  of the next 15 minutes; the factor is then on, has the new recovery codes, and does not accept that
  code again.\<close>

theorem setup_can_be_confirmed:
  assumes "begin_setup qr f0 pw account t0 rand = (f, Inr su)" and "now < t0 + setup_ttl" and "now \<noteq> zero_time"
    and "parse_secret (manual_key su) = Some s" and "\<bar>step u - step now\<bar> \<le> 1" and "0 < step u"
  shows "pw \<and> \<not> on f0 \<and> s = f_secret f \<and> (case new_recovery_codes rand' now of
      Inl e \<Rightarrow> confirm f (code_at s u) now rand' = (f, Inl (Recovery_Failed e))
    | Inr (rs, codes) \<Rightarrow> \<exists>f'. confirm f (code_at s u) now rand' = (f', Inr codes) \<and> on f' \<and> f_recovery f' = rs
        \<and> step now - 1 \<le> f_last_step f')"
proof -
  obtain sec where f: "\<not> on f0" "pw" "new_secret rand = Some sec"
      "f = zero_factor\<lparr>f_secret := sec, f_created_at := t0, f_revision := f_revision f0 + 1\<rparr>"
      "show_setup qr f account t0 = Inr su"
    using assms(1) by (auto simp: begin_setup_def Let_def split: if_splits option.splits sum.splits)
  have len: "length (s_key sec) = 20"
    using f(3) by (auto simp: new_secret_def read_full_def secret_size_def split: option.splits if_splits)
  have "manual_key su = grouped sec"
    using f(4,5) by (auto simp: show_setup_def split: option.splits sum.splits)
  moreover have "parse_secret (grouped sec) = Some sec" by (rule parse_grouped) (simp_all add: len)
  ultimately have s: "s = f_secret f" using assms(4) f(4) by simp
  have zero: "\<not> secret_is_zero s" using len s f(4) by (simp add: secret_is_zero_def)
  obtain st where st: "verify s (code_at s u) now 0 = Inr st"
    using verify_own_code [OF zero assms(5)] assms(6) by fastforce
  have "setup_error f now = None"
    using zero s assms(2) f(4) by (simp add: setup_error_def on_def zero_factor_def)
  then show ?thesis
    using f(1,2) s st verify_Inr [OF st] assms(3) f(4)
    by (auto simp: confirm_def on_def zero_factor_def split: sum.split)
qed

theorem setup_can_be_confirmed_witness:
  "let t0 = from_unix_milli 1700000000000; now = t0 + 14 * minute; rand' = replicate 100 7;
       f = fst (begin_setup (\<lambda>u. Some u) zero_factor True ''ann'' t0 (bytes_of ''12345678901234567890''))
   in f_secret f = sample_secret \<and> (case new_recovery_codes rand' now of
      Inl e \<Rightarrow> confirm f (code_at sample_secret (now - 20 * second)) now rand' = (f, Inl (Recovery_Failed e))
    | Inr (rs, codes) \<Rightarrow> \<exists>f'. confirm f (code_at sample_secret (now - 20 * second)) now rand' = (f', Inr codes) \<and> on f'
        \<and> f_recovery f' = rs \<and> step now - 1 \<le> f_last_step f')"
proof -
  define t0 :: gotime where "t0 = from_unix_milli 1700000000000"
  define now where "now = t0 + 14 * minute"
  define rand' :: bytes where "rand' = replicate 100 7"
  define f where "f = zero_factor\<lparr>f_secret := sample_secret, f_created_at := t0, f_revision := 1\<rparr>"
  have t0: "t0 = 63835596800000000000" by (simp add: t0_def from_unix_milli_def unix_epoch_sec_def)
  have secret: "new_secret (bytes_of ''12345678901234567890'') = Some sample_secret"
    by (simp add: new_secret_def read_full_def secret_size_def sample_secret_def bytes_of_def)
  have labels: "check_label ''issuer'' issuer = None" "check_label ''account name'' ''ann'' = None"
    by (simp_all add: check_label_def issuer_def valid_utf8_ascii ascii_def rune_values_ascii is_control_def)
  have "\<not> secret_is_zero sample_secret" by (simp add: secret_is_zero_def sample_secret_def bytes_of_def)
  then obtain su where su: "show_setup (\<lambda>u. Some u) f ''ann'' t0 = Inr su" "manual_key su = grouped sample_secret"
    using labels by (auto simp: show_setup_def setup_error_def key_uri_def f_def on_def zero_factor_def setup_ttl_def)
  then have b: "begin_setup (\<lambda>u. Some u) zero_factor True ''ann'' t0 (bytes_of ''12345678901234567890'') = (f, Inr su)"
    by (simp add: begin_setup_def secret Let_def f_def on_def) (simp add: zero_factor_def)
  have "parse_secret (manual_key su) = Some sample_secret"
    unfolding su(2) by (rule parse_grouped) (simp_all add: sample_secret_def bytes_of_def)
  from setup_can_be_confirmed [OF b _ _ this, of now "now - 20 * second" rand']
  show ?thesis
    unfolding Let_def t0_def [symmetric] now_def [symmetric] rand'_def [symmetric] b fst_conv
    by (simp add: now_def t0 setup_ttl_def step_div unix_sec_def unix_epoch_sec_def)
qed

text \<open>A refusal because app codes are locked names the whole minutes left, rounded up: the lock
  never lasts longer than the text says, and less than a minute shorter.\<close>

theorem lock_text_rounds_up:
  assumes "0 < d"
  shows "\<exists>m. error_text \<lparr>e_kind = Kind_App_Codes_Locked, e_retry_after = d\<rparr>
      = ''Too many wrong codes. Try again in '' @ (if m = 1 then ''1 minute'' else itoa m @ '' minutes'') @ ''.''
    \<and> 1 \<le> m \<and> d \<le> m * minute \<and> m * minute < d + minute"
proof -
  let ?m = "(d + minute - 1) div minute"
  have "d + minute - 1 = ?m * minute + (d + minute - 1) mod minute" by simp
  moreover have "0 \<le> (d + minute - 1) mod minute" "(d + minute - 1) mod minute < minute" by simp_all
  ultimately have "d \<le> ?m * minute" "?m * minute < d + minute" by linarith+
  moreover from this assms have "1 \<le> ?m" by linarith
  moreover have "minutes_text d = (if ?m = 1 then ''1 minute'' else itoa ?m @ '' minutes'')"
    using assms \<open>1 \<le> ?m\<close> by (simp add: minutes_text_def Let_def)
  ultimately show ?thesis by (intro exI [of _ ?m]) (simp add: error_text_def)
qed

theorem lock_text_rounds_up_witness:
  "\<exists>m. error_text \<lparr>e_kind = Kind_App_Codes_Locked, e_retry_after = 90 * second\<rparr>
      = ''Too many wrong codes. Try again in '' @ (if m = 1 then ''1 minute'' else itoa m @ '' minutes'') @ ''.''
    \<and> 1 \<le> m \<and> 90 * second \<le> m * minute \<and> m * minute < 90 * second + minute"
  by (rule lock_text_rounds_up) simp

end
