(* ===== verification/Sleep_Policy.thy ===== *)
theory Sleep_Policy
  imports Go_Text
begin

section \<open>When an empty server sleeps (internal/sleep/policy.go)\<close>

text \<open>
  The tracker that watches the samples of the player count: its settings, what it makes of each
  sample, and that it never sends a server to sleep without an unbroken run of empty samples as
  long as the setting says. The English text of the settings error is its constructor.
\<close>

subsection \<open>Definitions\<close>

record settings =
  set_enabled :: bool
  idle_minutes :: int

definition default_idle_minutes :: int where "default_idle_minutes = 15"
definition min_idle_minutes :: int where "min_idle_minutes = 5"
definition max_idle_minutes :: int where "max_idle_minutes = 24 * 60"
definition default_start_grace :: duration where "default_start_grace = 10 * minute"
definition max_sample_gap :: duration where "max_sample_gap = 2 * minute"

definition idle :: "settings \<Rightarrow> duration" where
  "idle s = (if idle_minutes s = 0 then default_idle_minutes * minute else idle_minutes s * minute)"

datatype settings_error = Idle_Minutes_Invalid int int int

definition validate_settings :: "settings \<Rightarrow> settings_error option" where
  "validate_settings s =
     (if idle_minutes s \<noteq> 0 \<and> (idle_minutes s < min_idle_minutes \<or> max_idle_minutes < idle_minutes s)
      then Some (Idle_Minutes_Invalid min_idle_minutes max_idle_minutes (idle_minutes s)) else None)"

record observation =
  ob_at :: gotime
  ob_running :: bool
  ob_players :: int
  ob_players_known :: bool
  ob_busy :: bool
  ob_started_at :: gotime

datatype hold = Hold_Disabled | Hold_Not_Running | Hold_Busy | Hold_Unknown | Hold_Players

record decision =
  de_sleep :: bool
  de_hold :: "hold option"
  de_empty_since :: gotime
  de_sleep_at :: gotime

record tracker =
  tr_settings :: settings
  tr_start_grace :: duration
  tr_empty_since :: gotime
  tr_last_at :: gotime

definition new_tracker :: "settings \<Rightarrow> tracker" where
  "new_tracker s = \<lparr>tr_settings = s, tr_start_grace = default_start_grace, tr_empty_since = zero_time, tr_last_at = zero_time\<rparr>"

definition set_settings :: "tracker \<Rightarrow> settings \<Rightarrow> tracker" where
  "set_settings t s = t\<lparr>tr_settings := s, tr_empty_since := zero_time\<rparr>"

text \<open>The closure \<open>hold\<close> of \<open>Observe\<close>.\<close>

definition hold_with :: "tracker \<Rightarrow> hold \<Rightarrow> tracker \<times> decision" where
  "hold_with t h = (t\<lparr>tr_empty_since := zero_time\<rparr>,
     \<lparr>de_sleep = False, de_hold = Some h, de_empty_since = zero_time, de_sleep_at = zero_time\<rparr>)"

definition observe :: "tracker \<Rightarrow> observation \<Rightarrow> tracker \<times> decision" where
  "observe t ob =
     (let t = (if tr_last_at t \<noteq> zero_time
                  \<and> (ob_at ob < tr_last_at t \<or> max_sample_gap < time_sub (ob_at ob) (tr_last_at t))
               then t\<lparr>tr_empty_since := zero_time\<rparr> else t);
          t = t\<lparr>tr_last_at := ob_at ob\<rparr>
      in if \<not> set_enabled (tr_settings t) then hold_with t Hold_Disabled
         else if \<not> ob_running ob then hold_with t Hold_Not_Running
         else if ob_busy ob then hold_with t Hold_Busy
         else if \<not> ob_players_known ob then hold_with t Hold_Unknown
         else if 0 < ob_players ob then hold_with t Hold_Players
         else
           let t = (if tr_empty_since t = zero_time then t\<lparr>tr_empty_since := ob_at ob\<rparr> else t);
               at = tr_empty_since t + idle (tr_settings t);
               grace = ob_started_at ob + tr_start_grace t;
               at = (if ob_started_at ob \<noteq> zero_time \<and> at < grace then grace else at)
           in (t, \<lparr>de_sleep = (\<not> ob_at ob < at), de_hold = None, de_empty_since = tr_empty_since t, de_sleep_at = at\<rparr>))"

subsection \<open>Runs of a tracker\<close>

datatype tracker_event = Ev_Observe observation | Ev_Settings settings

fun tracker_step :: "tracker \<Rightarrow> tracker_event \<Rightarrow> tracker" where
  "tracker_step t (Ev_Observe ob) = fst (observe t ob)"
| "tracker_step t (Ev_Settings s) = set_settings t s"

text \<open>
  A sample that counts towards sleeping, and a run of them that was watched without a break:
  each sample at most the maximal gap after the one before, and not before it.
\<close>

definition quiet :: "observation \<Rightarrow> bool" where
  "quiet ob \<longleftrightarrow> ob_running ob \<and> \<not> ob_busy ob \<and> ob_players_known ob \<and> ob_players ob \<le> 0"

fun unbroken :: "observation list \<Rightarrow> bool" where
  "unbroken [] = True"
| "unbroken [a] = True"
| "unbroken (a # b # obs) = (ob_at a \<le> ob_at b \<and> ob_at b - ob_at a \<le> max_sample_gap \<and> unbroken (b # obs))"

lemma unbroken_snoc:
  "obs \<noteq> [] \<Longrightarrow> unbroken (obs @ [ob]) \<longleftrightarrow>
     unbroken obs \<and> ob_at (last obs) \<le> ob_at ob \<and> ob_at ob - ob_at (last obs) \<le> max_sample_gap"
  by (induction obs rule: unbroken.induct) auto

text \<open>One sample, with the decision written in one place.\<close>

definition gap :: "tracker \<Rightarrow> observation \<Rightarrow> bool" where
  "gap t ob \<longleftrightarrow> tr_last_at t \<noteq> zero_time
     \<and> (ob_at ob < tr_last_at t \<or> max_sample_gap < ob_at ob - tr_last_at t)"

definition since :: "tracker \<Rightarrow> observation \<Rightarrow> gotime" where
  "since t ob = (if gap t ob \<or> tr_empty_since t = zero_time then ob_at ob else tr_empty_since t)"

definition sleep_at :: "tracker \<Rightarrow> observation \<Rightarrow> gotime" where
  "sleep_at t ob = (let at = since t ob + idle (tr_settings t); grace = ob_started_at ob + tr_start_grace t
     in if ob_started_at ob \<noteq> zero_time \<and> at < grace then grace else at)"

lemma gap_sub: "(ob_at ob < tr_last_at t \<or> max_sample_gap < time_sub (ob_at ob) (tr_last_at t))
    \<longleftrightarrow> (ob_at ob < tr_last_at t \<or> max_sample_gap < ob_at ob - tr_last_at t)"
  by (simp add: time_sub_gt_iff max_sample_gap_def max_duration_def)

lemma observe_quiet:
  assumes "quiet ob" and "set_enabled (tr_settings t)"
  shows "observe t ob = (t\<lparr>tr_last_at := ob_at ob, tr_empty_since := since t ob\<rparr>,
      \<lparr>de_sleep = (\<not> ob_at ob < sleep_at t ob), de_hold = None, de_empty_since = since t ob, de_sleep_at = sleep_at t ob\<rparr>)"
proof (cases "gap t ob")
  case True
  then show ?thesis using assms unfolding observe_def gap_sub gap_def [symmetric]
    by (simp add: quiet_def since_def sleep_at_def Let_def not_less)
next
  case False
  then show ?thesis using assms unfolding observe_def gap_sub gap_def [symmetric]
    by (cases "tr_empty_since t = zero_time") (simp_all add: quiet_def since_def sleep_at_def Let_def not_less)
qed

lemma observe_held:
  assumes "\<not> (quiet ob \<and> set_enabled (tr_settings t))"
  shows "\<exists>h. observe t ob = hold_with (t\<lparr>tr_last_at := ob_at ob\<rparr>) h"
  using assms unfolding observe_def gap_sub gap_def [symmetric]
  by (cases "gap t ob") (auto simp: quiet_def Let_def hold_with_def not_less)

lemma tracker_settings [simp]: "tr_settings (fst (observe t ob)) = tr_settings t"
  "tr_start_grace (fst (observe t ob)) = tr_start_grace t" "tr_last_at (fst (observe t ob)) = ob_at ob"
  using observe_held [of ob t] observe_quiet [of ob t]
  by (cases "quiet ob \<and> set_enabled (tr_settings t)"; auto simp: hold_with_def)+

text \<open>
  The samples since \<open>emptySince\<close>, after any events. \<open>lastAt\<close> is the time of the last sample;
  a sample at the zero time is as if there had been none.
\<close>

definition quiet_run :: "observation list \<Rightarrow> bool" where
  "quiet_run obs \<longleftrightarrow> obs \<noteq> [] \<and> list_all quiet obs \<and> unbroken obs"

definition track_inv :: "tracker_event list \<Rightarrow> tracker \<Rightarrow> bool" where
  "track_inv es t \<longleftrightarrow> tr_empty_since t = zero_time \<or>
     (\<exists>pre obs. es = pre @ map Ev_Observe obs \<and> quiet_run obs \<and> ob_at (hd obs) = tr_empty_since t
        \<and> ob_at (last obs) = tr_last_at t \<and> tr_empty_since t \<le> tr_last_at t)"

text \<open>Events as the agent sends them: real times (after the zero \<open>Time\<close>) and validated settings.\<close>

fun event_ok :: "tracker_event \<Rightarrow> bool" where
  "event_ok (Ev_Observe ob) = (0 < ob_at ob)"
| "event_ok (Ev_Settings s) = (validate_settings s = None)"

lemma unbroken_le: "unbroken obs \<Longrightarrow> obs \<noteq> [] \<Longrightarrow> ob_at (hd obs) \<le> ob_at (last obs)"
  by (induction obs rule: unbroken.induct) auto

lemma quiet_run_extends:
  assumes "track_inv es t" and "quiet ob" and "list_all event_ok es"
  shows "\<exists>pre obs. es @ [Ev_Observe ob] = pre @ map Ev_Observe obs \<and> quiet_run obs \<and> ob_at (hd obs) = since t ob
    \<and> last obs = ob \<and> since t ob \<le> ob_at ob"
proof (cases "gap t ob \<or> tr_empty_since t = zero_time")
  case True
  then show ?thesis using assms(2)
    by (intro exI [of _ es] exI [of _ "[ob]"]) (simp add: quiet_run_def since_def)
next
  case False
  then obtain pre obs where es: "es = pre @ map Ev_Observe obs" and obs: "quiet_run obs"
      "ob_at (hd obs) = tr_empty_since t" "ob_at (last obs) = tr_last_at t"
    using assms(1) by (auto simp: track_inv_def)
  then have "Ev_Observe (last obs) \<in> set es" by (simp add: quiet_run_def)
  then have "tr_last_at t \<noteq> 0" using assms(3) obs(3) by (auto simp: list_all_iff)
  then have "unbroken (obs @ [ob])" using obs False by (auto simp: quiet_run_def unbroken_snoc gap_def)
  then show ?thesis
    using es obs assms(2) False unbroken_le [of "obs @ [ob]"]
    by (intro exI [of _ pre] exI [of _ "obs @ [ob]"]) (auto simp: quiet_run_def since_def hd_append)
qed

lemma track_inv_step:
  assumes "track_inv es t" and "list_all event_ok es" and "event_ok e"
  shows "track_inv (es @ [e]) (tracker_step t e)"
proof (cases e)
  case (Ev_Observe ob)
  show ?thesis
  proof (cases "quiet ob \<and> set_enabled (tr_settings t)")
    case True
    then have "observe t ob = (t\<lparr>tr_last_at := ob_at ob, tr_empty_since := since t ob\<rparr>, snd (observe t ob))"
      using observe_quiet by simp
    then have "tracker_step t e = t\<lparr>tr_last_at := ob_at ob, tr_empty_since := since t ob\<rparr>"
      using Ev_Observe by (metis fst_conv tracker_step.simps(1))
    then show ?thesis
      using quiet_run_extends [OF assms(1) _ assms(2)] True Ev_Observe unfolding track_inv_def by fastforce
  next
    case False
    then show ?thesis using observe_held [OF False] Ev_Observe by (auto simp: hold_with_def track_inv_def)
  qed
qed (simp add: track_inv_def set_settings_def)

lemma track_inv_run:
  "list_all event_ok es \<Longrightarrow> track_inv es (foldl tracker_step (new_tracker s) es)"
proof (induction es rule: rev_induct)
  case (snoc e es)
  then show ?case using track_inv_step [of es _ e] by simp
qed (simp add: track_inv_def new_tracker_def)

lemma tracker_settings_ok:
  "list_all event_ok es \<Longrightarrow> validate_settings s = None \<Longrightarrow>
     validate_settings (tr_settings (foldl tracker_step (new_tracker s) es)) = None"
proof (induction es rule: rev_induct)
  case (snoc e es)
  then show ?case by (cases e) (simp_all add: set_settings_def)
qed (simp add: new_tracker_def)

lemma start_grace_fixed: "tr_start_grace (foldl tracker_step (new_tracker s) es) = default_start_grace"
proof (induction es rule: rev_induct)
  case (snoc e es)
  then show ?case by (cases e) (simp_all add: set_settings_def)
qed (simp add: new_tracker_def)

lemma idle_bounds:
  assumes "validate_settings s = None"
  shows "min_idle_minutes * minute \<le> idle s" and "idle s \<le> max_idle_minutes * minute"
  using assms by (auto simp: validate_settings_def idle_def min_idle_minutes_def max_idle_minutes_def
      default_idle_minutes_def split: if_splits)

subsection \<open>Sleeping\<close>

text \<open>C11: A server is sent to sleep only after an unbroken run of samples, the last of them this one, that
  all found it running, free of jobs and known to be empty, with no gap of more than two minutes and
  no clock going backwards, over at least the idle time of the settings (at least five minutes), and
  not within ten minutes of a known start; changing the settings starts the run again.\<close>

theorem sleeps_only_when_watched_empty:
  assumes "list_all event_ok es" and "validate_settings s = None" and "event_ok (Ev_Observe ob)"
    and "de_sleep (snd (observe (foldl tracker_step (new_tracker s) es) ob))"
  shows "let t = foldl tracker_step (new_tracker s) es in
    set_enabled (tr_settings t) \<and> (\<exists>pre obs. es @ [Ev_Observe ob] = pre @ map Ev_Observe obs \<and> obs \<noteq> []
      \<and> list_all quiet obs \<and> unbroken obs
      \<and> idle (tr_settings t) \<le> ob_at ob - ob_at (hd obs) \<and> 5 * minute \<le> idle (tr_settings t)
      \<and> (ob_started_at ob = zero_time \<or> ob_started_at ob + 10 * minute \<le> ob_at ob))"
proof -
  let ?t = "foldl tracker_step (new_tracker s) es"
  have on: "quiet ob \<and> set_enabled (tr_settings ?t)"
  proof (rule ccontr)
    assume "\<not> ?thesis"
    from observe_held [OF this] assms(4) show False by (auto simp: hold_with_def)
  qed
  then have "sleep_at ?t ob \<le> ob_at ob" using assms(4) observe_quiet [of ob ?t] by simp
  then have "since ?t ob + idle (tr_settings ?t) \<le> ob_at ob"
    and "ob_started_at ob = zero_time \<or> ob_started_at ob + default_start_grace \<le> ob_at ob"
    by (auto simp: sleep_at_def Let_def start_grace_fixed split: if_splits)
  moreover obtain pre obs where "es @ [Ev_Observe ob] = pre @ map Ev_Observe obs" "quiet_run obs"
      "ob_at (hd obs) = since ?t ob"
    using quiet_run_extends [OF track_inv_run [OF assms(1)] _ assms(1)] on by blast
  ultimately show ?thesis
    using on idle_bounds(1) [OF tracker_settings_ok [OF assms(1,2)]]
    unfolding Let_def
    by (intro conjI exI [of _ pre] exI [of _ obs]) (auto simp: quiet_run_def default_start_grace_def min_idle_minutes_def)
qed

text \<open>Six empty samples a minute apart, with the shortest idle time.\<close>

definition sample :: "int \<Rightarrow> observation" where
  "sample i = \<lparr>ob_at = hour + i * minute, ob_running = True, ob_players = 0, ob_players_known = True,
     ob_busy = False, ob_started_at = 0\<rparr>"

theorem sleeps_only_when_watched_empty_witness:
  "let s = \<lparr>set_enabled = True, idle_minutes = 5\<rparr>;
       es = map (Ev_Observe \<circ> sample) [0, 1, 2, 3, 4];
       t = foldl tracker_step (new_tracker s) es
   in de_sleep (snd (observe t (sample 5))) \<and> (\<exists>pre obs. es @ [Ev_Observe (sample 5)] = pre @ map Ev_Observe obs
      \<and> obs \<noteq> [] \<and> list_all quiet obs \<and> unbroken obs \<and> 5 * minute \<le> ob_at (sample 5) - ob_at (hd obs))"
proof -
  let ?s = "\<lparr>set_enabled = True, idle_minutes = 5\<rparr>"
  let ?es = "map (Ev_Observe \<circ> sample) [0, 1, 2, 3, 4]"
  have step: "fst (observe t (sample i)) = t\<lparr>tr_last_at := hour + i * minute, tr_empty_since := since t (sample i)\<rparr>"
    if "set_enabled (tr_settings t)" for t i
    using observe_quiet [of "sample i" t] that by (simp add: quiet_def sample_def)
  have t: "foldl tracker_step (new_tracker ?s) ?es = \<lparr>tr_settings = ?s, tr_start_grace = default_start_grace,
      tr_empty_since = hour, tr_last_at = hour + 4 * minute\<rparr>"
    by (simp add: step new_tracker_def since_def gap_def max_sample_gap_def, simp add: sample_def)
  have sl: "de_sleep (snd (observe (foldl tracker_step (new_tracker ?s) ?es) (sample 5)))"
    unfolding t by (subst observe_quiet)
      (simp_all add: quiet_def sleep_at_def since_def gap_def max_sample_gap_def idle_def sample_def)
  have "list_all event_ok ?es" "event_ok (Ev_Observe (sample 5))" "validate_settings ?s = None"
    by (simp_all add: sample_def validate_settings_def min_idle_minutes_def max_idle_minutes_def)
  from sleeps_only_when_watched_empty [OF this(1,3,2) sl] sl t show ?thesis
    unfolding Let_def t by (auto simp: idle_def)
qed

end
