(* ===== verification/Minecraft_Names.thy ===== *)
theory Minecraft_Names
  imports Go_Text
begin

section \<open>Player names and UUIDs (internal/minecraft/logparse.go, internal/mojang/profile.go)\<close>

text \<open>What counts as a player's name, and the one way a UUID is written.\<close>

text \<open>\<open>minecraft.ValidPlayerName\<close>: the expression \<open>^[A-Za-z0-9_]{3,16}$\<close>.\<close>

definition name_char :: "char \<Rightarrow> bool" where
  "name_char c \<longleftrightarrow> (65 \<le> code c \<and> code c \<le> 90) \<or> (97 \<le> code c \<and> code c \<le> 122) \<or> is_digit c \<or> c = CHR ''_''"

definition valid_player_name :: "string \<Rightarrow> bool" where
  "valid_player_name s \<longleftrightarrow> 3 \<le> length s \<and> length s \<le> 16 \<and> list_all name_char s"

text \<open>
  \<open>mojang.NormalizeUUID\<close>: 32 hexadecimal digits with or without dashes. \<open>strings.ToLower\<close> makes no
  hexadecimal digit of a character beyond ASCII, so lowering the bytes one by one refuses the same strings.
\<close>

definition hex_lower :: "char \<Rightarrow> bool" where
  "hex_lower c \<longleftrightarrow> 48 \<le> code c \<and> code c \<le> 57 \<or> 97 \<le> code c \<and> code c \<le> 102"

definition lower_char :: "char \<Rightarrow> char" where
  "lower_char c = (if 65 \<le> code c \<and> code c \<le> 90 then char_of (code c + 32) else c)"

definition normalize_uuid :: "string \<Rightarrow> string option" where
  "normalize_uuid s =
     (let dash = (CHR ''-'');
          s' = (if length s = 36
                then if s ! 8 \<noteq> dash \<or> s ! 13 \<noteq> dash \<or> s ! 18 \<noteq> dash \<or> s ! 23 \<noteq> dash then None
                     else Some (take 8 s @ take 4 (drop 9 s) @ take 4 (drop 14 s) @ take 4 (drop 19 s) @ drop 24 s)
                else Some s)
      in case s' of None \<Rightarrow> None | Some s \<Rightarrow>
        if length s \<noteq> 32 then None
        else let s = map lower_char s
             in if \<not> list_all hex_lower s then None
                else Some (take 8 s @ [dash] @ take 4 (drop 8 s) @ [dash] @ take 4 (drop 12 s) @ [dash] @ take 4 (drop 16 s)
                       @ [dash] @ drop 20 s))"

end
