(* ===== verification/Wake_Limit.thy ===== *)
theory Wake_Limit
  imports Minecraft_Names
begin

section \<open>Waking a sleeping server (internal/sleep/limit.go and manager.go)\<close>

text \<open>
  The limit on wakes, what a join attempt on a sleeping server gets, and how the manager hands
  the game port back and forth. Each critical section of the manager is one operation here, so
  any interleaving of its goroutines is a list of \<open>limit_event\<close>. What the outside world does
  (the outcome of \<open>start\<close>, \<open>stop\<close> and of binding the port, the answer of \<open>Admit\<close>, the clock)
  is an argument. The stand-in's sockets and the cleaning of the shown name are not modelled.
\<close>

subsection \<open>The limit\<close>

definition wake_window :: duration where "wake_window = 2 * minute"
definition max_wakes_per_hour :: nat where "max_wakes_per_hour = 6"
definition first_backoff :: duration where "first_backoff = 5 * minute"
definition max_backoff :: duration where "max_backoff = hour"

datatype answer = Answer_Wake | Answer_Waking | Answer_Too_Many | Answer_Failed | Answer_Name_Invalid

record wake_limit =
  wl_recent :: "gotime list"
  wl_waking_until :: gotime
  wl_failures :: int
  wl_blocked_until :: gotime

definition no_wakes :: wake_limit where
  "no_wakes = \<lparr>wl_recent = [], wl_waking_until = zero_time, wl_failures = 0, wl_blocked_until = zero_time\<rparr>"

text \<open>The loop of \<open>forget\<close> drops the leading entries that are not after \<open>cut\<close>.\<close>

definition forget :: "wake_limit \<Rightarrow> gotime \<Rightarrow> wake_limit" where
  "forget l now = (let cut = now + - hour in l\<lparr>wl_recent := dropWhile (\<lambda>t. \<not> cut < t) (wl_recent l)\<rparr>)"

definition limit_check :: "wake_limit \<Rightarrow> gotime \<Rightarrow> wake_limit \<times> answer \<times> duration" where
  "limit_check l now =
     (if now < wl_waking_until l then (l, Answer_Waking, 0)
      else if now < wl_blocked_until l then (l, Answer_Failed, time_sub (wl_blocked_until l) now)
      else let l = forget l now
           in if max_wakes_per_hour \<le> length (wl_recent l)
              then (l, Answer_Too_Many, time_sub (wl_recent l ! 0 + hour) now)
              else (l, Answer_Wake, 0))"

definition limit_try :: "wake_limit \<Rightarrow> gotime \<Rightarrow> wake_limit \<times> answer \<times> duration" where
  "limit_try l now = (case limit_check l now of (l, a, wait) \<Rightarrow>
     (if a = Answer_Wake
      then (l\<lparr>wl_recent := wl_recent l @ [now], wl_waking_until := now + wake_window\<rparr>, a, wait)
      else (l, a, wait)))"

definition refund :: "wake_limit \<Rightarrow> wake_limit" where
  "refund l = l\<lparr>wl_recent := (if 0 < length (wl_recent l) then take (length (wl_recent l) - 1) (wl_recent l)
     else wl_recent l), wl_waking_until := zero_time\<rparr>"

text \<open>The loop of \<open>failed\<close>: \<open>i\<close> counts up to the failures, doubling while below the maximum.\<close>

function backoff_loop :: "int \<Rightarrow> int \<Rightarrow> duration \<Rightarrow> duration" where
  "backoff_loop fails i d = (if i < fails \<and> d < max_backoff then backoff_loop fails (i + 1) (d * 2) else d)"
  by pat_completeness auto
termination by (relation "measure (\<lambda>(fails, i, _). nat (fails - i))") auto

declare backoff_loop.simps [simp del]

definition start_failed :: "wake_limit \<Rightarrow> gotime \<Rightarrow> wake_limit" where
  "start_failed l now =
     (let n = wl_failures l + 1; d = backoff_loop n 1 first_backoff
      in l\<lparr>wl_failures := n, wl_blocked_until := now + min d max_backoff, wl_waking_until := zero_time\<rparr>)"

definition succeeded :: "wake_limit \<Rightarrow> wake_limit" where
  "succeeded l = l\<lparr>wl_failures := 0, wl_blocked_until := zero_time\<rparr>"

definition slept :: "wake_limit \<Rightarrow> wake_limit" where
  "slept l = l\<lparr>wl_waking_until := zero_time\<rparr>"

subsection \<open>What a joining player is told\<close>

definition about_duration :: "duration \<Rightarrow> string" where
  "about_duration d =
     (let n = quot (d + minute - 1) minute
      in if n \<le> 1 then ''1 minute''
         else if n < 60 then itoa n @ '' minutes''
         else if n = 60 then ''1 hour''
         else itoa (quot (n + 59) 60) @ '' hours'')"

definition answer_text :: "answer \<Rightarrow> string \<Rightarrow> duration \<Rightarrow> bool \<Rightarrow> string" where
  "answer_text a srv wait guarded =
     (let srv = (if srv = [] then ''This server'' else srv)
      in case a of
           Answer_Wake \<Rightarrow> (if guarded
             then srv @ '' is asleep. If you're on the list, it's waking up: join again in about 30 seconds.''
             else srv @ '' is waking up. Join again in about 30 seconds.'')
         | Answer_Waking \<Rightarrow> (if guarded
             then srv @ '' is asleep. If you're on the list, it's waking up: join again in about 30 seconds.''
             else srv @ '' is waking up. Join again in about 30 seconds.'')
         | Answer_Too_Many \<Rightarrow>
             srv @ '' has woken up too often in the last hour. Try again in about '' @ about_duration wait @ ''.''
         | Answer_Failed \<Rightarrow> srv @ '' couldn't wake up just now. Try again in about '' @ about_duration wait @ ''.''
         | Answer_Name_Invalid \<Rightarrow> ''That player name isn't valid.'')"

subsection \<open>The manager\<close>

record manager =
  m_name :: string
  m_listening :: bool
  m_limit :: wake_limit

text \<open>
  \<open>joinAttempt\<close>: \<open>admit\<close> is \<open>Config.Admit\<close> (\<open>None\<close> for nil), \<open>now1\<close> and \<open>now2\<close> the two readings of
  the clock. It returns the reply and whether \<open>OnWake\<close> is called.
\<close>

definition join_attempt ::
  "manager \<Rightarrow> (string \<Rightarrow> bool) option \<Rightarrow> string \<Rightarrow> gotime \<Rightarrow> gotime \<Rightarrow> manager \<times> string \<times> bool" where
  "join_attempt m admit player now1 now2 =
     (let guarded = (admit \<noteq> None)
      in if \<not> valid_player_name player then (m, answer_text Answer_Name_Invalid (m_name m) 0 guarded, False)
         else case limit_check (m_limit m) now1 of (l, a, wait) \<Rightarrow>
           let m = m\<lparr>m_limit := l\<rparr>
           in if a = Answer_Wake then
                (if guarded \<and> \<not> the admit player
                 then (m, answer_text Answer_Wake (m_name m) 0 guarded, False)
                 else case limit_try (m_limit m) now2 of (l, a, wait) \<Rightarrow>
                   (m\<lparr>m_limit := l\<rparr>, answer_text a (m_name m) wait guarded, a = Answer_Wake))
              else (m, answer_text a (m_name m) wait guarded, False))"

text \<open>\<open>listen\<close>: \<open>bind_err\<close> is the outcome of \<open>bind\<close>. An error is a text here.\<close>

definition listen :: "manager \<Rightarrow> string option \<Rightarrow> manager \<times> string option" where
  "listen m bind_err =
     (if m_listening m then (m, None)
      else case bind_err of Some e \<Rightarrow> (m, Some e) | None \<Rightarrow> (m\<lparr>m_listening := True\<rparr>, None))"

definition release :: "manager \<Rightarrow> manager \<times> bool" where
  "release m = (m\<lparr>m_listening := False\<rparr>, m_listening m)"

definition sleep_now :: "manager \<Rightarrow> string option \<Rightarrow> string option \<Rightarrow> manager \<times> string option" where
  "sleep_now m stop_err bind_err =
     (if m_listening m then (m, None)
      else case stop_err of Some e \<Rightarrow> (m, Some e) | None \<Rightarrow> listen (m\<lparr>m_limit := slept (m_limit m)\<rparr>) bind_err)"

text \<open>The errors of a wake: those of \<open>start\<close> and of listening again, joined.\<close>

definition wake :: "manager \<Rightarrow> string option \<Rightarrow> string option \<Rightarrow> gotime \<Rightarrow> manager \<times> string list" where
  "wake m start_err bind_err now =
     (case release m of (m, asleep) \<Rightarrow>
        if \<not> asleep then (m, case start_err of None \<Rightarrow> [] | Some e \<Rightarrow> [e])
        else case start_err of
          None \<Rightarrow> (m\<lparr>m_limit := succeeded (m_limit m)\<rparr>, [])
        | Some e \<Rightarrow>
            (case listen (m\<lparr>m_limit := start_failed (m_limit m) now\<rparr>) bind_err of
               (m, None) \<Rightarrow> (m, [e])
             | (m, Some e') \<Rightarrow> (m, [e, e'])))"

definition wake_called_off :: "manager \<Rightarrow> manager" where
  "wake_called_off m = m\<lparr>m_limit := refund (m_limit m)\<rparr>"

definition close_manager :: "manager \<Rightarrow> manager" where
  "close_manager m = fst (release m)"

subsection \<open>At most six wakes an hour\<close>

datatype limit_event =
    L_Check gotime | L_Try gotime | L_Refund | L_Failed gotime | L_Succeeded | L_Slept

fun limit_step :: "wake_limit \<Rightarrow> limit_event \<Rightarrow> wake_limit" where
  "limit_step l (L_Check now) = fst (limit_check l now)"
| "limit_step l (L_Try now) = fst (limit_try l now)"
| "limit_step l L_Refund = refund l"
| "limit_step l (L_Failed now) = start_failed l now"
| "limit_step l L_Succeeded = succeeded l"
| "limit_step l L_Slept = slept l"

fun event_time :: "limit_event \<Rightarrow> gotime option" where
  "event_time (L_Check now) = Some now"
| "event_time (L_Try now) = Some now"
| "event_time (L_Failed now) = Some now"
| "event_time _ = None"

text \<open>
  The limit with the times of the wakes it allowed and that were not given back, and the time
  of the latest event: the clock does not go backwards.
\<close>

record limit_log =
  ll_limit :: wake_limit
  ll_wakes :: "gotime list"
  ll_clock :: gotime

fun log_step :: "limit_log \<Rightarrow> limit_event \<Rightarrow> limit_log" where
  "log_step s e = \<lparr>ll_limit = limit_step (ll_limit s) e,
     ll_wakes = (case e of
         L_Try now \<Rightarrow> (if fst (snd (limit_try (ll_limit s) now)) = Answer_Wake then ll_wakes s @ [now] else ll_wakes s)
       | L_Refund \<Rightarrow> (if wl_recent (ll_limit s) = [] then ll_wakes s else butlast (ll_wakes s))
       | _ \<Rightarrow> ll_wakes s),
     ll_clock = (case event_time e of None \<Rightarrow> ll_clock s | Some now \<Rightarrow> now)\<rparr>"

declare log_step.simps [simp del]

definition clock_forward :: "limit_log \<Rightarrow> limit_event \<Rightarrow> bool" where
  "clock_forward s e = (case event_time e of None \<Rightarrow> True | Some now \<Rightarrow> ll_clock s \<le> now)"

definition log_ok :: "limit_log \<Rightarrow> bool" where
  "log_ok s \<longleftrightarrow> (\<exists>old. ll_wakes s = old @ wl_recent (ll_limit s)
     \<and> (\<forall>t \<in> set old. t \<le> ll_clock s - hour)) \<and> sorted (ll_wakes s) \<and> (\<forall>t \<in> set (ll_wakes s). t \<le> ll_clock s)
     \<and> (\<forall>i. i + 6 < length (ll_wakes s) \<longrightarrow> ll_wakes s ! i + hour \<le> ll_wakes s ! (i + 6))"

lemma forget_spec:
  assumes "wakes = old @ wl_recent l" and "\<forall>t \<in> set old. t \<le> T - hour" and "T \<le> now"
  shows "\<exists>old'. wakes = old' @ wl_recent (forget l now) \<and> (\<forall>t \<in> set old'. t \<le> now - hour)"
proof -
  let ?P = "\<lambda>t. \<not> now + - hour < t"
  have "wl_recent l = takeWhile ?P (wl_recent l) @ wl_recent (forget l now)"
    by (simp add: forget_def Let_def)
  then have "wakes = (old @ takeWhile ?P (wl_recent l)) @ wl_recent (forget l now)" using assms(1) by simp
  moreover have "\<forall>t \<in> set (old @ takeWhile ?P (wl_recent l)). t \<le> now - hour"
    using assms(2,3) by (auto dest!: set_takeWhileD)
  ultimately show ?thesis by blast
qed

lemma limit_check_cases:
  obtains (kept) "fst (limit_check l now) = l" "fst (snd (limit_check l now)) \<noteq> Answer_Wake"
    | (forgot) "limit_check l now = (forget l now, if max_wakes_per_hour \<le> length (wl_recent (forget l now))
          then (Answer_Too_Many, time_sub (wl_recent (forget l now) ! 0 + hour) now) else (Answer_Wake, 0))"
        "wl_waking_until l \<le> now" "wl_blocked_until l \<le> now"
  by (cases "now < wl_waking_until l \<or> now < wl_blocked_until l") (auto simp: limit_check_def Let_def)

lemma log_ok_check:
  assumes "log_ok s" and "ll_clock s \<le> now"
  shows "log_ok \<lparr>ll_limit = fst (limit_check (ll_limit s) now), ll_wakes = ll_wakes s, ll_clock = now\<rparr>"
proof -
  obtain old where old: "ll_wakes s = old @ wl_recent (ll_limit s)" "\<forall>t \<in> set old. t \<le> ll_clock s - hour"
    using assms(1) by (auto simp: log_ok_def)
  have "\<exists>old. ll_wakes s = old @ wl_recent (fst (limit_check (ll_limit s) now)) \<and> (\<forall>t \<in> set old. t \<le> now - hour)"
  proof (cases rule: limit_check_cases [of "ll_limit s" now])
    case kept
    then show ?thesis using old assms(2) by (intro exI [of _ old]) auto
  next
    case forgot
    then show ?thesis using forget_spec [OF old assms(2)] by simp
  qed
  then show ?thesis using assms by (auto simp: log_ok_def)
qed

lemma log_ok_wake:
  assumes "log_ok \<lparr>ll_limit = l, ll_wakes = ws, ll_clock = now\<rparr>" and "length (wl_recent l) < max_wakes_per_hour"
  shows "log_ok \<lparr>ll_limit = l\<lparr>wl_recent := wl_recent l @ [now], wl_waking_until := u\<rparr>, ll_wakes = ws @ [now], ll_clock = now\<rparr>"
proof -
  obtain old where old: "ws = old @ wl_recent l" "\<forall>t \<in> set old. t \<le> now - hour"
    using assms(1) by (auto simp: log_ok_def)
  have "(ws @ [now]) ! i + hour \<le> (ws @ [now]) ! (i + 6)" if i: "i + 6 < length (ws @ [now])" for i
  proof (cases "i + 6 < length ws")
    case True
    then show ?thesis using assms(1) by (simp add: log_ok_def nth_append)
  next
    case False
    then have "i + 6 = length ws" using i by simp
    then have "i < length old" using old(1) assms(2) by (simp add: max_wakes_per_hour_def)
    then have "ws ! i \<in> set old" "i < length ws" using old(1) by (simp_all add: nth_append)
    then show ?thesis using old(2) \<open>i + 6 = length ws\<close> by (auto simp: nth_append)
  qed
  then show ?thesis using assms(1) old by (auto simp: log_ok_def sorted_append)
qed

lemma log_ok_step: "log_ok s \<Longrightarrow> clock_forward s e \<Longrightarrow> log_ok (log_step s e)"
proof (cases e)
  case (L_Check now)
  then show "log_ok s \<Longrightarrow> clock_forward s e \<Longrightarrow> ?thesis"
    using log_ok_check [of s now] by (simp add: log_step.simps clock_forward_def)
next
  case (L_Try now)
  assume s: "log_ok s" "clock_forward s e"
  then have c: "log_ok \<lparr>ll_limit = fst (limit_check (ll_limit s) now), ll_wakes = ll_wakes s, ll_clock = now\<rparr>"
    using log_ok_check [of s now] L_Try by (simp add: clock_forward_def)
  show ?thesis
  proof (cases rule: limit_check_cases [of "ll_limit s" now])
    case kept
    then show ?thesis using c L_Try by (auto simp: log_step.simps limit_try_def split: prod.splits)
  next
    case forgot
    show ?thesis
    proof (cases "max_wakes_per_hour \<le> length (wl_recent (forget (ll_limit s) now))")
      case True
      then show ?thesis using c forgot(1) L_Try by (simp add: log_step.simps limit_try_def)
    next
      case False
      then show ?thesis
        using log_ok_wake c forgot(1) L_Try by (simp add: log_step.simps limit_try_def)
    qed
  qed
next
  case L_Refund
  assume s: "log_ok s"
  then obtain old where old: "ll_wakes s = old @ wl_recent (ll_limit s)" "\<forall>t \<in> set old. t \<le> ll_clock s - hour"
    by (auto simp: log_ok_def)
  show ?thesis
  proof (cases "wl_recent (ll_limit s) = []")
    case True
    then show ?thesis using s L_Refund by (auto simp: log_step.simps refund_def log_ok_def)
  next
    case False
    then have "butlast (ll_wakes s) = old @ butlast (wl_recent (ll_limit s))" using old(1) by (simp add: butlast_append)
    moreover have "sorted (butlast (ll_wakes s))" using s by (simp add: log_ok_def butlast_conv_take sorted_wrt_take)
    moreover have "\<forall>t \<in> set (butlast (ll_wakes s)). t \<le> ll_clock s"
      using s by (auto simp: log_ok_def dest: in_set_butlastD)
    moreover have "butlast (ll_wakes s) ! i + hour \<le> butlast (ll_wakes s) ! (i + 6)"
      if "i + 6 < length (butlast (ll_wakes s))" for i
      using s that by (simp add: log_ok_def nth_butlast)
    ultimately show ?thesis using old(2) L_Refund False
      by (auto simp: log_step.simps log_ok_def refund_def butlast_conv_take [of "wl_recent (ll_limit s)"])
  qed
next
  case (L_Failed now)
  then show "log_ok s \<Longrightarrow> clock_forward s e \<Longrightarrow> ?thesis"
    by (force simp: log_step.simps log_ok_def start_failed_def Let_def clock_forward_def)
qed (simp_all add: log_step.simps log_ok_def succeeded_def slept_def)

interpretation wake_log: guarded_machine log_step clock_forward log_ok
  by unfold_locales (rule log_ok_step)

definition no_log :: limit_log where
  "no_log = \<lparr>ll_limit = no_wakes, ll_wakes = [], ll_clock = 0\<rparr>"

text \<open>C12: However join attempts, called-off wakes, failed and successful starts and sleeps interleave, as
  long as the clock does not go backwards any seven successive wakes that were allowed and not given
  back span at least an hour: no hour holds more than six.\<close>

theorem at_most_six_wakes_an_hour:
  assumes "run_ok log_step clock_forward no_log es" and "i + 6 < length (ll_wakes (foldl log_step no_log es))"
  shows "ll_wakes (foldl log_step no_log es) ! i + hour \<le> ll_wakes (foldl log_step no_log es) ! (i + 6)"
proof -
  have "log_ok no_log" by (simp add: log_ok_def no_log_def no_wakes_def)
  from wake_log.inv_run [OF this assms(1)] show ?thesis using assms(2) by (simp add: log_ok_def)
qed

theorem at_most_six_wakes_an_hour_witness:
  "let s = foldl log_step no_log (map (\<lambda>k. L_Try (hour + k * (10 * minute))) [0, 1, 2, 3, 4, 5, 6])
   in length (ll_wakes s) = 7 \<and> ll_wakes s ! 0 + hour \<le> ll_wakes s ! 6"
proof -
  let ?es = "map (\<lambda>k. L_Try (hour + k * (10 * minute))) [0, 1, 2, 3, 4, 5, 6]"
  have ok: "run_ok log_step clock_forward no_log ?es"
    by (simp add: clock_forward_def no_log_def log_step.simps)
  have "length (ll_wakes (foldl log_step no_log ?es)) = 7"
    by (simp add: no_log_def no_wakes_def log_step.simps limit_try_def limit_check_def forget_def wake_window_def
        max_wakes_per_hour_def)
  then show ?thesis using at_most_six_wakes_an_hour [OF ok, of 0] by (simp add: Let_def)
qed

subsection \<open>Failed starts\<close>

lemma backoff_loop_value:
  assumes "1 \<le> i" and "0 < d"
  shows "min (backoff_loop n i d) max_backoff = min (d * 2 ^ nat (n - i)) max_backoff"
  using assms
proof (induction n i d rule: backoff_loop.induct)
  case (1 n i d)
  show ?case
  proof (cases "i < n \<and> d < max_backoff")
    case True
    then have "nat (n - i) = Suc (nat (n - (i + 1)))" by linarith
    then show ?thesis using 1 True by (subst backoff_loop.simps) (simp add: mult.assoc)
  next
    case False
    have "d \<le> d * 2 ^ k" for k using 1(3) by simp
    then have "i < n \<longrightarrow> max_backoff \<le> d * 2 ^ nat (n - i)" using False by (meson not_less order_trans)
    then show ?thesis using False by (subst backoff_loop.simps) (auto simp: min_def not_less)
  qed
qed

text \<open>After the n-th failed start in a row every join attempt is held back for five minutes doubled
  n - 1 times, an hour at most, and is told how long is left; a start that succeeds ends that.\<close>

theorem failed_starts_back_off:
  assumes "0 \<le> wl_failures l" and "now \<le> u" and "u < now + min (5 * minute * 2 ^ nat (wl_failures l)) hour"
    and "0 \<le> now"
  shows "limit_try (start_failed l now) u =
      (start_failed l now, Answer_Failed, now + min (5 * minute * 2 ^ nat (wl_failures l)) hour - u)
    \<and> wl_blocked_until (succeeded (start_failed l now)) = zero_time"
proof -
  let ?d = "min (5 * minute * 2 ^ nat (wl_failures l)) hour :: int"
  have blocked: "wl_blocked_until (start_failed l now) = now + ?d"
    using backoff_loop_value [of 1 first_backoff "wl_failures l + 1"]
    by (simp add: start_failed_def Let_def first_backoff_def max_backoff_def)
  moreover have "wl_waking_until (start_failed l now) = 0" by (simp add: start_failed_def Let_def)
  moreover have "time_sub (now + ?d) u = now + ?d - u"
    by (rule time_sub_small) (use assms in auto)
  ultimately show ?thesis
    using assms by (simp add: limit_try_def limit_check_def succeeded_def)
qed

theorem failed_starts_back_off_witness:
  "limit_try (start_failed (start_failed no_wakes hour) (2 * hour)) (2 * hour + 4 * minute)
     = (start_failed (start_failed no_wakes hour) (2 * hour), Answer_Failed, 6 * minute)"
proof -
  have f: "wl_failures (start_failed no_wakes hour) = 1" by (simp add: start_failed_def no_wakes_def Let_def)
  show ?thesis
    using failed_starts_back_off [of "start_failed no_wakes hour" "2 * hour" "2 * hour + 4 * minute"]
    by (simp add: f)
qed

subsection \<open>Join attempts\<close>

text \<open>What a join attempt reads tells nothing about the list of admitted names: with the same limit
  and clock, every valid name gets the same reply under any two lists; and the server is woken only
  for a valid name the list admits, when the limit allows it, which then counts it.\<close>

theorem join_reply_hides_admission:
  "(valid_player_name p1 \<and> valid_player_name p2 \<longrightarrow>
      fst (snd (join_attempt m (Some admit1) p1 now now)) = fst (snd (join_attempt m (Some admit2) p2 now now)))
   \<and> (snd (snd (join_attempt m admit p now1 now2)) \<longrightarrow> valid_player_name p \<and> (admit = None \<or> the admit p)
        \<and> fst (snd (limit_check (m_limit m) now1)) = Answer_Wake
        \<and> last (wl_recent (m_limit (fst (join_attempt m admit p now1 now2)))) = now2)"
  (is "?A \<and> ?B")
proof
  have again: "limit_check l now = (l', Answer_Wake, w) \<Longrightarrow> limit_check l' now = (l', Answer_Wake, w)" for l l' w
    by (auto simp: limit_check_def forget_def Let_def split: if_splits)
  obtain l a w where c: "limit_check (m_limit m) now = (l, a, w)" by (metis prod_cases3)
  have reply: "fst (snd (join_attempt m (Some admit) p now now)) = answer_text a (m_name m) w True"
    if "valid_player_name p" for admit p
  proof (cases "a = Answer_Wake")
    case True
    then have "w = 0" using c by (auto simp: limit_check_def Let_def split: if_splits)
    then show ?thesis using that c True again [of "m_limit m" l w]
      by (simp add: join_attempt_def limit_try_def Let_def)
  next
    case False
    then show ?thesis using that c by (simp add: join_attempt_def Let_def)
  qed
  then show ?A by simp
  show ?B
    by (auto simp: join_attempt_def limit_try_def Let_def split: prod.splits if_splits)
qed

theorem join_reply_hides_admission_witness:
  "let m = \<lparr>m_name = ''Survival'', m_listening = True, m_limit = no_wakes\<rparr>
   in fst (snd (join_attempt m (Some (\<lambda>p. p = ''Alice'')) ''Alice'' hour hour))
        = fst (snd (join_attempt m (Some (\<lambda>p. p = ''Alice'')) ''Mallory'' hour hour))
      \<and> snd (snd (join_attempt m (Some (\<lambda>p. p = ''Alice'')) ''Alice'' hour hour))
      \<and> \<not> snd (snd (join_attempt m (Some (\<lambda>p. p = ''Alice'')) ''Mallory'' hour hour))"
proof -
  let ?m = "\<lparr>m_name = ''Survival'', m_listening = True, m_limit = no_wakes\<rparr>"
  let ?j = "\<lambda>p. join_attempt ?m (Some (\<lambda>p. p = ''Alice'')) p hour hour"
  have v: "valid_player_name ''Alice''" "valid_player_name ''Mallory''"
    by (simp_all add: valid_player_name_def name_char_def)
  have "snd (snd (?j ''Alice''))"
    using v by (simp add: join_attempt_def limit_try_def limit_check_def forget_def no_wakes_def max_wakes_per_hour_def)
  moreover have "\<not> snd (snd (?j ''Mallory''))"
    using join_reply_hides_admission [of "''Mallory''" "''Mallory''" ?m "\<lambda>_. True" hour "\<lambda>_. True" "Some (\<lambda>p. p = ''Alice'')" "''Mallory''" hour hour]
    by auto
  moreover have "fst (snd (?j ''Alice'')) = fst (snd (?j ''Mallory''))"
    using join_reply_hides_admission [of "''Alice''" "''Mallory''" ?m "\<lambda>p. p = ''Alice''" hour "\<lambda>p. p = ''Alice''" None "''Alice''" hour hour] v
    by blast
  ultimately show ?thesis by (simp add: Let_def)
qed

end
