(* ===== verification/Sleep_Protocol.thy ===== *)
theory Sleep_Protocol
  imports Go_Crypto
begin

section \<open>The packets of the stand-in (internal/sleep/protocol.go)\<close>

text \<open>
  The start of the Minecraft protocol that the stand-in speaks: VarInts of at most five bytes,
  length-prefixed frames whose length is checked before anything is read, strings counted in
  UTF-16 units, the handshake and the login packet. An \<open>int32\<close> is a \<open>32 word\<close> read with
  \<open>sint\<close>; a reader is the bytes it still holds. The JSON of the server list is not modelled.
\<close>

subsection \<open>Definitions\<close>

datatype read_error = Unexpected_End | Malformed

definition max_handshake :: int where "max_handshake = 1024"
definition max_login_start :: int where "max_login_start = 8 * 1024"
definition max_host_chars :: int where "max_host_chars = 255"
definition max_name_chars :: int where "max_name_chars = 16"

record packet =
  p_id :: "32 word"
  p_data :: bytes

text \<open>The loop of \<open>readVarInt\<close> with \<open>n\<close> bytes left to read, at byte \<open>i\<close>.\<close>

fun read_var_loop :: "nat \<Rightarrow> nat \<Rightarrow> 32 word \<Rightarrow> bytes \<Rightarrow> read_error + 32 word \<times> bytes" where
  "read_var_loop 0 i v bs = Inl Malformed"
| "read_var_loop (Suc n) i v [] = Inl Unexpected_End"
| "read_var_loop (Suc n) i v (b # bs) =
     (let v = v OR push_bit (7 * i) (ucast (b AND 0x7F))
      in if b AND 0x80 = 0 then Inr (v, bs) else read_var_loop n (Suc i) v bs)"

definition read_var_int :: "bytes \<Rightarrow> nat \<Rightarrow> read_error + 32 word \<times> bytes" where
  "read_var_int bs max_bytes = read_var_loop max_bytes 0 0 bs"

definition p_var_int :: "packet \<Rightarrow> read_error + 32 word \<times> packet" where
  "p_var_int p = (case read_var_int (p_data p) 5 of
     Inl _ \<Rightarrow> Inl Malformed | Inr (v, bs) \<Rightarrow> Inr (v, p\<lparr>p_data := bs\<rparr>))"

definition read_frame :: "bytes \<Rightarrow> int \<Rightarrow> read_error + packet \<times> bytes" where
  "read_frame r max_len =
     (case read_var_int r 3 of Inl e \<Rightarrow> Inl e | Inr (n, r) \<Rightarrow>
        if sint n < 1 \<or> max_len < sint n then Inl Malformed
        else if length r < nat (sint n) then Inl Unexpected_End
        else case p_var_int \<lparr>p_id = 0, p_data = take (nat (sint n)) r\<rparr> of
               Inl e \<Rightarrow> Inl e
             | Inr (v, p) \<Rightarrow> Inr (p\<lparr>p_id := v\<rparr>, drop (nat (sint n)) r))"

text \<open>\<open>utf16.RuneLen\<close> of the runes of a string (surrogates cannot occur in one).\<close>

definition utf16_len :: "string \<Rightarrow> int" where
  "utf16_len s = sum_list (map (\<lambda>r. if r < 65536 then 1 else 2) (rune_values s))"

definition p_string :: "packet \<Rightarrow> int \<Rightarrow> read_error + string \<times> packet" where
  "p_string p max_chars =
     (case p_var_int p of Inl e \<Rightarrow> Inl e | Inr (n, p) \<Rightarrow>
        if sint n < 0 \<or> 3 * max_chars < sint n \<or> int (length (p_data p)) < sint n then Inl Malformed
        else let s = string_of (take (nat (sint n)) (p_data p))
             in if \<not> valid_utf8 s \<or> max_chars < utf16_len s then Inl Malformed
                else Inr (s, p\<lparr>p_data := drop (nat (sint n)) (p_data p)\<rparr>))"

record handshake =
  h_protocol :: "32 word"
  h_intent :: "32 word"

definition parse_handshake :: "packet \<Rightarrow> read_error + handshake" where
  "parse_handshake p =
     (if p_id p \<noteq> 0 then Inl Malformed
      else case p_var_int p of Inl e \<Rightarrow> Inl e | Inr (protocol, p) \<Rightarrow>
        case p_string p max_host_chars of Inl e \<Rightarrow> Inl e | Inr (_, p) \<Rightarrow>
        if length (p_data p) < 2 then Inl Malformed
        else case p_var_int (p\<lparr>p_data := drop 2 (p_data p)\<rparr>) of Inl e \<Rightarrow> Inl e | Inr (intent, p) \<Rightarrow>
        if length (p_data p) \<noteq> 0 then Inl Malformed
        else Inr \<lparr>h_protocol = protocol, h_intent = intent\<rparr>)"

definition parse_login_start :: "packet \<Rightarrow> read_error + string" where
  "parse_login_start p =
     (if p_id p \<noteq> 0 then Inl Malformed
      else case p_string p max_name_chars of Inl e \<Rightarrow> Inl e | Inr (s, _) \<Rightarrow> Inr s)"

function append_var_int :: "bytes \<Rightarrow> 32 word \<Rightarrow> bytes" where
  "append_var_int b u =
     (if 0x80 \<le> u then append_var_int (b @ [ucast u OR 0x80]) (drop_bit 7 u) else b @ [ucast u])"
  by pat_completeness auto
termination
proof (relation "measure (\<lambda>(b, u). unat u)")
  fix u :: "32 word"
  assume "0x80 \<le> u"
  then have "128 \<le> unat u" using word_le_nat_alt [of "0x80" u] by simp
  moreover have "unat (drop_bit 7 u) = unat u div 128" by (simp add: drop_bit_eq_div unat_div)
  ultimately show "((b @ [ucast u OR 0x80], drop_bit 7 u), b, u) \<in> measure (\<lambda>(b, u). unat u)" for b :: bytes
    by simp
qed simp

declare append_var_int.simps [simp del]

definition append_string :: "bytes \<Rightarrow> string \<Rightarrow> bytes" where
  "append_string b s = append_var_int b (of_nat (length s)) @ bytes_of s"

definition frame :: "32 word \<Rightarrow> bytes \<Rightarrow> bytes" where
  "frame pid data =
     (let body = append_var_int [] pid @ data in append_var_int [] (of_nat (length body)) @ body)"

subsection \<open>VarInts\<close>

lemma bit_127: "bit (127 :: int) n \<longleftrightarrow> n < 7"
proof -
  have "(127 :: int) = mask 7" by (simp add: mask_eq_exp_minus_1)
  then show ?thesis by (simp only: bit_mask_iff) simp
qed
lemma bit_128: "bit (128 :: int) n \<longleftrightarrow> n = 7"
proof -
  have "(128 :: int) = 2 ^ 7" by simp
  then show ?thesis by (simp only: bit_exp_iff) auto
qed
lemmas varint_bits = bit_127 bit_128 bit_simps

lemma low_bits: "ucast ((ucast (u :: 32 word) OR 0x80 :: 8 word) AND 0x7F) = (u AND 0x7F)"
  by (rule bit_eqI) (auto simp: varint_bits)

lemma high_bit: "(ucast (u :: 32 word) OR 0x80 :: 8 word) AND 0x80 \<noteq> 0"
proof -
  have "bit ((ucast u OR 0x80 :: 8 word) AND 0x80) 7" by (simp add: varint_bits)
  then show ?thesis by (metis bit_0_eq bot_apply bot_bool_def)
qed
lemma bit_bound: "(u :: 'a::len word) < 2 ^ k \<Longrightarrow> bit u n \<Longrightarrow> n < k"
proof (rule ccontr)
  assume u: "u < 2 ^ k" "bit u n" "\<not> n < k"
  from u(2) have "n < LENGTH('a)" by (rule bit_imp_le_length)
  then have "k < LENGTH('a)" using u(3) by simp
  with u(1) have "u AND mask k = u" by (intro less_mask_eq) simp
  then show False using u(2,3) by (metis bit_and_iff bit_mask_iff)
qed

lemma small_byte:
  assumes "\<not> 0x80 \<le> (u :: 32 word)"
  shows "ucast ((ucast u :: 8 word) AND 0x7F) = u" and "(ucast u :: 8 word) AND 0x80 = 0"
proof -
  have "u < 2 ^ 7" using assms by simp
  then have high: "bit u n \<Longrightarrow> n < 7" for n by (rule bit_bound)
  show "ucast ((ucast u :: 8 word) AND 0x7F) = u"
    by (rule bit_eqI) (auto simp: varint_bits dest: high)
  show "(ucast u :: 8 word) AND 0x80 = 0"
    by (rule bit_eqI) (auto simp: varint_bits dest: high)
qed
text \<open>What the bytes of \<open>u\<close> are read as, after \<open>i\<close> bytes that gave \<open>v\<close>.\<close>

lemma append_var_int_prefix: "append_var_int b u = b @ append_var_int [] u"
proof (induction "unat u" arbitrary: b u rule: less_induct)
  case less
  show ?case
  proof (cases "0x80 \<le> u")
    case True
    then have "128 \<le> unat u" using word_le_nat_alt [of "0x80" u] by simp
    then have small: "unat (drop_bit 7 u) < unat u" by (simp add: drop_bit_eq_div unat_div)
    have step: "append_var_int c u = append_var_int (c @ [ucast u OR 0x80]) (drop_bit 7 u)" for c
      using True by (subst append_var_int.simps) (simp only: if_True)
    show ?thesis
      unfolding step [of b] step [of "[]"] less [OF small, of "b @ [ucast u OR 0x80]"]
        less [OF small, of "[] @ [ucast u OR 0x80]"] by simp
  next
    case False
    have step: "append_var_int c u = c @ [ucast u]" for c
      using False by (subst append_var_int.simps) (simp only: if_False)
    show ?thesis unfolding step [of b] step [of "[]"] by simp
  qed
qed

lemma append_var_int_small: "\<not> 0x80 \<le> u \<Longrightarrow> append_var_int [] u = [ucast u]"
  by (subst append_var_int.simps) (simp only: if_False append_Nil)

lemma append_var_int_large:
  "0x80 \<le> u \<Longrightarrow> append_var_int [] u = (ucast u OR 0x80) # append_var_int [] (drop_bit 7 u)"
  by (subst append_var_int.simps, subst append_var_int_prefix) simp

lemma join_bits:
  "(v OR push_bit (7 * i) (u AND 0x7F)) OR push_bit (7 * Suc i) (drop_bit 7 u) = v OR push_bit (7 * i) (u :: 32 word)"
proof (rule bit_eqI)
  fix n
  have "bit u (7 + (n - 7 * Suc i)) = bit u (n - 7 * i)" if "7 * Suc i \<le> n"
  proof -
    from that have "7 + (n - 7 * Suc i) = n - 7 * i" by simp
    then show ?thesis by simp
  qed
  then show "bit ((v OR push_bit (7 * i) (u AND 0x7F)) OR push_bit (7 * Suc i) (drop_bit 7 u)) n
      = bit (v OR push_bit (7 * i) u) n"
    if "possible_bit TYPE(32 word) n"
    using that by (cases "7 * Suc i \<le> n") (auto simp: varint_bits)
qed

lemma read_var_loop_append:
  "unat u < 2 ^ (7 * n) \<Longrightarrow> 0 < n \<Longrightarrow>
     read_var_loop n i v (append_var_int [] u @ rest) = Inr (v OR push_bit (7 * i) u, rest)"
proof (induction n arbitrary: u i v)
  case (Suc n)
  show ?case
  proof (cases "0x80 \<le> u")
    case False
    then show ?thesis
      using small_byte [OF False] by (simp add: append_var_int_small Let_def)
  next
    case True
    then have "128 \<le> unat u" using word_le_nat_alt [of "0x80" u] by simp
    moreover have "(2::nat) ^ (7 * Suc n) = 128 * 2 ^ (7 * n)" by (simp add: power_add)
    ultimately have "0 < n" and small: "unat (drop_bit 7 u) < 2 ^ (7 * n)"
      using Suc.prems(1) by (cases n; simp add: drop_bit_eq_div unat_div less_mult_imp_div_less mult.commute)+
    show ?thesis
      using Suc.IH [OF small \<open>0 < n\<close>, of "Suc i" "v OR push_bit (7 * i) (u AND 0x7F)"] high_bit [of u]
      by (simp only: append_var_int_large [OF True] append_Cons read_var_loop.simps Let_def low_bits if_False join_bits)
  qed
qed simp

lemma read_var_int_append:
  "unat u < 2 ^ (7 * n) \<Longrightarrow> 0 < n \<Longrightarrow> read_var_int (append_var_int [] u @ rest) n = Inr (u, rest)"
  using read_var_loop_append [of u n 0 0 rest] by (simp add: read_var_int_def)

lemma read_var_int_five: "read_var_int (append_var_int [] u @ rest) 5 = Inr (u, rest)"
proof (rule read_var_int_append)
  have "unat u < 2 ^ 32" using unsigned_less [of u] by simp
  also have "\<dots> < (2 :: nat) ^ (7 * 5)" by simp
  finally show "unat u < 2 ^ (7 * 5)" .
qed simp

subsection \<open>Frames and strings\<close>

lemma small_length:
  assumes "n < 2 ^ 21"
  shows "unat (of_nat n :: 32 word) = n" and "sint (of_nat n :: 32 word) = int n"
proof -
  show un: "unat (of_nat n :: 32 word) = n" using assms by (simp add: unat_of_nat take_bit_nat_eq_self)
  have "n < 2 ^ 31" using assms by simp
  then show "sint (of_nat n :: 32 word) = int n"
    by (simp add: signed_of_nat signed_take_bit_int_eq_self)
qed

lemma read_frame_frame:
  assumes "int (length (append_var_int [] pid @ data)) \<le> max_len" and "max_len < 2 ^ 21"
  shows "read_frame (frame pid data @ rest) max_len = Inr (\<lparr>p_id = pid, p_data = data\<rparr>, rest)"
proof -
  define body where "body = append_var_int [] pid @ data"
  have small: "length body < 2 ^ 21" and le: "int (length body) \<le> max_len" using assms by (simp_all add: body_def)
  have "length (append_var_int [] pid) \<noteq> 0"
    by (cases "0x80 \<le> pid") (simp_all add: append_var_int_small append_var_int_large)
  then have pos: "0 < length body" by (simp add: body_def)
  have "(2::nat) ^ 21 = 2 ^ (7 * 3)" by simp
  then have "unat (of_nat (length body) :: 32 word) < 2 ^ (7 * 3)" using small small_length(1) by simp
  from read_var_int_append [OF this, of "body @ rest"]
  have "read_var_int (frame pid data @ rest) 3 = Inr (of_nat (length body), body @ rest)"
    by (simp add: frame_def body_def [symmetric] Let_def)
  moreover have "p_var_int \<lparr>p_id = 0, p_data = body\<rparr> = Inr (pid, \<lparr>p_id = 0, p_data = data\<rparr>)"
    using read_var_int_five [of pid data] by (simp add: p_var_int_def body_def)
  ultimately show ?thesis
    using small_length(2) [OF small] pos le by (simp add: read_frame_def)
qed

lemma p_string_append:
  assumes "valid_utf8 s" and "utf16_len s \<le> max_chars" and "int (length s) \<le> 3 * max_chars" and "length s < 2 ^ 21"
  shows "p_string \<lparr>p_id = i, p_data = append_string [] s @ rest\<rparr> max_chars = Inr (s, \<lparr>p_id = i, p_data = rest\<rparr>)"
proof -
  have "p_var_int \<lparr>p_id = i, p_data = append_string [] s @ rest\<rparr> = Inr (of_nat (length s), \<lparr>p_id = i, p_data = bytes_of s @ rest\<rparr>)"
    by (simp add: p_var_int_def append_string_def read_var_int_five)
  moreover have "length (bytes_of s) = length s" by (simp add: bytes_of_def)
  moreover have "sint (of_nat (length s) :: 32 word) = int (length s)" using small_length(2) [OF assms(4)] .
  ultimately show ?thesis using assms(1-3) by (simp add: p_string_def Let_def)
qed

text \<open>The handshake a client writes: its protocol, the host and port it dialed, and what it wants.\<close>

definition handshake_data :: "32 word \<Rightarrow> string \<Rightarrow> 8 word \<times> 8 word \<Rightarrow> 32 word \<Rightarrow> bytes" where
  "handshake_data protocol host port intent =
     append_var_int [] protocol @ append_string [] host @ [fst port, snd port] @ append_var_int [] intent"

lemma parse_handshake_data:
  assumes "valid_utf8 host" and "utf16_len host \<le> max_host_chars" and "int (length host) \<le> 3 * max_host_chars"
  shows "parse_handshake \<lparr>p_id = 0, p_data = handshake_data protocol host port intent @ more'\<rparr>
    = (if more' = [] then Inr \<lparr>h_protocol = protocol, h_intent = intent\<rparr> else Inl Malformed)"
proof -
  have "length host < 2 ^ 21" using assms(3) by (simp add: max_host_chars_def)
  note s = p_string_append [OF assms this, of 0 "[fst port, snd port] @ append_var_int [] intent @ more'"]
  have "p_var_int \<lparr>p_id = 0, p_data = handshake_data protocol host port intent @ more'\<rparr>
      = Inr (protocol, \<lparr>p_id = 0, p_data = append_string [] host @ [fst port, snd port] @ append_var_int [] intent @ more'\<rparr>)"
    by (simp add: p_var_int_def handshake_data_def read_var_int_five)
  moreover have "p_var_int \<lparr>p_id = 0, p_data = append_var_int [] intent @ more'\<rparr> = Inr (intent, \<lparr>p_id = 0, p_data = more'\<rparr>)"
    by (simp add: p_var_int_def read_var_int_five)
  ultimately show ?thesis using s by (simp add: parse_handshake_def)
qed

text \<open>C13: What a client writes is read back as it was: a VarInt of any 32 bits, a frame of an allowed
  length with the bytes after it left alone, the protocol and the intent of a handshake, which is refused
  with anything after it, and the player's name in the login packet.\<close>

theorem packets_round_trip:
  assumes "int (length (append_var_int [] pid @ data)) \<le> max_login_start"
    and "valid_utf8 name" and "utf16_len name \<le> max_name_chars" and "int (length name) \<le> 3 * max_name_chars"
    and "valid_utf8 host" and "utf16_len host \<le> max_host_chars" and "int (length host) \<le> 3 * max_host_chars"
  shows "read_var_int (append_var_int [] v @ rest) 5 = Inr (v, rest)
    \<and> read_frame (frame pid data @ rest) max_login_start = Inr (\<lparr>p_id = pid, p_data = data\<rparr>, rest)
    \<and> parse_handshake \<lparr>p_id = 0, p_data = handshake_data v host port intent\<rparr> = Inr \<lparr>h_protocol = v, h_intent = intent\<rparr>
    \<and> parse_handshake \<lparr>p_id = 0, p_data = handshake_data v host port intent @ [b]\<rparr> = Inl Malformed
    \<and> parse_login_start \<lparr>p_id = 0, p_data = append_string [] name @ tail\<rparr> = Inr name"
proof -
  have "length name < 2 ^ 21" using assms(4) by (simp add: max_name_chars_def)
  then show ?thesis
    using read_var_int_five read_frame_frame [OF assms(1)] p_string_append [OF assms(2-4)]
      parse_handshake_data [OF assms(5-7), of v port intent "[]"] parse_handshake_data [OF assms(5-7), of v port intent "[b]"]
    by (simp add: max_login_start_def parse_login_start_def)
qed

theorem packets_round_trip_witness:
  "parse_login_start \<lparr>p_id = 0, p_data = append_string [] ''Alice'' @ [1, 2]\<rparr> = Inr ''Alice''
   \<and> parse_handshake \<lparr>p_id = 0, p_data = handshake_data 767 ''mc.example'' (0x63, 0xDD) 2\<rparr> = Inr \<lparr>h_protocol = 767, h_intent = 2\<rparr>
   \<and> read_frame (frame 0 [5, 6] @ [7]) max_login_start = Inr (\<lparr>p_id = 0, p_data = [5, 6]\<rparr>, [7])"
  using packets_round_trip [of 0 "[5, 6]" "''Alice''" "''mc.example''" 767 "[7]" "(0x63, 0xDD)" 2 0 "[1, 2]"]
  by (simp add: max_login_start_def max_name_chars_def max_host_chars_def append_var_int_small valid_utf8_ascii ascii_def utf16_len_def
      rune_values_ascii)

end
