(* ===== verification/Chat.thy ===== *)
theory Chat
  imports Go_Text
begin

section \<open>Chat messages and console commands of schedules (internal/schedule/chat.go)\<close>

text \<open>
  What a schedule may say or run: the check for text that fits one chat line, the tellraw command
  that carries it, the texts of restart warnings and the short list of console commands that may
  run unattended. The clean-up of the server's replies (cleanOutput, rejected, truncate) is in
  theory Clean_Output. The quoting of a refused command in the English message is not modelled: an
  error is a constructor with the code's parameters.
\<close>

subsection \<open>Definitions\<close>

definition color_warning :: string where "color_warning = ''gold''"
definition color_announcement :: string where "color_announcement = ''yellow''"
definition color_say :: string where "color_say = ''white''"
definition say_prefix :: string where "say_prefix = ''[Server] ''"
definition max_command_bytes :: nat where "max_command_bytes = 1446"
definition max_command_len :: nat where "max_command_len = 256"
definition minutes_placeholder :: string where "minutes_placeholder = ''{minutes}''"

definition chat_safe :: "string \<Rightarrow> bool" where
  "chat_safe s \<longleftrightarrow> valid_utf8 s \<and> list_all (\<lambda>r. \<not> (r < 32 \<or> 127 \<le> r \<and> r < 160
     \<or> r = 8232 \<or> r = 8233 \<or> r = 65279 \<or> 8234 \<le> r \<and> r \<le> 8238 \<or> 8294 \<le> r \<and> r \<le> 8297)) (rune_values s)"

text \<open>\<open>plainText\<close> of schedule.go: valid UTF-8 without control characters.\<close>

definition plain_text :: "string \<Rightarrow> bool" where
  "plain_text s \<longleftrightarrow> valid_utf8 s \<and> list_all (\<lambda>r. \<not> (r < 32 \<or> 127 \<le> r \<and> r < 160)) (rune_values s)"

datatype chat_error = Not_Chat_Safe | Too_Long_To_Send

abbreviation (input) quote_char :: char where "quote_char \<equiv> CHR 0x22"
abbreviation (input) backslash :: char where "backslash \<equiv> CHR 0x5C"

definition tellraw_escape :: "string \<Rightarrow> string" where
  "tellraw_escape text = concat (map (\<lambda>(r, b). if r = 92 then [backslash, backslash]
     else if r = 34 then [backslash, quote_char] else b) (runes text))"

definition tellraw_head :: string where
  "tellraw_head = ''tellraw @a {'' @ [quote_char] @ ''text'' @ [quote_char] @ '':'' @ [quote_char]"

definition tellraw_tail :: "string \<Rightarrow> string" where
  "tellraw_tail color = [quote_char] @ '','' @ [quote_char] @ ''color'' @ [quote_char] @ '':'' @ [quote_char] @ color
     @ [quote_char] @ ''}''"

definition tellraw :: "string \<Rightarrow> string \<Rightarrow> chat_error + string" where
  "tellraw text color =
     (if \<not> chat_safe text then Inl Not_Chat_Safe
      else let b = tellraw_head @ tellraw_escape text @ tellraw_tail color
           in if max_command_bytes < length b then Inl Too_Long_To_Send else Inr b)"

text \<open>\<open>plural\<close> of schedule.go.\<close>

definition plural :: "int \<Rightarrow> string \<Rightarrow> string" where
  "plural n unit = (if n = 1 then ''1 '' @ unit else itoa n @ '' '' @ unit @ ''s'')"

definition duration_words :: "duration \<Rightarrow> string" where
  "duration_words remaining =
     (let secs = quot (remaining + 500000000) second
      in if secs < 60 then plural (max secs 1) ''second''
         else if secs mod 60 \<noteq> 0 then ''about '' @ plural (secs div 60) ''minute''
         else plural (secs div 60) ''minute'')"

text \<open>\<open>strings.Contains\<close> and \<open>strings.ReplaceAll\<close> of a text that is not empty.\<close>

fun contains :: "string \<Rightarrow> string \<Rightarrow> bool" where
  "contains [] p = (p = [])"
| "contains (c # cs) p = (has_prefix (c # cs) p \<or> contains cs p)"

function replace_all :: "string \<Rightarrow> string \<Rightarrow> string \<Rightarrow> string" where
  "replace_all s old new =
     (if s = [] \<or> old = [] then s
      else if has_prefix s old then new @ replace_all (drop (length old) s) old new
      else hd s # replace_all (tl s) old new)"
  by pat_completeness auto
termination by (relation "measure (\<lambda>(s, _, _). length s)") auto

declare replace_all.simps [simp del]

definition fill_minutes :: "string \<Rightarrow> duration \<Rightarrow> string" where
  "fill_minutes message remaining =
     (let words = duration_words remaining;
          message = foldl (\<lambda>m unit. replace_all m (minutes_placeholder @ unit) words) message ['' minutes'', '' minute''];
          secs = quot (remaining + 500000000) second;
          n = (if 60 \<le> secs then itoa ((secs + 30) div 60) else words)
      in replace_all message minutes_placeholder n)"

definition restart_warning :: "duration \<Rightarrow> string \<Rightarrow> chat_error + string" where
  "restart_warning remaining message =
     (if contains message minutes_placeholder then tellraw (fill_minutes message remaining) color_warning
      else tellraw (''The server restarts in '' @ duration_words remaining @ ''.''
             @ (if message \<noteq> [] then '' '' @ message else [])) color_warning)"

definition say_text :: "string \<Rightarrow> string option" where
  "say_text cmd = (case cut_prefix cmd ''say '' of Some text \<Rightarrow> if text = [] then None else Some text | None \<Rightarrow> None)"

definition restart_now :: string where
  "restart_now = (case tellraw ''The server is restarting now.'' color_warning of Inr cmd \<Rightarrow> cmd | Inl _ \<Rightarrow> [])"

definition restart_called_off :: string where
  "restart_called_off = (case tellraw ''The planned restart was called off.'' color_warning of Inr cmd \<Rightarrow> cmd | Inl _ \<Rightarrow> [])"

text \<open>The expressions \<open>^[0-9]{1,7}[dst]?$\<close>, \<open>^[A-Za-z0-9_.:-]{1,64}$\<close>, \<open>^(true|false|-?[0-9]{1,9})$\<close>
  and \<open>^[0-9]{1,4}$\<close>.\<close>

definition digits_within :: "nat \<Rightarrow> string \<Rightarrow> bool" where
  "digits_within n s \<longleftrightarrow> 1 \<le> length s \<and> length s \<le> n \<and> list_all is_digit s"

definition ticks_re :: "string \<Rightarrow> bool" where
  "ticks_re s \<longleftrightarrow> digits_within 7 s \<or> (s \<noteq> [] \<and> last s \<in> {CHR ''d'', CHR ''s'', CHR ''t''} \<and> digits_within 7 (butlast s))"

definition word_char :: "char \<Rightarrow> bool" where
  "word_char c \<longleftrightarrow> (65 \<le> code c \<and> code c \<le> 90) \<or> (97 \<le> code c \<and> code c \<le> 122) \<or> is_digit c"

definition gamerule_re :: "string \<Rightarrow> bool" where
  "gamerule_re s \<longleftrightarrow> 1 \<le> length s \<and> length s \<le> 64 \<and> list_all (\<lambda>c. word_char c \<or> c \<in> {CHR ''_'', CHR ''.'', CHR '':'', CHR ''-''}) s"

definition rule_value_re :: "string \<Rightarrow> bool" where
  "rule_value_re s \<longleftrightarrow> s = ''true'' \<or> s = ''false'' \<or> digits_within 9 (if s \<noteq> [] \<and> hd s = CHR ''-'' then tl s else s)"

definition minutes_re :: "string \<Rightarrow> bool" where
  "minutes_re s \<longleftrightarrow> digits_within 4 s"

definition allowed_command :: "string list \<Rightarrow> bool" where
  "allowed_command f =
     (let c = f ! 0; n = length f
      in if c = ''save-all'' then n = 1 \<or> n = 2 \<and> f ! 1 = ''flush''
         else if c = ''weather'' then (n = 2 \<or> n = 3 \<and> ticks_re (f ! 2)) \<and> f ! 1 \<in> {''clear'', ''rain'', ''thunder''}
         else if c = ''time'' then
           (if n \<noteq> 3 then False
            else if f ! 1 = ''set'' then f ! 2 \<in> {''day'', ''noon'', ''night'', ''midnight''} \<or> ticks_re (f ! 2)
            else if f ! 1 = ''add'' then ticks_re (f ! 2)
            else False)
         else if c = ''difficulty'' then n = 2 \<and> f ! 1 \<in> {''peaceful'', ''easy'', ''normal'', ''hard''}
         else if c = ''gamerule'' then n = 3 \<and> gamerule_re (f ! 1) \<and> rule_value_re (f ! 2)
         else if c = ''setidletimeout'' then n = 2 \<and> minutes_re (f ! 1)
         else if c = ''kill'' then n = 2 \<and> f ! 1 \<in> {''@e[type=item]'', ''@e[type=minecraft:item]''}
         else False)"

datatype command_error = Command_Required | Command_Too_Long | Command_Text_Invalid | Command_Use_Restart | Say_Required
  | Command_Not_Allowed string

definition check_command :: "string \<Rightarrow> command_error option" where
  "check_command cmd =
     (if cmd = [] then Some Command_Required
      else if max_command_len < length cmd then Some Command_Too_Long
      else if \<not> plain_text cmd then Some Command_Text_Invalid
      else let f = split_on (CHR '' '') cmd
           in if f ! 0 = ''stop'' \<or> f ! 0 = ''restart'' then Some Command_Use_Restart
              else if f ! 0 = ''say'' then
                (if length f = 1 then Some Say_Required else if \<not> chat_safe cmd then Some Command_Text_Invalid else None)
              else if \<not> allowed_command f then Some (Command_Not_Allowed (f ! 0))
              else None)"

subsection \<open>User text stays inside the component\<close>

text \<open>
  How the game reads a string of a text component, after its opening quote: up to the first quote
  that is not escaped. \<open>None\<close> is a malformed string.
\<close>

fun read_quoted :: "string \<Rightarrow> (string \<times> string) option" where
  "read_quoted [] = None"
| "read_quoted (c # cs) =
     (if c = quote_char then Some ([], cs)
      else if c = backslash then
        (case cs of d # ds \<Rightarrow>
           if d = quote_char \<or> d = backslash then map_option (\<lambda>(s, rest). (d # s, rest)) (read_quoted ds) else None
         | [] \<Rightarrow> None)
      else map_option (\<lambda>(s, rest). (c # s, rest)) (read_quoted cs))"

lemma read_quoted_plain:
  "quote_char \<notin> set b \<Longrightarrow> backslash \<notin> set b \<Longrightarrow>
     read_quoted (b @ rest) = map_option (\<lambda>(s, r). (b @ s, r)) (read_quoted rest)"
  by (induction b) (auto simp: option.map_comp o_def case_prod_unfold intro: option.map_ident [symmetric])

text \<open>A rune is an ASCII byte, or all its bytes are beyond ASCII.\<close>

lemma decode_rune_bytes:
  assumes "decode_rune (map of_char (take 4 (c # cs))) = (r, k)"
  shows "(r = code c \<and> k = 1 \<and> r < 128) \<or> (128 \<le> r \<and> (\<forall>d \<in> set (c # take (k - 1) cs). 128 \<le> code d))"
proof (cases "code c < 128")
  case False
  then have r: "128 \<le> r" using decode_rune_ge [of "code c" "map of_char (take 3 cs)"] assms by simp
  have "\<forall>d \<in> set (take (k - 1) cs). 128 \<le> code d"
    using assms False
    by (cases cs; cases "tl cs"; cases "tl (tl cs)")
      (auto simp: decode_rune_def is_cont_def split: if_splits)
  then show ?thesis using r False by auto
qed (use assms in auto)

lemma runes_bytes_class:
  "(r, b) \<in> set (runes s) \<Longrightarrow> (r < 128 \<and> (\<exists>c. b = [c] \<and> code c = r)) \<or> (128 \<le> r \<and> (\<forall>d \<in> set b. 128 \<le> code d))"
proof (induction s rule: runes.induct)
  case (2 c cs)
  obtain r' k where rk: "decode_rune (map of_char (take 4 (c # cs))) = (r', k)" by (metis surj_pair)
  have "(r, b) = (r', c # take (k - 1) cs) \<or> (r, b) \<in> set (runes (drop (k - 1) cs))"
    using 2(2) rk by (simp del: take_Suc_Cons)
  then show ?case
  proof
    assume "(r, b) = (r', c # take (k - 1) cs)"
    then show ?thesis using decode_rune_bytes [OF rk] by auto
  next
    assume "(r, b) \<in> set (runes (drop (k - 1) cs))"
    then show ?thesis by (rule 2(1) [OF rk [symmetric] refl])
  qed
qed simp

lemma read_escaped:
  assumes "\<And>r b. (r, b) \<in> set rs \<Longrightarrow> (r < 128 \<and> (\<exists>c. b = [c] \<and> code c = r)) \<or> (128 \<le> r \<and> (\<forall>d \<in> set b. 128 \<le> code d))"
  shows "read_quoted (concat (map (\<lambda>(r, b). if r = 92 then [backslash, backslash]
     else if r = 34 then [backslash, quote_char] else b) rs) @ quote_char # rest) = Some (concat (map snd rs), rest)"
  using assms
proof (induction rs)
  case (Cons rb rs)
  obtain r b where rb: "rb = (r, b)" by (cases rb)
  let ?tl = "concat (map (\<lambda>(r, b). if r = 92 then [backslash, backslash]
     else if r = 34 then [backslash, quote_char] else b) rs) @ quote_char # rest"
  have IH: "read_quoted ?tl = Some (concat (map snd rs), rest)" using Cons by simp
  have char: "code c = code d \<longleftrightarrow> c = d" for c d :: char by (rule of_char_eq_iff)
  consider (esc) "r = 92 \<or> r = 34" | (plain) "r \<noteq> 92" "r \<noteq> 34" by blast
  then show ?case
  proof cases
    case esc
    then obtain c where "b = [c]" "code c = r" using Cons.prems [of r b] rb by auto
    then have "r = 92 \<longrightarrow> b = [backslash]" "r = 34 \<longrightarrow> b = [quote_char]" using char by fastforce+
    then show ?thesis using IH esc rb by auto
  next
    case plain
    then have "quote_char \<notin> set b" "backslash \<notin> set b" using Cons.prems [of r b] rb by auto
    then show ?thesis using read_quoted_plain [of b ?tl] IH plain rb by simp
  qed
qed simp

lemma tellraw_cases:
  assumes "tellraw text color = Inr cmd"
  shows "cmd = tellraw_head @ tellraw_escape text @ tellraw_tail color" "chat_safe text" "length cmd \<le> max_command_bytes"
  using assms by (auto simp: tellraw_def Let_def split: if_splits)

lemma chat_safe_bytes:
  assumes "chat_safe s" and "c \<in> set s"
  shows "32 \<le> code c"
proof -
  obtain r b where rb: "(r, b) \<in> set (runes s)" "c \<in> set b"
    using assms(2) arg_cong [OF runes_bytes [of s], of set] by fastforce
  then have "32 \<le> r" using assms(1) by (force simp: chat_safe_def rune_values_def list_all_iff)
  then show ?thesis using runes_bytes_class [OF rb(1)] rb(2) by auto
qed

text \<open>C10: A message sent to chat is one console command whose text component holds exactly the
  message: reading the component's string gives the message back, and nothing but the fixed end of
  the component follows it. The command has no line break or other control character and fits one
  request.\<close>

theorem chat_text_stays_text:
  assumes "tellraw text color = Inr cmd" and "color \<in> {color_warning, color_announcement, color_say}"
  shows "(\<exists>body. cmd = tellraw_head @ body
        \<and> read_quoted body = Some (text, '','' @ [quote_char] @ ''color'' @ [quote_char] @ '':'' @ [quote_char] @ color @ [quote_char] @ ''}''))
    \<and> (\<forall>c \<in> set cmd. 32 \<le> code c) \<and> length cmd \<le> 1446"
proof -
  note cmd = tellraw_cases [OF assms(1)]
  have "read_quoted (tellraw_escape text @ tellraw_tail color)
      = Some (concat (map snd (runes text)), tl (tellraw_tail color))"
    using read_escaped [where rs = "runes text" and rest = "tl (tellraw_tail color)"] runes_bytes_class by (simp add: tellraw_escape_def tellraw_tail_def)
  then have read: "read_quoted (tellraw_escape text @ tellraw_tail color) = Some (text, tl (tellraw_tail color))"
    by (simp add: runes_bytes)
  have bytes: "32 \<le> code c" if "c \<in> set (tellraw_escape text)" for c
    using chat_safe_bytes [OF cmd(2)] arg_cong [OF runes_bytes [of "text"], of set] that
    by (fastforce simp: tellraw_escape_def split: if_splits)
  have "\<forall>c \<in> set tellraw_head \<union> set (tellraw_tail color). 32 \<le> code c"
    using assms(2) by (auto simp: tellraw_head_def tellraw_tail_def color_warning_def color_announcement_def color_say_def)
  then have "\<forall>c \<in> set cmd. 32 \<le> code c" using bytes unfolding cmd(1) by auto
  moreover have "length cmd \<le> 1446" using cmd(3) by (simp add: max_command_bytes_def)
  ultimately show ?thesis using read cmd(1) by (intro conjI exI [of _ "tellraw_escape text @ tellraw_tail color"])
    (simp_all add: tellraw_tail_def)
qed

theorem chat_text_stays_text_witness:
  "let text = ''hi'' @ [quote_char] @ '',x'' @ [backslash];
       cmd = tellraw_head @ ''hi'' @ [backslash, quote_char] @ '',x'' @ [backslash, backslash] @ tellraw_tail color_say
   in tellraw text color_say = Inr cmd \<and> (\<forall>c \<in> set cmd. 32 \<le> code c)"
proof -
  have t: "tellraw (''hi'' @ [quote_char] @ '',x'' @ [backslash]) color_say = Inr (tellraw_head @ ''hi''
      @ [backslash, quote_char] @ '',x'' @ [backslash, backslash] @ tellraw_tail color_say)"
    by (simp add: tellraw_def chat_safe_def valid_utf8_def rune_error_def tellraw_escape_def tellraw_head_def
        tellraw_tail_def color_say_def max_command_bytes_def text_eval)
  then show ?thesis using chat_text_stays_text [OF t] unfolding Let_def by blast
qed

lemma plain_text_bytes:
  assumes "plain_text s" and "c \<in> set s"
  shows "32 \<le> code c"
proof -
  obtain r b where rb: "(r, b) \<in> set (runes s)" "c \<in> set b"
    using assms(2) arg_cong [OF runes_bytes [of s], of set] by fastforce
  then have "32 \<le> r" using assms(1) by (force simp: plain_text_def rune_values_def list_all_iff)
  then show ?thesis using runes_bytes_class [OF rb(1)] rb(2) by auto
qed

lemma chat_safe_plain: "chat_safe s \<Longrightarrow> plain_text s"
  by (auto simp: chat_safe_def plain_text_def list_all_iff)

lemma chat_safe_say: "chat_safe (''say '' @ s) \<Longrightarrow> chat_safe s"
  by (simp add: chat_safe_def valid_utf8_def rune_values_def del: runes.simps)

definition plain_word :: "string \<Rightarrow> bool" where
  "plain_word s \<longleftrightarrow> list_all (\<lambda>c. word_char c \<or> c \<in> {CHR ''_'', CHR ''.'', CHR '':'', CHR ''-''}) s"

lemma digits_plain: "digits_within n s \<Longrightarrow> plain_word s"
  by (auto simp: digits_within_def plain_word_def word_char_def list_all_iff)

lemma ticks_plain: "ticks_re s \<Longrightarrow> plain_word s"
proof (unfold ticks_re_def, elim disjE conjE)
  assume s: "s \<noteq> []" "last s \<in> {CHR ''d'', CHR ''s'', CHR ''t''}" "digits_within 7 (butlast s)"
  have "plain_word [last s]" using s(2) by (auto simp: plain_word_def word_char_def)
  then have "plain_word (butlast s @ [last s])"
    using digits_plain [OF s(3)] unfolding plain_word_def list_all_append by blast
  then show "plain_word s" using s(1) by simp
qed (rule digits_plain)

lemma plain_literals:
  "plain_word ''true''" "plain_word ''false''" "plain_word ''flush''" "plain_word ''clear''" "plain_word ''rain''"
  "plain_word ''thunder''" "plain_word ''set''" "plain_word ''add''" "plain_word ''day''" "plain_word ''noon''"
  "plain_word ''night''" "plain_word ''midnight''" "plain_word ''peaceful''" "plain_word ''easy''"
  "plain_word ''normal''" "plain_word ''hard''"
  by (simp_all add: plain_word_def word_char_def)

lemma rule_value_plain:
  assumes "rule_value_re s"
  shows "plain_word s"
proof -
  have "plain_word s" if d: "digits_within 9 (if s \<noteq> [] \<and> hd s = CHR ''-'' then tl s else s)"
  proof (cases s)
    case (Cons c cs)
    show ?thesis
    proof (cases "c = CHR ''-''")
      case True
      then have "plain_word cs" using d Cons digits_plain by simp
      then show ?thesis using Cons True by (simp add: plain_word_def)
    next
      case False
      then show ?thesis using d Cons digits_plain by (simp add: if_not_P)
    qed
  qed (simp add: plain_word_def)
  then show ?thesis using assms plain_literals(1,2) unfolding rule_value_re_def by blast
qed

lemma allowed_command_words:
  assumes "allowed_command f" and "f = w # ws"
  shows "(w = ''kill'' \<and> (ws = [''@e[type=item]''] \<or> ws = [''@e[type=minecraft:item]'']))
    \<or> (w \<in> {''save-all'', ''weather'', ''time'', ''difficulty'', ''gamerule'', ''setidletimeout''}
        \<and> length ws \<le> 2 \<and> (\<forall>x \<in> set ws. plain_word x))"
proof -
  have w: "f ! 0 = w" "f ! 1 = ws ! 0" "f ! 2 = ws ! 1" "length f = Suc (length ws)" using assms(2) by simp_all
  have rule: "gamerule_re x \<Longrightarrow> plain_word x" "minutes_re x \<Longrightarrow> plain_word x" for x
    using digits_plain by (simp_all add: gamerule_re_def minutes_re_def plain_word_def)
  have one: "length ws = 1 \<Longrightarrow> set ws = {ws ! 0}" and two: "length ws = 2 \<Longrightarrow> set ws = {ws ! 0, ws ! 1}"
    by (auto simp: length_Suc_conv numeral_2_eq_2)
  note a = assms(1) [unfolded allowed_command_def Let_def w]
  consider "w = ''save-all''" | "w = ''weather''" | "w = ''time''" | "w = ''difficulty''" | "w = ''gamerule''"
    | "w = ''setidletimeout''" | "w = ''kill''"
    using a by (simp split: if_split_asm)
  then show ?thesis
  proof cases
    case 1
    then have "length ws = 0 \<or> length ws = 1 \<and> ws ! 0 = ''flush''" using a by simp
    then show ?thesis using 1 one plain_literals by (cases ws) simp_all
  next
    case 2
    then have "(length ws = 1 \<or> length ws = 2 \<and> ticks_re (ws ! 1)) \<and> ws ! 0 \<in> {''clear'', ''rain'', ''thunder''}" using a by simp
    then have "length ws \<le> 2 \<and> (\<forall>x \<in> set ws. plain_word x)"
      using one two plain_literals ticks_plain by (elim conjE disjE) (simp, fastforce)+
    then show ?thesis using 2 by simp
  next
    case 3
    then have t: "length ws = 2" "ws ! 0 = ''set'' \<or> ws ! 0 = ''add''" "ws ! 1 \<in> {''day'', ''noon'', ''night'', ''midnight''} \<or> ticks_re (ws ! 1)"
      using a by (simp_all split: if_split_asm)
    then have "plain_word (ws ! 0)" "plain_word (ws ! 1)" using plain_literals ticks_plain by fastforce+
    then show ?thesis using 3 t(1) two by simp
  next
    case 4
    then have "length ws = 1" "ws ! 0 \<in> {''peaceful'', ''easy'', ''normal'', ''hard''}" using a by simp_all
    then show ?thesis using 4 one plain_literals by fastforce
  next
    case 5
    then have "length ws = 2" "gamerule_re (ws ! 0)" "rule_value_re (ws ! 1)" using a by simp_all
    then show ?thesis using 5 two rule rule_value_plain by simp
  next
    case 6
    then have "length ws = 1" "minutes_re (ws ! 0)" using a by simp_all
    then show ?thesis using 6 one rule by simp
  next
    case 7
    then have "length ws = 1" "ws ! 0 \<in> {''@e[type=item]'', ''@e[type=minecraft:item]''}" using a by simp_all
    moreover from this(1) have "ws = [ws ! 0]" by (cases ws) simp_all
    ultimately show ?thesis using 7 by (metis empty_iff insert_iff)
  qed
qed

text \<open>A console command that may run on a schedule is one of a short list: \<open>say\<close> with a text fit for
  chat, or a \<open>save-all\<close>, \<open>weather\<close>, \<open>time\<close>, \<open>difficulty\<close>, \<open>gamerule\<close> or \<open>setidletimeout\<close> of plain words without a
  target selector, or one of the two \<open>kill\<close> commands that name only dropped items. It is a single line.\<close>

theorem scheduled_commands_are_harmless:
  assumes "check_command cmd = None"
  shows "(\<forall>c \<in> set cmd. 32 \<le> code c) \<and> length cmd \<le> 256
    \<and> ((\<exists>text. cmd = ''say '' @ text \<and> chat_safe text)
       \<or> cmd \<in> {''kill @e[type=item]'', ''kill @e[type=minecraft:item]''}
       \<or> (\<exists>w ws. split_on (CHR '' '') cmd = w # ws
            \<and> w \<in> {''save-all'', ''weather'', ''time'', ''difficulty'', ''gamerule'', ''setidletimeout''}
            \<and> length ws \<le> 2 \<and> (\<forall>x \<in> set ws. plain_word x)))"
proof -
  define f where "f = split_on (CHR '' '') cmd"
  have ok: "plain_text cmd" "length cmd \<le> 256" and words: "f ! 0 = ''say'' \<and> length f \<noteq> 1 \<and> chat_safe cmd \<or> f ! 0 \<noteq> ''say'' \<and> allowed_command f"
    using assms by (auto simp: check_command_def Let_def f_def [symmetric] max_command_len_def split: if_splits)
  have line: "\<forall>c \<in> set cmd. 32 \<le> code c" using plain_text_bytes [OF ok(1)] by blast
  have cmd: "cmd = join '' '' f" by (simp add: f_def join_split_on)
  obtain w ws where f: "f = w # ws" unfolding f_def by (meson list.exhaust split_on_nonempty)
  from words show ?thesis
  proof (elim disjE conjE)
    assume say: "f ! 0 = ''say''" "length f \<noteq> 1" "chat_safe cmd"
    then obtain v vs where "ws = v # vs" using f by (cases ws) auto
    then have "cmd = ''say '' @ join '' '' ws" using say(1) f cmd by simp
    then show ?thesis using chat_safe_say [of "join '' '' ws"] say(3) line ok(2) by blast
  next
    assume "allowed_command f"
    then show ?thesis using allowed_command_words [OF _ f] line ok(2) f cmd unfolding f_def [symmetric] by fastforce
  qed
qed

theorem scheduled_commands_are_harmless_witness:
  "check_command ''save-all flush'' = None \<and> list_all (\<lambda>c. 32 \<le> code c) ''save-all flush''"
proof -
  have w: "split_on (CHR '' '') ''save-all flush'' = [''save-all'', ''flush'']" by simp
  have "plain_text ''save-all flush''"
    by (simp add: plain_text_def valid_utf8_def rune_error_def text_eval)
  then have c: "check_command ''save-all flush'' = None"
    by (simp add: check_command_def w allowed_command_def max_command_len_def del: split_on.simps)
  then show ?thesis using scheduled_commands_are_harmless [OF c] unfolding list_all_iff by blast
qed

end
