(* ===== verification/Go_Zone.thy ===== *)
theory Go_Zone
  imports Go_Base
begin

section \<open>Calendar and time zones\<close>

text \<open>
  The calendar of package \<open>time\<close>: days are numbered from 1 January of year 1 (day 0, a
  Monday). A time zone is what \<open>Location.lookup\<close> answers: for a second (since the zero
  \<open>Time\<close>) the period of constant offset it falls in. The zone database is not part of
  the repository, so a zone is a parameter, and \<open>tz_ok\<close> states what the code relies on:
  the periods partition the time line, offsets are under a day and a period lasts at least
  two days. \<open>date_in\<close> is \<open>time.Date\<close>'s search for the instant of a wall time.
\<close>

subsection \<open>Dates\<close>

definition leap :: "int \<Rightarrow> bool" where
  "leap y \<longleftrightarrow> y mod 4 = 0 \<and> (y mod 100 \<noteq> 0 \<or> y mod 400 = 0)"

definition days_before_year :: "int \<Rightarrow> int" where
  "days_before_year y = 365 * (y - 1) + (y - 1) div 4 - (y - 1) div 100 + (y - 1) div 400"

definition days_before_month :: "bool \<Rightarrow> int \<Rightarrow> int" where
  "days_before_month l m =
     (if m \<le> 1 then 0 else if m = 2 then 31
      else (if l then 1 else 0) +
        (if m = 3 then 59 else if m = 4 then 90 else if m = 5 then 120 else if m = 6 then 151
         else if m = 7 then 181 else if m = 8 then 212 else if m = 9 then 243
         else if m = 10 then 273 else if m = 11 then 304 else if m = 12 then 334 else 365))"

text \<open>The day of a date; a day of the month out of range counts on, as in \<open>time.Date\<close>.\<close>

definition day_number :: "int \<Rightarrow> int \<Rightarrow> int \<Rightarrow> int" where
  "day_number y m d = days_before_year y + days_before_month (leap y) m + (d - 1)"

text \<open>Year and day of the year (from 0) of a day.\<close>

definition year_of_day :: "int \<Rightarrow> int \<times> int" where
  "year_of_day n =
     (let a = n div 146097; r = n mod 146097;
          b = r div 36524 - r div 36524 div 4; r = r - 36524 * b;
          c = r div 1461; r = r - 1461 * c;
          e = r div 365 - r div 365 div 4
      in (400 * a + 100 * b + 4 * c + e + 1, r - 365 * e))"

definition month_of_yday :: "bool \<Rightarrow> int \<Rightarrow> int" where
  "month_of_yday l yd =
     (if yd < days_before_month l 2 then 1 else if yd < days_before_month l 3 then 2
      else if yd < days_before_month l 4 then 3 else if yd < days_before_month l 5 then 4
      else if yd < days_before_month l 6 then 5 else if yd < days_before_month l 7 then 6
      else if yd < days_before_month l 8 then 7 else if yd < days_before_month l 9 then 8
      else if yd < days_before_month l 10 then 9 else if yd < days_before_month l 11 then 10
      else if yd < days_before_month l 12 then 11 else 12)"

definition date_of_day :: "int \<Rightarrow> int \<times> int \<times> int" where
  "date_of_day n = (let (y, yd) = year_of_day n; m = month_of_yday (leap y) yd
                    in (y, m, yd - days_before_month (leap y) m + 1))"

text \<open>\<open>Weekday\<close>: Sunday is 0. \<open>ISOWeek\<close>: the year and week of the day's Thursday.\<close>

definition weekday :: "int \<Rightarrow> int" where
  "weekday n = (n + 1) mod 7"

definition iso_week :: "int \<Rightarrow> int \<times> int" where
  "iso_week n = (let (y, yd) = year_of_day (n - n mod 7 + 3) in (y, yd div 7 + 1))"

lemma days_before_year_parts:
  fixes a b c e :: int
  assumes "0 \<le> b" "b \<le> 3" "0 \<le> c" "c \<le> 24" "0 \<le> e" "e \<le> 3"
  shows "days_before_year (400 * a + 100 * b + 4 * c + e + 1)
           = 146097 * a + 36524 * b + 1461 * c + 365 * e"
    and "leap (400 * a + 100 * b + 4 * c + e + 1) \<longleftrightarrow> e = 3 \<and> (c \<noteq> 24 \<or> b = 3)"
proof -
  let ?n = "400 * a + 100 * b + 4 * c + e"
  have d4: "?n div 4 = 100 * a + 25 * b + c" using assms by linarith
  have d100: "?n div 100 = 4 * a + b" using assms by linarith
  have d400: "?n div 400 = a" using assms by linarith
  show "days_before_year (?n + 1) = 146097 * a + 36524 * b + 1461 * c + 365 * e"
    by (simp add: days_before_year_def d4 d100 d400)
  let ?x = "4 * c + e + 1"
  have x: "1 \<le> ?x" "?x \<le> 100" using assms by linarith+
  have "(?n + 1) mod 4 = (e + 1 + 4 * (100 * a + 25 * b + c)) mod 4" by (simp add: algebra_simps)
  then have "(?n + 1) mod 4 = (e + 1) mod 4" by (simp only: mod_mult_self2)
  moreover have "e = 0 \<or> e = 1 \<or> e = 2 \<or> e = 3" using assms by linarith
  ultimately have m4: "(?n + 1) mod 4 = 0 \<longleftrightarrow> e = 3" by auto
  have "(?n + 1) mod 100 = (?x + 100 * (4 * a + b)) mod 100" by (simp add: algebra_simps)
  then have "(?n + 1) mod 100 = ?x mod 100" by (simp only: mod_mult_self2)
  moreover have "?x mod 100 = (if ?x = 100 then 0 else ?x)" using x by simp
  ultimately have m100: "(?n + 1) mod 100 = 0 \<longleftrightarrow> ?x = 100" using x by simp
  have "(?n + 1) mod 400 = (100 * b + ?x + 400 * a) mod 400" by (simp add: algebra_simps)
  then have "(?n + 1) mod 400 = (100 * b + ?x) mod 400" by (simp only: mod_mult_self2)
  moreover have z: "1 \<le> 100 * b + ?x" "100 * b + ?x \<le> 400" using assms by linarith+
  moreover have "(100 * b + ?x) mod 400 = (if 100 * b + ?x = 400 then 0 else 100 * b + ?x)"
  proof (cases "100 * b + ?x = 400")
    case True
    then show ?thesis by (simp only: if_True) simp
  next
    case False
    with z have "0 \<le> 100 * b + ?x" "100 * b + ?x < 400" by linarith+
    with False show ?thesis by (simp only: if_False mod_pos_pos_trivial)
  qed
  ultimately have m400: "(?n + 1) mod 400 = 0 \<longleftrightarrow> 100 * b + ?x = 400" by simp
  show "leap (?n + 1) \<longleftrightarrow> e = 3 \<and> (c \<noteq> 24 \<or> b = 3)"
    unfolding leap_def m4 m100 m400 using assms by auto
qed

text \<open>Go's way to divide by four unequal parts, the last one longer by one.\<close>

lemma four_parts:
  fixes r k :: int
  assumes "0 \<le> r" and "r \<le> 4 * k" and "1 < k"
  defines "q \<equiv> r div k - r div k div 4"
  shows "0 \<le> q" "q \<le> 3" "0 \<le> r - k * q" "r - k * q \<le> k" "r - k * q = k \<Longrightarrow> q = 3"
proof -
  have r: "r = k * (r div k) + r mod k" "0 \<le> r mod k" "r mod k < k" using assms by auto
  have lo: "0 \<le> r div k" using assms by (simp add: pos_imp_zdiv_nonneg_iff)
  have hi: "r div k \<le> 4"
    using assms zdiv_mono1 [of r "4 * k" k] by simp
  consider "q = r div k" "r div k \<le> 3" | "r div k = 4" "q = 3"
    unfolding q_def using lo hi by fastforce
  then have all: "0 \<le> q \<and> q \<le> 3 \<and> 0 \<le> r - k * q \<and> r - k * q \<le> k \<and> (r - k * q = k \<longrightarrow> q = 3)"
  proof cases
    case 1
    have "r - k * q = r mod k" unfolding 1(1) using r(1) by linarith
    then show ?thesis using 1 lo r(2,3) by auto
  next
    case 2
    from r(1) 2(1) have "r = k * 4 + r mod k" by simp
    then have "r = 4 * k" using r(2) assms(2) by linarith
    then show ?thesis using 2 assms(3) by simp
  qed
  then show "0 \<le> q" "q \<le> 3" "0 \<le> r - k * q" "r - k * q \<le> k" "r - k * q = k \<Longrightarrow> q = 3"
    by blast+
qed

lemma year_of_day:
  assumes "year_of_day n = (y, yd)"
  shows "days_before_year y + yd = n" and "0 \<le> yd" and "yd < (if leap y then 366 else 365)"
proof -
  define a r0 where "a = n div 146097" and "r0 = n mod 146097"
  define b r1 where "b = r0 div 36524 - r0 div 36524 div 4" and "r1 = r0 - 36524 * b"
  define c r2 where "c = r1 div 1461" and "r2 = r1 - 1461 * c"
  define e where "e = r2 div 365 - r2 div 365 div 4"
  have n: "n = 146097 * a + r0" and r0: "0 \<le> r0" "r0 < 146097"
    by (simp_all add: a_def r0_def)
  have r0': "r0 \<le> 4 * 36524" using r0 by simp
  note b_parts = four_parts [OF r0(1) r0' , folded b_def, folded r1_def, simplified]
  have b: "0 \<le> b" "b \<le> 3" and r1: "0 \<le> r1" "r1 \<le> 36524" "r1 = 36524 \<Longrightarrow> b = 3"
    using b_parts by blast+
  have c: "0 \<le> c" "c \<le> 24" and r2: "0 \<le> r2" "r2 < 1461" "r1 = 1461 * c + r2"
  proof -
    have r1c: "r1 = 1461 * c + r1 mod 1461" "0 \<le> r1 mod 1461" "r1 mod 1461 < 1461"
      by (simp_all add: c_def)
    show "0 \<le> c" "c \<le> 24" "0 \<le> r2" "r2 < 1461" "r1 = 1461 * c + r2"
      using r1(1,2) r1c unfolding r2_def by linarith+
  qed
  have r2': "r2 \<le> 4 * 365" using r2(2) by simp
  note e_parts = four_parts [OF r2(1) r2', folded e_def, simplified]
  have e: "0 \<le> e" "e \<le> 3" and yd': "0 \<le> r2 - 365 * e" "r2 - 365 * e \<le> 365"
     "r2 - 365 * e = 365 \<Longrightarrow> e = 3"
    using e_parts by simp_all
  have "year_of_day n = (400 * a + 100 * b + 4 * c + e + 1, r2 - 365 * e)"
    unfolding year_of_day_def Let_def a_def r0_def b_def r1_def c_def r2_def e_def by (rule refl)
  then have y: "y = 400 * a + 100 * b + 4 * c + e + 1" and yd: "yd = r2 - 365 * e"
    using assms by (simp_all only: prod.inject)
  note parts = days_before_year_parts [OF b c e, of a, folded y]
  show "days_before_year y + yd = n"
    using parts(1) n r2(3) by (simp add: yd r1_def)
  show "0 \<le> yd" using yd' yd by simp
  show "yd < (if leap y then 366 else 365)"
  proof (cases "yd = 365")
    case True
    then have "e = 3" and "r2 = 1460" using yd' yd by auto
    moreover have "c = 24 \<Longrightarrow> r1 = 36524" using \<open>r2 = 1460\<close> r2(3) by simp
    ultimately have "leap y" using parts(2) r1(3) by blast
    then show ?thesis using True by simp
  next
    case False
    then show ?thesis using yd' yd by auto
  qed
qed

lemma days_before_month_values:
  "days_before_month l 1 = 0" "days_before_month l 2 = 31"
  "days_before_month l 3 = 59 + of_bool l" "days_before_month l 4 = 90 + of_bool l"
  "days_before_month l 5 = 120 + of_bool l" "days_before_month l 6 = 151 + of_bool l"
  "days_before_month l 7 = 181 + of_bool l" "days_before_month l 8 = 212 + of_bool l"
  "days_before_month l 9 = 243 + of_bool l" "days_before_month l 10 = 273 + of_bool l"
  "days_before_month l 11 = 304 + of_bool l" "days_before_month l 12 = 334 + of_bool l"
  "days_before_month l 13 = 365 + of_bool l"
  by (simp_all add: days_before_month_def)

lemma month_of_yday:
  assumes "0 \<le> yd" and "yd < (if l then 366 else 365)"
  shows "1 \<le> month_of_yday l yd \<and> month_of_yday l yd \<le> 12
    \<and> days_before_month l (month_of_yday l yd) \<le> yd
    \<and> yd < days_before_month l (month_of_yday l yd + 1)"
proof -
  have yd: "yd < 365 + of_bool l" using assms(2) by (cases l) simp_all
  let ?b = "days_before_month l"
  consider "yd < ?b 2" | "?b 2 \<le> yd" "yd < ?b 3" | "?b 3 \<le> yd" "yd < ?b 4"
    | "?b 4 \<le> yd" "yd < ?b 5" | "?b 5 \<le> yd" "yd < ?b 6" | "?b 6 \<le> yd" "yd < ?b 7"
    | "?b 7 \<le> yd" "yd < ?b 8" | "?b 8 \<le> yd" "yd < ?b 9" | "?b 9 \<le> yd" "yd < ?b 10"
    | "?b 10 \<le> yd" "yd < ?b 11" | "?b 11 \<le> yd" "yd < ?b 12" | "?b 12 \<le> yd"
    by linarith
  then show ?thesis
    using assms(1) yd by cases (simp_all add: month_of_yday_def days_before_month_values)
qed

lemma date_of_day_inverse:
  assumes "date_of_day n = (y, m, d)"
  shows "day_number y m d = n"
  using assms year_of_day(1) [of n]
  by (auto simp: date_of_day_def day_number_def Let_def split: prod.splits)

lemma date_of_day_bounds:
  assumes "date_of_day n = (y, m, d)"
  shows "1 \<le> m" "m \<le> 12" "1 \<le> d" "d \<le> 31"
proof -
  obtain y' yd where yy: "year_of_day n = (y', yd)" by (cases "year_of_day n")
  then have yd: "0 \<le> yd" "yd < (if leap y' then 366 else 365)"
    using year_of_day(2,3) by blast+
  have m: "m = month_of_yday (leap y') yd" and d: "d = yd - days_before_month (leap y') m + 1"
    using assms yy by (auto simp: date_of_day_def Let_def)
  note mm = month_of_yday [OF yd, folded m]
  show m12: "1 \<le> m" "m \<le> 12" using mm by blast+
  show "1 \<le> d" using mm d by simp
  have "m = 1 \<or> m = 2 \<or> m = 3 \<or> m = 4 \<or> m = 5 \<or> m = 6 \<or> m = 7 \<or> m = 8 \<or> m = 9
     \<or> m = 10 \<or> m = 11 \<or> m = 12" using m12 by presburger
  then have "days_before_month (leap y') (m + 1) \<le> days_before_month (leap y') m + 31"
    by (elim disjE) (simp_all add: days_before_month_values)
  then show "d \<le> 31" using mm d by simp
qed

lemma weekday_range: "0 \<le> weekday n \<and> weekday n < 7"
  by (simp add: weekday_def)

subsection \<open>Time zones\<close>

text \<open>What \<open>Location.lookup\<close> and \<open>ZoneBounds\<close> say of a moment; \<open>None\<close> is an open end.\<close>

record zone_period =
  zp_offset :: int
  zp_start :: "int option"
  zp_end :: "int option"

type_synonym zone = "int \<Rightarrow> zone_period"

definition utc :: zone where
  "utc = (\<lambda>_. \<lparr>zp_offset = 0, zp_start = None, zp_end = None\<rparr>)"

definition before_period :: "zone_period \<Rightarrow> int \<Rightarrow> bool" where
  "before_period p s = (case zp_start p of None \<Rightarrow> False | Some a \<Rightarrow> s < a)"

definition after_period :: "zone_period \<Rightarrow> int \<Rightarrow> bool" where
  "after_period p s = (case zp_end p of None \<Rightarrow> False | Some b \<Rightarrow> b \<le> s)"

definition in_period :: "zone_period \<Rightarrow> int \<Rightarrow> bool" where
  "in_period p s \<longleftrightarrow> \<not> before_period p s \<and> \<not> after_period p s"

text \<open>What the zone's clock reads at a second, in seconds.\<close>

definition wall_sec :: "zone \<Rightarrow> int \<Rightarrow> int" where
  "wall_sec z s = s + zp_offset (z s)"

text \<open>\<open>time.Date\<close> in a location: the instant found for the wall time \<open>w\<close>.\<close>

definition date_in :: "zone \<Rightarrow> int \<Rightarrow> int" where
  "date_in z w =
     (let p = z w in
      if zp_offset p = 0 then w
      else let u = w - zp_offset p in
           if before_period p u \<or> after_period p u then w - zp_offset (z u) else u)"

definition long_period :: "zone_period \<Rightarrow> bool" where
  "long_period p = (case (zp_start p, zp_end p) of
      (Some a, Some b) \<Rightarrow> 172800 \<le> b - a | _ \<Rightarrow> True)"

text \<open>What the zone database guarantees of a zone.\<close>

definition tz_ok :: "zone \<Rightarrow> bool" where
  "tz_ok z \<longleftrightarrow>
     (\<forall>s. in_period (z s) s \<and> long_period (z s) \<and> \<bar>zp_offset (z s)\<bar> < 86400
          \<and> (case zp_start (z s) of None \<Rightarrow> True | Some a \<Rightarrow> 0 < a))
     \<and> (\<forall>s u. in_period (z s) u \<longrightarrow> z u = z s)"

lemma tz_ok_utc: "tz_ok utc"
  by (simp add: tz_ok_def utc_def in_period_def before_period_def after_period_def long_period_def)

lemma tz_okD:
  assumes "tz_ok z"
  shows "in_period (z s) s" "long_period (z s)" "- 86400 < zp_offset (z s)" "zp_offset (z s) < 86400"
    and "in_period (z s) u \<Longrightarrow> z u = z s" and "zp_start (z s) = Some a \<Longrightarrow> 0 < a"
proof -
  have h: "in_period (z s) s \<and> long_period (z s) \<and> \<bar>zp_offset (z s)\<bar> < 86400
          \<and> (case zp_start (z s) of None \<Rightarrow> True | Some a \<Rightarrow> 0 < a)"
    using assms unfolding tz_ok_def by blast
  then show "in_period (z s) s" "long_period (z s)" "- 86400 < zp_offset (z s)" "zp_offset (z s) < 86400"
    by (auto simp: abs_less_iff)
  show "in_period (z s) u \<Longrightarrow> z u = z s" using assms unfolding tz_ok_def by blast
  show "zp_start (z s) = Some a \<Longrightarrow> 0 < a" using h by simp
qed

text \<open>Two seconds with no start of a period between them are in one period.\<close>

lemma same_period:
  assumes "tz_ok z" and "s \<le> u" and "\<not> after_period (z s) u"
  shows "z u = z s"
proof -
  have "\<not> before_period (z s) s" using tz_okD(1) [OF assms(1)] by (simp add: in_period_def)
  then have "\<not> before_period (z s) u"
    using assms(2) by (auto simp: before_period_def split: option.splits)
  then have "in_period (z s) u" using assms(3) by (simp add: in_period_def)
  then show ?thesis by (rule tz_okD(5) [OF assms(1)])
qed

lemma same_period_back:
  assumes "tz_ok z" and "u \<le> s" and "\<not> before_period (z s) u"
  shows "z u = z s"
proof -
  have "\<not> after_period (z s) s" using tz_okD(1) [OF assms(1)] by (simp add: in_period_def)
  then have "\<not> after_period (z s) u"
    using assms(2) by (auto simp: after_period_def split: option.splits)
  then have "in_period (z s) u" using assms(3) by (simp add: in_period_def)
  then show ?thesis by (rule tz_okD(5) [OF assms(1)])
qed

text \<open>The period before one that starts at \<open>a\<close> ends there; the one after its end starts there.\<close>

lemma period_before:
  assumes "tz_ok z" and "zp_start (z s) = Some a"
  shows "zp_end (z (a - 1)) = Some a" and "z a = z s"
proof -
  have as: "a \<le> s" and nas: "\<not> after_period (z s) s"
    using tz_okD(1) [OF assms(1), of s] assms(2) by (auto simp: in_period_def before_period_def)
  show za: "z a = z s"
    using same_period_back [OF assms(1) as] assms(2) by (simp add: before_period_def)
  have "z (a - 1) \<noteq> z s"
    using tz_okD(1) [OF assms(1), of "a - 1"] assms(2) by (auto simp: in_period_def before_period_def)
  then have "after_period (z (a - 1)) a"
    using same_period [OF assms(1), of "a - 1" a] za by auto
  moreover have "\<not> after_period (z (a - 1)) (a - 1)"
    using tz_okD(1) [OF assms(1), of "a - 1"] by (simp add: in_period_def)
  ultimately show "zp_end (z (a - 1)) = Some a"
    by (auto simp: after_period_def split: option.splits)
qed

lemma period_after:
  assumes "tz_ok z" and "zp_end (z s) = Some b"
  shows "zp_start (z b) = Some b" and "z (b - 1) = z s"
proof -
  have sb: "s \<le> b - 1"
    using tz_okD(1) [OF assms(1), of s] assms(2) by (auto simp: in_period_def after_period_def)
  show zb: "z (b - 1) = z s"
    using same_period [OF assms(1) sb] assms(2) by (simp add: after_period_def)
  have "z b \<noteq> z s"
    using tz_okD(1) [OF assms(1), of b] assms(2) by (auto simp: in_period_def after_period_def)
  then have "before_period (z b) (b - 1)"
    using same_period_back [OF assms(1), of "b - 1" b] zb by auto
  moreover have "\<not> before_period (z b) b"
    using tz_okD(1) [OF assms(1), of b] by (simp add: in_period_def)
  ultimately show "zp_start (z b) = Some b"
    by (auto simp: before_period_def split: option.splits)
qed

text \<open>Wall times long before a period's start are read only before it.\<close>

lemma wall_before_long:
  assumes "tz_ok z" and "zp_end (z q) = Some a" and "s < a" and "z s \<noteq> z q"
  shows "wall_sec z s < a - 86400"
proof -
  have q: "q < a" using tz_okD(1) [OF assms(1), of q] assms(2) by (auto simp: in_period_def after_period_def)
  have "before_period (z q) s"
  proof (rule ccontr)
    assume "\<not> before_period (z q) s"
    then have "in_period (z q) s" using assms(2,3) by (simp add: in_period_def after_period_def)
    then show False using tz_okD(5) [OF assms(1)] assms(4) by blast
  qed
  then obtain c where c: "zp_start (z q) = Some c" "s < c" by (auto simp: before_period_def split: option.splits)
  have "172800 \<le> a - c"
    using tz_okD(2) [OF assms(1), of q] assms(2) c(1) by (simp add: long_period_def)
  then show ?thesis
    using tz_okD(4) [OF assms(1), of s] c(2) by (simp add: wall_sec_def)
qed

end
