(* ===== verification/Wall_Clock.thy ===== *)
theory Wall_Clock
  imports Go_Zone
begin

section \<open>What a wall-clock time stands for (internal/schedule/timing.go)\<close>

text \<open>
  \<open>resolve\<close> turns a wall-clock time of a zone into an instant: the moment the clock resumes for
  a time it skips, the first instance for a time it shows twice. The main lemma states this
  without cases: it is the first instant at which the zone's clock reads at least that time.
\<close>

subsection \<open>Definitions\<close>

text \<open>\<open>time.Date(y, mo, d, h, mi, 0, 0, time.UTC)\<close> and \<open>wallOf\<close>, in seconds since year 1.\<close>

definition wall_time :: "int \<Rightarrow> int \<Rightarrow> int \<Rightarrow> int \<Rightarrow> int \<Rightarrow> int" where
  "wall_time y mo d h mi = day_number y mo d * 86400 + h * 3600 + mi * 60"

definition wall_of :: "zone \<Rightarrow> int \<Rightarrow> int" where
  "wall_of z t = wall_sec z t"

definition earlier_instance :: "zone \<Rightarrow> int \<Rightarrow> int \<Rightarrow> int option" where
  "earlier_instance z t want =
     (case zp_start (z t) of
        None \<Rightarrow> None
      | Some start \<Rightarrow>
          let cand = want - zp_offset (z (start - 1))
          in if cand < start \<and> wall_of z cand = want then Some cand else None)"

definition resolve_sec :: "zone \<Rightarrow> int \<Rightarrow> int" where
  "resolve_sec z want =
     (let t = date_in z want; got = wall_of z t
      in if got = want then (case earlier_instance z t want of Some first \<Rightarrow> first | None \<Rightarrow> t)
         else if want < got then (case zp_start (z t) of Some start \<Rightarrow> start | None \<Rightarrow> 0)
         else (case zp_end (z t) of Some fin \<Rightarrow> fin | None \<Rightarrow> 0))"

definition resolve :: "int \<Rightarrow> int \<Rightarrow> int \<Rightarrow> int \<Rightarrow> int \<Rightarrow> zone \<Rightarrow> gotime" where
  "resolve y mo d h mi z = resolve_sec z (wall_time y mo d h mi) * second"

subsection \<open>The first instant that reads at least the time\<close>

definition first_reading :: "zone \<Rightarrow> int \<Rightarrow> int \<Rightarrow> bool" where
  "first_reading z want r \<longleftrightarrow> want \<le> wall_sec z r \<and> (\<forall>s < r. wall_sec z s < want)"

lemma first_reading_exact:
  assumes ok: "tz_ok z" and t: "wall_sec z t = want"
  shows "first_reading z want (case earlier_instance z t want of Some first \<Rightarrow> first | None \<Rightarrow> t)"
proof (cases "zp_start (z t)")
  case None
  have "wall_sec z s < want" if "s < t" for s
    using same_period_back [OF ok, of s t] None that t by (auto simp: before_period_def wall_sec_def)
  then show ?thesis using None t by (simp add: earlier_instance_def first_reading_def)
next
  case (Some a)
  define q where "q = a - 1"
  define cand where "cand = want - zp_offset (z q)"
  have ei: "earlier_instance z t want = (if cand < a \<and> wall_sec z cand = want then Some cand else None)"
    unfolding earlier_instance_def Some option.case Let_def wall_of_def cand_def q_def by (rule refl)
  have before: "zp_end (z q) = Some a" using period_before(1) [OF ok Some] by (simp add: q_def)
  have at: "a \<le> t" using tz_okD(1) [OF ok, of t] Some by (auto simp: in_period_def before_period_def)
  have want: "a - 86400 < want" using at t tz_okD(3) [OF ok, of t] by (simp add: wall_sec_def)
  have old: "wall_sec z s < want" if "s < a" "z s \<noteq> z q" for s
    using wall_before_long [OF ok before that] want by simp
  have same: "z cand = z q" if "wall_sec z cand = want" "cand < a"
    using old [of cand] that by fastforce
  show ?thesis
  proof (cases "cand < a \<and> wall_sec z cand = want")
    case True
    have "wall_sec z s < want" if "s < cand" for s
    proof (cases "z s = z q")
      case True
      then show ?thesis using that by (simp add: wall_sec_def cand_def)
    qed (use old [of s] that \<open>cand < a \<and> _\<close> in simp)
    then show ?thesis using True by (simp add: ei first_reading_def)
  next
    case False
    have "wall_sec z s < want" if "s < t" for s
    proof (cases "a \<le> s")
      case True
      then have "z s = z t" using same_period_back [OF ok, of s t] Some that by (simp add: before_period_def)
      then show ?thesis using that t by (simp add: wall_sec_def)
    next
      case sa: False
      show ?thesis
      proof (cases "z s = z q")
        case zq: True
        show ?thesis
        proof (rule ccontr)
          assume "\<not> ?thesis"
          then have cs: "cand \<le> s" using zq by (simp add: wall_sec_def cand_def)
          have "\<not> before_period (z q) cand"
          proof
            assume "before_period (z q) cand"
            then obtain c where c: "zp_start (z q) = Some c" "cand < c"
              by (auto simp: before_period_def split: option.splits)
            have "172800 \<le> a - c" using tz_okD(2) [OF ok, of q] before c(1) by (simp add: long_period_def)
            then show False using want c(2) tz_okD(4) [OF ok, of q] by (simp add: cand_def)
          qed
          moreover have "\<not> after_period (z q) cand" using before cs sa by (simp add: after_period_def)
          ultimately have "in_period (z q) cand" by (simp add: in_period_def)
          then have "z cand = z q" by (rule tz_okD(5) [OF ok])
          then have "wall_sec z cand = want" by (simp add: wall_sec_def cand_def)
          then show False using False cs sa by simp
        qed
      qed (use old [of s] sa in simp)
    qed
    then have "first_reading z want t" using t by (simp add: first_reading_def)
    then show ?thesis using False by (auto simp: ei)
  qed
qed

text \<open>A time in the gap between two periods: the clock jumps over it when the later one starts.\<close>

lemma first_reading_gap:
  assumes ok: "tz_ok z" and a: "zp_end (z q) = Some a" "zp_start (z p) = Some a" "z a = z p"
    and reach: "a + zp_offset (z q) \<le> want" and skip: "want \<le> a + zp_offset (z p)" and late: "a - 86400 < want"
  shows "first_reading z want a"
proof -
  have "wall_sec z s < want" if "s < a" for s
  proof (cases "z s = z q")
    case True
    then show ?thesis using that reach by (simp add: wall_sec_def)
  next
    case False
    then show ?thesis using wall_before_long [OF ok a(1) that] late by simp
  qed
  then show ?thesis using skip a(3) by (simp add: first_reading_def wall_sec_def)
qed

lemma first_reading_resolve:
  assumes ok: "tz_ok z"
  shows "first_reading z want (resolve_sec z want)"
proof -
  define p where "p = z want"
  define u where "u = want - zp_offset p"
  have exact: "first_reading z want (resolve_sec z want)" if "wall_sec z (date_in z want) = want"
    using first_reading_exact [OF ok that] that by (simp add: resolve_sec_def wall_of_def Let_def)
  have off: "- 86400 < zp_offset (z s)" "zp_offset (z s) < 86400" for s using tz_okD [OF ok] by auto
  have wp: "in_period p want" using tz_okD(1) [OF ok] by (simp add: p_def)
  consider (zero) "zp_offset p = 0" | (inside) "zp_offset p \<noteq> 0" "in_period p u"
    | (before) "zp_offset p \<noteq> 0" "before_period p u" | (after) "zp_offset p \<noteq> 0" "after_period p u"
    by (auto simp: in_period_def)
  then show ?thesis
  proof cases
    case zero
    then show ?thesis by (intro exact) (simp add: date_in_def wall_sec_def flip: p_def)
  next
    case inside
    then have "z u = p" using tz_okD(5) [OF ok, of want u] by (simp add: p_def)
    then show ?thesis
      using inside by (intro exact) (simp add: date_in_def wall_sec_def Let_def in_period_def flip: p_def u_def, simp add: u_def)
  next
    case before
    then obtain a where a: "zp_start p = Some a" "u < a" by (auto simp: before_period_def split: option.splits)
    have aw: "a \<le> want" using wp a(1) by (auto simp: in_period_def before_period_def)
    have ends: "zp_end (z (a - 1)) = Some a" "z a = p" using period_before [OF ok] a(1) by (auto simp: p_def)
    have "z u = z (a - 1)"
    proof (rule ccontr)
      assume "z u \<noteq> z (a - 1)"
      then have "\<not> in_period (z (a - 1)) u" using tz_okD(5) [OF ok] by blast
      then obtain c where "zp_start (z (a - 1)) = Some c" "u < c"
        using ends(1) a(2) by (auto simp: in_period_def before_period_def after_period_def split: option.splits)
      then show False
        using tz_okD(2) [OF ok, of "a - 1"] ends(1) off [of want] aw by (simp add: long_period_def u_def p_def)
    qed
    define t where "t = want - zp_offset (z (a - 1))"
    have t: "date_in z want = t"
      using before \<open>z u = _\<close> by (simp add: date_in_def Let_def t_def flip: p_def u_def)
    show ?thesis
    proof (cases "t < a")
      case True
      have "z t = z (a - 1)"
      proof (rule ccontr)
        assume "z t \<noteq> z (a - 1)"
        then have "\<not> in_period (z (a - 1)) t" using tz_okD(5) [OF ok] by blast
        then obtain c where "zp_start (z (a - 1)) = Some c" "t < c"
          using ends(1) True by (auto simp: in_period_def before_period_def after_period_def split: option.splits)
        then show False
          using tz_okD(2) [OF ok, of "a - 1"] ends(1) off [of "a - 1"] aw by (simp add: long_period_def t_def)
      qed
      then show ?thesis by (intro exact) (simp add: t wall_sec_def, simp add: t_def)
    next
      case False
      have "\<not> after_period p t"
      proof
        assume "after_period p t"
        then obtain b where "zp_end p = Some b" "b \<le> t" by (auto simp: after_period_def split: option.splits)
        then show False
          using tz_okD(2) [OF ok, of want] a off [of want] off [of "a - 1"]
          by (simp add: long_period_def t_def u_def p_def)
      qed
      then have zt: "z t = p"
        using tz_okD(5) [OF ok, of want t] a(1) False by (simp add: in_period_def before_period_def p_def)
      have "want < wall_sec z t" using False a(2) zt by (simp add: wall_sec_def t_def u_def)
      then have "resolve_sec z want = a" using t zt a(1) by (simp add: resolve_sec_def wall_of_def Let_def)
      moreover have "first_reading z want a"
        by (rule first_reading_gap [OF ok ends(1), of want])
          (use a ends False aw off [of want] in \<open>simp_all add: p_def t_def u_def\<close>)
      ultimately show ?thesis by simp
    qed
  next
    case after
    then obtain b where b: "zp_end p = Some b" "b \<le> u" by (auto simp: after_period_def split: option.splits)
    have wb: "want < b" using wp b(1) by (auto simp: in_period_def after_period_def)
    have starts: "zp_start (z b) = Some b" using period_after(1) [OF ok, of want b] b(1) by (simp add: p_def)
    have near: "in_period (z b) s" if "b \<le> s" "s < b + 172800" for s
    proof -
      have "\<not> after_period (z b) s"
        using tz_okD(2) [OF ok, of b] starts that(2) by (auto simp: long_period_def after_period_def split: option.splits)
      then show ?thesis using starts that(1) by (simp add: in_period_def before_period_def)
    qed
    have "z u = z b" using tz_okD(5) [OF ok near [of u]] b(2) wb off [of want] by (simp add: u_def p_def)
    define t where "t = want - zp_offset (z b)"
    have t: "date_in z want = t"
      using after \<open>z u = _\<close> by (simp add: date_in_def Let_def t_def flip: p_def u_def)
    show ?thesis
    proof (cases "b \<le> t")
      case True
      have "z t = z b" using tz_okD(5) [OF ok near [of t]] True wb off [of b] by (simp add: t_def)
      then show ?thesis by (intro exact) (simp add: t wall_sec_def, simp add: t_def)
    next
      case False
      have "\<not> before_period p t"
      proof
        assume "before_period p t"
        then obtain a where "zp_start p = Some a" "t < a" by (auto simp: before_period_def split: option.splits)
        then show False
          using tz_okD(2) [OF ok, of want] b off [of want] off [of b]
          by (simp add: long_period_def t_def u_def p_def)
      qed
      then have zt: "z t = p"
        using tz_okD(5) [OF ok, of want t] b(1) False by (simp add: in_period_def after_period_def p_def)
      have "wall_sec z t < want" using False b(2) zt by (simp add: wall_sec_def t_def u_def)
      then have "resolve_sec z want = b" using t zt b(1) by (simp add: resolve_sec_def wall_of_def Let_def)
      moreover have "first_reading z want b"
        by (rule first_reading_gap [OF ok _ starts refl, of want])
          (use b starts False wb off [of want] in \<open>simp_all add: p_def t_def u_def\<close>)
      ultimately show ?thesis by simp
    qed
  qed
qed

lemma resolve_sec_mono:
  assumes "tz_ok z" and "v \<le> w"
  shows "resolve_sec z v \<le> resolve_sec z w"
proof (rule ccontr)
  assume "\<not> ?thesis"
  then have "wall_sec z (resolve_sec z w) < v"
    using first_reading_resolve [OF assms(1), of v] by (simp add: first_reading_def)
  then show False using first_reading_resolve [OF assms(1), of w] assms(2) by (simp add: first_reading_def)
qed

text \<open>The clock's reading at an instant in nanoseconds, and its day.\<close>

definition wall_nanos :: "zone \<Rightarrow> gotime \<Rightarrow> int" where
  "wall_nanos z t = t + zp_offset (z (t div second)) * second"

definition wall_day :: "zone \<Rightarrow> gotime \<Rightarrow> int" where
  "wall_day z t = wall_sec z (t div second) div 86400"

lemma wall_nanos_sec: "wall_nanos z t = wall_sec z (t div second) * second + t mod second"
  by (simp add: wall_nanos_def wall_sec_def algebra_simps)

lemma wall_nanos_less_iff: "wall_nanos z t < w * second \<longleftrightarrow> wall_sec z (t div second) < w"
proof -
  have "0 \<le> t mod second" "t mod second < second" by simp_all
  then show ?thesis unfolding wall_nanos_sec by linarith
qed

lemma resolve_sec_le_iff:
  assumes "tz_ok z"
  shows "resolve_sec z w * second \<le> t \<longleftrightarrow> (\<exists>s \<le> t div second. w \<le> wall_sec z s)"
proof -
  have "resolve_sec z w * second \<le> t \<longleftrightarrow> resolve_sec z w \<le> t div second"
    using div_mult_mod_eq [of t second] pos_mod_bound [of second t] pos_mod_sign [of second t]
    by (auto simp: zdiv_mono1 intro: le_less_trans)
  also have "\<dots> \<longleftrightarrow> (\<exists>s \<le> t div second. w \<le> wall_sec z s)"
    using first_reading_resolve [OF assms, of w] unfolding first_reading_def by (meson linorder_not_less order_trans order_refl)
  finally show ?thesis .
qed

text \<open>A wall time not after the one an instant reads stands for an instant not after it.\<close>

lemma resolve_sec_reached:
  "tz_ok z \<Longrightarrow> w \<le> wall_sec z (t div second) \<Longrightarrow> resolve_sec z w * second \<le> t"
  by (subst resolve_sec_le_iff) auto

text \<open>
  What a zone's clock never does: lose more than a day. The shifts of the zone database are at
  most 24 hours (Alaska 1867, Samoa 1892, Kwajalein 1969).
\<close>

definition small_shifts :: "zone \<Rightarrow> bool" where
  "small_shifts z \<longleftrightarrow> (\<forall>s u. s \<le> u \<longrightarrow> wall_sec z s \<le> wall_sec z u + 86400)"

lemma small_shifts_utc: "small_shifts utc"
  by (simp add: small_shifts_def utc_def wall_sec_def)

lemma resolve_sec_later:
  assumes "tz_ok z" and "small_shifts z" and "wall_sec z (t div second) + 86400 < w"
  shows "t < resolve_sec z w * second"
proof (rule ccontr)
  assume "\<not> ?thesis"
  then obtain s where "s \<le> t div second" "w \<le> wall_sec z s"
    using resolve_sec_le_iff [OF assms(1), of w t] by auto
  then show False using assms(2,3) unfolding small_shifts_def by (meson leD le_less_trans order_trans)
qed

text \<open>A wall-clock time of a zone stands for the first instant at which the zone's clock reads at
  least that time: the time itself where the clock shows it once, the first of two instances where
  the clock goes back over it, the moment the clock resumes where the clock jumps over it.\<close>

theorem resolve_is_first_reading:
  assumes "tz_ok z"
  shows "wall_time y mo d h mi * second \<le> wall_nanos z (resolve y mo d h mi z)
    \<and> (\<forall>t. t < resolve y mo d h mi z \<longrightarrow> wall_nanos z t < wall_time y mo d h mi * second)"
proof (intro conjI allI impI)
  let ?w = "wall_time y mo d h mi"
  have r: "first_reading z ?w (resolve_sec z ?w)" by (rule first_reading_resolve [OF assms])
  then show "?w * second \<le> wall_nanos z (resolve y mo d h mi z)"
    by (simp add: resolve_def wall_nanos_sec first_reading_def)
  fix t
  assume "t < resolve y mo d h mi z"
  then have "t div second < resolve_sec z ?w"
    using div_mult_mod_eq [of t second] pos_mod_sign [of second t] unfolding resolve_def by linarith
  then show "wall_nanos z t < ?w * second" using r by (simp add: wall_nanos_less_iff first_reading_def)
qed

text \<open>A zone whose clock goes from 02:00 to 03:00 at one moment, to try the code on.\<close>

definition spring :: "int \<Rightarrow> zone" where
  "spring a = (\<lambda>s. if s < a then \<lparr>zp_offset = 3600, zp_start = None, zp_end = Some a\<rparr>
                   else \<lparr>zp_offset = 7200, zp_start = Some a, zp_end = None\<rparr>)"

lemma tz_ok_spring: "0 < a \<Longrightarrow> tz_ok (spring a)"
  by (auto simp: tz_ok_def spring_def in_period_def before_period_def after_period_def long_period_def)

lemma small_shifts_spring: "small_shifts (spring a)"
  by (auto simp: small_shifts_def spring_def wall_sec_def)

theorem resolve_is_first_reading_witness:
  "let a = wall_time 2026 3 29 1 0; z = spring a
   in resolve 2026 3 29 2 30 z = a * second
      \<and> wall_time 2026 3 29 2 30 * second \<le> wall_nanos z (resolve 2026 3 29 2 30 z)
      \<and> (\<forall>t. t < resolve 2026 3 29 2 30 z \<longrightarrow> wall_nanos z t < wall_time 2026 3 29 2 30 * second)"
proof -
  define a where "a = wall_time 2026 3 29 1 0"
  have v: "wall_time 2026 3 29 1 0 = 63910342800" "wall_time 2026 3 29 2 30 = 63910348200"
    by (simp_all add: wall_time_def day_number_def days_before_year_def days_before_month_def leap_def)
  have "resolve 2026 3 29 2 30 (spring a) = a * second"
    by (simp add: resolve_def resolve_sec_def v a_def date_in_def spring_def Let_def wall_of_def wall_sec_def
        before_period_def after_period_def)
  then show ?thesis
    using resolve_is_first_reading [OF tz_ok_spring, of a 2026 3 29 2 30] v unfolding Let_def a_def [symmetric]
    by (simp add: a_def)
qed

end
