(* ===== verification/Cron.thy ===== *)
theory Cron
  imports Wall_Clock Go_Text
begin

section \<open>Cron expressions (internal/schedule/cron.go)\<close>

text \<open>
  Five-field cron expressions: parsing into the sets of minutes, hours, days, months and
  weekdays, and which days match. The boolean arrays of the code are lists of the same lengths.
  An error is a constructor with the values its English text shows.
\<close>

subsection \<open>Definitions\<close>

record cron_spec =
  c_minute :: "bool list"
  c_hour :: "bool list"
  c_dom :: "bool list"
  c_month :: "bool list"
  c_dow :: "bool list"
  c_dom_star :: bool
  c_dow_star :: bool

definition max_cron_len :: nat where "max_cron_len = 100"

definition cron_macros :: "(string \<times> string) list" where
  "cron_macros =
     [(''@yearly'', ''0 0 1 1 *''), (''@annually'', ''0 0 1 1 *''), (''@monthly'', ''0 0 1 * *''),
      (''@weekly'', ''0 0 * * 0''), (''@daily'', ''0 0 * * *''), (''@midnight'', ''0 0 * * *''),
      (''@hourly'', ''0 * * * *'')]"

record cron_field =
  cf_name :: string
  cf_min :: int
  cf_max :: int
  cf_names :: "string list"

definition cron_fields :: "cron_field list" where
  "cron_fields =
     [\<lparr>cf_name = ''minute'', cf_min = 0, cf_max = 59, cf_names = []\<rparr>,
      \<lparr>cf_name = ''hour'', cf_min = 0, cf_max = 23, cf_names = []\<rparr>,
      \<lparr>cf_name = ''day of month'', cf_min = 1, cf_max = 31, cf_names = []\<rparr>,
      \<lparr>cf_name = ''month'', cf_min = 1, cf_max = 12,
        cf_names = [''jan'', ''feb'', ''mar'', ''apr'', ''may'', ''jun'', ''jul'', ''aug'', ''sep'', ''oct'', ''nov'', ''dec'']\<rparr>,
      \<lparr>cf_name = ''day of week'', cf_min = 0, cf_max = 7,
        cf_names = [''sun'', ''mon'', ''tue'', ''wed'', ''thu'', ''fri'', ''sat'']\<rparr>]"

datatype cron_error =
    Cron_Empty
  | Cron_Too_Long
  | Cron_Reboot
  | Cron_Unknown_Shortcut string
  | Cron_Field_Count
  | Cron_Empty_Item string
  | Cron_Backwards string string
  | Cron_Bad_Step string string
  | Cron_Bad_Value string string int int

text \<open>The loop of \<open>cronValue\<close> over the names of a field.\<close>

fun name_index :: "string \<Rightarrow> string list \<Rightarrow> int \<Rightarrow> int option" where
  "name_index s [] i = None"
| "name_index s (n # ns) i = (if equal_fold s n then Some i else name_index s ns (i + 1))"

definition cron_value :: "string \<Rightarrow> cron_field \<Rightarrow> cron_error + int" where
  "cron_value s f =
     (case name_index s (cf_names f) 0 of
        Some i \<Rightarrow> Inr (i + cf_min f)
      | None \<Rightarrow>
          (case atoi s of
             None \<Rightarrow> Inl (Cron_Bad_Value s (cf_name f) (cf_min f) (cf_max f))
           | Some v \<Rightarrow>
               if v < cf_min f \<or> cf_max f < v \<or> 2 < length s
               then Inl (Cron_Bad_Value s (cf_name f) (cf_min f) (cf_max f)) else Inr v))"

text \<open>The range of an item: the \<open>switch\<close> of \<open>parseCronField\<close>.\<close>

definition item_range :: "string \<Rightarrow> bool \<Rightarrow> cron_field \<Rightarrow> cron_error + int \<times> int" where
  "item_range r has_step f =
     (if r = ''*'' then Inr (cf_min f, cf_max f)
      else if CHR ''-'' \<in> set r then
        (case cut (CHR ''-'') r of (a, b, _) \<Rightarrow>
           case cron_value a f of Inl e \<Rightarrow> Inl e | Inr lo \<Rightarrow>
           case cron_value b f of Inl e \<Rightarrow> Inl e | Inr hi \<Rightarrow>
           if hi < lo then Inl (Cron_Backwards r (cf_name f)) else Inr (lo, hi))
      else case cron_value r f of Inl e \<Rightarrow> Inl e | Inr v \<Rightarrow>
        Inr (v, if has_step then cf_max f else v))"

definition item_step :: "string \<Rightarrow> bool \<Rightarrow> cron_field \<Rightarrow> cron_error + int" where
  "item_step st has_step f =
     (if has_step then
        (case atoi st of
           None \<Rightarrow> Inl (Cron_Bad_Step st (cf_name f))
         | Some n \<Rightarrow> if n < 1 \<or> cf_max f < n then Inl (Cron_Bad_Step st (cf_name f)) else Inr n)
      else Inr 1)"

text \<open>The loop that sets the values; the step is at least 1.\<close>

function set_loop :: "int \<Rightarrow> int \<Rightarrow> int \<Rightarrow> bool list \<Rightarrow> bool list" where
  "set_loop v hi st xs = (if v \<le> hi \<and> 1 \<le> st then set_loop (v + st) hi st (xs[nat v := True]) else xs)"
  by pat_completeness auto
termination by (relation "measure (\<lambda>(v, hi, st, _). nat (hi - v + 1))") auto

declare set_loop.simps [simp del]

fun parse_cron_items :: "string list \<Rightarrow> cron_field \<Rightarrow> bool list \<Rightarrow> cron_error + bool list" where
  "parse_cron_items [] f xs = Inr xs"
| "parse_cron_items (item # items) f xs =
     (if item = [] then Inl (Cron_Empty_Item (cf_name f))
      else case cut (CHR ''/'') item of (range_part, step_part, has_step) \<Rightarrow>
        case item_range range_part has_step f of Inl e \<Rightarrow> Inl e | Inr (lo, hi) \<Rightarrow>
        case item_step step_part has_step f of Inl e \<Rightarrow> Inl e | Inr st \<Rightarrow>
        parse_cron_items items f (set_loop lo hi st xs))"

definition parse_cron_field :: "string \<Rightarrow> cron_field \<Rightarrow> bool list \<Rightarrow> cron_error + bool list" where
  "parse_cron_field s f xs = parse_cron_items (split_on (CHR '','') s) f xs"

fun parse_cron_fields :: "(string \<times> cron_field \<times> nat) list \<Rightarrow> cron_error + bool list list" where
  "parse_cron_fields [] = Inr []"
| "parse_cron_fields ((s, f, n) # rest) =
     (case parse_cron_field s f (replicate n False) of Inl e \<Rightarrow> Inl e | Inr xs \<Rightarrow>
      case parse_cron_fields rest of Inl e \<Rightarrow> Inl e | Inr xss \<Rightarrow> Inr (xs # xss))"

definition expand_macro :: "string \<Rightarrow> cron_error + string" where
  "expand_macro expr =
     (if has_prefix expr ''@'' then
        (case find (\<lambda>(k, _). lower_is expr k) cron_macros of
           Some (_, m) \<Rightarrow> Inr m
         | None \<Rightarrow> if equal_fold expr ''@reboot'' then Inl Cron_Reboot else Inl (Cron_Unknown_Shortcut expr))
      else Inr expr)"

definition parse_cron :: "string \<Rightarrow> cron_error + cron_spec" where
  "parse_cron expr =
     (let expr = trim_space expr
      in if expr = [] then Inl Cron_Empty
         else if max_cron_len < length expr then Inl Cron_Too_Long
         else case expand_macro expr of Inl e \<Rightarrow> Inl e | Inr expr \<Rightarrow>
           let fs = Go_Text.fields expr
           in if length fs \<noteq> 5 then Inl Cron_Field_Count
              else case parse_cron_fields (zip fs (zip cron_fields [60, 24, 32, 13, 8])) of
                     Inl e \<Rightarrow> Inl e
                   | Inr sets \<Rightarrow>
                       Inr \<lparr>c_minute = sets ! 0, c_hour = sets ! 1, c_dom = sets ! 2, c_month = sets ! 3,
                            c_dow = map (\<lambda>d. if d = 0 then sets ! 4 ! 0 \<or> sets ! 4 ! 7 else sets ! 4 ! d) [0..<7],
                            c_dom_star = has_prefix (fs ! 2) ''*'', c_dow_star = has_prefix (fs ! 4) ''*''\<rparr>)"

text \<open>\<open>dayMatches\<close>, on the number of the day.\<close>

definition day_matches :: "cron_spec \<Rightarrow> int \<Rightarrow> bool" where
  "day_matches c n =
     (case date_of_day n of (_, _, d) \<Rightarrow>
        let dom = c_dom c ! nat d; dow = c_dow c ! nat (weekday n)
        in if \<not> c_dom_star c \<and> \<not> c_dow_star c then dom \<or> dow else dom \<and> dow)"

subsection \<open>What parsing gives\<close>

lemma length_set_loop [simp]: "length (set_loop v hi st xs) = length xs"
  by (induction v hi st xs rule: set_loop.induct) (subst set_loop.simps, simp)

lemma set_loop_values:
  assumes "0 \<le> v" and "1 \<le> st" and "i < length xs"
  shows "set_loop v hi st xs ! i \<longleftrightarrow> xs ! i \<or> (v \<le> int i \<and> int i \<le> hi \<and> (int i - v) mod st = 0)"
  using assms
proof (induction v hi st xs rule: set_loop.induct)
  case (1 v hi st xs)
  show ?case
  proof (cases "v \<le> hi")
    case False
    then show ?thesis by (subst set_loop.simps) auto
  next
    case True
    have "set_loop v hi st xs ! i = set_loop (v + st) hi st (xs[nat v := True]) ! i"
      using True 1(3) by (subst set_loop.simps) simp
    also have "\<dots> \<longleftrightarrow> xs[nat v := True] ! i \<or> (v + st \<le> int i \<and> int i \<le> hi \<and> (int i - (v + st)) mod st = 0)"
      using 1 True by simp
    also have "\<dots> \<longleftrightarrow> xs ! i \<or> (v \<le> int i \<and> int i \<le> hi \<and> (int i - v) mod st = 0)"
    proof (cases "int i = v")
      case True
      then show ?thesis using 1(4) \<open>v \<le> hi\<close> by auto
    next
      case False
      then have "xs[nat v := True] ! i = xs ! i" using 1(2) by (intro nth_list_update_neq) auto
      moreover have "(int i - (v + st)) mod st = (int i - v) mod st"
      proof -
        have "int i - v = int i - (v + st) + st" by simp
        then show ?thesis by (metis mod_add_self2)
      qed
      moreover have "v + st \<le> int i" if "v \<le> int i" "(int i - v) mod st = 0"
      proof -
        from that False have "0 < int i - v" by simp
        moreover have "st dvd int i - v" using that(2) by presburger
        ultimately show ?thesis using zdvd_imp_le by fastforce
      qed
      ultimately show ?thesis using 1(3) by fastforce
    qed
    finally show ?thesis .
  qed
qed

lemma cron_value_range:
  assumes "cron_value s f = Inr v" and "int (length (cf_names f)) \<le> cf_max f - cf_min f + 1"
  shows "cf_min f \<le> v \<and> v \<le> cf_max f"
proof -
  have "name_index s ns j = Some i \<Longrightarrow> j \<le> i \<and> i < j + int (length ns)" for ns i j
    by (induction ns arbitrary: j) (auto split: if_splits, fastforce+)
  from this [of "cf_names f" 0] show ?thesis
    using assms by (auto simp: cron_value_def split: option.splits if_splits)
qed

text \<open>A field of the table, with an array that has its values.\<close>

definition field_ok :: "cron_field \<Rightarrow> nat \<Rightarrow> bool" where
  "field_ok f n \<longleftrightarrow> 0 \<le> cf_min f \<and> cf_min f \<le> cf_max f \<and> cf_max f < int n
     \<and> int (length (cf_names f)) \<le> cf_max f - cf_min f + 1"

lemma item_range_bounds:
  assumes "item_range r hs f = Inr (lo, hi)" and "field_ok f n"
  shows "cf_min f \<le> lo \<and> lo \<le> hi \<and> hi \<le> cf_max f"
  using assms cron_value_range [where f = f]
  by (auto simp: item_range_def field_ok_def split: if_splits sum.splits prod.splits)

lemma parse_cron_items_spec:
  assumes "parse_cron_items items f xs = Inr ys" and "field_ok f (length xs)"
  shows "length ys = length xs \<and> (\<forall>i < length xs. xs ! i \<longrightarrow> ys ! i)
    \<and> (\<forall>i < length xs. ys ! i \<longrightarrow> xs ! i \<or> (cf_min f \<le> int i \<and> int i \<le> cf_max f))
    \<and> (items \<noteq> [] \<longrightarrow> (\<exists>i < length xs. ys ! i))"
  using assms
proof (induction items arbitrary: xs)
  case (Cons item items)
  obtain r s h where c: "cut (CHR ''/'') item = (r, s, h)" by (metis prod_cases3)
  obtain lo hi st where l: "item_range r h f = Inr (lo, hi)" "item_step s h f = Inr st"
    "parse_cron_items items f (set_loop lo hi st xs) = Inr ys"
    using Cons.prems(1) c by (auto split: if_splits sum.splits)
  have b: "cf_min f \<le> lo" "lo \<le> hi" "hi \<le> cf_max f" using item_range_bounds [OF l(1) Cons.prems(2)] by auto
  have st: "1 \<le> st" using l(2) by (auto simp: item_step_def split: if_splits option.splits)
  have f: "0 \<le> cf_min f" "cf_max f < int (length xs)" using Cons.prems(2) by (auto simp: field_ok_def)
  note v = set_loop_values [OF order_trans [OF f(1) b(1)] st]
  have IH: "length ys = length xs \<and> (\<forall>i < length xs. set_loop lo hi st xs ! i \<longrightarrow> ys ! i)
    \<and> (\<forall>i < length xs. ys ! i \<longrightarrow> set_loop lo hi st xs ! i \<or> (cf_min f \<le> int i \<and> int i \<le> cf_max f))"
    using Cons.IH [OF l(3)] Cons.prems(2) by simp
  have "nat lo < length xs" "set_loop lo hi st xs ! nat lo" using v [of "nat lo" xs hi] b f by auto
  then have "\<exists>i < length xs. ys ! i" using IH by blast
  then show ?case using IH v [of _ xs hi] b by force
qed simp

text \<open>
  A parsed expression: the arrays have the code's lengths, each of minute, hour, day, month and
  weekday has a value, and days start at 1.
\<close>

definition cron_ok :: "cron_spec \<Rightarrow> bool" where
  "cron_ok c \<longleftrightarrow> length (c_minute c) = 60 \<and> length (c_hour c) = 24 \<and> length (c_dom c) = 32
     \<and> length (c_month c) = 13 \<and> length (c_dow c) = 7
     \<and> True \<in> set (c_minute c) \<and> True \<in> set (c_hour c) \<and> True \<in> set (c_dom c)
     \<and> True \<in> set (c_month c) \<and> True \<in> set (c_dow c) \<and> \<not> c_dom c ! 0 \<and> \<not> c_month c ! 0"

lemma parse_cron_field_spec:
  assumes "parse_cron_field s f (replicate n False) = Inr ys" and "field_ok f n"
  shows "length ys = n \<and> True \<in> set ys \<and> (\<forall>i < n. ys ! i \<longrightarrow> cf_min f \<le> int i \<and> int i \<le> cf_max f)"
  using parse_cron_items_spec [of "split_on (CHR '','') s" f "replicate n False" ys] assms
  by (auto simp: parse_cron_field_def in_set_conv_nth)

lemma parse_cron_ok: "parse_cron expr = Inr c \<Longrightarrow> cron_ok c"
proof -
  assume "parse_cron expr = Inr c"
  then obtain fs sets where five: "length fs = 5"
    and p: "parse_cron_fields (zip fs (zip cron_fields [60, 24, 32, 13, 8])) = Inr sets"
    and c: "c = \<lparr>c_minute = sets ! 0, c_hour = sets ! 1, c_dom = sets ! 2, c_month = sets ! 3,
                 c_dow = map (\<lambda>d. if d = 0 then sets ! 4 ! 0 \<or> sets ! 4 ! 7 else sets ! 4 ! d) [0..<7],
                 c_dom_star = has_prefix (fs ! 2) ''*'', c_dow_star = has_prefix (fs ! 4) ''*''\<rparr>"
    by (auto simp: parse_cron_def Let_def split: if_splits sum.splits)
  obtain f0 f1 f2 f3 f4 where fs: "fs = [f0, f1, f2, f3, f4]"
    using five by (auto simp: eval_nat_numeral length_Suc_conv)
  obtain s0 s1 s2 s3 s4 where sets: "sets = [s0, s1, s2, s3, s4]"
    and ps: "parse_cron_field f0 (cron_fields ! 0) (replicate 60 False) = Inr s0"
      "parse_cron_field f1 (cron_fields ! 1) (replicate 24 False) = Inr s1"
      "parse_cron_field f2 (cron_fields ! 2) (replicate 32 False) = Inr s2"
      "parse_cron_field f3 (cron_fields ! 3) (replicate 13 False) = Inr s3"
      "parse_cron_field f4 (cron_fields ! 4) (replicate 8 False) = Inr s4"
    using p unfolding fs cron_fields_def by (auto split: sum.splits)
  have ok: "field_ok (cron_fields ! 0) 60" "field_ok (cron_fields ! 1) 24" "field_ok (cron_fields ! 2) 32"
    "field_ok (cron_fields ! 3) 13" "field_ok (cron_fields ! 4) 8"
    by (simp_all add: field_ok_def cron_fields_def)
  note r = parse_cron_field_spec [OF ps(1) ok(1)] parse_cron_field_spec [OF ps(2) ok(2)]
    parse_cron_field_spec [OF ps(3) ok(3)] parse_cron_field_spec [OF ps(4) ok(4)] parse_cron_field_spec [OF ps(5) ok(5)]
  have "cf_min (cron_fields ! 2) = 1" "cf_min (cron_fields ! 3) = 1" by (simp_all add: cron_fields_def)
  then have zero: "\<not> s2 ! 0" "\<not> s3 ! 0" using r(3,4) by force+
  have "True \<in> set (c_dow c)"
  proof -
    obtain i where "i < 8" "s4 ! i" using r(5) by (auto simp: in_set_conv_nth)
    then show ?thesis unfolding c sets
      by (cases "i = 0 \<or> i = 7") (auto simp: image_iff intro!: bexI [of _ "if i = 7 then 0 else i"])
  qed
  then show ?thesis using r zero unfolding cron_ok_def c sets by simp
qed

end
