(* ===== verification/Timing.thy ===== *)
theory Timing
  imports Cron
begin

section \<open>When a schedule runs (internal/schedule/timing.go and cron.go)\<close>

text \<open>
  A timing, its compilation into a rule, and the search for the next run. The zone database is
  the parameter \<open>zones\<close> (\<open>time.LoadLocation\<close>). \<open>rule_wall\<close> says which wall-clock tms a rule
  means, \<open>occurrences\<close> the instants they stand for; the main theorem is that the search returns
  the first occurrence after the moment given. The clean-up of typed-in timings and the texts
  are not modelled; an error is a constructor with the values its text shows.
\<close>

subsection \<open>Definitions\<close>

datatype timing_kind = Daily | Weekly | Interval | Once | Cron_Kind | Other_Kind string

record timing =
  tm_kind :: timing_kind
  tm_time_zone :: string
  tm_at :: string
  tm_days :: "string list"
  tm_every_hours :: int
  tm_date :: string
  tm_cron :: string
  tm_grace_minutes :: int

definition max_grace_minutes :: int where "max_grace_minutes = 24 * 60"
definition max_time_zone_len :: nat where "max_time_zone_len = 64"
definition cron_search_days :: nat where "cron_search_days = 8 * 366 + 2"
definition day_names :: "string list" where
  "day_names = [''sun'', ''mon'', ''tue'', ''wed'', ''thu'', ''fri'', ''sat'']"
definition every_hours :: "int list" where "every_hours = [1, 2, 3, 4, 6, 8, 12]"

datatype timing_error =
    Time_Zone_Required | Time_Zone_Invalid string | Time_Invalid string | Timing_Kind_Invalid
  | Days_Required | Day_Invalid string | Every_Hours_Invalid int | Date_Invalid string
  | Cron_Invalid cron_error | Grace_Invalid | Once_Past | Cron_Never

record rule =
  r_kind :: timing_kind
  r_zone :: zone
  r_mins :: "int list"
  r_days :: "bool list"
  r_date :: "int \<times> int \<times> int"
  r_cron :: "cron_spec option"

definition letter :: "char \<Rightarrow> bool" where
  "letter c \<longleftrightarrow> (65 \<le> code c \<and> code c \<le> 90) \<or> (97 \<le> code c \<and> code c \<le> 122)"

text \<open>The expression \<open>^[A-Za-z][A-Za-z0-9_+\-/]*$\<close>.\<close>

definition time_zone_re :: "string \<Rightarrow> bool" where
  "time_zone_re s = (case s of [] \<Rightarrow> False | c # cs \<Rightarrow>
     letter c \<and> list_all (\<lambda>c. letter c \<or> is_digit c \<or> c \<in> {CHR ''_'', CHR ''+'', CHR ''-'', CHR ''/''}) cs)"

definition load_time_zone :: "(string \<Rightarrow> zone option) \<Rightarrow> string \<Rightarrow> timing_error + zone" where
  "load_time_zone zones name =
     (if name = [] then Inl Time_Zone_Required
      else if max_time_zone_len < length name \<or> name = ''Local'' \<or> \<not> time_zone_re name then Inl (Time_Zone_Invalid name)
      else case zones name of None \<Rightarrow> Inl (Time_Zone_Invalid name) | Some z \<Rightarrow> Inr z)"

text \<open>The groups of \<open>^([0-9]{1,2}):([0-9]{2})$\<close>.\<close>

definition clock_re :: "string \<Rightarrow> (string \<times> string) option" where
  "clock_re s = (case cut (CHR '':'') s of (a, b, found) \<Rightarrow>
     if found \<and> (length a = 1 \<or> length a = 2) \<and> length b = 2 \<and> list_all is_digit a \<and> list_all is_digit b
     then Some (a, b) else None)"

definition parse_clock :: "string \<Rightarrow> timing_error + int" where
  "parse_clock s = (case clock_re s of
       Some (a, b) \<Rightarrow>
         (let h = int (digits_val a); mi = int (digits_val b)
          in if h < 24 \<and> mi < 60 then Inr (h * 60 + mi) else Inl (Time_Invalid s))
     | None \<Rightarrow> Inl (Time_Invalid s))"

definition days_in_month :: "int \<Rightarrow> int \<Rightarrow> int" where
  "days_in_month y m = (if m = 12 then 31 else days_before_month (leap y) (m + 1) - days_before_month (leap y) m)"

text \<open>\<open>time.Parse(time.DateOnly, s)\<close> of ten bytes, as \<open>compile\<close> requires: YYYY-MM-DD.\<close>

definition parse_date :: "string \<Rightarrow> (int \<times> int \<times> int) option" where
  "parse_date s =
     (let ys = take 4 s; ms = take 2 (drop 5 s); ds = drop 8 s
      in if length s = 10 \<and> s ! 4 = CHR ''-'' \<and> s ! 7 = CHR ''-'' \<and> list_all is_digit (ys @ ms @ ds)
         then let y = int (digits_val ys); m = int (digits_val ms); d = int (digits_val ds)
              in if 1 \<le> m \<and> m \<le> 12 \<and> 1 \<le> d \<and> d \<le> days_in_month y m then Some (y, m, d) else None
         else None)"

text \<open>\<open>slices.Index(dayNames, d)\<close>, and the loop over the chosen days.\<close>

fun index_of :: "string \<Rightarrow> string list \<Rightarrow> nat \<Rightarrow> nat option" where
  "index_of s [] i = None"
| "index_of s (x # xs) i = (if s = x then Some i else index_of s xs (i + 1))"

fun days_loop :: "string list \<Rightarrow> bool list \<Rightarrow> timing_error + bool list" where
  "days_loop [] days = Inr days"
| "days_loop (d # ds) days = (case index_of d day_names 0 of
     None \<Rightarrow> Inl (Day_Invalid d) | Some i \<Rightarrow> days_loop ds (days[i := True]))"

text \<open>The loop over the times of an interval; the spacing is positive.\<close>

function interval_loop :: "int \<Rightarrow> int \<Rightarrow> int list" where
  "interval_loop m st = (if m < 24 * 60 \<and> 0 < st then m # interval_loop (m + st) st else [])"
  by pat_completeness auto
termination by (relation "measure (\<lambda>(m, st). nat (24 * 60 - m))") auto

declare interval_loop.simps [simp del]

definition new_rule :: "timing_kind \<Rightarrow> zone \<Rightarrow> rule" where
  "new_rule k z = \<lparr>r_kind = k, r_zone = z, r_mins = [], r_days = replicate 7 False, r_date = (1, 1, 1), r_cron = None\<rparr>"

definition compile_at :: "timing \<Rightarrow> rule \<Rightarrow> timing_error + rule" where
  "compile_at t r =
     (case tm_kind t of
        Weekly \<Rightarrow>
          (if length (tm_days t) = 0 then Inl Days_Required
           else case days_loop (tm_days t) (r_days r) of Inl e \<Rightarrow> Inl e | Inr days \<Rightarrow> Inr (r\<lparr>r_days := days\<rparr>))
      | Interval \<Rightarrow>
          (if tm_every_hours t \<notin> set every_hours then Inl (Every_Hours_Invalid (tm_every_hours t))
           else let first = r_mins r ! 0 mod (tm_every_hours t * 60)
                in Inr (r\<lparr>r_mins := interval_loop first (tm_every_hours t * 60)\<rparr>))
      | Once \<Rightarrow>
          (case parse_date (tm_date t) of None \<Rightarrow> Inl (Date_Invalid (tm_date t)) | Some d \<Rightarrow> Inr (r\<lparr>r_date := d\<rparr>))
      | _ \<Rightarrow> Inr r)"

definition compile :: "(string \<Rightarrow> zone option) \<Rightarrow> timing \<Rightarrow> timing_error + rule" where
  "compile zones t =
     (case load_time_zone zones (tm_time_zone t) of Inl e \<Rightarrow> Inl e | Inr z \<Rightarrow>
        let r = new_rule (tm_kind t) z
        in case tm_kind t of
             Cron_Kind \<Rightarrow>
               (case parse_cron (tm_cron t) of Inl e \<Rightarrow> Inl (Cron_Invalid e) | Inr c \<Rightarrow> Inr (r\<lparr>r_cron := Some c\<rparr>))
           | Other_Kind _ \<Rightarrow> Inl Timing_Kind_Invalid
           | _ \<Rightarrow>
               (case parse_clock (tm_at t) of Inl e \<Rightarrow> Inl e | Inr at \<Rightarrow> compile_at t (r\<lparr>r_mins := [at]\<rparr>)))"

text \<open>
  The loops over days with their early return: \<open>tms i\<close> are the instants of day \<open>i\<close> of the
  search in the order the code tries them, none for a day it skips.
\<close>

fun search_days :: "(int \<Rightarrow> gotime list) \<Rightarrow> gotime \<Rightarrow> int list \<Rightarrow> gotime" where
  "search_days tms after [] = zero_time"
| "search_days tms after (i # is) =
     (case find (\<lambda>t. after < t) (tms i) of Some t \<Rightarrow> t | None \<Rightarrow> search_days tms after is)"

text \<open>\<open>resolve(day.Year(), day.Month(), day.Day(), h, mi, loc)\<close> of a day number.\<close>

definition resolve_on :: "int \<Rightarrow> int \<Rightarrow> int \<Rightarrow> zone \<Rightarrow> gotime" where
  "resolve_on n h mi z = (case date_of_day n of (y, mo, d) \<Rightarrow> resolve y mo d h mi z)"

definition rule_day :: "rule \<Rightarrow> int \<Rightarrow> gotime list" where
  "rule_day r n = (if r_kind r = Weekly \<and> \<not> r_days r ! nat (weekday n) then []
     else map (\<lambda>mins. resolve_on n (mins div 60) (mins mod 60) (r_zone r)) (r_mins r))"

text \<open>One day of \<open>cronSpec.next\<close>, from hour \<open>h0\<close> and in that hour minute \<open>m0\<close>.\<close>

definition cron_day :: "cron_spec \<Rightarrow> zone \<Rightarrow> int \<Rightarrow> int \<Rightarrow> int \<Rightarrow> gotime list" where
  "cron_day c z n h0 m0 =
     (case date_of_day n of (_, mo, _) \<Rightarrow>
        if \<not> c_month c ! nat mo \<or> \<not> day_matches c n then []
        else concat (map (\<lambda>h. if \<not> c_hour c ! nat h then []
               else map (\<lambda>mi. resolve_on n h mi z)
                      (filter (\<lambda>mi. c_minute c ! nat mi) [(if h = h0 then m0 else 0) .. 59])) [h0 .. 23]))"

definition cron_next :: "cron_spec \<Rightarrow> gotime \<Rightarrow> zone \<Rightarrow> gotime" where
  "cron_next c after z =
     (let a = wall_sec z (after div second); start_hour = a mod 86400 div 3600; start_min = a mod 3600 div 60
      in case date_of_day (a div 86400) of (y, m, d) \<Rightarrow>
           search_days (\<lambda>i. if i = 0 then cron_day c z (day_number y m (d + i)) start_hour start_min
                            else cron_day c z (day_number y m (d + i)) 0 0)
             after [0 .. int cron_search_days - 1])"

definition rule_next :: "rule \<Rightarrow> gotime \<Rightarrow> gotime" where
  "rule_next r after =
     (case r_kind r of
        Once \<Rightarrow>
          (case r_date r of (y, mo, d) \<Rightarrow>
             let t = resolve y mo d (r_mins r ! 0 div 60) (r_mins r ! 0 mod 60) (r_zone r)
             in if after < t then t else zero_time)
      | Cron_Kind \<Rightarrow> cron_next (the (r_cron r)) after (r_zone r)
      | _ \<Rightarrow>
          (case date_of_day (wall_day (r_zone r) after) of (y, m, d) \<Rightarrow>
             search_days (\<lambda>i. rule_day r (day_number y m (d + i))) after [0 .. 8]))"

definition timing_next :: "(string \<Rightarrow> zone option) \<Rightarrow> timing \<Rightarrow> gotime \<Rightarrow> timing_error + gotime" where
  "timing_next zones t after = (case compile zones t of Inl e \<Rightarrow> Inl e | Inr r \<Rightarrow> Inr (rule_next r after))"

text \<open>The loop of \<open>NextRuns\<close> with \<open>n\<close> runs still to find.\<close>

fun next_runs_loop :: "(gotime \<Rightarrow> gotime) \<Rightarrow> gotime \<Rightarrow> nat \<Rightarrow> gotime list" where
  "next_runs_loop nxt after 0 = []"
| "next_runs_loop nxt after (Suc n) =
     (let t = nxt after in if t = zero_time then [] else t # next_runs_loop nxt t n)"

definition next_runs :: "(string \<Rightarrow> zone option) \<Rightarrow> timing \<Rightarrow> gotime \<Rightarrow> int \<Rightarrow> timing_error + gotime list" where
  "next_runs zones t after n = (case compile zones t of Inl e \<Rightarrow> Inl e | Inr r \<Rightarrow>
     Inr (next_runs_loop (rule_next r) after (nat n)))"

definition day_times :: "rule \<Rightarrow> int list" where
  "day_times r = (case r_cron r of
       None \<Rightarrow> r_mins r
     | Some c \<Rightarrow> [h * 60 + m. h \<leftarrow> [0 .. 23], m \<leftarrow> [0 .. 59], c_hour c ! nat h \<and> c_minute c ! nat m])"

text \<open>The loop of \<open>minGap\<close> over neighbouring times.\<close>

fun gap_loop :: "int \<Rightarrow> int list \<Rightarrow> int" where
  "gap_loop g (a # b # ts) = gap_loop (min g (b - a)) (b # ts)"
| "gap_loop g _ = g"

definition min_gap :: "rule \<Rightarrow> duration" where
  "min_gap r =
     (if r_kind r = Once then 0
      else let ts = day_times r
           in if length ts = 0 then 0
              else gap_loop (ts ! 0 + 24 * 60 - ts ! (length ts - 1)) ts * minute)"

definition validate_timing :: "(string \<Rightarrow> zone option) \<Rightarrow> timing \<Rightarrow> gotime \<Rightarrow> timing_error option" where
  "validate_timing zones t now =
     (case compile zones t of Inl e \<Rightarrow> Some e | Inr r \<Rightarrow>
        if tm_grace_minutes t < 0 \<or> max_grace_minutes < tm_grace_minutes t then Some Grace_Invalid
        else if rule_next r now = zero_time \<and> tm_kind t = Once then Some Once_Past
        else if rule_next r now = zero_time then Some Cron_Never
        else None)"

text \<open>The English words of a summary.\<close>

definition pad2 :: "int \<Rightarrow> string" where
  "pad2 n = (if 0 \<le> n \<and> n < 10 then CHR ''0'' # itoa n else itoa n)"

definition format_clock :: "int \<Rightarrow> string" where
  "format_clock mins = pad2 (quot mins 60) @ '':'' @ pad2 (mins mod 60)"

definition join_and :: "string list \<Rightarrow> string" where
  "join_and items = (if length items = 0 then [] else if length items = 1 then items ! 0
     else join '', '' (take (length items - 1) items) @ '' and '' @ items ! (length items - 1))"

definition weekday_names :: "string list" where
  "weekday_names = [''Sunday'', ''Monday'', ''Tuesday'', ''Wednesday'', ''Thursday'', ''Friday'', ''Saturday'']"

definition days_phrase :: "bool list \<Rightarrow> string" where
  "days_phrase days =
     (let wds = filter (\<lambda>wd. days ! wd) (map (\<lambda>i. (i + 1) mod 7) [0..<7]);
          names = map (\<lambda>wd. weekday_names ! wd @ ''s'') wds; n = length wds
      in if n = 7 then ''Every day''
         else if n = 5 \<and> \<not> days ! 6 \<and> \<not> days ! 0 then ''Weekdays''
         else if n = 2 \<and> days ! 6 \<and> days ! 0 then ''Weekends''
         else join_and names)"

definition timing_summary :: "(string \<Rightarrow> zone option) \<Rightarrow> timing \<Rightarrow> string" where
  "timing_summary zones t =
     (case compile zones t of Inl _ \<Rightarrow> ''Not valid'' | Inr r \<Rightarrow>
        case tm_kind t of
          Daily \<Rightarrow> ''Every day at '' @ tm_at t
        | Weekly \<Rightarrow> days_phrase (r_days r) @ '' at '' @ tm_at t
        | Interval \<Rightarrow>
            (if tm_every_hours t = 1 then ''Every hour at :'' @ pad2 (r_mins r ! 0 mod 60)
             else ''Every '' @ itoa (tm_every_hours t) @ '' hours, at '' @ join_and (map format_clock (r_mins r)))
        | Once \<Rightarrow> ''Once, on '' @ tm_date t @ '' at '' @ tm_at t
        | Cron_Kind \<Rightarrow> ''Cron: '' @ tm_cron t
        | _ \<Rightarrow> ''Not valid'')"

subsection \<open>The search\<close>

text \<open>The instant a wall-clock second of a zone stands for.\<close>

definition instant :: "zone \<Rightarrow> int \<Rightarrow> gotime" where
  "instant z w = resolve_sec z w * second"

lemma instant_mono: "tz_ok z \<Longrightarrow> v \<le> w \<Longrightarrow> instant z v \<le> instant z w"
  using resolve_sec_mono by (simp add: instant_def)

lemma instant_reached: "tz_ok z \<Longrightarrow> w \<le> wall_sec z (t div second) \<Longrightarrow> instant z w \<le> t"
  using resolve_sec_reached by (simp add: instant_def)

lemma instant_later:
  "tz_ok z \<Longrightarrow> small_shifts z \<Longrightarrow> wall_sec z (t div second) + 86400 < w \<Longrightarrow> t < instant z w"
  using resolve_sec_later by (simp add: instant_def)

lemma resolve_on_instant: "resolve_on n h mi z = instant z (n * 86400 + h * 3600 + mi * 60)"
proof -
  obtain y mo d where "date_of_day n = (y, mo, d)" by (metis prod_cases3)
  with date_of_day_inverse [OF this] show ?thesis
    by (simp add: resolve_on_def resolve_def instant_def wall_time_def)
qed

lemma day_number_add: "day_number y m (d + i) = day_number y m d + i"
  by (simp add: day_number_def)

lemma search_days_find: "search_days tms after is = (case find (\<lambda>t. after < t) (concat (map tms is)) of
    Some t \<Rightarrow> t | None \<Rightarrow> zero_time)"
proof (induction "is")
  case (Cons i "is")
  have "find P (xs @ ys) = (case find P xs of Some x \<Rightarrow> Some x | None \<Rightarrow> find P ys)" for P and xs ys :: "int list"
    by (induction xs) auto
  then show ?case using Cons by (auto split: option.splits)
qed simp

lemma find_sorted:
  assumes "sorted ts" and "find (\<lambda>t. after < t) ts = Some t"
  shows "after < t \<and> t \<in> set ts \<and> (\<forall>u \<in> set ts. after < u \<longrightarrow> t \<le> u)"
  using assms by (induction ts) (auto split: if_splits)

text \<open>
  The instants of sorted wall-clock times are sorted, so the search finds the first after the
  moment given, if there is one.
\<close>

lemma search_days_first:
  assumes ok: "tz_ok z" and tms: "\<And>i. i \<in> set is \<Longrightarrow> tms i = map (instant z) (ws i)"
    and sorted: "sorted (concat (map ws is))" and pos: "0 \<le> after"
  shows "(search_days tms after is = zero_time \<and> (\<forall>w \<in> set (concat (map ws is)). instant z w \<le> after))
    \<or> (after < search_days tms after is \<and> (\<exists>w \<in> set (concat (map ws is)). search_days tms after is = instant z w
          \<and> (\<forall>v \<in> set (concat (map ws is)). after < instant z v \<longrightarrow> instant z w \<le> instant z v)))"
proof -
  let ?ts = "map (instant z) (concat (map ws is))"
  have ts: "concat (map tms is) = ?ts"
    using tms by (induction "is") auto
  have "sorted ?ts" using sorted instant_mono [OF ok] by (auto simp: sorted_map intro: sorted_wrt_mono_rel)
  note found = find_sorted [OF this, of after]
  have s: "search_days tms after is = (case find (\<lambda>t. after < t) ?ts of Some t \<Rightarrow> t | None \<Rightarrow> zero_time)"
    unfolding search_days_find ts by (rule refl)
  show ?thesis
  proof (cases "find (\<lambda>t. after < t) ?ts")
    case None
    then have "search_days tms after is = zero_time" by (simp add: s)
    moreover have "\<forall>w \<in> set (concat (map ws is)). instant z w \<le> after"
      using None by (auto simp: find_None_iff not_less)
    ultimately show ?thesis by blast
  next
    case (Some t)
    then have t: "search_days tms after is = t" by (simp add: s)
    obtain w where w: "w \<in> set (concat (map ws is))" "t = instant z w" using found [OF Some] by auto
    have "after < instant z w" "\<forall>v \<in> set (concat (map ws is)). after < instant z v \<longrightarrow> instant z w \<le> instant z v"
      using found [OF Some] w(2) by auto
    then show ?thesis unfolding t w(2) using w(1) by (intro disjI2 conjI bexI [of _ w]) (assumption | rule refl)+
  qed
qed

subsection \<open>The times a rule means\<close>

definition rule_wall :: "rule \<Rightarrow> int \<Rightarrow> bool" where
  "rule_wall r w \<longleftrightarrow>
     (let n = w div 86400; mins = w mod 86400 div 60
      in w mod 60 = 0 \<and>
        (case r_kind r of
           Once \<Rightarrow> (case r_date r of (y, mo, d) \<Rightarrow> n = day_number y mo d) \<and> mins = r_mins r ! 0
         | Cron_Kind \<Rightarrow>
             (let c = the (r_cron r)
              in c_month c ! nat (fst (snd (date_of_day n))) \<and> day_matches c n
                 \<and> c_hour c ! nat (mins div 60) \<and> c_minute c ! nat (mins mod 60))
         | k \<Rightarrow> (k = Weekly \<longrightarrow> r_days r ! nat (weekday n)) \<and> mins \<in> set (r_mins r)))"

definition occurrences :: "rule \<Rightarrow> gotime set" where
  "occurrences r = {instant (r_zone r) w | w. rule_wall r w}"

definition rule_ok :: "rule \<Rightarrow> bool" where
  "rule_ok r \<longleftrightarrow> (\<forall>s. r_kind r \<noteq> Other_Kind s)
     \<and> (r_kind r \<noteq> Cron_Kind \<longrightarrow> r_cron r = None \<and> r_mins r \<noteq> [] \<and> sorted_wrt (<) (r_mins r) \<and> (\<forall>m \<in> set (r_mins r). 0 \<le> m \<and> m < 1440))
     \<and> (r_kind r = Weekly \<longrightarrow> length (r_days r) = 7 \<and> True \<in> set (r_days r))
     \<and> (r_kind r = Cron_Kind \<longrightarrow> (\<exists>c. r_cron r = Some c \<and> cron_ok c))"

lemma parse_clock_range: "parse_clock s = Inr m \<Longrightarrow> 0 \<le> m \<and> m < 1440"
  by (auto simp: parse_clock_def Let_def split: option.splits prod.splits if_splits)

lemma interval_loop_values:
  assumes "0 \<le> m" and "0 < st"
  shows "sorted_wrt (<) (interval_loop m st) \<and> (\<forall>x \<in> set (interval_loop m st). m \<le> x \<and> x < 1440)
    \<and> (m < 1440 \<longrightarrow> interval_loop m st \<noteq> [])"
  using assms
proof (induction m st rule: interval_loop.induct)
  case (1 m st)
  show ?case
  proof (cases "m < 1440")
    case True
    then have "interval_loop m st = m # interval_loop (m + st) st" using 1(3) by (subst interval_loop.simps) simp
    then show ?thesis using 1 True by fastforce
  next
    case False
    then have "interval_loop m st = []" by (subst interval_loop.simps) simp
    then show ?thesis using False by simp
  qed
qed

lemma days_loop_ok:
  "days_loop ds days = Inr days' \<Longrightarrow> length days = 7 \<Longrightarrow>
     length days' = 7 \<and> (ds \<noteq> [] \<or> True \<in> set days \<longrightarrow> True \<in> set days')"
proof (induction ds arbitrary: days)
  case (Cons d ds)
  have range: "index_of s xs k = Some i \<Longrightarrow> k \<le> i \<and> i < k + length xs" for s xs k i
    by (induction xs arbitrary: k) (auto split: if_splits, fastforce+)
  obtain i where i: "index_of d day_names 0 = Some i" "days_loop ds (days[i := True]) = Inr days'"
    using Cons.prems(1) by (auto split: option.splits)
  then have "i < 7" using range [OF i(1)] by (simp add: day_names_def)
  then have "True \<in> set (days[i := True])" using Cons.prems(2) by (simp add: set_update_memI)
  then show ?case using Cons.IH [OF i(2)] Cons.prems(2) by simp
qed simp

lemma compile_ok:
  assumes "compile zones t = Inr r"
  shows "rule_ok r \<and> r_kind r = tm_kind t \<and> zones (tm_time_zone t) = Some (r_zone r)"
proof -
  obtain z where z: "load_time_zone zones (tm_time_zone t) = Inr z"
    using assms by (auto simp: compile_def split: sum.splits)
  then have zs: "zones (tm_time_zone t) = Some z" by (auto simp: load_time_zone_def split: if_splits option.splits)
  let ?r = "new_rule (tm_kind t) z"
  show ?thesis
  proof (cases "tm_kind t = Cron_Kind")
    case True
    then obtain c where "parse_cron (tm_cron t) = Inr c" "r = ?r\<lparr>r_cron := Some c\<rparr>"
      using assms z by (auto simp: compile_def Let_def split: sum.splits)
    then show ?thesis using parse_cron_ok zs True by (auto simp: rule_ok_def new_rule_def)
  next
    case False
    then obtain at where at: "parse_clock (tm_at t) = Inr at" "compile_at t (?r\<lparr>r_mins := [at]\<rparr>) = Inr r"
      and other: "\<forall>s. tm_kind t \<noteq> Other_Kind s"
      using assms z by (auto simp: compile_def Let_def split: sum.splits timing_kind.splits)
    note range = parse_clock_range [OF at(1)]
    show ?thesis
    proof (cases "tm_kind t")
      case Interval
      then have every: "tm_every_hours t \<in> set every_hours"
        and r: "r = ?r\<lparr>r_mins := interval_loop (at mod (tm_every_hours t * 60)) (tm_every_hours t * 60)\<rparr>"
        using at(2) by (auto simp: compile_at_def Let_def split: if_splits)
      from every have pos: "0 < tm_every_hours t * 60" "tm_every_hours t * 60 \<le> 1440" by (auto simp: every_hours_def)
      then have "0 \<le> at mod (tm_every_hours t * 60)" "at mod (tm_every_hours t * 60) < 1440"
        using pos_mod_bound [OF pos(1), of at] pos_mod_sign [OF pos(1), of at] pos(2) by linarith+
      then show ?thesis using interval_loop_values [OF _ pos(1)] zs Interval r
        by (fastforce simp: rule_ok_def new_rule_def)
    next
      case Weekly
      then obtain days where "days_loop (tm_days t) (r_days ?r) = Inr days" "tm_days t \<noteq> []"
        "r = ?r\<lparr>r_mins := [at], r_days := days\<rparr>"
        using at(2) by (auto simp: compile_at_def split: if_splits sum.splits)
      then show ?thesis using days_loop_ok [of "tm_days t" "r_days ?r" days] zs Weekly range
        by (auto simp: rule_ok_def new_rule_def)
    qed (use at(2) zs range other False in \<open>auto simp: compile_at_def rule_ok_def new_rule_def split: option.splits\<close>)
  qed
qed

subsection \<open>The days of a search\<close>

lemma sorted_blocks:
  fixes ws :: "int \<Rightarrow> int list"
  assumes "sorted_wrt (<) is" and "\<And>i. i \<in> set is \<Longrightarrow> sorted (ws i)" and "mono g"
    and "\<And>i w. i \<in> set is \<Longrightarrow> w \<in> set (ws i) \<Longrightarrow> g w = (i :: int)"
  shows "sorted (concat (map ws is))"
  using assms
proof (induction "is")
  case (Cons i "is")
  have "w \<le> v" if "w \<in> set (ws i)" "j \<in> set is" "v \<in> set (ws j)" for w j v
  proof (rule ccontr)
    assume "\<not> w \<le> v"
    then have "g v \<le> g w" using Cons.prems(3) by (simp add: monoD)
    moreover have "g w = i" "g v = j" using that Cons.prems(4) by auto
    ultimately show False using Cons.prems(1) that(2) by auto
  qed
  moreover have "sorted (concat (map ws is))" using Cons by simp
  ultimately show ?case using Cons.prems(2) by (auto simp: sorted_append)
qed simp

lemma mono_div: "0 < (b :: int) \<Longrightarrow> mono (\<lambda>w. w div b - c)"
  by (auto simp: mono_def zdiv_mono1)

definition day_walls :: "rule \<Rightarrow> int \<Rightarrow> int list" where
  "day_walls r n = (if r_kind r = Weekly \<and> \<not> r_days r ! nat (weekday n) then []
     else map (\<lambda>m. n * 86400 + m * 60) (r_mins r))"

lemma rule_day_walls: "rule_day r n = map (instant (r_zone r)) (day_walls r n)"
proof -
  have "instant z (n * 86400 + m div 60 * 3600 + m mod 60 * 60) = instant z (n * 86400 + m * 60)" for z m
    by (rule arg_cong [where f = "instant z"]) (use div_mult_mod_eq [of m 60] in linarith)
  then show ?thesis by (simp add: rule_day_def day_walls_def resolve_on_instant)
qed

text \<open>The day, hour and minute of a wall-clock second.\<close>

lemma wall_parts:
  assumes "0 \<le> m" and "m < 1440"
  shows "(n * 86400 + m * 60) div 86400 = n" and "(n * 86400 + m * 60) mod 86400 div 60 = m"
    and "(n * 86400 + m * 60) mod 60 = (0 :: int)"
proof -
  have "0 \<le> m * 60" "m * 60 < 86400" using assms by simp_all
  then have "(m * 60 + n * 86400) div 86400 = n" "(m * 60 + n * 86400) mod 86400 = m * 60"
    by (simp_all add: div_pos_pos_trivial mod_pos_pos_trivial)
  then show "(n * 86400 + m * 60) div 86400 = n" "(n * 86400 + m * 60) mod 86400 div 60 = m"
    by (simp_all add: add.commute)
  have "n * 86400 + m * 60 = (n * 1440 + m) * 60" by simp
  then show "(n * 86400 + m * 60) mod 60 = 0" by (metis mod_mult_self2_is_0)
qed

lemma wall_of_parts:
  assumes "w mod 60 = (0 :: int)"
  shows "w = w div 86400 * 86400 + (w mod 86400 div 60) * 60" "0 \<le> w mod 86400 div 60" "w mod 86400 div 60 < 1440"
proof -
  have "w mod 86400 mod 60 = 0" using assms by (simp add: mod_mod_cancel)
  then show "w = w div 86400 * 86400 + (w mod 86400 div 60) * 60"
    using div_mult_mod_eq [of w 86400] div_mult_mod_eq [of "w mod 86400" 60] by linarith
  have "0 \<le> w mod 86400" "w mod 86400 < 86400" by simp_all
  then show "0 \<le> w mod 86400 div 60" "w mod 86400 div 60 < 1440" by linarith+
qed

definition regular :: "rule \<Rightarrow> bool" where
  "regular r \<longleftrightarrow> r_kind r = Daily \<or> r_kind r = Weekly \<or> r_kind r = Interval"

lemma day_walls_iff:
  assumes "rule_ok r" and "regular r"
  shows "w \<in> set (day_walls r n) \<longleftrightarrow> rule_wall r w \<and> w div 86400 = n"
proof -
  have mins: "\<forall>m \<in> set (r_mins r). 0 \<le> m \<and> m < 1440" using assms by (auto simp: rule_ok_def regular_def)
  have kind: "rule_wall r w \<longleftrightarrow> w mod 60 = 0 \<and> (r_kind r = Weekly \<longrightarrow> r_days r ! nat (weekday (w div 86400)))
      \<and> w mod 86400 div 60 \<in> set (r_mins r)"
    using assms(2) by (auto simp: rule_wall_def regular_def Let_def)
  show ?thesis
  proof
    assume "w \<in> set (day_walls r n)"
    then obtain m where "w = n * 86400 + m * 60" "m \<in> set (r_mins r)"
        "r_kind r = Weekly \<longrightarrow> r_days r ! nat (weekday n)"
      by (auto simp: day_walls_def split: if_splits)
    moreover from this mins have "w div 86400 = n" "w mod 86400 div 60 = m" "w mod 60 = 0"
      using wall_parts [of m n] by blast+
    ultimately show "rule_wall r w \<and> w div 86400 = n" unfolding kind by simp
  next
    assume "rule_wall r w \<and> w div 86400 = n"
    then show "w \<in> set (day_walls r n)"
      using wall_of_parts [of w] unfolding kind day_walls_def by (auto simp: image_iff)
  qed
qed

lemma sorted_day_walls: "rule_ok r \<Longrightarrow> regular r \<Longrightarrow> sorted (day_walls r n)"
proof -
  assume "rule_ok r" "regular r"
  then have "sorted_wrt (<) (r_mins r)" by (auto simp: rule_ok_def regular_def)
  then have "sorted (map (\<lambda>m. n * 86400 + m * 60) (r_mins r))"
    unfolding sorted_wrt_map by (rule sorted_wrt_mono_rel [rotated]) simp
  then show ?thesis by (simp add: day_walls_def)
qed

text \<open>A week of days from the second day after the moment holds a run of every regular rule.\<close>

lemma regular_day_exists:
  assumes "rule_ok r" and "regular r"
  shows "\<exists>i \<in> {2..8}. day_walls r (d + i) \<noteq> []"
proof -
  have mins: "r_mins r \<noteq> []" using assms by (auto simp: rule_ok_def regular_def)
  show ?thesis
  proof (cases "r_kind r = Weekly")
    case True
    then obtain j where j: "j < 7" "r_days r ! j" using assms(1) by (auto simp: rule_ok_def in_set_conv_nth)
    define i where "i = 2 + (int j - d - 3) mod 7"
    have "(d + i + 1) mod 7 = (d + 3 + (int j - d - 3) mod 7) mod 7" by (simp add: i_def algebra_simps)
    also have "\<dots> = int j mod 7" by (subst mod_add_right_eq) simp
    finally have "(d + i + 1) mod 7 = int j mod 7" .
    then have "weekday (d + i) = int j" using j(1) by (simp add: weekday_def add.assoc)
    moreover have "i \<in> {2..8}" using pos_mod_bound [of 7 "int j - d - 3"] pos_mod_sign [of 7 "int j - d - 3"]
      by (simp add: i_def)
    ultimately show ?thesis using j(2) mins by (intro bexI [of _ i]) (simp_all add: day_walls_def)
  next
    case False
    then show ?thesis using mins by (intro bexI [of _ 2]) (simp_all add: day_walls_def)
  qed
qed

definition cron_walls :: "cron_spec \<Rightarrow> int \<Rightarrow> int \<Rightarrow> int \<Rightarrow> int list" where
  "cron_walls c n h0 m0 =
     (if \<not> c_month c ! nat (fst (snd (date_of_day n))) \<or> \<not> day_matches c n then []
      else concat (map (\<lambda>h. if \<not> c_hour c ! nat h then []
             else map (\<lambda>mi. n * 86400 + h * 3600 + mi * 60)
                    (filter (\<lambda>mi. c_minute c ! nat mi) [(if h = h0 then m0 else 0) .. 59])) [h0 .. 23]))"

lemma cron_day_walls: "cron_day c z n h0 m0 = map (instant z) (cron_walls c n h0 m0)"
  by (auto simp: cron_day_def cron_walls_def resolve_on_instant map_concat o_def split: prod.splits intro!: arg_cong [where f = concat])

definition cron_wall :: "cron_spec \<Rightarrow> int \<Rightarrow> bool" where
  "cron_wall c w \<longleftrightarrow> (let n = w div 86400; mins = w mod 86400 div 60 in w mod 60 = 0
     \<and> c_month c ! nat (fst (snd (date_of_day n))) \<and> day_matches c n
     \<and> c_hour c ! nat (mins div 60) \<and> c_minute c ! nat (mins mod 60))"

lemma rule_wall_cron: "r_kind r = Cron_Kind \<Longrightarrow> rule_wall r w \<longleftrightarrow> cron_wall (the (r_cron r)) w"
  by (simp add: rule_wall_def cron_wall_def Let_def)

lemma cron_walls_iff:
  assumes "0 \<le> h0" and "0 \<le> m0" and "m0 \<le> 59"
  shows "w \<in> set (cron_walls c n h0 m0) \<longleftrightarrow> cron_wall c w \<and> w div 86400 = n \<and> h0 * 60 + m0 \<le> w mod 86400 div 60"
proof
  assume "w \<in> set (cron_walls c n h0 m0)"
  then obtain h mi where m: "c_month c ! nat (fst (snd (date_of_day n)))" "day_matches c n" "h0 \<le> h" "h \<le> 23"
      "c_hour c ! nat h" "(if h = h0 then m0 else 0) \<le> mi" "mi \<le> 59" "c_minute c ! nat mi"
      "w = n * 86400 + h * 3600 + mi * 60"
    by (auto simp: cron_walls_def split: if_splits) force+
  have mi: "0 \<le> mi" using m(6) assms(2) by (auto split: if_splits)
  have w: "w = n * 86400 + (h * 60 + mi) * 60" using m(9) by simp
  have range: "0 \<le> h * 60 + mi" "h * 60 + mi < 1440" using assms m mi by auto
  have "(h * 60 + mi) div 60 = h" "(h * 60 + mi) mod 60 = mi" using mi m(7) by auto
  moreover have "h0 * 60 + m0 \<le> h * 60 + mi" using m(3,6) assms(3) mi by (auto split: if_splits)
  ultimately show "cron_wall c w \<and> w div 86400 = n \<and> h0 * 60 + m0 \<le> w mod 86400 div 60"
    using wall_parts [OF range, of n] m unfolding w cron_wall_def Let_def by simp
next
  assume w: "cron_wall c w \<and> w div 86400 = n \<and> h0 * 60 + m0 \<le> w mod 86400 div 60"
  define mins where "mins = w mod 86400 div 60"
  have parts: "w = n * 86400 + mins * 60" "0 \<le> mins" "mins < 1440"
    using wall_of_parts [of w] w by (auto simp: mins_def cron_wall_def Let_def)
  have split: "mins = mins div 60 * 60 + mins mod 60" "0 \<le> mins mod 60" "mins mod 60 \<le> 59" by simp_all
  have h: "h0 \<le> mins div 60" "mins div 60 \<le> 23" using w parts(3) assms unfolding mins_def [symmetric] by linarith+
  have "(if mins div 60 = h0 then m0 else 0) \<le> mins mod 60"
    using w split unfolding mins_def [symmetric] by (auto, linarith)
  moreover have "w = n * 86400 + mins div 60 * 3600 + mins mod 60 * 60" using parts(1) split(1) by linarith
  moreover have "c_month c ! nat (fst (snd (date_of_day n)))" "day_matches c n" "c_hour c ! nat (mins div 60)"
      "c_minute c ! nat (mins mod 60)"
    using w unfolding cron_wall_def Let_def mins_def by auto
  ultimately show "w \<in> set (cron_walls c n h0 m0)"
    using h split(3) unfolding cron_walls_def
    by (auto intro!: bexI [of _ "mins div 60"] simp: image_iff intro: exI [of _ "mins mod 60"])
qed

lemma sorted_cron_walls:
  assumes "0 \<le> h0" and "0 \<le> m0" and "m0 \<le> 59"
  shows "sorted (cron_walls c n h0 m0)"
proof (cases "\<not> c_month c ! nat (fst (snd (date_of_day n))) \<or> \<not> day_matches c n")
  case False
  let ?ws = "\<lambda>h. if \<not> c_hour c ! nat h then [] else map (\<lambda>mi. n * 86400 + h * 3600 + mi * 60)
      (filter (\<lambda>mi. c_minute c ! nat mi) [(if h = h0 then m0 else 0) .. 59])"
  have "sorted (concat (map ?ws [h0 .. 23]))"
  proof (rule sorted_blocks [where g = "\<lambda>w. w div 3600 - n * 24"])
    show "sorted_wrt (<) [h0 .. 23]" by simp
    show "mono (\<lambda>w. w div 3600 - n * 24)" by (rule mono_div) simp
    show "sorted (?ws h)" for h
      by (simp add: sorted_wrt_map sorted_wrt_filter)
    show "w div 3600 - n * 24 = h" if "w \<in> set (?ws h)" for h w
    proof -
      obtain mi where mi: "w = n * 86400 + h * 3600 + mi * 60" "(if h = h0 then m0 else 0) \<le> mi" "mi \<le> 59"
        using \<open>w \<in> set (?ws h)\<close> by (auto split: if_splits)
      then have "0 \<le> mi * 60" "mi * 60 < 3600" using assms by (auto split: if_splits)
      moreover have "w = mi * 60 + (n * 24 + h) * 3600" using mi(1) by simp
      ultimately have "w div 3600 = n * 24 + h" by (simp add: div_pos_pos_trivial)
      then show ?thesis by simp
    qed
  qed
  then show ?thesis using False by (simp add: cron_walls_def)
qed (simp add: cron_walls_def)

subsection \<open>The search is complete\<close>

lemma search_complete:
  assumes ok: "tz_ok z" and pos: "0 \<le> after" and D: "D = wall_day z after"
    and tms: "\<And>i. i \<in> {0..<N} \<Longrightarrow> tms i = map (instant z) (ws i)"
    and sorted: "\<And>i. i \<in> {0..<N} \<Longrightarrow> sorted (ws i)"
    and sound: "\<And>i w. i \<in> {0..<N} \<Longrightarrow> w \<in> set (ws i) \<Longrightarrow> P w \<and> w div 86400 = D + i"
    and complete: "\<And>w. P w \<Longrightarrow> D \<le> w div 86400 \<Longrightarrow> w div 86400 < D + N \<Longrightarrow>
      w \<in> set (ws (w div 86400 - D)) \<or> w \<le> wall_sec z (after div second)"
  shows "(search_days tms after [0 .. N - 1] = zero_time \<and> (\<forall>w. P w \<and> w div 86400 < D + N \<longrightarrow> instant z w \<le> after))
    \<or> (after < search_days tms after [0 .. N - 1]
        \<and> (\<exists>w. P w \<and> search_days tms after [0 .. N - 1] = instant z w)
        \<and> (\<forall>v. P v \<and> after < instant z v \<longrightarrow> search_days tms after [0 .. N - 1] \<le> instant z v))"
proof -
  let ?t = "search_days tms after [0 .. N - 1]" and ?L = "concat (map ws [0 .. N - 1])"
  have mem: "i \<in> set [0 .. N - 1] \<longleftrightarrow> i \<in> {0..<N}" for i by auto
  have sl: "sorted ?L"
    by (rule sorted_blocks [where g = "\<lambda>w. w div 86400 - D"]) (use sorted sound mono_div in \<open>auto simp: mem\<close>)
  have reached: "instant z w \<le> after" if "P w" "w div 86400 < D + N" "w \<notin> set ?L" for w
  proof (rule instant_reached [OF ok])
    show "w \<le> wall_sec z (after div second)"
    proof (cases "D \<le> w div 86400")
      case True
      then have "w div 86400 - D \<in> set [0 .. N - 1]" using that(2) by simp
      then show ?thesis using complete [OF that(1) True that(2)] that(3) by auto
    next
      case False
      then show ?thesis using div_mult_mod_eq [of w 86400] div_mult_mod_eq [of "wall_sec z (after div second)" 86400]
          pos_mod_bound [of 86400 w] pos_mod_sign [of 86400 "wall_sec z (after div second)"]
        unfolding D wall_day_def by linarith
    qed
  qed
  have inL: "P w \<and> w div 86400 < D + N" if "w \<in> set ?L" for w using that sound by (auto simp: mem)
  have "(?t = zero_time \<and> (\<forall>w \<in> set ?L. instant z w \<le> after))
    \<or> (after < ?t \<and> (\<exists>w \<in> set ?L. ?t = instant z w \<and> (\<forall>v \<in> set ?L. after < instant z v \<longrightarrow> instant z w \<le> instant z v)))"
    by (rule search_days_first [OF ok _ sl pos]) (simp add: tms)
  then consider "?t = zero_time" "\<forall>w \<in> set ?L. instant z w \<le> after"
    | w where "after < ?t" "w \<in> set ?L" "?t = instant z w" "\<forall>v \<in> set ?L. after < instant z v \<longrightarrow> instant z w \<le> instant z v"
    by blast
  then show ?thesis
  proof cases
    case 1
    then show ?thesis using reached by blast
  next
    case (2 w)
    have "?t \<le> instant z v" if "P v" "after < instant z v" for v
    proof (cases "v div 86400 < D + N")
      case True
      then have "v \<in> set ?L" using reached [OF that(1) True] that(2) by force
      then show ?thesis unfolding 2(3) using 2(4) that(2) by blast
    next
      case False
      then have "w div 86400 < v div 86400" using inL [OF 2(2)] by linarith
      then have "w \<le> v" by (meson linorder_not_less zdiv_mono1 zero_less_numeral leD le_less)
      then show ?thesis using instant_mono [OF ok] 2(3) by simp
    qed
    then show ?thesis using 2(1,3) inL [OF 2(2)] by blast
  qed
qed

lemma rule_next_regular:
  assumes "rule_ok r" and "regular r" and "tz_ok (r_zone r)" and "0 \<le> after"
  shows "(rule_next r after = zero_time
        \<and> (\<forall>w. rule_wall r w \<and> w div 86400 < wall_day (r_zone r) after + 9 \<longrightarrow> instant (r_zone r) w \<le> after))
    \<or> (after < rule_next r after \<and> (\<exists>w. rule_wall r w \<and> rule_next r after = instant (r_zone r) w)
        \<and> (\<forall>v. rule_wall r v \<and> after < instant (r_zone r) v \<longrightarrow> rule_next r after \<le> instant (r_zone r) v))"
proof -
  let ?D = "wall_day (r_zone r) after"
  have next_eq: "rule_next r after = search_days (\<lambda>i. rule_day r (?D + i)) after [0 .. 9 - 1]"
  proof -
    obtain y m d where ymd: "date_of_day ?D = (y, m, d)" by (metis prod_cases3)
    have "day_number y m (d + i) = ?D + i" for i
      using date_of_day_inverse [OF ymd] by (simp add: day_number_add)
    then show ?thesis using assms(2) ymd by (auto simp: rule_next_def regular_def)
  qed
  show ?thesis unfolding next_eq
    by (rule search_complete [OF assms(3,4) refl, where ws = "\<lambda>i. day_walls r (?D + i)"])
      (use day_walls_iff [OF assms(1,2)] sorted_day_walls [OF assms(1,2)] in \<open>simp_all add: rule_day_walls\<close>)
qed

lemma regular_found:
  assumes "rule_ok r" and "regular r" and "tz_ok (r_zone r)" and "small_shifts (r_zone r)"
  shows "\<exists>w. rule_wall r w \<and> w div 86400 < wall_day (r_zone r) after + 9 \<and> after < instant (r_zone r) w"
proof -
  let ?D = "wall_day (r_zone r) after" and ?W = "wall_sec (r_zone r) (after div second)"
  obtain i w where i: "i \<in> {2..8}" and "w \<in> set (day_walls r (?D + i))"
    using regular_day_exists [OF assms(1,2), of ?D] by (meson list.set_sel(1))
  then have w: "rule_wall r w" "w div 86400 = ?D + i" using day_walls_iff [OF assms(1,2)] by auto
  have "?W + 86400 < w"
  proof -
    have "?W < (?D + 1) * 86400" using pos_mod_bound [of 86400 ?W] div_mult_mod_eq [of ?W 86400]
      by (simp add: wall_day_def algebra_simps)
    moreover have "(?D + i) * 86400 + w mod 86400 = w" unfolding w(2) [symmetric] by (rule div_mult_mod_eq)
    moreover have "(?D + 2) * 86400 \<le> (?D + i) * 86400" "0 \<le> w mod 86400" using i by simp_all
    ultimately have "?W < (?D + 1) * 86400" "(?D + 2) * 86400 \<le> w" by simp_all
    then show ?thesis by (simp add: distrib_right)
  qed
  then have "after < instant (r_zone r) w" by (rule instant_later [OF assms(3,4)])
  then show ?thesis using w i by auto
qed

lemma rule_next_cron:
  assumes "r_kind r = Cron_Kind" and "tz_ok (r_zone r)" and "0 \<le> after"
  shows "(rule_next r after = zero_time
        \<and> (\<forall>w. rule_wall r w \<and> w div 86400 < wall_day (r_zone r) after + 2930 \<longrightarrow> instant (r_zone r) w \<le> after))
    \<or> (after < rule_next r after \<and> (\<exists>w. rule_wall r w \<and> rule_next r after = instant (r_zone r) w)
        \<and> (\<forall>v. rule_wall r v \<and> after < instant (r_zone r) v \<longrightarrow> rule_next r after \<le> instant (r_zone r) v))"
proof -
  let ?c = "the (r_cron r)" and ?z = "r_zone r"
  define a where "a = wall_sec ?z (after div second)"
  define D where "D = a div 86400"
  define h0 where "h0 = a mod 86400 div 3600"
  define m0 where "m0 = a mod 3600 div 60"
  define start where "start = (\<lambda>i :: int. if i = 0 then (h0, m0) else (0, 0))"
  define ws where "ws = (\<lambda>i. cron_walls ?c (D + i) (fst (start i)) (snd (start i)))"
  have D: "D = wall_day ?z after" by (simp add: D_def a_def wall_day_def)
  have bounds: "0 \<le> h0" "0 \<le> m0" "m0 \<le> 59"
    using pos_mod_bound [of 3600 a] by (simp_all add: h0_def m0_def)
  have st: "0 \<le> fst (start i)" "0 \<le> snd (start i)" "snd (start i) \<le> 59" for i
    using bounds by (simp_all add: start_def)
  have before: "h0 * 60 + m0 = a mod 86400 div 60"
  proof -
    have "a mod 3600 = a mod 86400 mod 3600" by (simp add: mod_mod_cancel)
    then have "a mod 86400 = h0 * 3600 + a mod 3600" "a mod 3600 = m0 * 60 + a mod 3600 mod 60"
      using div_mult_mod_eq [of "a mod 86400" 3600] div_mult_mod_eq [of "a mod 3600" 60] unfolding h0_def m0_def by simp_all
    then have "a mod 86400 = (h0 * 60 + m0) * 60 + a mod 3600 mod 60" by simp
    then show ?thesis by (metis add.commute div_mult_self1 div_pos_pos_trivial pos_mod_bound pos_mod_sign
      zero_less_numeral add.right_neutral zero_neq_numeral)
  qed
  have next_eq: "rule_next r after = search_days (\<lambda>i. cron_day ?c ?z (D + i) (fst (start i)) (snd (start i))) after [0 .. 2930 - 1]"
  proof -
    obtain y m d where ymd: "date_of_day D = (y, m, d)" by (metis prod_cases3)
    have dn: "day_number y m (d + i) = D + i" for i
      using date_of_day_inverse [OF ymd] by (simp add: day_number_add)
    have "rule_next r after = search_days (\<lambda>i. if i = 0 then cron_day ?c ?z (D + i) h0 m0 else cron_day ?c ?z (D + i) 0 0)
        after [0 .. int cron_search_days - 1]"
      using assms(1) ymd unfolding rule_next_def cron_next_def Let_def a_def [symmetric] D_def [symmetric]
        h0_def [symmetric] m0_def [symmetric] by (simp add: dn dn [of 0, simplified] cong: if_cong)
    moreover have "(\<lambda>i. if i = 0 then cron_day ?c ?z (D + i) h0 m0 else cron_day ?c ?z (D + i) 0 0)
        = (\<lambda>i. cron_day ?c ?z (D + i) (fst (start i)) (snd (start i)))" by (auto simp: start_def)
    ultimately show ?thesis by (simp add: cron_search_days_def)
  qed
  have P: "rule_wall r = cron_wall ?c" using rule_wall_cron [OF assms(1)] by blast
  show ?thesis unfolding next_eq P D [symmetric]
  proof (rule search_complete [OF assms(2,3) D, where ws = ws])
    show "w \<in> set (ws (w div 86400 - D)) \<or> w \<le> wall_sec ?z (after div second)"
      if "cron_wall ?c w" "D \<le> w div 86400" "w div 86400 < D + 2930" for w
    proof (cases "w div 86400 = D \<and> w mod 86400 div 60 < h0 * 60 + m0")
      case True
      then have "w mod 86400 < a mod 86400" unfolding before by (meson leD leI zdiv_mono1 zero_less_numeral)
      then have "w \<le> a" using True div_mult_mod_eq [of w 86400] div_mult_mod_eq [of a 86400] unfolding D_def by linarith
      then show ?thesis by (simp add: a_def)
    next
      case False
      have "0 \<le> w mod 86400 div 60" by simp
      then show ?thesis
        using False that(1) unfolding ws_def cron_walls_iff [OF st] by (auto simp: start_def)
    qed
  qed (use cron_walls_iff [OF st] sorted_cron_walls [OF st] in \<open>simp_all add: ws_def cron_day_walls\<close>)
qed

lemma rule_next_once:
  assumes "rule_ok r" and "r_kind r = Once"
  shows "\<exists>w0. (\<forall>w. rule_wall r w \<longleftrightarrow> w = w0)
    \<and> rule_next r after = (if after < instant (r_zone r) w0 then instant (r_zone r) w0 else zero_time)"
proof -
  obtain y mo d where date: "r_date r = (y, mo, d)" by (metis prod_cases3)
  let ?m = "r_mins r ! 0" and ?n = "day_number y mo d"
  have m: "0 \<le> ?m" "?m < 1440" using assms by (cases "r_mins r"; simp add: rule_ok_def)+
  have "wall_time y mo d (?m div 60) (?m mod 60) = ?n * 86400 + ?m * 60"
    using div_mult_mod_eq [of ?m 60] unfolding wall_time_def by linarith
  then have nxt: "rule_next r after = (let t = instant (r_zone r) (?n * 86400 + ?m * 60) in if after < t then t else zero_time)"
    using assms(2) date by (simp add: rule_next_def resolve_def instant_def)
  have "rule_wall r w \<longleftrightarrow> w = ?n * 86400 + ?m * 60" for w
    using wall_parts [OF m, of ?n] wall_of_parts [of w] assms(2) date by (auto simp: rule_wall_def Let_def)
  then show ?thesis using nxt by (auto simp: Let_def)
qed

lemma rule_next_progress: "rule_next r t \<noteq> 0 \<Longrightarrow> t < rule_next r t"
proof -
  have "search_days tms t is \<noteq> 0 \<Longrightarrow> t < search_days tms t is" for tms "is"
  proof (induction "is")
    case (Cons i "is")
    have "find P xs = Some u \<Longrightarrow> P u" for P and u :: gotime and xs by (induction xs) (auto split: if_splits)
    then show ?case using Cons by (auto split: option.splits)
  qed simp
  then show "rule_next r t \<noteq> 0 \<Longrightarrow> t < rule_next r t"
    by (auto simp: rule_next_def cron_next_def Let_def split: timing_kind.splits prod.splits if_splits)
qed

lemma rule_next_first:
  assumes "compile zones t = Inr r" and "tz_ok (r_zone r)" and "small_shifts (r_zone r)" and "0 \<le> after"
  shows "if rule_next r after = zero_time
    then (tm_kind t = Once \<and> (\<forall>u \<in> occurrences r. u \<le> after))
      \<or> (tm_kind t = Cron_Kind \<and> (\<forall>w. rule_wall r w \<and> w div 86400 < wall_day (r_zone r) after + 2930 \<longrightarrow> instant (r_zone r) w \<le> after))
    else after < rule_next r after \<and> rule_next r after \<in> occurrences r
      \<and> (\<forall>u \<in> occurrences r. after < u \<longrightarrow> rule_next r after \<le> u)"
proof -
  have ok: "rule_ok r" and kind: "r_kind r = tm_kind t" using compile_ok [OF assms(1)] by auto
  consider (regular) "regular r" | (once) "r_kind r = Once" | (cron) "r_kind r = Cron_Kind"
    using ok by (cases "r_kind r") (auto simp: rule_ok_def regular_def)
  then show ?thesis
  proof cases
    case regular
    obtain w where w: "rule_wall r w" "w div 86400 < wall_day (r_zone r) after + 9" "after < instant (r_zone r) w"
      using regular_found [OF ok regular assms(2,3)] by blast
    from rule_next_regular [OF ok regular assms(2,4)] show ?thesis
    proof (elim disjE conjE)
      assume "\<forall>w. rule_wall r w \<and> w div 86400 < wall_day (r_zone r) after + 9 \<longrightarrow> instant (r_zone r) w \<le> after"
      then have False using w by (meson leD)
      then show ?thesis ..
    qed (use assms(4) in \<open>auto simp: occurrences_def\<close>)
  next
    case once
    then show ?thesis using rule_next_once [OF ok once, of after] kind assms(4) by (auto simp: occurrences_def split: if_splits)
  next
    case cron
    then show ?thesis using rule_next_cron [OF cron assms(2,4)] kind assms(4)
      unfolding occurrences_def by auto
  qed
qed

text \<open>C8: The next run of a timing is the first of the instants its wall-clock times stand for that is
  after the given moment, in every time zone whose clock never loses more than a day, across its
  skipped and repeated hours. There is one for every daily, weekly and interval timing; none is given
  for a single date only when it is past, and for a cron expression only when no day of the next
  2930, from the zone's current one, holds a later run.\<close>

theorem next_run_is_first:
  assumes "compile zones t = Inr r" and "tz_ok (r_zone r)" and "small_shifts (r_zone r)" and "0 \<le> after"
  shows "if rule_next r after = zero_time
    then (tm_kind t = Once \<and> (\<forall>u \<in> occurrences r. u \<le> after))
      \<or> (tm_kind t = Cron_Kind \<and> (\<forall>w. rule_wall r w \<and> w div 86400 < wall_day (r_zone r) after + 2930 \<longrightarrow> instant (r_zone r) w \<le> after))
    else after < rule_next r after \<and> rule_next r after \<in> occurrences r
      \<and> (\<forall>u \<in> occurrences r. after < u \<longrightarrow> rule_next r after \<le> u)"
  by (rule rule_next_first [OF assms])

theorem next_run_is_first_witness:
  "let a = wall_time 2026 3 29 1 0; z = spring a;
       t = \<lparr>tm_kind = Daily, tm_time_zone = ''Europe/Berlin'', tm_at = ''02:30'', tm_days = [], tm_every_hours = 0,
            tm_date = [], tm_cron = [], tm_grace_minutes = 0\<rparr>;
       r = \<lparr>r_kind = Daily, r_zone = z, r_mins = [150], r_days = replicate 7 False, r_date = (1, 1, 1), r_cron = None\<rparr>
   in compile (\<lambda>n. Some z) t = Inr r \<and> rule_next r ((a - 3600) * second) = a * second
      \<and> (\<forall>u \<in> occurrences r. (a - 3600) * second < u \<longrightarrow> a * second \<le> u)"
proof -
  define a where "a = wall_time 2026 3 29 1 0"
  define t where "t = \<lparr>tm_kind = Daily, tm_time_zone = ''Europe/Berlin'', tm_at = ''02:30'', tm_days = [], tm_every_hours = 0,
            tm_date = [], tm_cron = [], tm_grace_minutes = 0\<rparr>"
  define r where "r = \<lparr>r_kind = Daily, r_zone = spring a, r_mins = [150], r_days = replicate 7 False, r_date = (1, 1, 1), r_cron = None\<rparr>"
  have a: "a = 63910342800"
    by (simp add: a_def wall_time_def day_number_def days_before_year_def days_before_month_def leap_def)
  have clock: "parse_clock ''02:30'' = Inr 150"
    by (simp add: parse_clock_def clock_re_def cut_def is_digit_def digits_val_def digit_val_def of_char_Char text_eval)
  have c: "compile (\<lambda>n. Some (spring a)) t = Inr r"
    by (simp add: compile_def load_time_zone_def t_def time_zone_re_def letter_def max_time_zone_len_def r_def
       new_rule_def clock compile_at_def of_char_Char)
  have D: "wall_day (spring a) ((a - 3600) * second) = 739703"
    by (simp add: wall_day_def wall_sec_def spring_def a)
  have date: "date_of_day 739703 = (2026, 3, 29)" "day_number 2026 3 29 = 739703"
    by (simp_all add: date_of_day_def year_of_day_def month_of_yday_def days_before_month_def leap_def day_number_def days_before_year_def)
  have day: "rule_day r 739703 = [a * second]"
    by (simp add: rule_day_def r_def resolve_on_def date(1) resolve_def resolve_sec_def wall_time_def a date_in_def spring_def Let_def wall_of_def wall_sec_def
        before_period_def after_period_def day_number_def days_before_year_def days_before_month_def leap_def)
  have kz: "r_kind r = Daily" "r_zone r = spring a" by (simp_all add: r_def)
  have "[0..8] = (0 :: int) # [1..8]" by (simp add: upto_rec1)
  moreover have "(a - 3600) * second < a * second" by simp
  ultimately have nxt: "rule_next r ((a - 3600) * second) = a * second"
    using day D date by (simp add: rule_next_def kz)
  have z: "tz_ok (spring a)" by (rule tz_ok_spring) (simp add: a)
  have "0 \<le> (a - 3600) * second" "a * second \<noteq> zero_time" by (simp_all add: a)
  then have "\<forall>u \<in> occurrences r. (a - 3600) * second < u \<longrightarrow> a * second \<le> u"
    using next_run_is_first [OF c, of "(a - 3600) * second"] nxt kz z small_shifts_spring [of a]
    by (simp only: if_False not_False_eq_True True_implies_equals) blast
  then show ?thesis
    using c nxt unfolding Let_def a_def [symmetric] t_def [symmetric] r_def [symmetric] by blast
qed

end
