(* ===== verification/Schedules.thy ===== *)
theory Schedules
  imports Chat Timing
begin

section \<open>Schedules and what makes them valid (internal/schedule/schedule.go)\<close>

text \<open>
  A row of the agent's schedules table with its timing, payload and last run, the texts of results
  and reasons, and the checks before a schedule is saved. Trimming typed-in text (normalize) is
  modelled as far as \<open>strings.TrimSpace\<close> goes; a validation error is a constructor of the error's
  code with its parameters. The main theorem is that a valid schedule never runs more often than
  its kind allows.
\<close>

subsection \<open>Definitions\<close>

datatype task = Restart | Backup | Announcement | Console_Command | Other_Task string

datatype if_empty = As_Planned | Skip_If_Empty | Now_If_Empty | Other_If_Empty string

record payload =
  p_warn_seconds :: "int list"
  p_message :: string
  p_if_empty :: if_empty
  p_command :: string
  p_note :: string
  p_skip_if_playing :: bool
  p_only_if_played :: bool

definition retry_after :: duration where "retry_after = hour"

definition default_warnings :: "int list" where "default_warnings = [600, 300, 60, 30, 10]"

datatype run_result = Running | Succeeded | Failed | Skipped | Missed

datatype reason = No_Reason | Server_Stopped | Server_Sleeping | Nobody_Online | Agent_Down | Late | Busy | Rejected
  | Run_Error | Interrupted | Invalid_Schedule | Turned_Off | People_Playing | Nobody_Played

text \<open>
  A detail is the text \<open>cleanOutput\<close> makes of an error or a reply, or the message of a validation
  error.
\<close>

record run =
  ru_due :: gotime
  ru_started :: gotime
  ru_finished :: gotime
  ru_result :: run_result
  ru_reason :: reason
  ru_detail :: string
  ru_operation :: string
  ru_players :: "int option"
  ru_retry_at :: gotime

record schedule =
  s_id :: string
  s_server_id :: string
  s_name :: string
  s_task :: task
  s_timing :: timing
  s_payload :: payload
  s_enabled :: bool
  s_created_at :: gotime
  s_updated_at :: gotime
  s_last_run :: "run option"

definition reason_text :: "reason \<Rightarrow> string" where
  "reason_text r = (case r of
      Server_Stopped \<Rightarrow> ''the server was stopped.''
    | Server_Sleeping \<Rightarrow> ''the server was asleep because nobody was playing.''
    | Nobody_Online \<Rightarrow> ''nobody was online.''
    | Agent_Down \<Rightarrow> ''Playkeeper was not running at that time.''
    | Late \<Rightarrow> ''it could not start close enough to its time.''
    | Busy \<Rightarrow> ''another task kept the server busy for too long.''
    | Rejected \<Rightarrow> ''the server did not accept the command.''
    | Run_Error \<Rightarrow> ''something went wrong.''
    | Interrupted \<Rightarrow> ''Playkeeper stopped while it was running.''
    | Invalid_Schedule \<Rightarrow> ''the schedule is not valid any more.''
    | Turned_Off \<Rightarrow> ''the schedule was turned off before the restart.''
    | People_Playing \<Rightarrow> ''people were playing.''
    | Nobody_Played \<Rightarrow> ''nobody played since the last backup.''
    | No_Reason \<Rightarrow> [])"

definition run_text :: "run \<Rightarrow> string" where
  "run_text r = (case ru_result r of
      Running \<Rightarrow> ''Running now.''
    | Succeeded \<Rightarrow> ''Done.''
    | Skipped \<Rightarrow> ''Skipped: '' @ reason_text (ru_reason r)
    | Missed \<Rightarrow> ''Missed: '' @ reason_text (ru_reason r)
    | Failed \<Rightarrow>
        (if ru_detail r \<noteq> [] \<and> (ru_reason r = Run_Error \<or> ru_reason r = Rejected)
         then ''Failed: '' @ reason_text (ru_reason r) @ '' '' @ ru_detail r
         else ''Failed: '' @ reason_text (ru_reason r)))"

definition actor_prefix :: string where "actor_prefix = ''schedule:''"
definition max_name_runes :: nat where "max_name_runes = 64"
definition max_message :: nat where "max_message = 256"
definition max_note :: nat where "max_note = 200"
definition max_warnings :: nat where "max_warnings = 8"
definition min_warn_second :: int where "min_warn_second = 5"
definition max_warn_second :: int where "max_warn_second = 3600"

text \<open>The expressions \<open>^[a-z0-9]{1,32}$\<close> and \<open>^[A-Za-z0-9_-]{1,64}$\<close>.\<close>

definition id_re :: "string \<Rightarrow> bool" where
  "id_re s \<longleftrightarrow> 1 \<le> length s \<and> length s \<le> 32 \<and> list_all (\<lambda>c. 97 \<le> code c \<and> code c \<le> 122 \<or> is_digit c) s"

definition server_id_re :: "string \<Rightarrow> bool" where
  "server_id_re s \<longleftrightarrow> 1 \<le> length s \<and> length s \<le> 64 \<and> list_all (\<lambda>c. word_char c \<or> c \<in> {CHR ''_'', CHR ''-''}) s"

definition actor :: "string \<Rightarrow> string" where "actor i = actor_prefix @ i"

definition parse_actor :: "string \<Rightarrow> string option" where
  "parse_actor a = (case cut_prefix a actor_prefix of None \<Rightarrow> None | Some i \<Rightarrow> if id_re i then Some i else None)"

text \<open>\<open>normCommand\<close> of chat.go: the fields between spaces, without the leading slash.\<close>

definition norm_command :: "string \<Rightarrow> string" where
  "norm_command c =
     (let t = trim_space c; t = (case cut_prefix t ''/'' of Some r \<Rightarrow> r | None \<Rightarrow> t)
      in join '' '' (filter (\<lambda>w. w \<noteq> []) (split_on (CHR '' '') t)))"

definition zero_payload :: payload where
  "zero_payload = \<lparr>p_warn_seconds = [], p_message = [], p_if_empty = As_Planned, p_command = [], p_note = [],
     p_skip_if_playing = False, p_only_if_played = False\<rparr>"

text \<open>\<open>slices.Compact\<close> of a sorted list keeps one of each value: \<open>remdups_adj\<close>.\<close>

definition normalize_payload :: "payload \<Rightarrow> task \<Rightarrow> payload" where
  "normalize_payload p k = (case k of
      Restart \<Rightarrow> zero_payload\<lparr>p_warn_seconds := remdups_adj (rev (sort (p_warn_seconds p))),
        p_message := trim_space (p_message p), p_if_empty := p_if_empty p, p_skip_if_playing := p_skip_if_playing p\<rparr>
    | Announcement \<Rightarrow> zero_payload\<lparr>p_message := trim_space (p_message p)\<rparr>
    | Console_Command \<Rightarrow> zero_payload\<lparr>p_command := norm_command (p_command p)\<rparr>
    | Backup \<Rightarrow> zero_payload\<lparr>p_note := trim_space (p_note p), p_skip_if_playing := p_skip_if_playing p,
        p_only_if_played := p_only_if_played p\<rparr>
    | Other_Task _ \<Rightarrow> p)"

datatype schedule_error = Id_Invalid | Server_Invalid | Name_Too_Long | Name_Invalid | Kind_Invalid
  | Timing_Error timing_error | Warnings_Too_Many | Warning_Range int | Warning_Whole_Minutes int | Warning_Duplicate int
  | If_Empty_Invalid | Message_Required | Message_Too_Long | Message_Invalid | Command_Error command_error
  | Note_Too_Long | Note_Invalid | Too_Often string int int

text \<open>The loop of \<open>validWarnings\<close> with the warnings seen so far.\<close>

fun warnings_loop :: "int set \<Rightarrow> int list \<Rightarrow> schedule_error option" where
  "warnings_loop seen [] = None"
| "warnings_loop seen (w # ws) =
     (if w < min_warn_second \<or> max_warn_second < w then Some (Warning_Range w)
      else if 60 \<le> w \<and> w mod 60 \<noteq> 0 then Some (Warning_Whole_Minutes w)
      else if w \<in> seen then Some (Warning_Duplicate w)
      else warnings_loop (insert w seen) ws)"

definition valid_warnings :: "int list \<Rightarrow> schedule_error option" where
  "valid_warnings ws = (if max_warnings < length ws then Some Warnings_Too_Many else warnings_loop {} ws)"

definition valid_message :: "string \<Rightarrow> schedule_error option" where
  "valid_message m =
     (if max_message < rune_count m then Some Message_Too_Long
      else if \<not> chat_safe m then Some Message_Invalid else None)"

definition validate_payload :: "payload \<Rightarrow> task \<Rightarrow> schedule_error option" where
  "validate_payload p k = (case k of
      Restart \<Rightarrow>
        (case valid_warnings (p_warn_seconds p) of Some e \<Rightarrow> Some e
         | None \<Rightarrow> (case p_if_empty p of Other_If_Empty _ \<Rightarrow> Some If_Empty_Invalid
             | _ \<Rightarrow> if p_message p \<noteq> [] then valid_message (p_message p) else None))
    | Announcement \<Rightarrow> (if p_message p = [] then Some Message_Required else valid_message (p_message p))
    | Console_Command \<Rightarrow> map_option Command_Error (check_command (p_command p))
    | Backup \<Rightarrow>
        (if max_note < length (p_note p) then Some Note_Too_Long
         else if \<not> plain_text (p_note p) then Some Note_Invalid else None)
    | Other_Task _ \<Rightarrow> None)"

text \<open>\<open>lead\<close> of a payload and of a schedule.\<close>

definition payload_lead :: "payload \<Rightarrow> duration" where
  "payload_lead p = (if length (p_warn_seconds p) = 0 then 0 else Max (set (p_warn_seconds p)) * second)"

definition lead :: "schedule \<Rightarrow> duration" where
  "lead s = (if s_task s = Restart then payload_lead (s_payload s) else 0)"

definition min_spacing :: "schedule \<Rightarrow> duration" where
  "min_spacing s = (case s_task s of
      Restart \<Rightarrow> max hour (payload_lead (s_payload s) + 15 * minute)
    | Backup \<Rightarrow> hour
    | _ \<Rightarrow> 5 * minute)"

definition check_spacing :: "(string \<Rightarrow> zone option) \<Rightarrow> schedule \<Rightarrow> schedule_error option" where
  "check_spacing zones s = (case compile zones (s_timing s) of
      Inl e \<Rightarrow> Some (Timing_Error e)
    | Inr r \<Rightarrow>
        let gap = min_gap r; need = min_spacing s
        in if gap = 0 then None
           else if need \<le> gap then None
           else Some (Too_Often (if tm_kind (s_timing s) = Interval then ''timing.everyHours'' else ''timing.cron'')
                  (quot gap minute) (quot need minute)))"

definition validate_schedule :: "(string \<Rightarrow> zone option) \<Rightarrow> schedule \<Rightarrow> gotime \<Rightarrow> schedule_error option" where
  "validate_schedule zones s now =
     (if \<not> id_re (s_id s) then Some Id_Invalid
      else if \<not> server_id_re (s_server_id s) then Some Server_Invalid
      else if max_name_runes < rune_count (s_name s) then Some Name_Too_Long
      else if \<not> plain_text (s_name s) then Some Name_Invalid
      else if (case s_task s of Other_Task _ \<Rightarrow> True | _ \<Rightarrow> False) then Some Kind_Invalid
      else case validate_timing zones (s_timing s) now of Some e \<Rightarrow> Some (Timing_Error e)
      | None \<Rightarrow> (case validate_payload (s_payload s) (s_task s) of Some e \<Rightarrow> Some e
          | None \<Rightarrow> check_spacing zones s))"

definition task_plural :: "task \<Rightarrow> string" where
  "task_plural k = (case k of Restart \<Rightarrow> ''restarts'' | Backup \<Rightarrow> ''backups'' | Announcement \<Rightarrow> ''announcements''
     | Console_Command \<Rightarrow> ''commands'' | Other_Task _ \<Rightarrow> ''schedules'')"

definition minutes_phrase :: "duration \<Rightarrow> string" where
  "minutes_phrase d =
     (let m = quot d minute; h = m div 60; rest = m mod 60
      in if h = 0 then plural m ''minute''
         else if rest = 0 then plural h ''hour''
         else plural h ''hour'' @ '' '' @ plural rest ''minute'')"

definition grace :: "schedule \<Rightarrow> duration" where
  "grace s =
     (let g = tm_grace_minutes (s_timing s)
      in if 0 < g \<and> g \<le> max_grace_minutes then g * minute
         else case s_task s of Restart \<Rightarrow> 15 * minute | Backup \<Rightarrow> 6 * hour | Announcement \<Rightarrow> 5 * minute | _ \<Rightarrow> 15 * minute)"

subsection \<open>Bounds\<close>

lemma grace_pos: "0 < grace s \<and> grace s \<le> 24 * hour"
  by (auto simp: grace_def Let_def max_grace_minutes_def split: task.splits)

lemma warnings_loop_ok:
  "warnings_loop seen ws = None \<Longrightarrow>
     (\<forall>w \<in> set ws. 5 \<le> w \<and> w \<le> 3600 \<and> (60 \<le> w \<longrightarrow> w mod 60 = 0)) \<and> distinct ws \<and> seen \<inter> set ws = {}"
  by (induction ws arbitrary: seen) (auto simp: min_warn_second_def max_warn_second_def split: if_splits)

lemma lead_bounds:
  assumes "valid_warnings (p_warn_seconds p) = None"
  shows "0 \<le> payload_lead p \<and> payload_lead p \<le> hour"
proof (cases "p_warn_seconds p = []")
  case False
  then have "Max (set (p_warn_seconds p)) \<in> set (p_warn_seconds p)" by simp
  moreover have "\<forall>w \<in> set (p_warn_seconds p). 5 \<le> w \<and> w \<le> 3600"
    using assms warnings_loop_ok [of "{}" "p_warn_seconds p"] by (simp add: valid_warnings_def split: if_splits)
  ultimately have "5 \<le> Max (set (p_warn_seconds p)) \<and> Max (set (p_warn_seconds p)) \<le> 3600" by blast
  then show ?thesis by (simp add: payload_lead_def)
qed (simp add: payload_lead_def)

text \<open>An actor names its schedule.\<close>

lemma parse_actor_actor: "id_re i \<Longrightarrow> parse_actor (actor i) = Some i"
  by (simp add: parse_actor_def actor_def)

lemma parse_actor_Some: "parse_actor a = Some i \<longleftrightarrow> a = actor i \<and> id_re i"
  by (auto simp: parse_actor_def actor_def cut_prefix_Some split: option.splits if_splits)

subsection \<open>A valid schedule keeps its distance\<close>

lemma gap_loop_le:
  assumes "sorted_wrt (<) ts"
  shows "gap_loop g ts \<le> g \<and> (\<forall>x \<in> set ts. \<forall>y \<in> set ts. x < y \<longrightarrow> gap_loop g ts \<le> y - x)
    \<and> (0 < g \<longrightarrow> 0 < gap_loop g ts)"
  using assms
proof (induction g ts rule: gap_loop.induct)
  case (1 g a b ts)
  let ?l = "gap_loop (min g (b - a)) (b # ts)"
  have IH: "?l \<le> min g (b - a)" "\<forall>x \<in> set (b # ts). \<forall>y \<in> set (b # ts). x < y \<longrightarrow> ?l \<le> y - x"
    "0 < min g (b - a) \<longrightarrow> 0 < ?l"
    using 1 by simp_all
  have "?l \<le> y - a" if "y \<in> set (b # ts)" for y
  proof -
    have "b \<le> y" using 1(2) that by auto
    then show ?thesis using IH(1) by linarith
  qed
  then have "\<forall>x \<in> set (a # b # ts). \<forall>y \<in> set (a # b # ts). x < y \<longrightarrow> ?l \<le> y - x"
    using IH(2) 1(2) by force
  then show ?case using IH(1,3) 1(2) by simp
qed auto

lemma sorted_ends:
  assumes "sorted_wrt (<) (ts :: int list)" and "x \<in> set ts"
  shows "ts ! 0 \<le> x \<and> x \<le> ts ! (length ts - 1)"
proof -
  have s: "sorted ts" using assms(1) by (simp add: strict_sorted_iff)
  obtain i where "i < length ts" "x = ts ! i" using assms(2) by (metis in_set_conv_nth)
  then show ?thesis using sorted_nth_mono [OF s, of 0 i] sorted_nth_mono [OF s, of i "length ts - 1"] by auto
qed

lemma strict_blocks:
  fixes ws :: "int \<Rightarrow> int list"
  assumes "sorted_wrt (<) is" and "\<And>i. i \<in> set is \<Longrightarrow> sorted_wrt (<) (ws i)" and "mono g"
    and "\<And>i w. i \<in> set is \<Longrightarrow> w \<in> set (ws i) \<Longrightarrow> g w = (i :: int)"
  shows "sorted_wrt (<) (concat (map ws is))"
  using assms
proof (induction "is")
  case (Cons i "is")
  have "w < v" if "w \<in> set (ws i)" "j \<in> set is" "v \<in> set (ws j)" for w j v
  proof (rule ccontr)
    assume "\<not> w < v"
    then have "g v \<le> g w" using Cons.prems(3) by (simp add: monoD)
    moreover have "g w = i" "g v = j" using that Cons.prems(4) by auto
    ultimately show False using Cons.prems(1) that(2) by auto
  qed
  moreover have "sorted_wrt (<) (concat (map ws is))" using Cons by simp
  ultimately show ?case using Cons.prems(2) by (auto simp: sorted_wrt_append)
qed simp

lemma in_concat_map: "x \<in> set (f h) \<Longrightarrow> h \<in> set hs \<Longrightarrow> x \<in> set (concat (map f hs))"
  by auto

lemma day_times_cron:
  assumes "r_cron r = Some c"
  shows "sorted_wrt (<) (day_times r)"
    and "m \<in> set (day_times r) \<longleftrightarrow> 0 \<le> m \<and> m < 1440 \<and> c_hour c ! nat (m div 60) \<and> c_minute c ! nat (m mod 60)"
proof -
  let ?f = "\<lambda>h. concat (map (\<lambda>m. if c_hour c ! nat h \<and> c_minute c ! nat m then [h * 60 + m] else []) [0 .. 59])"
  have dt: "day_times r = concat (map ?f [0 .. 23])"
    using assms by (simp add: day_times_def)
  have f: "?f h = map (\<lambda>m. h * 60 + m) (filter (\<lambda>m. c_hour c ! nat h \<and> c_minute c ! nat m) [0 .. 59])" for h
  proof -
    have "concat (map (\<lambda>x. if P x then [g x] else []) xs) = map g (filter P xs)" for P and g :: "int \<Rightarrow> int" and xs
      by (induction xs) auto
    then show ?thesis by simp
  qed
  show "sorted_wrt (<) (day_times r)" unfolding dt
  proof (rule strict_blocks [where g = "\<lambda>w. w div 60 - 0"])
    show "mono (\<lambda>w. w div 60 - 0 :: int)" by (rule mono_div) simp
    show "sorted_wrt (<) (?f h)" for h unfolding f by (simp add: sorted_wrt_map sorted_wrt_filter)
  qed auto
  show "m \<in> set (day_times r) \<longleftrightarrow> 0 \<le> m \<and> m < 1440 \<and> c_hour c ! nat (m div 60) \<and> c_minute c ! nat (m mod 60)"
  proof
    assume "m \<in> set (day_times r)"
    then obtain h i where "0 \<le> h" "h \<le> 23" "0 \<le> i" "i \<le> 59" "m = h * 60 + i" "c_hour c ! nat h" "c_minute c ! nat i"
      by (auto simp: dt)
    moreover from this have "m div 60 = h" "m mod 60 = i" by auto
    ultimately show "0 \<le> m \<and> m < 1440 \<and> c_hour c ! nat (m div 60) \<and> c_minute c ! nat (m mod 60)" by simp
  next
    assume m: "0 \<le> m \<and> m < 1440 \<and> c_hour c ! nat (m div 60) \<and> c_minute c ! nat (m mod 60)"
    then have "m div 60 \<in> {0 .. 23}" "m mod 60 \<in> {0 .. 59}" "m div 60 * 60 + m mod 60 = m" by auto
    then have "m \<in> set (?f (m div 60))" unfolding f using m
      by (simp add: image_iff) (metis \<open>m div 60 * 60 + m mod 60 = m\<close> \<open>m mod 60 \<in> {0 .. 59}\<close> atLeastAtMost_iff)
    then show "m \<in> set (day_times r)" unfolding dt
      by (rule in_concat_map) (use \<open>m div 60 \<in> {0 .. 23}\<close> in simp)
  qed
qed

text \<open>The minutes of the day a rule's wall-clock times have.\<close>

lemma day_times_wall:
  assumes "rule_ok r" and "r_kind r \<noteq> Once"
  shows "sorted_wrt (<) (day_times r)" "\<forall>m \<in> set (day_times r). 0 \<le> m \<and> m < 1440"
    "rule_wall r w \<Longrightarrow> w mod 86400 div 60 \<in> set (day_times r)"
proof -
  have "sorted_wrt (<) (day_times r) \<and> (\<forall>m \<in> set (day_times r). 0 \<le> m \<and> m < 1440)
      \<and> (rule_wall r w \<longrightarrow> w mod 86400 div 60 \<in> set (day_times r))"
  proof (cases "r_kind r = Cron_Kind")
    case True
    then obtain c where "r_cron r = Some c" using assms(1) by (auto simp: rule_ok_def)
    moreover have "0 \<le> w mod 86400 div 60" "w mod 86400 div 60 < 1440"
      using pos_mod_bound [of 86400 w] pos_mod_sign [of 86400 w] by linarith+
    ultimately show ?thesis
      using True by (simp add: day_times_cron rule_wall_cron cron_wall_def Let_def)
  next
    case False
    then show ?thesis using assms
      by (cases "r_kind r") (auto simp: rule_ok_def day_times_def rule_wall_def Let_def)
  qed
  then show "sorted_wrt (<) (day_times r)" "\<forall>m \<in> set (day_times r). 0 \<le> m \<and> m < 1440"
    "rule_wall r w \<Longrightarrow> w mod 86400 div 60 \<in> set (day_times r)" by blast+
qed

lemma min_gap_spaces:
  assumes ok: "rule_ok r" and once: "r_kind r \<noteq> Once" and w: "rule_wall r w" and v: "rule_wall r v" and less: "w < v"
  shows "0 < min_gap r \<and> min_gap r \<le> (v - w) * second"
proof -
  define ts where "ts = day_times r"
  define a where "a = w mod 86400 div 60"
  define b where "b = v mod 86400 div 60"
  note days = day_times_wall [OF ok once, folded ts_def]
  have mem: "a \<in> set ts" "b \<in> set ts" using days(3) w v by (auto simp: a_def b_def)
  then have ne: "length ts \<noteq> 0" by auto
  let ?base = "ts ! 0 + 24 * 60 - ts ! (length ts - 1)" and ?g = "gap_loop (ts ! 0 + 24 * 60 - ts ! (length ts - 1)) ts"
  have gap: "min_gap r = ?g * minute" using once ne by (simp add: min_gap_def ts_def Let_def)
  have "0 \<le> ts ! 0" "ts ! (length ts - 1) < 1440" using days(2) ne by auto
  then have loop: "?g \<le> ?base" "0 < ?g" and pairs: "\<forall>x \<in> set ts. \<forall>y \<in> set ts. x < y \<longrightarrow> ?g \<le> y - x"
    using gap_loop_le [OF days(1), of ?base] by auto
  have ends: "ts ! 0 \<le> b" "a \<le> ts ! (length ts - 1)" using sorted_ends [OF days(1)] mem by auto
  have "w mod 60 = 0" "v mod 60 = 0" using w v by (auto simp: rule_wall_def Let_def)
  then have eq: "w = w div 86400 * 86400 + a * 60" "v = v div 86400 * 86400 + b * 60"
    unfolding a_def b_def by (simp_all only: wall_of_parts(1) [symmetric])
  have order: "w div 86400 \<le> v div 86400" using less zdiv_mono1 [of w v 86400] by simp
  obtain n k where nk: "w = n * 86400 + a * 60" "v = k * 86400 + b * 60" "n \<le> k" using eq order by metis
  have "?g * 60 \<le> v - w"
  proof (cases "n = k")
    case True
    then have "a < b" using nk less by simp
    then have "?g \<le> b - a" using pairs mem by blast
    then show ?thesis using nk True by simp
  next
    case False
    then have "n + 1 \<le> k" using nk(3) by simp
    then show ?thesis using nk(1,2) loop(1) ends by linarith
  qed
  from mult_right_mono [OF this, of second] have "?g * minute \<le> (v - w) * second" by simp
  then show ?thesis unfolding gap using loop(2) by simp
qed

text \<open>C9: A schedule that passes validation never runs more often than its kind allows: any two different
  times of its rule are at least an hour apart for a backup, an hour and its warnings plus a quarter of
  an hour for a restart, five minutes for a message or a command, on the wall clock of its zone.\<close>

theorem valid_schedules_keep_distance:
  assumes "validate_schedule zones s now = None" and "compile zones (s_timing s) = Inr r"
    and "rule_wall r w" and "rule_wall r v" and "w < v"
  shows "(case s_task s of
      Restart \<Rightarrow> hour \<le> (v - w) * second \<and> (\<forall>x \<in> set (p_warn_seconds (s_payload s)). x * second + 15 * minute \<le> (v - w) * second)
    | Backup \<Rightarrow> hour \<le> (v - w) * second
    | Announcement \<Rightarrow> 5 * minute \<le> (v - w) * second
    | Console_Command \<Rightarrow> 5 * minute \<le> (v - w) * second
    | Other_Task _ \<Rightarrow> False)"
proof -
  have ok: "rule_ok r" and kind: "r_kind r = tm_kind (s_timing s)" using compile_ok [OF assms(2)] by auto
  have once: "r_kind r \<noteq> Once"
  proof
    assume "r_kind r = Once"
    then show False using rule_next_once [OF ok] assms(3-5) by (metis less_irrefl)
  qed
  have spacing: "check_spacing zones s = None" and known: "\<forall>t. s_task s \<noteq> Other_Task t"
    using assms(1) by (auto simp: validate_schedule_def split: if_splits option.splits task.splits)
  have gap: "0 < min_gap r" "min_gap r \<le> (v - w) * second" using min_gap_spaces [OF ok once assms(3-5)] by auto
  then have need: "min_spacing s \<le> (v - w) * second"
    using spacing assms(2) by (auto simp: check_spacing_def Let_def split: if_splits)
  have "x * second + 15 * minute \<le> (v - w) * second" if "s_task s = Restart" "x \<in> set (p_warn_seconds (s_payload s))" for x
  proof -
    have "x \<le> Max (set (p_warn_seconds (s_payload s)))" using that(2) by simp
    moreover have "p_warn_seconds (s_payload s) \<noteq> []" using that(2) by auto
    ultimately show ?thesis using need that(1) by (simp add: min_spacing_def payload_lead_def)
  qed
  then show ?thesis using need known by (auto simp: min_spacing_def split: task.splits)
qed

theorem valid_schedules_keep_distance_witness:
  "let t = \<lparr>tm_kind = Daily, tm_time_zone = ''Europe/Berlin'', tm_at = ''04:00'', tm_days = [], tm_every_hours = 0,
            tm_date = [], tm_cron = [], tm_grace_minutes = 0\<rparr>;
       r = \<lparr>r_kind = Daily, r_zone = utc, r_mins = [240], r_days = replicate 7 False, r_date = (1, 1, 1), r_cron = None\<rparr>;
       s = \<lparr>s_id = ''abc'', s_server_id = ''srv'', s_name = [], s_task = Restart, s_timing = t,
            s_payload = zero_payload\<lparr>p_warn_seconds := default_warnings\<rparr>, s_enabled = True, s_created_at = 0,
            s_updated_at = 0, s_last_run = None\<rparr>
   in validate_schedule (\<lambda>n. Some utc) s 0 = None \<and> rule_wall r 14400 \<and> rule_wall r 100800
      \<and> 600 * second + 15 * minute \<le> (100800 - 14400) * second"
proof -
  define t where "t = \<lparr>tm_kind = Daily, tm_time_zone = ''Europe/Berlin'', tm_at = ''04:00'', tm_days = [], tm_every_hours = 0,
            tm_date = [], tm_cron = [], tm_grace_minutes = 0\<rparr>"
  define r where "r = \<lparr>r_kind = Daily, r_zone = utc, r_mins = [240], r_days = replicate 7 False, r_date = (1, 1, 1), r_cron = None\<rparr>"
  define s where "s = \<lparr>s_id = ''abc'', s_server_id = ''srv'', s_name = [], s_task = Restart, s_timing = t,
            s_payload = zero_payload\<lparr>p_warn_seconds := default_warnings\<rparr>, s_enabled = True, s_created_at = 0,
            s_updated_at = 0, s_last_run = None\<rparr>"
  have clock: "parse_clock ''04:00'' = Inr 240"
    by (simp add: parse_clock_def clock_re_def cut_def is_digit_def digits_val_def digit_val_def of_char_Char text_eval)
  have c: "compile (\<lambda>n. Some utc) t = Inr r"
    by (simp add: compile_def load_time_zone_def t_def time_zone_re_def letter_def max_time_zone_len_def r_def
       new_rule_def clock compile_at_def of_char_Char)
  have nxt: "rule_next r 0 \<noteq> 0"
    using rule_next_first [OF c, of 0] tz_ok_utc small_shifts_utc by (auto simp: r_def t_def split: if_splits)
  have warn: "validate_payload (s_payload s) Restart = None"
    by (simp add: s_def validate_payload_def valid_warnings_def default_warnings_def max_warnings_def min_warn_second_def
        max_warn_second_def zero_payload_def)
  have "check_spacing (\<lambda>n. Some utc) s = None"
    by (simp add: check_spacing_def s_def c min_gap_def r_def day_times_def min_spacing_def payload_lead_def default_warnings_def
        zero_payload_def)
  then have v: "validate_schedule (\<lambda>n. Some utc) s 0 = None"
    using warn nxt c by (simp add: validate_schedule_def validate_timing_def s_def id_re_def server_id_re_def word_char_def
        rune_count_def plain_text_def valid_utf8_def rune_values_def t_def max_grace_minutes_def of_char_Char is_digit_def)
  have walls: "rule_wall r 14400" "rule_wall r 100800" by (simp_all add: rule_wall_def r_def)
  have "compile (\<lambda>n. Some utc) (s_timing s) = Inr r" using c by (simp add: s_def)
  from valid_schedules_keep_distance [OF v this walls] v walls show ?thesis
    unfolding Let_def t_def [symmetric] r_def [symmetric] s_def [symmetric]
    by (simp add: s_def zero_payload_def default_warnings_def)
qed

end
