(* ===== verification/Plan.thy ===== *)
theory Plan
  imports Schedules
begin

section \<open>What a runner does now (internal/schedule/plan.go)\<close>

text \<open>
  \<open>Plan\<close>: which occurrences of a server's schedules run now, which were missed and when to look
  again. \<open>time_source\<close> is the interface the loops over occurrences rely on, a function from a time
  to a later one or to the zero time; the code's instance is the search for the next run.
\<close>

subsection \<open>Definitions\<close>

record job =
  j_schedule :: schedule
  j_due :: gotime
  j_start :: gotime
  j_reason :: reason

record decision =
  d_due :: "job list"
  d_missed :: "job list"
  d_wake :: gotime
  d_invalid :: "(schedule \<times> timing_error) list"

definition max_lookback :: duration where "max_lookback = 400 * 24 * hour"

definition later :: "gotime \<Rightarrow> gotime \<Rightarrow> gotime" where
  "later a b = (if a < b then b else a)"

definition earliest :: "gotime \<Rightarrow> gotime \<Rightarrow> gotime" where
  "earliest a b = (if a = zero_time \<or> b < a then b else a)"

definition cursor :: "schedule \<Rightarrow> gotime" where
  "cursor s =
     (let c = later (s_created_at s) (s_updated_at s)
      in case s_last_run s of Some l \<Rightarrow> later c (ru_due l) | None \<Rightarrow> c)"

definition pending_retry :: "schedule \<Rightarrow> gotime" where
  "pending_retry s = (case s_last_run s of
      None \<Rightarrow> zero_time
    | Some l \<Rightarrow> if ru_retry_at l = zero_time \<or> ru_finished l < s_updated_at s then zero_time else ru_retry_at l)"

definition retry_at :: "(string \<Rightarrow> zone option) \<Rightarrow> schedule \<Rightarrow> gotime \<Rightarrow> gotime \<Rightarrow> gotime" where
  "retry_at zones s due now =
     (let at = later due now + retry_after
      in case compile zones (s_timing s) of
           Inl _ \<Rightarrow> zero_time
         | Inr r \<Rightarrow> if rule_next r due \<noteq> zero_time \<and> rule_next r due \<le> at then zero_time else at)"

definition task_order :: "task \<Rightarrow> int" where
  "task_order k = (case k of Announcement \<Rightarrow> 0 | Console_Command \<Rightarrow> 1 | Backup \<Rightarrow> 2 | Restart \<Rightarrow> 3 | Other_Task _ \<Rightarrow> 4)"

text \<open>The loop to the latest occurrence up to the horizon; \<open>t\<close> is the occurrence it looks at.\<close>

function latest_loop :: "rule \<Rightarrow> gotime \<Rightarrow> gotime \<Rightarrow> gotime \<Rightarrow> gotime" where
  "latest_loop r horizon t latest =
     (if t \<noteq> zero_time \<and> t \<le> horizon then latest_loop r horizon (rule_next r t) t else latest)"
  by pat_completeness auto
termination
proof (relation "measure (\<lambda>(r, horizon, t, latest). if t = 0 then 0 else Suc (nat (horizon + 1 - t)))", simp)
  fix r :: rule and horizon t latest :: gotime
  assume t: "t \<noteq> zero_time \<and> t \<le> horizon"
  show "((r, horizon, rule_next r t, t), r, horizon, t, latest)
      \<in> measure (\<lambda>(r, horizon, t, latest). if t = 0 then 0 else Suc (nat (horizon + 1 - t)))"
    using rule_next_progress [of r t] t by auto
qed

declare latest_loop.simps [simp del]

text \<open>The latest occurrence a pending retry replaces or not: the new \<open>latest\<close> and \<open>Wake\<close>.\<close>

definition retry_step :: "schedule \<Rightarrow> gotime \<Rightarrow> gotime \<Rightarrow> gotime \<Rightarrow> gotime \<Rightarrow> gotime \<times> gotime" where
  "retry_step s cur horizon latest wake =
     (let rt = pending_retry s
      in if cur < rt \<and> latest < rt
         then if horizon < rt then (latest, earliest wake (rt - lead s)) else (rt, wake)
         else (latest, wake))"

text \<open>One turn of the loop over the schedules.\<close>

definition plan_schedule :: "(string \<Rightarrow> zone option) \<Rightarrow> gotime \<Rightarrow> gotime \<Rightarrow> schedule \<Rightarrow> decision \<Rightarrow> decision" where
  "plan_schedule zones now since s d =
     (if \<not> s_enabled s then d
      else case compile zones (s_timing s) of
        Inl e \<Rightarrow> d\<lparr>d_invalid := d_invalid d @ [(s, e)]\<rparr>
      | Inr r \<Rightarrow>
          let ld = lead s; cur = later (cursor s) (now - max_lookback); horizon = now + ld
          in case retry_step s cur horizon (latest_loop r horizon (rule_next r cur) zero_time) (d_wake d) of
               (latest, wake) \<Rightarrow>
                 let d = d\<lparr>d_wake := wake\<rparr>
                 in if latest = zero_time then
                      (if rule_next r cur \<noteq> zero_time then d\<lparr>d_wake := earliest wake (rule_next r cur - ld)\<rparr> else d)
                    else let j = \<lparr>j_schedule = s, j_due = latest, j_start = latest - ld, j_reason = No_Reason\<rparr>
                         in if time_sub now latest \<le> grace s then d\<lparr>d_due := d_due d @ [j]\<rparr>
                            else if latest < since then d\<lparr>d_missed := d_missed d @ [j\<lparr>j_reason := Agent_Down\<rparr>]\<rparr>
                            else d\<lparr>d_missed := d_missed d @ [j\<lparr>j_reason := Late\<rparr>]\<rparr>)"

definition job_cmp :: "job \<Rightarrow> job \<Rightarrow> int" where
  "job_cmp = cmp_or (\<lambda>a b. cmp_int (j_start a) (j_start b)) (cmp_or (\<lambda>a b. cmp_int (j_due a) (j_due b))
     (cmp_or (\<lambda>a b. cmp_int (task_order (s_task (j_schedule a))) (task_order (s_task (j_schedule b))))
       (\<lambda>a b. cmp_string (s_id (j_schedule a)) (s_id (j_schedule b)))))"

definition plan :: "(string \<Rightarrow> zone option) \<Rightarrow> schedule list \<Rightarrow> gotime \<Rightarrow> gotime \<Rightarrow> decision" where
  "plan zones schedules now since =
     (let d = foldl (\<lambda>d s. plan_schedule zones now since s d)
                \<lparr>d_due = [], d_missed = [], d_wake = zero_time, d_invalid = []\<rparr> schedules
      in d\<lparr>d_due := stable_sort job_cmp (d_due d)\<rparr>)"

definition next_run :: "(string \<Rightarrow> zone option) \<Rightarrow> schedule \<Rightarrow> gotime \<Rightarrow> gotime" where
  "next_run zones s now =
     (if \<not> s_enabled s then zero_time
      else case compile zones (s_timing s) of
        Inl _ \<Rightarrow> zero_time
      | Inr r \<Rightarrow>
          let cur = later (cursor s) now; nxt = rule_next r cur; rt = pending_retry s
          in if cur < rt \<and> (nxt = zero_time \<or> rt < nxt) then rt else nxt)"

subsection \<open>Sources of times\<close>

text \<open>The times a source leads to from a time.\<close>

inductive reached :: "(gotime \<Rightarrow> gotime) \<Rightarrow> gotime \<Rightarrow> gotime \<Rightarrow> bool" for nxt where
  reached_first: "nxt t \<noteq> 0 \<Longrightarrow> reached nxt t (nxt t)"
| reached_next: "nxt t \<noteq> 0 \<Longrightarrow> reached nxt (nxt t) u \<Longrightarrow> reached nxt t u"

locale time_source =
  fixes nxt :: "gotime \<Rightarrow> gotime"
  assumes progress: "nxt t \<noteq> 0 \<Longrightarrow> t < nxt t"
begin

lemma next_runs_increase: "sorted_wrt (<) (t # next_runs_loop nxt t n)"
proof (induction n arbitrary: t)
  case (Suc n)
  show ?case
  proof (cases "nxt t = 0")
    case False
    then have "t < nxt t" by (rule progress)
    then show ?thesis using Suc [of "nxt t"] False by (auto simp: Let_def intro: less_trans)
  qed simp
qed simp

lemma reached_later: "reached nxt t u \<Longrightarrow> t < u \<and> u \<noteq> 0"
  by (induction rule: reached.induct) (auto dest: progress less_trans)

end

interpretation rule_times: time_source "rule_next r" for r
  by unfold_locales (rule rule_next_progress)

interpretation job_order: comparator job_cmp
  unfolding job_cmp_def
  by (intro comparator_or comparator_key [OF int_order.comparator_axioms] comparator_key [OF string_order.comparator_axioms])

subsection \<open>The latest occurrence\<close>

text \<open>The loop ends at the last time of the source up to the horizon.\<close>

definition last_until :: "rule \<Rightarrow> gotime \<Rightarrow> gotime \<Rightarrow> gotime \<Rightarrow> bool" where
  "last_until r h c l \<longleftrightarrow> (l = 0 \<and> (rule_next r c = 0 \<or> h < rule_next r c))
     \<or> (reached (rule_next r) c l \<and> l \<le> h \<and> (rule_next r l = 0 \<or> h < rule_next r l))"

lemma latest_loop_last:
  "t = rule_next r c \<Longrightarrow>
     (latest_loop r h t l = l \<and> (t = 0 \<or> h < t)) \<or> (last_until r h c (latest_loop r h t l) \<and> latest_loop r h t l \<noteq> 0)"
proof (induction r h t l arbitrary: c rule: latest_loop.induct)
  case (1 r h t l)
  show ?case
  proof (cases "t \<noteq> 0 \<and> t \<le> h")
    case True
    then have loop: "latest_loop r h t l = latest_loop r h (rule_next r t) t" by (subst latest_loop.simps) simp
    have "reached (rule_next r) c t" using True 1(2) reached_first [of "rule_next r" c] by simp
    moreover have "reached (rule_next r) t u \<Longrightarrow> reached (rule_next r) c u" for u
      using True 1(2) reached_next [of "rule_next r" c u] by simp
    ultimately show ?thesis using 1(1) [OF True refl] True unfolding loop last_until_def by fastforce
  next
    case False
    then show ?thesis by (subst latest_loop.simps) auto
  qed
qed

corollary latest_loop_zero: "last_until r h c (latest_loop r h (rule_next r c) 0)"
  using latest_loop_last [where t = "rule_next r c" and r = r and c = c and h = h and l = 0] unfolding last_until_def by metis

text \<open>A search that finds nothing rules out every occurrence of the next years.\<close>

lemma rule_next_none:
  assumes c: "compile zones t = Inr r" and tz: "tz_ok (r_zone r)" "small_shifts (r_zone r)" and pos: "0 \<le> after"
    and none: "rule_next r after = 0" and u: "u \<in> occurrences r" "u \<le> after + 2900 * 86400 * second"
  shows "u \<le> after"
proof -
  let ?z = "r_zone r"
  from u(1) obtain w where w: "rule_wall r w" "u = instant ?z w" by (auto simp: occurrences_def)
  have "w div 86400 < wall_day ?z after + 2930"
  proof -
    have "\<not> wall_sec ?z (u div second) + 86400 < w" using instant_later [OF tz, of u w] w(2) by auto
    moreover have "u div second \<le> after div second + 2900 * 86400" using u(2) by linarith
    moreover have "wall_sec ?z (u div second) < u div second + 86400" "after div second - 86400 < wall_sec ?z (after div second)"
      using tz_okD(4) [OF tz(1), of "u div second"] tz_okD(3) [OF tz(1), of "after div second"] by (simp_all add: wall_sec_def)
    ultimately have le: "w \<le> wall_sec ?z (after div second) + 2903 * 86400" by linarith
    have "w div 86400 \<le> (wall_sec ?z (after div second) + 2903 * 86400) div 86400" using le by (rule zdiv_mono1) simp
    then show ?thesis unfolding wall_day_def by simp
  qed
  then show ?thesis using rule_next_first [OF c tz pos] none w u(1) by auto
qed

text \<open>So the time the loop ends at is the latest occurrence after the start, up to the horizon.\<close>

lemma last_until_latest:
  assumes c: "compile zones t = Inr r" and tz: "tz_ok (r_zone r)" "small_shifts (r_zone r)" and pos: "0 \<le> c"
    and last: "last_until r h c l" and h: "h \<le> c + 2900 * 86400 * second"
  shows "(l \<noteq> 0 \<longrightarrow> l \<in> occurrences r \<and> c < l \<and> l \<le> h) \<and> (\<forall>u \<in> occurrences r. c < u \<and> u \<le> h \<longrightarrow> u \<le> l \<and> l \<noteq> 0)"
proof -
  have occ: "u \<in> occurrences r" if "reached (rule_next r) d u" "0 \<le> d" for d u
    using that
  proof (induction rule: reached.induct)
    case (reached_first d)
    then show ?case using rule_next_first [OF c tz] by simp
  next
    case (reached_next d u)
    then show ?case using rule_next_progress [of r d] by simp
  qed
  have later: "u \<le> d" if "0 \<le> d" "c \<le> d" "rule_next r d = 0 \<or> h < rule_next r d" "u \<in> occurrences r" "u \<le> h" for d u
  proof (cases "rule_next r d = 0")
    case True
    then show ?thesis using rule_next_none [OF c tz that(1) _ that(4)] that h by simp
  next
    case False
    then have "d < u \<longrightarrow> rule_next r d \<le> u" using rule_next_first [OF c tz that(1)] that(4) by simp
    then show ?thesis using that False by linarith
  qed
  consider (none) "l = 0" "rule_next r c = 0 \<or> h < rule_next r c"
    | (some) "reached (rule_next r) c l" "l \<le> h" "rule_next r l = 0 \<or> h < rule_next r l"
    using last unfolding last_until_def by blast
  then show ?thesis
  proof cases
    case none
    then show ?thesis using later [OF pos order_refl] by fastforce
  next
    case some
    then have "c < l" "l \<noteq> 0" using rule_times.reached_later by auto
    then show ?thesis using occ [OF some(1) pos] later [OF _ _ some(3)] some(2) pos by auto
  qed
qed

text \<open>Every zone of the database is sane.\<close>

definition good_zones :: "(string \<Rightarrow> zone option) \<Rightarrow> bool" where
  "good_zones zones \<longleftrightarrow> (\<forall>n z. zones n = Some z \<longrightarrow> tz_ok z \<and> small_shifts z)"

lemma good_zones_rule:
  "good_zones zones \<Longrightarrow> compile zones t = Inr r \<Longrightarrow> tz_ok (r_zone r)"
  "good_zones zones \<Longrightarrow> compile zones t = Inr r \<Longrightarrow> small_shifts (r_zone r)"
  using compile_ok unfolding good_zones_def by blast+

lemma good_zones_one: "tz_ok z \<Longrightarrow> small_shifts z \<Longrightarrow> good_zones (\<lambda>n. Some z)"
  by (simp add: good_zones_def)

subsection \<open>The decision\<close>

abbreviation (input) no_decision :: decision where
  "no_decision \<equiv> \<lparr>d_due = [], d_missed = [], d_wake = zero_time, d_invalid = []\<rparr>"

lemma retry_step_fst: "fst (retry_step s c h l w) = fst (retry_step s c h l w')"
  by (simp add: retry_step_def Let_def)

definition outcome :: "(string \<Rightarrow> zone option) \<Rightarrow> gotime \<Rightarrow> gotime \<Rightarrow> schedule \<Rightarrow> decision" where
  "outcome zones now since s = plan_schedule zones now since s no_decision"

lemma plan_schedule_jobs:
  "d_due (plan_schedule zones now since s d) = d_due d @ d_due (outcome zones now since s)
   \<and> d_missed (plan_schedule zones now since s d) = d_missed d @ d_missed (outcome zones now since s)"
proof -
  have "fst (retry_step s c h l (d_wake d)) = fst (retry_step s c h l 0)" for c h l by (rule retry_step_fst)
  then show ?thesis unfolding outcome_def plan_schedule_def
    by (auto simp: Let_def case_prod_unfold split: sum.splits)
qed

lemma fold_jobs:
  "d_due (foldl (\<lambda>d s. plan_schedule zones now since s d) d ss) = d_due d @ concat (map (\<lambda>s. d_due (outcome zones now since s)) ss)
   \<and> d_missed (foldl (\<lambda>d s. plan_schedule zones now since s d) d ss) = d_missed d @ concat (map (\<lambda>s. d_missed (outcome zones now since s)) ss)"
  by (induction ss arbitrary: d) (simp_all add: plan_schedule_jobs)

text \<open>What a job of one schedule is.\<close>

definition job_of :: "(string \<Rightarrow> zone option) \<Rightarrow> gotime \<Rightarrow> schedule \<Rightarrow> job \<Rightarrow> bool" where
  "job_of zones now s j \<longleftrightarrow> j_schedule j = s \<and> s_enabled s \<and> j_start j = j_due j - lead s \<and> j_due j \<noteq> 0 \<and>
     (\<exists>r l. compile zones (s_timing s) = Inr r \<and> last_until r (now + lead s) (later (cursor s) (now - max_lookback)) l
        \<and> l \<le> j_due j
        \<and> (j_due j = l \<or> j_due j = pending_retry s \<and> j_due j \<le> now + lead s \<and> later (cursor s) (now - max_lookback) < j_due j))"

lemma outcome_cases:
  obtains (none) "d_due (outcome zones now since s) = []" "d_missed (outcome zones now since s) = []"
      "\<And>r. s_enabled s \<Longrightarrow> compile zones (s_timing s) = Inr r \<Longrightarrow>
         \<exists>l \<le> 0. last_until r (now + lead s) (later (cursor s) (now - max_lookback)) l"
  | (due) j where "d_due (outcome zones now since s) = [j]" "d_missed (outcome zones now since s) = []"
      "job_of zones now s j" "time_sub now (j_due j) \<le> grace s"
  | (missed) j where "d_due (outcome zones now since s) = []" "d_missed (outcome zones now since s) = [j]"
      "job_of zones now s j" "\<not> time_sub now (j_due j) \<le> grace s" "j_reason j = (if j_due j < since then Agent_Down else Late)"
proof -
  have *: "(d_due (outcome zones now since s) = [] \<and> d_missed (outcome zones now since s) = []
        \<and> (\<forall>r. s_enabled s \<and> compile zones (s_timing s) = Inr r \<longrightarrow>
              (\<exists>l \<le> 0. last_until r (now + lead s) (later (cursor s) (now - max_lookback)) l)))
    \<or> (\<exists>j. d_due (outcome zones now since s) = [j] \<and> d_missed (outcome zones now since s) = []
          \<and> job_of zones now s j \<and> time_sub now (j_due j) \<le> grace s)
    \<or> (\<exists>j. d_due (outcome zones now since s) = [] \<and> d_missed (outcome zones now since s) = [j]
          \<and> job_of zones now s j \<and> \<not> time_sub now (j_due j) \<le> grace s \<and> j_reason j = (if j_due j < since then Agent_Down else Late))"
  proof (cases "s_enabled s \<and> (\<exists>r. compile zones (s_timing s) = Inr r)")
    case True
    then obtain r where r: "s_enabled s" "compile zones (s_timing s) = Inr r" by blast
    define cur where "cur = later (cursor s) (now - max_lookback)"
    define h where "h = now + lead s"
    define l where "l = latest_loop r h (rule_next r cur) 0"
    obtain latest wake where lw: "retry_step s cur h l 0 = (latest, wake)" by (metis surj_pair)
    have last: "last_until r h cur l" unfolding l_def by (rule latest_loop_zero)
    have latest: "l \<le> latest \<and> (latest = l \<or> latest = pending_retry s \<and> latest \<le> h \<and> cur < latest)"
      using lw by (auto simp: retry_step_def Let_def split: if_splits)
    define j where "j = \<lparr>j_schedule = s, j_due = latest, j_start = latest - lead s, j_reason = No_Reason\<rparr>"
    have job: "latest \<noteq> 0 \<Longrightarrow> job_of zones now s (j\<lparr>j_reason := x\<rparr>)" for x
      using r last latest unfolding job_of_def cur_def h_def by (auto simp: j_def)
    have "job_of zones now s j" if "latest \<noteq> 0"
      using job [OF that, of No_Reason] by (simp add: j_def)
    note job = this job
    have out: "outcome zones now since s =
       (let d = no_decision\<lparr>d_wake := wake\<rparr>
        in if latest = 0 then (if rule_next r cur \<noteq> 0 then d\<lparr>d_wake := earliest wake (rule_next r cur - lead s)\<rparr> else d)
           else if time_sub now latest \<le> grace s then d\<lparr>d_due := [j]\<rparr>
           else if latest < since then d\<lparr>d_missed := [j\<lparr>j_reason := Agent_Down\<rparr>]\<rparr> else d\<lparr>d_missed := [j\<lparr>j_reason := Late\<rparr>]\<rparr>)"
      using r lw by (simp add: outcome_def plan_schedule_def cur_def [symmetric] h_def [symmetric] l_def [symmetric] Let_def j_def)
    show ?thesis
    proof (cases "latest = 0")
      case True
      then show ?thesis using r last latest by (auto simp: out Let_def cur_def h_def)
    next
      case False
      then show ?thesis using job by (auto simp: out Let_def j_def)
    qed
  next
    case False
    then show ?thesis by (auto simp: outcome_def plan_schedule_def split: sum.splits)
  qed
  then show ?thesis using that by blast
qed

lemma plan_jobs:
  "set (d_due (plan zones ss now since)) = (\<Union>s \<in> set ss. set (d_due (outcome zones now since s)))"
  "d_missed (plan zones ss now since) = concat (map (\<lambda>s. d_missed (outcome zones now since s)) ss)"
  using fold_jobs [of zones now since no_decision ss] by (simp_all add: plan_def Let_def)

lemma mset_distinct_sub: "mset xs \<subseteq># mset ys \<Longrightarrow> distinct ys \<Longrightarrow> distinct xs"
  by (metis distinct_append mset_append mset_eq_imp_distinct_iff mset_subset_eq_exists_conv ex_mset)

lemma planned_job:
  assumes "j \<in> set (d_due (plan zones ss now since) @ d_missed (plan zones ss now since))"
  shows "j_schedule j \<in> set ss \<and> job_of zones now (j_schedule j) j
    \<and> (j \<in> set (d_due (plan zones ss now since)) \<longrightarrow> time_sub now (j_due j) \<le> grace (j_schedule j))"
proof -
  have j: "j_schedule x = s \<and> job_of zones now s x" if "x \<in> set (d_due (outcome zones now since s)) \<union> set (d_missed (outcome zones now since s))" for x s
    using that by (rule_tac zones = zones and now = now and since = since and s = s in outcome_cases) (auto simp: job_of_def)
  have due: "time_sub now (j_due x) \<le> grace s" if "x \<in> set (d_due (outcome zones now since s))" for x s
    using that by (rule_tac zones = zones and now = now and since = since and s = s in outcome_cases) auto
  obtain s where s: "s \<in> set ss" "j \<in> set (d_due (outcome zones now since s)) \<union> set (d_missed (outcome zones now since s))"
    using assms by (auto simp: plan_jobs)
  then have "j_schedule j = s" "job_of zones now s j" using j by auto
  moreover have "time_sub now (j_due j) \<le> grace (j_schedule j)" if d: "j \<in> set (d_due (plan zones ss now since))"
  proof -
    obtain s' where "j \<in> set (d_due (outcome zones now since s'))" using d by (auto simp: plan_jobs)
    then show ?thesis using due j by blast
  qed
  ultimately show ?thesis using s(1) by blast
qed

lemma lead_small:
  assumes "valid_warnings (p_warn_seconds (s_payload s)) = None"
  shows "0 \<le> lead s" "lead s \<le> hour"
  using lead_bounds [OF assms] by (simp_all add: lead_def)

lemma later_iff: "later a b < t \<longleftrightarrow> a < t \<and> b < t" "later a b \<le> t \<longleftrightarrow> a \<le> t \<and> b \<le> t"
  by (auto simp: later_def)

text \<open>A job is the latest occurrence up to the horizon, or a retry after it.\<close>

lemma job_of_latest:
  assumes job: "job_of zones now s j" and zones: "good_zones zones"
    and now: "max_lookback \<le> now" and warn: "valid_warnings (p_warn_seconds (s_payload s)) = None"
  shows "s_enabled s \<and> cursor s < j_due j \<and> now - max_lookback < j_due j \<and> j_start j = j_due j - lead s \<and> j_start j \<le> now
    \<and> (\<exists>r. compile zones (s_timing s) = Inr r \<and> (j_due j \<in> occurrences r \<or> j_due j = pending_retry s)
         \<and> (\<forall>u \<in> occurrences r. cursor s < u \<and> u \<le> now + lead s \<longrightarrow> u \<le> j_due j))"
proof -
  define cur where "cur = later (cursor s) (now - max_lookback)"
  obtain r l where r: "compile zones (s_timing s) = Inr r" "last_until r (now + lead s) cur l" "l \<le> j_due j"
      "j_due j = l \<or> j_due j = pending_retry s \<and> j_due j \<le> now + lead s \<and> cur < j_due j"
    and j: "s_enabled s" "j_start j = j_due j - lead s" "j_due j \<noteq> 0"
    using job unfolding job_of_def cur_def by blast
  have cur: "0 \<le> cur" "now - max_lookback \<le> cur" "cursor s \<le> cur" using now by (auto simp: cur_def later_def)
  note tz = good_zones_rule [OF zones r(1)]
  have "now + lead s \<le> cur + 2900 * 86400 * second"
    using lead_small [OF warn] cur by (simp add: max_lookback_def)
  note l = last_until_latest [OF r(1) tz cur(1) r(2) this]
  have due: "cur < j_due j" "j_due j \<le> now + lead s" "j_due j \<in> occurrences r \<or> j_due j = pending_retry s"
    using r(4) l j(3) by auto
  have "u \<le> j_due j" if "u \<in> occurrences r" "u \<le> now + lead s" for u
    using l that r(3) due(1) by (cases "cur < u") fastforce+
  then show ?thesis using r(1) due j cur by auto
qed

text \<open>C6: What a runner starts is due: the latest occurrence of an enabled schedule up to now (for a restart up
  to its first warning), or its pending retry. It is after everything the schedule ran before, was saved or
  changed at, and at most the schedule's grace late. No later occurrence is passed over for it.\<close>

theorem plan_runs_the_latest:
  assumes "j \<in> set (d_due (plan zones ss now since))" and "good_zones zones"
    and "max_lookback \<le> now" and "valid_warnings (p_warn_seconds (s_payload (j_schedule j))) = None"
  shows "let s = j_schedule j in s \<in> set ss \<and> s_enabled s \<and> cursor s < j_due j
    \<and> j_start j = j_due j - lead s \<and> j_start j \<le> now \<and> now - j_due j \<le> grace s
    \<and> (\<exists>r. compile zones (s_timing s) = Inr r \<and> (j_due j \<in> occurrences r \<or> j_due j = pending_retry s)
         \<and> (\<forall>u \<in> occurrences r. cursor s < u \<and> u \<le> now + lead s \<longrightarrow> u \<le> j_due j))"
proof -
  have p: "j_schedule j \<in> set ss" "job_of zones now (j_schedule j) j" "time_sub now (j_due j) \<le> grace (j_schedule j)"
    using planned_job [of j zones ss now since] assms(1) by auto
  have "now - j_due j \<le> grace (j_schedule j)"
    using p(3) grace_pos [of "j_schedule j"] time_sub_le_iff [of "grace (j_schedule j)" now "j_due j"]
    by (simp add: max_duration_def)
  then show ?thesis using p(1) job_of_latest [OF p(2) assms(2-4)] unfolding Let_def by blast
qed

lemma plan_accounts:
  assumes "s \<in> set ss" and "s_enabled s" and "compile zones (s_timing s) = Inr r" and "u \<in> occurrences r"
    and "cursor s < u" and "now - max_lookback < u" and "u \<le> now + lead s"
    and "good_zones zones" and "max_lookback \<le> now"
    and "valid_warnings (p_warn_seconds (s_payload s)) = None"
  shows "\<exists>j \<in> set (d_due (plan zones ss now since)) \<union> set (d_missed (plan zones ss now since)).
    j_schedule j = s \<and> u \<le> j_due j \<and> j_due j \<le> now + lead s"
proof -
  define cur where "cur = later (cursor s) (now - max_lookback)"
  have cur: "0 \<le> cur" "now - max_lookback \<le> cur" "cur < u" using assms(5,6,9) by (auto simp: cur_def later_def)
  note tz = good_zones_rule [OF assms(8,3)]
  have h: "now + lead s \<le> cur + 2900 * 86400 * second"
    using lead_small [OF assms(10)] cur by (simp add: max_lookback_def)
  have cover: "u \<le> j_due j" if job: "job_of zones now s j" for j
    using job_of_latest [OF job assms(8-10)] assms(3-5,7) by auto
  have until: "j_due j \<le> now + lead s" if job: "job_of zones now s j" for j
    using job_of_latest [OF job assms(8-10)] by linarith
  have some: "\<exists>j \<in> set (d_due (outcome zones now since s)) \<union> set (d_missed (outcome zones now since s)). job_of zones now s j"
  proof (cases rule: outcome_cases [where zones = zones and now = now and since = since and s = s])
    case none
    then obtain l where l: "l \<le> 0" "last_until r (now + lead s) cur l" using assms(2,3) unfolding cur_def by blast
    then have "u \<le> l" using last_until_latest [OF assms(3) tz cur(1) l(2) h] assms(4,7) cur(3) by blast
    then show ?thesis using l(1) cur by linarith
  qed auto
  then obtain j where j: "j \<in> set (d_due (outcome zones now since s)) \<union> set (d_missed (outcome zones now since s))" "job_of zones now s j"
    by blast
  have "j_schedule j = s" using j(2) unfolding job_of_def by blast
  then show ?thesis using cover [OF j(2)] until [OF j(2)] j(1) assms(1) unfolding plan_jobs set_concat set_map by blast
qed

text \<open>C7: No occurrence is lost: every occurrence of an enabled schedule after its last run that is due now, and not
  older than the look-back, is run, or recorded as missed, or superseded by a later one of the same schedule
  that is.\<close>

theorem plan_accounts_for_every_run:
  assumes "s \<in> set ss" and "s_enabled s" and "compile zones (s_timing s) = Inr r" and "u \<in> occurrences r"
    and "cursor s < u" and "now - max_lookback < u" and "u \<le> now + lead s"
    and "good_zones zones" and "max_lookback \<le> now"
    and "valid_warnings (p_warn_seconds (s_payload s)) = None"
  shows "\<exists>j \<in> set (d_due (plan zones ss now since)) \<union> set (d_missed (plan zones ss now since)).
    j_schedule j = s \<and> u \<le> j_due j \<and> j_due j \<le> now + lead s"
  by (rule plan_accounts [OF assms])

text \<open>A decision holds at most one job of every schedule, run or missed, and the jobs to run come in the order
  of their starts.\<close>

theorem plan_one_job_each:
  assumes "distinct (map s_id ss)"
  shows "distinct (map (\<lambda>j. s_id (j_schedule j)) (d_due (plan zones ss now since) @ d_missed (plan zones ss now since)))
    \<and> sorted_wrt (\<lambda>a b. job_cmp a b \<le> 0) (d_due (plan zones ss now since))
    \<and> sorted (map j_start (d_due (plan zones ss now since)))"
proof -
  let ?f = "\<lambda>s. d_due (outcome zones now since s)" and ?g = "\<lambda>s. d_missed (outcome zones now since s)"
  let ?id = "\<lambda>j. s_id (j_schedule j)"
  have one: "map ?id (?f s @ ?g s) = [] \<or> map ?id (?f s @ ?g s) = [s_id s]" for s
    by (cases rule: outcome_cases [where zones = zones and now = now and since = since and s = s]) (auto simp: job_of_def)
  have "mset (map ?id (concat (map ?f ss) @ concat (map ?g ss))) \<subseteq># mset (map s_id ss)"
  proof (induction ss)
    case (Cons s ss)
    have "mset (map ?id (?f s @ ?g s)) \<subseteq># {#s_id s#}" using one [of s] by (elim disjE) (simp_all only: mset.simps subset_mset.order_refl empty_le)
    then have "mset (map ?id (?f s @ ?g s)) + mset (map ?id (concat (map ?f ss) @ concat (map ?g ss))) \<subseteq># {#s_id s#} + mset (map s_id ss)"
      using Cons by (rule subset_mset.add_mono)
    then show ?case by (simp add: ac_simps)
  qed simp
  moreover have "mset (d_due (plan zones ss now since)) = mset (concat (map ?f ss))"
    using fold_jobs [of zones now since no_decision ss] by (simp add: plan_def Let_def)
  ultimately have "mset (map ?id (d_due (plan zones ss now since) @ d_missed (plan zones ss now since))) \<subseteq># mset (map s_id ss)"
    by (simp add: plan_jobs)
  then have "distinct (map ?id (d_due (plan zones ss now since) @ d_missed (plan zones ss now since)))"
    using assms mset_distinct_sub by blast
  moreover have srt: "sorted_wrt (\<lambda>a b. job_cmp a b \<le> 0) (d_due (plan zones ss now since))"
    by (simp add: plan_def Let_def job_order.sorted_stable_sort)
  moreover have "sorted (map j_start (d_due (plan zones ss now since)))"
    unfolding sorted_map
    by (rule sorted_wrt_mono_rel [OF _ srt]) (auto simp: job_cmp_def cmp_or_def cmp_int_def split: if_splits)
  ultimately show ?thesis by blast
qed

subsection \<open>An example\<close>

text \<open>An announcement every day at four, two minutes after four.\<close>

definition four :: timing where
  "four = \<lparr>tm_kind = Daily, tm_time_zone = ''Europe/Berlin'', tm_at = ''04:00'', tm_days = [], tm_every_hours = 0,
     tm_date = [], tm_cron = [], tm_grace_minutes = 0\<rparr>"

definition four_rule :: rule where
  "four_rule = \<lparr>r_kind = Daily, r_zone = utc, r_mins = [240], r_days = replicate 7 False, r_date = (1, 1, 1), r_cron = None\<rparr>"

definition hello :: schedule where
  "hello = \<lparr>s_id = ''hello'', s_server_id = ''srv'', s_name = [], s_task = Announcement, s_timing = four,
     s_payload = zero_payload\<lparr>p_message := ''hi''\<rparr>, s_enabled = True, s_created_at = 0, s_updated_at = 0, s_last_run = None\<rparr>"

definition past_four :: gotime where "past_four = (1000 * 86400 + 14520) * second"

abbreviation (input) utc_only :: "string \<Rightarrow> zone option" where "utc_only \<equiv> \<lambda>n. Some utc"

lemma compile_four: "compile utc_only four = Inr four_rule"
proof -
  have "parse_clock ''04:00'' = Inr 240"
    by (simp add: parse_clock_def clock_re_def cut_def is_digit_def digits_val_def digit_val_def of_char_Char text_eval)
  then show ?thesis
    by (simp add: compile_def load_time_zone_def four_def time_zone_re_def letter_def max_time_zone_len_def four_rule_def
       new_rule_def compile_at_def of_char_Char)
qed

lemma hello_facts:
  "compile utc_only (s_timing hello) = Inr four_rule" "s_enabled hello" "cursor hello = 0" "lead hello = 0"
  "grace hello = 5 * minute" "valid_warnings (p_warn_seconds (s_payload hello)) = None"
  "good_zones utc_only" "max_lookback \<le> past_four"
  using compile_four tz_ok_utc small_shifts_utc
  by (simp_all add: hello_def cursor_def later_def lead_def grace_def valid_warnings_def zero_payload_def good_zones_def
      max_lookback_def past_four_def four_def)

lemma four_occurs: "(1000 * 86400 + 14400) * second \<in> occurrences four_rule"
proof -
  have "rule_wall four_rule (1000 * 86400 + 14400)" by (simp add: rule_wall_def four_rule_def)
  moreover have "instant utc (1000 * 86400 + 14400) = (1000 * 86400 + 14400) * second"
    by (simp add: instant_def resolve_sec_def date_in_def utc_def Let_def wall_sec_def earlier_instance_def wall_of_def)
  moreover have "r_zone four_rule = utc" by (simp add: four_rule_def)
  ultimately show ?thesis unfolding occurrences_def mem_Collect_eq by metis
qed

lemma hello_is_due: "\<exists>j \<in> set (d_due (plan utc_only [hello] past_four 0)). j_schedule j = hello \<and> (1000 * 86400 + 14400) * second \<le> j_due j"
proof -
  obtain j where j: "j \<in> set (d_due (plan utc_only [hello] past_four 0)) \<union> set (d_missed (plan utc_only [hello] past_four 0))"
    "j_schedule j = hello" "(1000 * 86400 + 14400) * second \<le> j_due j" "j_due j \<le> past_four + lead hello"
    using plan_accounts [OF _ hello_facts(2,1) four_occurs _ _ _ hello_facts(7,8,6), of "[hello]" 0]
    by (auto simp: hello_facts past_four_def max_lookback_def)
  have "time_sub past_four (j_due j) \<le> grace hello"
    using j(3,4) by (simp add: hello_facts time_sub_def max_duration_def min_duration_def past_four_def)
  moreover have "\<not> time_sub past_four (j_due j) \<le> grace hello" if "j \<in> set (d_missed (plan utc_only [hello] past_four 0))"
    using that by (cases rule: outcome_cases [where zones = utc_only and now = past_four and since = 0 and s = hello])
      (simp_all add: plan_jobs)
  ultimately show ?thesis using j by blast
qed

theorem plan_runs_the_latest_witness:
  "\<exists>j \<in> set (d_due (plan utc_only [hello] past_four 0)). j_start j \<le> past_four \<and> past_four - j_due j \<le> 5 * minute
     \<and> (\<forall>u \<in> occurrences four_rule. 0 < u \<and> u \<le> past_four \<longrightarrow> u \<le> j_due j)"
proof -
  obtain j where j: "j \<in> set (d_due (plan utc_only [hello] past_four 0))" "j_schedule j = hello" using hello_is_due by blast
  then show ?thesis
    using plan_runs_the_latest [OF j(1) hello_facts(7,8)] by (intro bexI [OF _ j(1)]) (simp add: hello_facts)
qed

theorem plan_accounts_for_every_run_witness:
  "\<exists>j \<in> set (d_due (plan utc_only [hello] past_four 0)) \<union> set (d_missed (plan utc_only [hello] past_four 0)).
     j_schedule j = hello \<and> (1000 * 86400 + 14400) * second \<le> j_due j \<and> j_due j \<le> past_four"
  using plan_accounts_for_every_run [OF _ hello_facts(2,1) four_occurs _ _ _ hello_facts(7,8,6), of "[hello]" 0]
  by (simp add: hello_facts past_four_def max_lookback_def)

theorem plan_one_job_each_witness:
  "distinct (map (\<lambda>j. s_id (j_schedule j)) (d_due (plan utc_only [hello] past_four 0) @ d_missed (plan utc_only [hello] past_four 0)))"
  using plan_one_job_each [of "[hello]" utc_only past_four 0] by simp

end
