(* ===== verification/Go_Dates.thy ===== *)
theory Go_Dates
  imports Wall_Clock Go_Text
begin

section \<open>Formatted dates\<close>

text \<open>
  The layouts of package time that the modelled code prints dates with, on the number of a
  wall-clock day, and \<open>RFC3339\<close> for a time in UTC.
\<close>

text \<open>The digits of a number with leading zeros up to a width.\<close>

definition zero_padded :: "nat \<Rightarrow> int \<Rightarrow> string" where
  "zero_padded w n = (let ds = show_nat (nat \<bar>n\<bar>)
     in (if n < 0 then ''-'' else []) @ replicate (w - length ds) (CHR ''0'') @ ds)"

definition month_names :: "string list" where
  "month_names = [''January'', ''February'', ''March'', ''April'', ''May'', ''June'', ''July'', ''August'',
     ''September'', ''October'', ''November'', ''December'']"

definition day_name_list :: "string list" where
  "day_name_list = [''Sunday'', ''Monday'', ''Tuesday'', ''Wednesday'', ''Thursday'', ''Friday'', ''Saturday'']"

text \<open>\<open>t.Format\<close> of a time in a zone with the layouts \<open>2006-01-02\<close>, \<open>2006-01\<close>, \<open>Monday 2 January 2006\<close>
  and \<open>January 2006\<close>, on the number of the wall-clock day.\<close>

definition format_date :: "int \<Rightarrow> string" where
  "format_date n = (case date_of_day n of (y, m, d) \<Rightarrow> zero_padded 4 y @ ''-'' @ zero_padded 2 m @ ''-'' @ zero_padded 2 d)"

definition format_month :: "int \<Rightarrow> string" where
  "format_month n = (case date_of_day n of (y, m, _) \<Rightarrow> zero_padded 4 y @ ''-'' @ zero_padded 2 m)"

definition format_long :: "int \<Rightarrow> string" where
  "format_long n = (case date_of_day n of (y, m, d) \<Rightarrow>
     day_name_list ! nat (weekday n) @ '' '' @ itoa d @ '' '' @ month_names ! nat (m - 1) @ '' '' @ zero_padded 4 y)"

definition format_month_year :: "int \<Rightarrow> string" where
  "format_month_year n = (case date_of_day n of (y, m, _) \<Rightarrow> month_names ! nat (m - 1) @ '' '' @ zero_padded 4 y)"

text \<open>\<open>t.Format(time.RFC3339)\<close> of a time in UTC.\<close>

definition rfc3339 :: "gotime \<Rightarrow> string" where
  "rfc3339 t = (let n = wall_day utc t; s = t div second mod 86400
     in format_date n @ ''T'' @ zero_padded 2 (s div 3600) @ '':'' @ zero_padded 2 (s div 60 mod 60) @ '':''
        @ zero_padded 2 (s mod 60) @ ''Z'')"

end
