(* ===== verification/Go_Float.thy ===== *)
theory Go_Float
  imports Go_Base "HOL-Library.Word"
begin

unbundle bit_operations_syntax

section \<open>Floating-point numbers\<close>

text \<open>
  A \<open>float64\<close> is kept as the fraction it stands for (numerator, positive denominator), with NaN
  and the infinities apart; the sign of zero, which no comparison sees, is dropped. Arithmetic
  is exact, followed by rounding to 53 bits, ties to even; underflow cannot occur where two
  \<open>float64\<close> numbers are added, and a sum beyond the largest one only compares as greater.
\<close>

subsection \<open>Rounding\<close>

text \<open>The whole number nearest to \<open>p / q\<close>, the even one of two at the same distance.\<close>

definition round_even :: "int \<Rightarrow> int \<Rightarrow> int" where
  "round_even p q = (let d = p div q; r = p mod q in if 2 * r < q \<or> 2 * r = q \<and> even d then d else d + 1)"

function bit_len :: "int \<Rightarrow> int" where
  "bit_len n = (if n \<le> 0 then 0 else bit_len (n div 2) + 1)"
  by pat_completeness auto
termination by (relation "measure nat") auto

declare bit_len.simps [simp del]

text \<open>A positive fraction rounded to the 53 bits of a \<open>float64\<close>.\<close>

definition float64 :: "int \<times> int \<Rightarrow> int \<times> int" where
  "float64 x = (case x of (p, q) \<Rightarrow>
     if p = 0 then (0, 1)
     else let l = bit_len p - bit_len q;
              top = (if 0 \<le> l then q * 2 ^ nat l \<le> p else q \<le> p * 2 ^ nat (- l));
              e = (if top then l else l - 1) - 52
          in if 0 \<le> e then (round_even p (q * 2 ^ nat e) * 2 ^ nat e, 1)
             else (round_even (p * 2 ^ nat (- e)) q, 2 ^ nat (- e)))"

subsection \<open>Doubles\<close>

datatype double = Not_A_Number | Infinite bool | Ratio int int

text \<open>\<open>math.Float64frombits\<close>: sign, 11 bits of exponent, 52 of mantissa.\<close>

definition double_of :: "64 word \<Rightarrow> double" where
  "double_of w =
     (let neg = bit w 63; e = uint (drop_bit 52 w AND mask 11); m = uint (w AND mask 52)
      in if e = 2047 then (if m = 0 then Infinite neg else Not_A_Number)
         else let k = (if e = 0 then m else m + 2 ^ 52) * (if neg then - 1 else 1);
                  s = max e 1 - 1075
              in if 0 \<le> s then Ratio (k * 2 ^ nat s) 1 else Ratio k (2 ^ nat (- s)))"

text \<open>A fraction of any sign rounded to a \<open>float64\<close>, and so a constant of the source.\<close>

definition round_ratio :: "int \<Rightarrow> int \<Rightarrow> double" where
  "round_ratio p q = (case float64 (\<bar>p\<bar>, q) of (a, b) \<Rightarrow> Ratio (sgn p * a) b)"

definition of_int_double :: "int \<Rightarrow> double" where
  "of_int_double n = round_ratio n 1"

fun double_neg :: "double \<Rightarrow> double" where
  "double_neg Not_A_Number = Not_A_Number"
| "double_neg (Infinite s) = Infinite (\<not> s)"
| "double_neg (Ratio p q) = Ratio (- p) q"

fun double_add :: "double \<Rightarrow> double \<Rightarrow> double" where
  "double_add (Ratio p q) (Ratio p' q') = round_ratio (p * q' + p' * q) (q * q')"
| "double_add (Infinite s) (Infinite t) = (if s = t then Infinite s else Not_A_Number)"
| "double_add (Infinite s) (Ratio _ _) = Infinite s"
| "double_add (Ratio _ _) (Infinite s) = Infinite s"
| "double_add _ _ = Not_A_Number"

definition double_sub :: "double \<Rightarrow> double \<Rightarrow> double" where
  "double_sub a b = double_add a (double_neg b)"

fun double_abs :: "double \<Rightarrow> double" where
  "double_abs (Infinite _) = Infinite False"
| "double_abs (Ratio p q) = Ratio \<bar>p\<bar> q"
| "double_abs Not_A_Number = Not_A_Number"

text \<open>\<open>a < b\<close>, false when either is NaN. \<open>Infinite True\<close> is minus infinity.\<close>

fun double_less :: "double \<Rightarrow> double \<Rightarrow> bool" where
  "double_less (Ratio p q) (Ratio p' q') = (p * q' < p' * q)"
| "double_less (Infinite s) (Infinite t) = (s \<and> \<not> t)"
| "double_less (Infinite s) (Ratio _ _) = s"
| "double_less (Ratio _ _) (Infinite s) = (\<not> s)"
| "double_less _ _ = False"

definition is_nan :: "double \<Rightarrow> bool" where
  "is_nan a \<longleftrightarrow> a = Not_A_Number"

text \<open>
  \<open>int(math.Floor(a))\<close>; \<open>None\<close> where the conversion is not defined by the language, which on the
  platforms Playkeeper is built for gives a number far from any block.
\<close>

fun int_floor :: "double \<Rightarrow> int option" where
  "int_floor (Ratio p q) = (let n = p div q in if - (2 ^ 63) \<le> n \<and> n < 2 ^ 63 then Some n else None)"
| "int_floor _ = None"

end
