(* ===== verification/Retention_Text.thy ===== *)
theory Retention_Text
  imports Go_Dates Go_Float
begin

section \<open>Retention rules and their texts (internal/backup/retention/text.go)\<close>

text \<open>
  The backups, rules and settings of package retention with every text that explains a decision:
  its stable code, its parameters (a map, here a list of keys and values) and its English. Times
  are formatted in the user's zone. \<open>human_bytes\<close> prints a quotient of two \<open>float64\<close> numbers with one
  decimal, so the conversion, the division and the printing round as \<open>Go_Float\<close> writes out.
\<close>

subsection \<open>Data\<close>

datatype site = On_Host | Off_Site

record rules =
  ru_keep_all :: bool
  ru_hours :: int
  ru_last :: int
  ru_daily :: int
  ru_weekly :: int
  ru_monthly :: int

record retention_settings =
  rs_on_host :: rules
  rs_off_site :: rules
  rs_include_manual :: bool
  rs_delete_only_copies :: bool

record backup =
  b_id :: string
  b_kind :: string
  b_created_at :: gotime
  b_size_bytes :: int
  b_minecraft_version :: string
  b_level_name :: string
  b_verified :: "bool option"
  b_on_host :: bool
  b_off_site :: bool
  b_downloaded :: bool
  b_pinned :: bool
  b_needed_by :: string

record rtext =
  tx_code :: string
  tx_params :: "(string \<times> string) list"
  tx_text :: string

record period =
  pe_key :: string
  pe_first :: gotime
  pe_newest :: backup
  pe_kept :: backup

datatype only_kind = Before_Restore | Last_On_Version | Last_Of_World

record only_copy =
  oc_what :: only_kind
  oc_value :: string
  oc_newer :: string

definition where_str :: "site \<Rightarrow> string" where
  "where_str w = (case w of On_Host \<Rightarrow> ''on-host'' | Off_Site \<Rightarrow> ''off-site'')"

definition only_kind_str :: "only_kind \<Rightarrow> string" where
  "only_kind_str k = (case k of Before_Restore \<Rightarrow> ''before_restore'' | Last_On_Version \<Rightarrow> ''last_on_version''
     | Last_Of_World \<Rightarrow> ''last_of_world'')"

definition format_bool :: "bool \<Rightarrow> string" where
  "format_bool b = (if b then ''true'' else ''false'')"

subsection \<open>Phrases\<close>

definition place :: "site \<Rightarrow> string" where
  "place w = (if w = Off_Site then ''off the server'' else ''on this machine'')"

definition is_rule :: "string \<Rightarrow> bool" where
  "is_rule c \<longleftrightarrow> c \<in> {''keep_all'', ''hours'', ''last'', ''daily'', ''weekly'', ''monthly''}"

definition plural_of :: "int \<Rightarrow> string \<Rightarrow> string \<Rightarrow> string" where
  "plural_of n one many = (if n = 1 then one else many)"

definition hours_span :: "int \<Rightarrow> string" where
  "hours_span n = (if n = 1 then ''hour'' else if n mod 24 = 0 \<and> 24 < n then itoa (n div 24) @ '' days''
     else itoa n @ '' hours'')"

definition hours_phrase :: "int \<Rightarrow> string" where
  "hours_phrase n = ''every backup from the last '' @ hours_span n"

definition last_phrase :: "int \<Rightarrow> string" where
  "last_phrase n = (if n = 1 then ''the newest'' else ''the newest '' @ itoa n)"

definition daily_phrase :: "int \<Rightarrow> string" where
  "daily_phrase n = ''one a day for '' @ itoa n @ '' '' @ plural_of n ''day'' ''days''"

definition weekly_phrase :: "int \<Rightarrow> string" where
  "weekly_phrase n = (if n = 52 then ''one a week for a year''
     else if n mod 52 = 0 then ''one a week for '' @ itoa (n div 52) @ '' years''
     else ''one a week for '' @ itoa n @ '' '' @ plural_of n ''week'' ''weeks'')"

definition monthly_phrase :: "int \<Rightarrow> string" where
  "monthly_phrase n = (if n = 12 then ''one a month for a year''
     else if n mod 12 = 0 then ''one a month for '' @ itoa (n div 12) @ '' years''
     else ''one a month for '' @ itoa n @ '' '' @ plural_of n ''month'' ''months'')"

definition join_parts :: "string list \<Rightarrow> string" where
  "join_parts parts = (if length parts = 0 then [] else if length parts = 1 then parts ! 0
     else join '', '' (take (length parts - 1) parts) @ '' and '' @ parts ! (length parts - 1))"

definition rules_phrase :: "rules \<Rightarrow> string" where
  "rules_phrase r =
     (if ru_keep_all r then ''every backup''
      else join_parts ((if 0 < ru_hours r then [hours_phrase (ru_hours r)] else [])
        @ (if 0 < ru_last r then [last_phrase (ru_last r)] else [])
        @ (if 0 < ru_daily r then [daily_phrase (ru_daily r)] else [])
        @ (if 0 < ru_weekly r then [weekly_phrase (ru_weekly r)] else [])
        @ (if 0 < ru_monthly r then [monthly_phrase (ru_monthly r)] else [])))"

definition rules_keeps :: "rules \<Rightarrow> string" where
  "rules_keeps r = (if rules_phrase r \<noteq> [] then rules_phrase r else ''only the backups that are always kept'')"

definition rules_params :: "rules \<Rightarrow> site \<Rightarrow> (string \<times> string) list" where
  "rules_params r w = [(''where'', where_str w), (''keepAll'', format_bool (ru_keep_all r)), (''hours'', itoa (ru_hours r)),
     (''last'', itoa (ru_last r)), (''daily'', itoa (ru_daily r)), (''weekly'', itoa (ru_weekly r)), (''monthly'', itoa (ru_monthly r))]"

subsection \<open>Reasons\<close>

definition pinned_text :: rtext where
  "pinned_text = \<lparr>tx_code = ''pinned'', tx_params = [], tx_text = ''Pinned: the rules never delete it.''\<rparr>"

definition needed_text :: "string \<Rightarrow> rtext" where
  "needed_text by' = (let what = (if by' = ''restore'' then ''A restore'' else if by' = ''update'' then ''An update'' else ''A restore or update'')
     in \<lparr>tx_code = ''needed'', tx_params = [(''by'', by')],
         tx_text = what @ '' that hasn't finished may still need it to undo its changes.''\<rparr>)"

definition keep_all_text :: "site \<Rightarrow> rtext" where
  "keep_all_text w = \<lparr>tx_code = ''keep_all'', tx_params = [(''where'', where_str w)],
     tx_text = ''The rules keep every backup '' @ place w @ ''.''\<rparr>"

definition hours_text :: "int \<Rightarrow> int \<Rightarrow> rtext" where
  "hours_text n rank = (let s = (if rank = 1 then ''The newest backup'' else ''Made in the '' @ hours_span n @ '' up to the newest backup'')
     in \<lparr>tx_code = ''hours'', tx_params = [(''n'', itoa n), (''rank'', itoa rank)], tx_text = s @ '' ('' @ hours_phrase n @ '').''\<rparr>)"

definition latest_text :: rtext where
  "latest_text = \<lparr>tx_code = ''latest'', tx_params = [], tx_text = ''The newest backup is always kept.''\<rparr>"

definition last_text :: "int \<Rightarrow> int \<Rightarrow> rtext" where
  "last_text n rank = \<lparr>tx_code = ''last'', tx_params = [(''n'', itoa n), (''rank'', itoa rank)],
     tx_text = (if n = 1 then ''The newest backup.'' else ''One of the newest '' @ itoa n @ '' backups.'')\<rparr>"

definition day_name :: "zone \<Rightarrow> period \<Rightarrow> string" where
  "day_name z p = format_long (wall_day z (pe_first p))"

definition week_name :: "zone \<Rightarrow> period \<Rightarrow> string" where
  "week_name z p = ''the week starting '' @ format_long (wall_day z (pe_first p))"

definition month_name :: "zone \<Rightarrow> period \<Rightarrow> string" where
  "month_name z p = format_month_year (wall_day z (pe_first p))"

definition period_text :: "zone \<Rightarrow> string \<Rightarrow> string \<Rightarrow> period \<Rightarrow> int \<Rightarrow> string \<Rightarrow> rtext" where
  "period_text z c of' p n phrase =
     (let checked = (b_id (pe_kept p) \<noteq> b_id (pe_newest p));
          s = ''The newest backup of '' @ of' @ (if checked then '' that passed its check'' else []);
          params = [(''n'', itoa n), (''checked'', format_bool checked)]
            @ (if c = ''daily'' then [(''date'', pe_key p)]
               else if c = ''weekly'' then [(''week'', pe_key p), (''weekStart'', format_date (wall_day z (pe_first p)))]
               else if c = ''monthly'' then [(''month'', pe_key p)] else [])
      in \<lparr>tx_code = c, tx_params = params, tx_text = s @ '' ('' @ phrase @ '').''\<rparr>)"

definition daily_text :: "zone \<Rightarrow> period \<Rightarrow> int \<Rightarrow> rtext" where
  "daily_text z p n = period_text z ''daily'' (day_name z p) p n (daily_phrase n)"

definition weekly_text :: "zone \<Rightarrow> period \<Rightarrow> int \<Rightarrow> rtext" where
  "weekly_text z p n = period_text z ''weekly'' (week_name z p) p n (weekly_phrase n)"

definition monthly_text :: "zone \<Rightarrow> period \<Rightarrow> int \<Rightarrow> rtext" where
  "monthly_text z p n = period_text z ''monthly'' (month_name z p) p n (monthly_phrase n)"

definition newest_text :: "site \<Rightarrow> rtext" where
  "newest_text w = \<lparr>tx_code = ''newest'', tx_params = [(''where'', where_str w)],
     tx_text = (if w = Off_Site then ''The newest copy off the server is always kept.''
       else ''The newest backup that passed its check is always kept.'')\<rparr>"

definition manual_text :: rtext where
  "manual_text = \<lparr>tx_code = ''manual'', tx_params = [],
     tx_text = ''Made by hand: the rules only delete backups made automatically.''\<rparr>"

definition oc_params :: "only_copy \<Rightarrow> site \<Rightarrow> (string \<times> string) list" where
  "oc_params oc w = [(''what'', only_kind_str (oc_what oc)), (''where'', where_str w)]
     @ (if oc_what oc \<noteq> Before_Restore then [(''value'', oc_value oc), (''newer'', oc_newer oc)] else [])"

definition oc_sentence :: "only_copy \<Rightarrow> string" where
  "oc_sentence oc = (case oc_what oc of
      Last_On_Version \<Rightarrow> ''It is the last backup of your world on Minecraft '' @ oc_value oc @ '' (newer backups are on '' @ oc_newer oc @ '')''
    | Last_Of_World \<Rightarrow> ''It is the last backup of the world '' @ [CHR 0x22] @ oc_value oc @ [CHR 0x22] @ '' (newer backups are of ''
        @ [CHR 0x22] @ oc_newer oc @ [CHR 0x22] @ '')''
    | Before_Restore \<Rightarrow> ''It holds the world as it was before a restore replaced it'')"

definition only_copy_text :: "only_copy \<Rightarrow> site \<Rightarrow> rtext" where
  "only_copy_text oc w = \<lparr>tx_code = ''only_copy'', tx_params = oc_params oc w,
     tx_text = oc_sentence oc @ (if w = Off_Site
       then '', and this is its only copy: it isn't kept on this machine and hasn't been downloaded. Download it to let the rules delete it off the server.''
       else '', and it hasn't been downloaded or copied off the server. Download it or copy it off the server to let the rules delete it here.'')\<rparr>"

definition only_copy_allowed_text :: "only_copy \<Rightarrow> site \<Rightarrow> rtext" where
  "only_copy_allowed_text oc w = \<lparr>tx_code = ''only_copy_allowed'', tx_params = oc_params oc w,
     tx_text = oc_sentence oc @ '', and no other copy of it exists, but your rules allow deleting backups like this.''\<rparr>"

definition failed_newest_text :: rtext where
  "failed_newest_text = \<lparr>tx_code = ''failed_newest'', tx_params = [],
     tx_text = ''Its check failed, but no newer backup passed its check, so it is kept for now.''\<rparr>"

definition failed_text :: rtext where
  "failed_text = \<lparr>tx_code = ''failed_check'', tx_params = [],
     tx_text = ''Its check failed, so it can't be restored, and a newer backup passed its check.''\<rparr>"

definition same_text :: "zone \<Rightarrow> string \<Rightarrow> period \<Rightarrow> int \<Rightarrow> rtext" where
  "same_text z c p n =
     (case (if c = ''same_day'' then (day_name z p, daily_phrase n, [(''date'', pe_key p)])
            else if c = ''same_week'' then (week_name z p, weekly_phrase n,
                   [(''week'', pe_key p), (''weekStart'', format_date (wall_day z (pe_first p)))])
            else (month_name z p, monthly_phrase n, [(''month'', pe_key p)])) of
        (of', phrase, params) \<Rightarrow>
          \<lparr>tx_code = c, tx_params = [(''kept'', b_id (pe_kept p)), (''n'', itoa n)] @ params,
           tx_text = ''Another backup from '' @ of' @ '' is kept ('' @ phrase @ '').''\<rparr>)"

definition beyond_text :: "rules \<Rightarrow> site \<Rightarrow> rtext" where
  "beyond_text r w = \<lparr>tx_code = ''beyond_rules'', tx_params = rules_params r w,
     tx_text = ''Older than what the rules keep '' @ place w @ '': '' @ rules_keeps r @ ''.''\<rparr>"

definition no_copy_left_text :: "backup \<Rightarrow> site \<Rightarrow> rtext" where
  "no_copy_left_text b w =
     (case (if w = On_Host \<and> b_off_site b
              then (''Its copy off the server is deleted too, and it hasn't been downloaded, so no copy of it will be left.'', True)
            else if w = On_Host
              then (''It hasn't been downloaded or copied off the server, so no copy of it will be left.'', False)
            else if b_on_host b
              then (''Its copy on this machine is deleted too, and it hasn't been downloaded, so no copy of it will be left.'', True)
            else (''It is no longer on this machine and hasn't been downloaded, so no copy of it will be left.'', False)) of
        (s, other) \<Rightarrow> \<lparr>tx_code = ''no_copy_left'', tx_params = [(''where'', where_str w), (''otherDeleted'', format_bool other)], tx_text = s\<rparr>)"

definition describe_rules :: "rules \<Rightarrow> site \<Rightarrow> rtext" where
  "describe_rules r w = \<lparr>tx_code = ''rules'', tx_params = rules_params r w,
     tx_text = ''Keeps '' @ rules_keeps r @ '' '' @ place w @ ''.''\<rparr>"


subsection \<open>Sizes\<close>

text \<open>\<open>fmt.Sprintf("%.1f", float64(n)/float64(unit))\<close>.\<close>

definition one_decimal :: "int \<Rightarrow> int \<Rightarrow> string" where
  "one_decimal n unit = (case float64 (n, 1) of (p, q) \<Rightarrow> case float64 (p, q * unit) of (p, q) \<Rightarrow>
     let t = round_even (10 * p) q in itoa (t div 10) @ ''.'' @ itoa (t mod 10))"

text \<open>The divisions are those of a number not below zero, where Go's truncation and \<open>div\<close> agree: below zero
  every case but the last is refused either way.\<close>

definition human_bytes :: "int \<Rightarrow> string" where
  "human_bytes n =
     (let k = 1000; m = 1000000; g = 1000000000; t = 1000000000000
      in if t \<le> n \<or> 10 * k \<le> (n + g div 20) div (g div 10) then one_decimal n t @ '' TB''
         else if g \<le> n \<or> k \<le> (n + m div 2) div m then one_decimal n g @ '' GB''
         else if m \<le> n \<or> k \<le> (n + k div 2) div k then itoa ((n + m div 2) div m) @ '' MB''
         else if k \<le> n then itoa ((n + k div 2) div k) @ '' kB''
         else itoa n @ '' B'')"

end
