(* ===== verification/Retention.thy ===== *)
theory Retention
  imports Retention_Text
begin

section \<open>Which backups the rules keep (internal/backup/retention/retention.go)\<close>

text \<open>
  \<open>Decide\<close>: for the backups of one server, what is kept and what is deleted on this machine and off
  the server. The reasons of a backup are a map from its id. The main theorems are what is never
  deleted, that the only copy of an earlier world survives in one of the two places unless the
  settings allow otherwise, and what the rules keep. Sizes are added up in \<open>int\<close>.
\<close>

subsection \<open>Definitions\<close>

definition kind_manual :: string where "kind_manual = ''manual''"
definition kind_before_restore :: string where "kind_before_restore = ''before-restore''"
definition kind_rollback :: string where "kind_rollback = ''rollback''"

definition max_hours :: int where "max_hours = 720"
definition max_last :: int where "max_last = 1000"
definition max_daily :: int where "max_daily = 3660"
definition max_weekly :: int where "max_weekly = 520"
definition max_monthly :: int where "max_monthly = 240"

definition default_settings :: retention_settings where
  "default_settings =
     \<lparr>rs_on_host = \<lparr>ru_keep_all = False, ru_hours = 24, ru_last = 0, ru_daily = 7, ru_weekly = 4, ru_monthly = 0\<rparr>,
      rs_off_site = \<lparr>ru_keep_all = False, ru_hours = 0, ru_last = 0, ru_daily = 14, ru_weekly = 8, ru_monthly = 12\<rparr>,
      rs_include_manual = False, rs_delete_only_copies = False\<rparr>"

definition rules_for :: "retention_settings \<Rightarrow> site \<Rightarrow> rules" where
  "rules_for s w =
     (let r = (if w = Off_Site then rs_off_site s else rs_on_host s)
      in r\<lparr>ru_hours := min (max (ru_hours r) 0) max_hours, ru_last := min (max (ru_last r) 0) max_last,
          ru_daily := min (max (ru_daily r) 0) max_daily, ru_weekly := min (max (ru_weekly r) 0) max_weekly,
          ru_monthly := min (max (ru_monthly r) 0) max_monthly\<rparr>)"

record backup_decision =
  bd_id :: string
  bd_keep :: bool
  bd_reasons :: "rtext list"
  bd_only_copy :: bool

record place_plan =
  pp_where :: site
  pp_decisions :: "backup_decision list"
  pp_keep :: int
  pp_delete :: int
  pp_keep_bytes :: int
  pp_delete_bytes :: int
  pp_summary :: rtext

definition delete_ids :: "place_plan \<Rightarrow> string list" where
  "delete_ids p = map bd_id (filter (\<lambda>d. \<not> bd_keep d) (pp_decisions p))"

datatype check_state = Unchecked | Check_Passed | Check_Failed

definition backup_check :: "backup \<Rightarrow> site \<Rightarrow> check_state" where
  "backup_check b w =
     (if w = Off_Site \<or> b_verified b = Some True then Check_Passed
      else if b_verified b = None then Unchecked else Check_Failed)"

definition in_place :: "backup \<Rightarrow> site \<Rightarrow> bool" where
  "in_place b w = (if w = Off_Site then b_off_site b else b_on_host b)"

definition good :: "backup \<Rightarrow> bool" where
  "good b \<longleftrightarrow> b_off_site b \<or> b_on_host b \<and> backup_check b On_Host = Check_Passed"

definition same :: "string \<Rightarrow> string \<Rightarrow> bool" where
  "same a b \<longleftrightarrow> a = [] \<or> b = [] \<or> a = b"

definition same_lineage :: "backup \<Rightarrow> backup \<Rightarrow> bool" where
  "same_lineage a b \<longleftrightarrow> same (b_level_name a) (b_level_name b) \<and> same (b_minecraft_version a) (b_minecraft_version b)"

text \<open>The second loop of \<open>onlyCopies\<close>, with the lineages seen.\<close>

fun lineage_loop :: "backup list \<Rightarrow> backup list \<Rightarrow> (string \<Rightarrow> only_copy option) \<Rightarrow> string \<Rightarrow> only_copy option" where
  "lineage_loop [] seen m = m"
| "lineage_loop (b # bs) seen m =
     (if \<not> good b \<or> list_ex (\<lambda>s. same_lineage s b) seen then lineage_loop bs seen m
      else let seen = seen @ [b]
           in if length seen = 1 then lineage_loop bs seen m
              else if m (b_id b) \<noteq> None then lineage_loop bs seen m
              else let cur = seen ! 0
                   in if \<not> same (b_level_name b) (b_level_name cur)
                      then lineage_loop bs seen (m(b_id b \<mapsto> \<lparr>oc_what = Last_Of_World, oc_value = b_level_name b, oc_newer = b_level_name cur\<rparr>))
                      else lineage_loop bs seen (m(b_id b \<mapsto> \<lparr>oc_what = Last_On_Version, oc_value = b_minecraft_version b,
                                                         oc_newer = b_minecraft_version cur\<rparr>)))"

definition only_copies :: "backup list \<Rightarrow> string \<Rightarrow> only_copy option" where
  "only_copies all =
     lineage_loop all [] (foldl (\<lambda>m b. if b_kind b = kind_before_restore \<or> b_kind b = kind_rollback
        then m(b_id b \<mapsto> \<lparr>oc_what = Before_Restore, oc_value = [], oc_newer = []\<rparr>) else m) Map.empty all)"

text \<open>A period of a time: its key and its first day.\<close>

type_synonym periodic = "gotime \<Rightarrow> string \<times> gotime"

text \<open>\<open>time.Date(y, m, d, 12, 0, 0, 0, loc)\<close> of the day with a number.\<close>

definition noon_of :: "zone \<Rightarrow> int \<Rightarrow> gotime" where
  "noon_of z n = date_in z (n * 86400 + 43200) * second"

definition iso_week_key :: "int \<Rightarrow> int \<Rightarrow> string" where
  "iso_week_key y w = zero_padded 4 y @ ''-W'' @ zero_padded 2 w"

definition day_of :: "zone \<Rightarrow> periodic" where
  "day_of z t = (let n = wall_day z t in (format_date n, noon_of z n))"

definition week_of :: "zone \<Rightarrow> periodic" where
  "week_of z t = (let n = wall_day z t; back = (weekday n + 6) mod 7
     in (case iso_week n of (iy, iw) \<Rightarrow> iso_week_key iy iw, noon_of z (n - back)))"

definition month_of :: "zone \<Rightarrow> periodic" where
  "month_of z t = (let n = wall_day z t
     in case date_of_day n of (y, m, _) \<Rightarrow> (format_month n, noon_of z (day_number y m 1)))"

fun periods_loop :: "backup list \<Rightarrow> int \<Rightarrow> site \<Rightarrow> periodic \<Rightarrow> period list \<Rightarrow> period list" where
  "periods_loop [] n w of' out = out"
| "periods_loop (b # bs) n w of' out =
     (case of' (b_created_at b) of (key, first) \<Rightarrow>
        if out \<noteq> [] \<and> pe_key (last out) = key
        then periods_loop bs n w of'
               (if backup_check (pe_kept (last out)) w \<noteq> Check_Passed \<and> backup_check b w = Check_Passed
                then butlast out @ [(last out)\<lparr>pe_kept := b\<rparr>] else out)
        else if int (length out) = n then out
        else periods_loop bs n w of' (out @ [\<lparr>pe_key = key, pe_first = first, pe_newest = b, pe_kept = b\<rparr>]))"

definition periods :: "backup list \<Rightarrow> int \<Rightarrow> site \<Rightarrow> periodic \<Rightarrow> period list" where
  "periods ruled n w of' = periods_loop ruled n w of' []"

type_synonym reasons = "string \<Rightarrow> rtext list"

definition add_reason :: "reasons \<Rightarrow> backup \<Rightarrow> rtext \<Rightarrow> reasons" where
  "add_reason r b t = r(b_id b := r (b_id b) @ [t])"

definition is_manual :: "retention_settings \<Rightarrow> backup \<Rightarrow> bool" where
  "is_manual s b \<longleftrightarrow> \<not> rs_include_manual s \<and> b_kind b = kind_manual"

text \<open>The loop of the hours rule with its break, and that of the last rule.\<close>

fun hours_loop :: "gotime \<Rightarrow> int \<Rightarrow> int \<Rightarrow> backup list \<Rightarrow> reasons \<Rightarrow> reasons" where
  "hours_loop since n i [] r = r"
| "hours_loop since n i (b # bs) r =
     (if \<not> since < b_created_at b then r else hours_loop since n (i + 1) bs (add_reason r b (hours_text n (i + 1))))"

fun last_loop :: "int \<Rightarrow> int \<Rightarrow> backup list \<Rightarrow> reasons \<Rightarrow> reasons" where
  "last_loop n i [] r = r"
| "last_loop n i (b # bs) r = last_loop n (i + 1) bs (add_reason r b (last_text n (i + 1)))"

text \<open>The same code or period of a backup that is deleted.\<close>

definition delete_text :: "zone \<Rightarrow> backup \<Rightarrow> site \<Rightarrow> rules \<Rightarrow> period list \<Rightarrow> period list \<Rightarrow> period list \<Rightarrow> rtext" where
  "delete_text z b w r days weeks months =
     (if backup_check b w = Check_Failed then failed_text
      else let hit = (\<lambda>(c, ps, of', n). map_option (\<lambda>p. same_text z c p n) (find (\<lambda>p. pe_key p = fst (of' (b_created_at b))) ps));
               hits = List.map_filter hit [(''same_day'', days, day_of z, ru_daily r), (''same_week'', weeks, week_of z, ru_weekly r),
                        (''same_month'', months, month_of z, ru_monthly r)]
           in case hits of t # _ \<Rightarrow> t | [] \<Rightarrow> beyond_text r w)"

text \<open>The rules proper: the reasons they give and the periods they keep.\<close>

definition rule_reasons :: "zone \<Rightarrow> rules \<Rightarrow> site \<Rightarrow> backup list \<Rightarrow> backup list \<Rightarrow> reasons
    \<Rightarrow> reasons \<times> period list \<times> period list \<times> period list" where
  "rule_reasons z r w here ruled rs =
     (if ru_keep_all r then (foldl (\<lambda>rs b. add_reason rs b (keep_all_text w)) rs here, [], [], [])
      else
        let rs = (if 0 < ru_hours r \<and> 0 < length ruled
                  then hours_loop (b_created_at (ruled ! 0) - ru_hours r * hour) (ru_hours r) 0 ruled rs else rs);
            rs = last_loop (ru_last r) 0 (take (nat (min (ru_last r) (int (length ruled)))) ruled) rs;
            days = periods ruled (ru_daily r) w (day_of z);
            rs = foldl (\<lambda>rs p. add_reason rs (pe_kept p) (daily_text z p (ru_daily r))) rs days;
            weeks = periods ruled (ru_weekly r) w (week_of z);
            rs = foldl (\<lambda>rs p. add_reason rs (pe_kept p) (weekly_text z p (ru_weekly r))) rs weeks;
            months = periods ruled (ru_monthly r) w (month_of z);
            rs = foldl (\<lambda>rs p. add_reason rs (pe_kept p) (monthly_text z p (ru_monthly r))) rs months
        in (rs, days, weeks, months))"

fun index_where :: "('a \<Rightarrow> bool) \<Rightarrow> 'a list \<Rightarrow> nat \<Rightarrow> nat option" where
  "index_where P [] i = None"
| "index_where P (x # xs) i = (if P x then Some i else index_where P xs (i + 1))"

text \<open>The reasons that come after the rules: newest, made by hand, only copy, failed check.\<close>

definition always_reasons :: "retention_settings \<Rightarrow> site \<Rightarrow> (string \<Rightarrow> only_copy option) \<Rightarrow> (backup \<Rightarrow> bool)
    \<Rightarrow> backup list \<Rightarrow> backup list \<Rightarrow> reasons \<Rightarrow> reasons" where
  "always_reasons s w only other_copy here ruled rs =
     (let rs = (if 0 < length ruled \<and> length (rs (b_id (ruled ! 0))) = 0 then add_reason rs (ruled ! 0) latest_text else rs);
          rs = foldl (\<lambda>rs b. if is_manual s b then add_reason rs b manual_text else rs) rs here;
          newest = index_where (\<lambda>b. backup_check b w = Check_Passed) here 0;
          rs = (case newest of Some i \<Rightarrow> add_reason rs (here ! i) (newest_text w) | None \<Rightarrow> rs);
          rs = foldl (\<lambda>rs b. case only (b_id b) of
                 Some oc \<Rightarrow> if \<not> other_copy b \<and> \<not> rs_delete_only_copies s then add_reason rs b (only_copy_text oc w) else rs
               | None \<Rightarrow> rs) rs here
      in foldl (\<lambda>rs (i, b). if backup_check b w = Check_Failed \<and> length (rs (b_id b)) = 0
               \<and> (case newest of None \<Rightarrow> True | Some j \<Rightarrow> i < j) then add_reason rs b failed_newest_text else rs)
           rs (enumerate 0 here))"

definition pin_reasons :: "site \<Rightarrow> backup list \<Rightarrow> reasons" where
  "pin_reasons w here = foldl (\<lambda>rs b.
     let rs = (if b_pinned b then add_reason rs b pinned_text else rs)
     in if w = On_Host \<and> b_needed_by b \<noteq> [] then add_reason rs b (needed_text (b_needed_by b)) else rs) (\<lambda>_. []) here"

definition decision_for :: "zone \<Rightarrow> site \<Rightarrow> rules \<Rightarrow> (string \<Rightarrow> only_copy option) \<Rightarrow> (backup \<Rightarrow> bool) \<Rightarrow> reasons
    \<Rightarrow> period list \<Rightarrow> period list \<Rightarrow> period list \<Rightarrow> backup \<Rightarrow> backup_decision" where
  "decision_for z w r only other_copy rs days weeks months b =
     (let keep = 0 < length (rs (b_id b))
      in \<lparr>bd_id = b_id b, bd_keep = keep,
          bd_reasons = (if keep then rs (b_id b)
            else [delete_text z b w r days weeks months]
              @ (case only (b_id b) of Some oc \<Rightarrow> if \<not> other_copy b then [only_copy_allowed_text oc w] else [] | None \<Rightarrow> [])),
          bd_only_copy = False\<rparr>)"

definition plan_place :: "backup list \<Rightarrow> retention_settings \<Rightarrow> zone \<Rightarrow> site \<Rightarrow> (string \<Rightarrow> only_copy option)
    \<Rightarrow> (backup \<Rightarrow> bool) \<Rightarrow> place_plan" where
  "plan_place all s z w only other_copy =
     (let r = rules_for s w;
          here = filter (\<lambda>b. in_place b w) all;
          ruled = filter (\<lambda>b. backup_check b w \<noteq> Check_Failed \<and> \<not> is_manual s b) here
      in case rule_reasons z r w here ruled (pin_reasons w here) of (rs, days, weeks, months) \<Rightarrow>
           let rs = always_reasons s w only other_copy here ruled rs
           in \<lparr>pp_where = w, pp_decisions = map (decision_for z w r only other_copy rs days weeks months) here,
               pp_keep = 0, pp_delete = 0, pp_keep_bytes = 0, pp_delete_bytes = 0,
               pp_summary = \<lparr>tx_code = [], tx_params = [], tx_text = []\<rparr>\<rparr>)"

definition kept_ids :: "place_plan \<Rightarrow> string set" where
  "kept_ids p = set (map bd_id (filter bd_keep (pp_decisions p)))"

text \<open>One turn of the loop of \<open>finish\<close> over the decisions.\<close>

definition finish_one :: "(string \<Rightarrow> backup) \<Rightarrow> (backup \<Rightarrow> bool) \<Rightarrow> site \<Rightarrow> backup_decision \<Rightarrow> backup_decision" where
  "finish_one by_id other_copy w d =
     (let b = by_id (bd_id d); d = d\<lparr>bd_only_copy := \<not> other_copy b\<rparr>
      in if bd_keep d then d
         else if bd_only_copy d \<and> \<not> list_ex (\<lambda>t. tx_code t = ''only_copy_allowed'') (bd_reasons d)
              then d\<lparr>bd_reasons := bd_reasons d @ [no_copy_left_text b w]\<rparr> else d)"

definition count_decision :: "(string \<Rightarrow> backup) \<Rightarrow> place_plan \<Rightarrow> backup_decision \<Rightarrow> place_plan" where
  "count_decision by_id p d =
     (if bd_keep d then p\<lparr>pp_keep := pp_keep p + 1, pp_keep_bytes := pp_keep_bytes p + b_size_bytes (by_id (bd_id d))\<rparr>
      else p\<lparr>pp_delete := pp_delete p + 1, pp_delete_bytes := pp_delete_bytes p + b_size_bytes (by_id (bd_id d))\<rparr>)"

text \<open>The sentence of a plan; \<open>extra\<close> counts the kept backups by the reason that is not a rule.\<close>

definition plus_part :: "(string \<Rightarrow> int) \<Rightarrow> string \<Rightarrow> string \<Rightarrow> string \<Rightarrow> string list" where
  "plus_part extra c one many = (let n = extra c in if n = 1 then [one] else if 1 < n then [many] else [])"

definition plus_codes :: "string list" where
  "plus_codes = [''pinned'', ''needed'', ''latest'', ''newest'', ''manual'', ''only_copy'', ''failed_newest'']"

definition plus_parts :: "(string \<Rightarrow> int) \<Rightarrow> site \<Rightarrow> string list" where
  "plus_parts extra w =
     (let newest = (if w = Off_Site then ''the newest copy'' else ''the newest that passed its check''); n = \<lambda>c. itoa (extra c)
      in plus_part extra ''pinned'' ''1 pinned'' (n ''pinned'' @ '' pinned'')
       @ plus_part extra ''needed'' ''1 a restore or update still needs'' (n ''needed'' @ '' a restore or update still needs'')
       @ plus_part extra ''latest'' ''the newest'' ''the newest''
       @ plus_part extra ''newest'' newest newest
       @ plus_part extra ''manual'' ''1 made by hand'' (n ''manual'' @ '' made by hand'')
       @ plus_part extra ''only_copy'' ''1 that is the only copy of an earlier world''
           (n ''only_copy'' @ '' that are the only copies of earlier worlds'')
       @ plus_part extra ''failed_newest'' ''1 whose check failed'' (n ''failed_newest'' @ '' whose checks failed''))"

definition summary_params :: "place_plan \<Rightarrow> rules \<Rightarrow> (string \<times> string) list" where
  "summary_params p r = rules_params r (pp_where p) @ [(''keep'', itoa (pp_keep p)), (''delete'', itoa (pp_delete p)),
     (''keepBytes'', itoa (pp_keep_bytes p)), (''deleteBytes'', itoa (pp_delete_bytes p))]"

definition summary_kept :: "place_plan \<Rightarrow> string" where
  "summary_kept p = itoa (pp_keep p) @ '' '' @ plural_of (pp_keep p) ''backup'' ''backups'' @ '' ('' @ human_bytes (pp_keep_bytes p)
     @ '') '' @ place (pp_where p)"

definition summary_text :: "place_plan \<Rightarrow> rules \<Rightarrow> (string \<Rightarrow> int) \<Rightarrow> rtext" where
  "summary_text p r extra =
     (if pp_decisions p = []
      then \<lparr>tx_code = ''summary_empty'', tx_params = summary_params p r,
             tx_text = (if pp_where p = Off_Site then ''No backups are copied off the server.'' else ''No backups are kept on this machine.'')\<rparr>
      else if ru_keep_all r
      then \<lparr>tx_code = ''summary'', tx_params = summary_params p r, tx_text = ''Keeps all '' @ summary_kept p @ ''.''\<rparr>
      else let plus = plus_parts extra (pp_where p); rules = rules_phrase r
           in \<lparr>tx_code = ''summary'', tx_params = summary_params p r @ map (\<lambda>c. (c, itoa (extra c))) plus_codes,
                tx_text = ''Keeps '' @ summary_kept p
                  @ (if rules \<noteq> [] \<and> 0 < length plus then '': '' @ rules @ '', plus '' @ join_parts plus
                     else if rules \<noteq> [] then '': '' @ rules
                     else if 0 < length plus then '': '' @ join_parts plus else [])
                  @ ''.''
                  @ (if pp_delete p = 0 then '' Deletes none.''
                     else '' Deletes '' @ itoa (pp_delete p) @ '' ('' @ human_bytes (pp_delete_bytes p) @ '').'')\<rparr>)"

definition extra_counts :: "backup_decision list \<Rightarrow> string \<Rightarrow> int" where
  "extra_counts ds = foldl (\<lambda>m d. if bd_keep d \<and> \<not> list_ex (\<lambda>t. is_rule (tx_code t)) (bd_reasons d)
     then m(tx_code (bd_reasons d ! 0) := m (tx_code (bd_reasons d ! 0)) + 1) else m) (\<lambda>_. 0) ds"

definition finish_plan :: "(string \<Rightarrow> backup) \<Rightarrow> rules \<Rightarrow> (backup \<Rightarrow> bool) \<Rightarrow> place_plan \<Rightarrow> place_plan" where
  "finish_plan by_id r other_copy p =
     (let q = (foldl (count_decision by_id) p (pp_decisions p))
               \<lparr>pp_decisions := map (finish_one by_id other_copy (pp_where p)) (pp_decisions p)\<rparr>
      in q\<lparr>pp_summary := summary_text q r (extra_counts (pp_decisions p))\<rparr>)"

definition newest_first :: "backup \<Rightarrow> backup \<Rightarrow> int" where
  "newest_first = cmp_or (\<lambda>a b. cmp_int (b_created_at b) (b_created_at a)) (\<lambda>a b. cmp_string (b_id b) (b_id a))"

definition backup_by_id :: "backup list \<Rightarrow> string \<Rightarrow> backup" where
  "backup_by_id all i = the (foldl (\<lambda>m b. m(b_id b \<mapsto> b)) Map.empty all i)"

definition decide :: "backup list \<Rightarrow> retention_settings \<Rightarrow> zone option \<Rightarrow> place_plan \<times> place_plan" where
  "decide backups s loc =
     (let z = (case loc of None \<Rightarrow> utc | Some z \<Rightarrow> z);
          all = stable_sort newest_first backups;
          only = only_copies all;
          host = plan_place all s z On_Host only (\<lambda>b. b_downloaded b \<or> b_off_site b);
          host_kept = kept_ids host;
          off = plan_place all s z Off_Site only (\<lambda>b. b_downloaded b \<or> b_on_host b \<and> b_id b \<in> host_kept);
          off_kept = kept_ids off;
          by_id = backup_by_id all
      in (finish_plan by_id (rules_for s On_Host) (\<lambda>b. b_downloaded b \<or> b_off_site b \<and> b_id b \<in> off_kept) host,
          finish_plan by_id (rules_for s Off_Site) (\<lambda>b. b_downloaded b \<or> b_on_host b \<and> b_id b \<in> host_kept) off))"

subsection \<open>Reasons only grow\<close>

definition has :: "reasons \<Rightarrow> backup \<Rightarrow> bool" where
  "has rs b \<longleftrightarrow> rs (b_id b) \<noteq> []"

text \<open>A step of the plan that only adds reasons.\<close>

definition adds :: "(reasons \<Rightarrow> reasons) \<Rightarrow> bool" where
  "adds f \<longleftrightarrow> (\<forall>rs b. has rs b \<longrightarrow> has (f rs) b)"

named_theorems adds_intros "steps that only add reasons"

lemma addsD: "adds f \<Longrightarrow> has rs b \<Longrightarrow> has (f rs) b"
  by (simp add: adds_def)

lemma has_add_reason [simp]: "has (add_reason rs b t) b"
  by (simp add: has_def add_reason_def)

lemma adds_id [adds_intros]: "adds (\<lambda>rs. rs)"
  by (simp add: adds_def)

lemma adds_reason [adds_intros]: "adds (\<lambda>rs. add_reason rs b t)"
  by (simp add: adds_def has_def add_reason_def)

lemma adds_if [adds_intros]: "adds f \<Longrightarrow> adds g \<Longrightarrow> adds (\<lambda>rs. if P rs then f rs else g rs)"
  by (simp add: adds_def)

lemma adds_option [adds_intros]: "adds f \<Longrightarrow> (\<And>x. adds (g x)) \<Longrightarrow> adds (\<lambda>rs. case z of None \<Rightarrow> f rs | Some x \<Rightarrow> g x rs)"
  by (cases z) simp_all

lemma adds_fold [adds_intros]: "(\<And>x. adds (\<lambda>rs. f rs x)) \<Longrightarrow> adds (\<lambda>rs. foldl f rs xs)"
proof -
  assume f: "\<And>x. adds (\<lambda>rs. f rs x)"
  have "has rs b \<Longrightarrow> has (foldl f rs xs) b" for rs b
    by (induction xs arbitrary: rs) (simp_all add: addsD [OF f])
  then show ?thesis by (simp add: adds_def)
qed

lemma has_fold:
  assumes "x \<in> set xs" and "\<And>rs. has (f rs x) b" and "\<And>x. adds (\<lambda>rs. f rs x)"
  shows "has (foldl f rs xs) b"
  using assms(1)
proof (induction xs arbitrary: rs)
  case (Cons y ys)
  show ?case
  proof (cases "x = y")
    case True
    have "adds (\<lambda>rs. foldl f rs ys)" by (rule adds_fold) (rule assms(3))
    then have "has (foldl f (f rs y) ys) b" by (rule addsD) (use True assms(2) in simp)
    then show ?thesis by simp
  next
    case False
    then show ?thesis using Cons by simp
  qed
qed simp

lemma adds_hours [adds_intros]: "adds (hours_loop since n i bs)"
  unfolding adds_def
proof (intro allI impI)
  fix rs b assume "has rs b"
  then show "has (hours_loop since n i bs rs) b"
    by (induction since n i bs rs rule: hours_loop.induct) (simp_all add: addsD [OF adds_reason])
qed

lemma adds_last [adds_intros]: "adds (last_loop n i bs)"
  unfolding adds_def
proof (intro allI impI)
  fix rs b assume "has rs b"
  then show "has (last_loop n i bs rs) b"
    by (induction n i bs rs rule: last_loop.induct) (simp_all add: addsD [OF adds_reason])
qed

lemma adds_rules: "adds (\<lambda>rs. fst (rule_reasons z r w here ruled rs))"
  unfolding adds_def rule_reasons_def Let_def
  by (auto intro!: addsD [OF adds_fold] addsD [OF adds_last] addsD [OF adds_hours] adds_intros)

text \<open>The steps of \<open>always_reasons\<close>.\<close>

definition step_latest :: "backup list \<Rightarrow> reasons \<Rightarrow> reasons" where
  "step_latest ruled rs = (if 0 < length ruled \<and> length (rs (b_id (ruled ! 0))) = 0 then add_reason rs (ruled ! 0) latest_text else rs)"

definition step_manual :: "retention_settings \<Rightarrow> backup list \<Rightarrow> reasons \<Rightarrow> reasons" where
  "step_manual s here rs = foldl (\<lambda>rs b. if is_manual s b then add_reason rs b manual_text else rs) rs here"

definition step_newest :: "site \<Rightarrow> backup list \<Rightarrow> reasons \<Rightarrow> reasons" where
  "step_newest w here rs = (case index_where (\<lambda>b. backup_check b w = Check_Passed) here 0 of
     Some i \<Rightarrow> add_reason rs (here ! i) (newest_text w) | None \<Rightarrow> rs)"

definition step_only :: "retention_settings \<Rightarrow> site \<Rightarrow> (string \<Rightarrow> only_copy option) \<Rightarrow> (backup \<Rightarrow> bool) \<Rightarrow> backup list \<Rightarrow> reasons \<Rightarrow> reasons" where
  "step_only s w only other_copy here rs = foldl (\<lambda>rs b. case only (b_id b) of
     Some oc \<Rightarrow> if \<not> other_copy b \<and> \<not> rs_delete_only_copies s then add_reason rs b (only_copy_text oc w) else rs
   | None \<Rightarrow> rs) rs here"

definition step_failed :: "site \<Rightarrow> backup list \<Rightarrow> reasons \<Rightarrow> reasons" where
  "step_failed w here rs = foldl (\<lambda>rs (i, b). if backup_check b w = Check_Failed \<and> length (rs (b_id b)) = 0
     \<and> (case index_where (\<lambda>b. backup_check b w = Check_Passed) here 0 of None \<Rightarrow> True | Some j \<Rightarrow> i < j)
     then add_reason rs b failed_newest_text else rs) rs (enumerate 0 here)"

lemma always_steps:
  "always_reasons s w only other_copy here ruled rs
     = step_failed w here (step_only s w only other_copy here (step_newest w here (step_manual s here (step_latest ruled rs))))"
  by (simp add: always_reasons_def step_latest_def step_manual_def step_newest_def step_only_def step_failed_def Let_def)

lemma adds_steps:
  "adds (step_latest ruled)" "adds (step_manual s here)" "adds (step_newest w here)" "adds (step_only s w only other_copy here)"
  "adds (step_failed w here)"
  unfolding step_latest_def step_manual_def step_newest_def step_only_def step_failed_def case_prod_unfold
  by (intro adds_intros)+

lemma adds_always: "adds (always_reasons s w only other_copy here ruled)"
  unfolding adds_def always_steps by (intro allI impI) (intro adds_steps [THEN addsD])

lemma all_less_Suc_split: "(\<forall>j < Suc n. Q j) \<longleftrightarrow> Q 0 \<and> (\<forall>j < n. Q (Suc j))"
  by (auto simp: less_Suc_eq_0_disj)

lemma index_where_first:
  assumes "x \<in> set xs" and "P x"
  shows "\<exists>i. index_where P xs k = Some i \<and> k \<le> i \<and> i - k < length xs \<and> P (xs ! (i - k)) \<and> (\<forall>j < i - k. \<not> P (xs ! j))"
  using assms(1)
proof (induction xs arbitrary: k)
  case (Cons y ys)
  show ?case
  proof (cases "P y")
    case False
    then have "x \<in> set ys" using Cons.prems assms(2) by auto
    then obtain i where i: "index_where P ys (Suc k) = Some i" "Suc k \<le> i" "i - Suc k < length ys" "P (ys ! (i - Suc k))"
        "\<forall>j < i - Suc k. \<not> P (ys ! j)" using Cons.IH [of "Suc k"] by auto
    have d: "i - k = Suc (i - Suc k)" using i(2) by simp
    show ?thesis using i False unfolding d
      by (intro exI [of _ i]) (simp add: d all_less_Suc_split)
  qed simp
qed simp

lemma always_has:
  "ruled \<noteq> [] \<Longrightarrow> has (always_reasons s w only other_copy here ruled rs) (ruled ! 0)"
  "b \<in> set here \<Longrightarrow> is_manual s b \<Longrightarrow> has (always_reasons s w only other_copy here ruled rs) b"
  "index_where (\<lambda>b. backup_check b w = Check_Passed) here 0 = Some i \<Longrightarrow> has (always_reasons s w only other_copy here ruled rs) (here ! i)"
  "b \<in> set here \<Longrightarrow> only (b_id b) \<noteq> None \<Longrightarrow> \<not> other_copy b \<Longrightarrow> \<not> rs_delete_only_copies s \<Longrightarrow>
     has (always_reasons s w only other_copy here ruled rs) b"
proof -
  note keep = adds_steps [THEN addsD]
  show "ruled \<noteq> [] \<Longrightarrow> has (always_reasons s w only other_copy here ruled rs) (ruled ! 0)"
    unfolding always_steps by (rule keep(5), rule keep(4), rule keep(3), rule keep(2)) (auto simp: step_latest_def has_def add_reason_def)
  show "b \<in> set here \<Longrightarrow> is_manual s b \<Longrightarrow> has (always_reasons s w only other_copy here ruled rs) b"
    unfolding always_steps by (rule keep(5), rule keep(4), rule keep(3), unfold step_manual_def, rule has_fold)
      (auto intro: adds_intros)
  show "index_where (\<lambda>b. backup_check b w = Check_Passed) here 0 = Some i \<Longrightarrow> has (always_reasons s w only other_copy here ruled rs) (here ! i)"
    unfolding always_steps by (rule keep(5), rule keep(4)) (simp add: step_newest_def)
  show "b \<in> set here \<Longrightarrow> only (b_id b) \<noteq> None \<Longrightarrow> \<not> other_copy b \<Longrightarrow> \<not> rs_delete_only_copies s \<Longrightarrow>
     has (always_reasons s w only other_copy here ruled rs) b"
    unfolding always_steps
    by (rule keep(5), unfold step_only_def, rule has_fold, assumption, fastforce, intro adds_intros)
qed

subsection \<open>Who is kept\<close>

definition here_of :: "backup list \<Rightarrow> site \<Rightarrow> backup list" where
  "here_of all w = filter (\<lambda>b. in_place b w) all"

definition ruled_of :: "backup list \<Rightarrow> retention_settings \<Rightarrow> site \<Rightarrow> backup list" where
  "ruled_of all s w = filter (\<lambda>b. backup_check b w \<noteq> Check_Failed \<and> \<not> is_manual s b) (here_of all w)"

definition place_reasons :: "backup list \<Rightarrow> retention_settings \<Rightarrow> zone \<Rightarrow> site \<Rightarrow> (string \<Rightarrow> only_copy option)
    \<Rightarrow> (backup \<Rightarrow> bool) \<Rightarrow> reasons" where
  "place_reasons all s z w only other_copy =
     always_reasons s w only other_copy (here_of all w) (ruled_of all s w)
       (fst (rule_reasons z (rules_for s w) w (here_of all w) (ruled_of all s w) (pin_reasons w (here_of all w))))"

lemma plan_place_kept:
  "kept_ids (plan_place all s z w only other_copy) = b_id ` {b \<in> set all. in_place b w \<and> has (place_reasons all s z w only other_copy) b}"
  "map bd_id (pp_decisions (plan_place all s z w only other_copy)) = map b_id (here_of all w)"
  "pp_where (plan_place all s z w only other_copy) = w"
proof -
  show "map bd_id (pp_decisions (plan_place all s z w only other_copy)) = map b_id (here_of all w)"
    "pp_where (plan_place all s z w only other_copy) = w"
    by (simp_all add: plan_place_def here_of_def Let_def decision_for_def case_prod_unfold)
  define q where "q = rule_reasons z (rules_for s w) w (here_of all w) (ruled_of all s w) (pin_reasons w (here_of all w))"
  define f where "f = decision_for z w (rules_for s w) only other_copy (place_reasons all s z w only other_copy)
      (fst (snd q)) (fst (snd (snd q))) (snd (snd (snd q)))"
  have "pp_decisions (plan_place all s z w only other_copy) = map f (here_of all w)"
    by (simp add: plan_place_def here_of_def [symmetric] ruled_of_def [symmetric] place_reasons_def q_def f_def Let_def case_prod_unfold)
  moreover have "bd_id (f b) = b_id b" "bd_keep (f b) \<longleftrightarrow> has (place_reasons all s z w only other_copy) b" for b
    by (simp_all add: f_def decision_for_def has_def Let_def)
  ultimately have f: "pp_decisions (plan_place all s z w only other_copy) = map f (here_of all w)"
    "\<And>b. bd_id (f b) = b_id b" "\<And>b. bd_keep (f b) \<longleftrightarrow> has (place_reasons all s z w only other_copy) b" by blast+
  have "set (map bd_id (filter bd_keep (map f bs))) = b_id ` {b \<in> set bs. has (place_reasons all s z w only other_copy) b}" for bs
    by (induction bs) (auto simp: f(2,3))
  then show "kept_ids (plan_place all s z w only other_copy) = b_id ` {b \<in> set all. in_place b w \<and> has (place_reasons all s z w only other_copy) b}"
    unfolding kept_ids_def f(1) unfolding here_of_def by (simp only: set_filter mem_Collect_eq conj_assoc)
qed

lemma finish_one_simps: "bd_id (finish_one by_id oc w d) = bd_id d" "bd_keep (finish_one by_id oc w d) = bd_keep d"
  by (simp_all add: finish_one_def Let_def)

lemma finish_kept [simp]: "kept_ids (finish_plan by_id r oc p) = kept_ids p"
proof -
  have "filter bd_keep (map (finish_one by_id oc (pp_where p)) ds) = map (finish_one by_id oc (pp_where p)) (filter bd_keep ds)" for ds
    by (simp add: filter_map o_def finish_one_simps)
  then show ?thesis by (simp add: finish_plan_def Let_def kept_ids_def finish_one_simps o_def)
qed

lemma finish_ids [simp]: "map bd_id (pp_decisions (finish_plan by_id r oc p)) = map bd_id (pp_decisions p)"
  by (simp add: finish_plan_def Let_def finish_one_simps o_def)

lemma finish_deleted: "delete_ids (finish_plan by_id r oc p) = delete_ids p"
proof -
  have "filter (\<lambda>d. \<not> bd_keep d) (map (finish_one by_id oc (pp_where p)) ds) = map (finish_one by_id oc (pp_where p)) (filter (\<lambda>d. \<not> bd_keep d) ds)" for ds
    by (simp add: filter_map o_def finish_one_simps)
  then show ?thesis by (simp add: finish_plan_def Let_def delete_ids_def finish_one_simps o_def)
qed

text \<open>The plan of a place.\<close>

definition place_of :: "site \<Rightarrow> place_plan \<times> place_plan \<Rightarrow> place_plan" where
  "place_of w r = (case w of On_Host \<Rightarrow> fst r | Off_Site \<Rightarrow> snd r)"

definition other_copies :: "backup list \<Rightarrow> retention_settings \<Rightarrow> zone \<Rightarrow> site \<Rightarrow> backup \<Rightarrow> bool" where
  "other_copies all s z w = (case w of
      On_Host \<Rightarrow> (\<lambda>b. b_downloaded b \<or> b_off_site b)
    | Off_Site \<Rightarrow> (\<lambda>b. b_downloaded b \<or> b_on_host b \<and> b_id b
        \<in> kept_ids (plan_place all s z On_Host (only_copies all) (\<lambda>b. b_downloaded b \<or> b_off_site b))))"

definition zone_of :: "zone option \<Rightarrow> zone" where
  "zone_of loc = (case loc of None \<Rightarrow> utc | Some z \<Rightarrow> z)"

lemma decide_place:
  "kept_ids (place_of w (decide backups s loc)) =
     kept_ids (plan_place (stable_sort newest_first backups) s (zone_of loc) w (only_copies (stable_sort newest_first backups))
       (other_copies (stable_sort newest_first backups) s (zone_of loc) w))"
  "delete_ids (place_of w (decide backups s loc)) =
     delete_ids (plan_place (stable_sort newest_first backups) s (zone_of loc) w (only_copies (stable_sort newest_first backups))
       (other_copies (stable_sort newest_first backups) s (zone_of loc) w))"
  "map bd_id (pp_decisions (place_of w (decide backups s loc))) = map b_id (here_of (stable_sort newest_first backups) w)"
  by (cases w; simp add: decide_def place_of_def other_copies_def zone_of_def Let_def finish_deleted plan_place_kept(2))+

interpretation newest_order: comparator newest_first
  unfolding newest_first_def
  by (intro comparator_or comparator_key [OF comparator_flip [OF int_order.comparator_axioms]]
      comparator_key [OF comparator_flip [OF string_order.comparator_axioms]])

lemma sorted_all: "sorted_wrt (\<lambda>a b. newest_first a b \<le> 0) (stable_sort newest_first backups)"
  by (rule newest_order.sorted_stable_sort)

lemma in_here: "b \<in> set (here_of all w) \<longleftrightarrow> b \<in> set all \<and> in_place b w"
  by (simp add: here_of_def)

lemma in_ruled: "b \<in> set (ruled_of all s w) \<longleftrightarrow> b \<in> set all \<and> in_place b w \<and> backup_check b w \<noteq> Check_Failed \<and> \<not> is_manual s b"
  by (auto simp: ruled_of_def here_of_def)

lemma sorted_ruled: "sorted_wrt (\<lambda>a b. newest_first a b \<le> 0) all \<Longrightarrow> sorted_wrt (\<lambda>a b. newest_first a b \<le> 0) (ruled_of all s w)"
  by (simp add: ruled_of_def here_of_def sorted_wrt_filter)

lemma newest_first_eq: "newest_first a b = 0 \<Longrightarrow> b_id a = b_id b"
  by (auto simp: newest_first_def cmp_or_def cmp_string_eq_0 split: if_splits)

text \<open>With unique ids the sort order is strict.\<close>

lemma newest_first_unique:
  assumes "distinct (map b_id all)" and "a \<in> set all" "b \<in> set all" and "newest_first a b \<le> 0" "newest_first b a \<le> 0"
  shows "a = b"
proof -
  have "newest_first a b = 0" using assms(4,5) newest_order.cmp_swap [of a b] newest_order.cmp_swap [of b a] by linarith
  then have "b_id a = b_id b" by (rule newest_first_eq)
  then show ?thesis using assms(1-3) by (meson distinct_map inj_on_eq_iff)
qed

lemma first_of_sorted:
  assumes "sorted_wrt (\<lambda>a b. newest_first a b \<le> 0) xs" and "distinct (map b_id xs)" and "b \<in> set xs"
    and "\<And>c. c \<in> set xs \<Longrightarrow> newest_first b c \<le> 0"
  shows "xs ! 0 = b"
proof -
  obtain x ys where xs: "xs = x # ys" using assms(3) by (cases xs) auto
  have "newest_first x b \<le> 0"
    using assms(1,3) newest_order.cmp_refl [of b] unfolding xs by auto
  then show ?thesis using newest_first_unique [OF assms(2), of x b] assms(3,4) unfolding xs by auto
qed

lemma pinned_has:
  assumes "b \<in> set (here_of all w)" and "b_pinned b \<or> w = On_Host \<and> b_needed_by b \<noteq> []"
  shows "has (place_reasons all s z w only other_copy) b"
proof -
  have "has (pin_reasons w (here_of all w)) b"
    unfolding pin_reasons_def Let_def
    by (rule has_fold [OF assms(1)]) (use assms(2) in \<open>auto simp: has_def add_reason_def adds_def\<close>)
  then show ?thesis unfolding place_reasons_def by (intro addsD [OF adds_always] addsD [OF adds_rules])
qed

text \<open>The newest of the backups that satisfy a condition.\<close>

definition newest_of :: "(backup \<Rightarrow> bool) \<Rightarrow> backup list \<Rightarrow> backup \<Rightarrow> bool" where
  "newest_of P all b \<longleftrightarrow> b \<in> set all \<and> P b \<and> (\<forall>c \<in> set all. P c \<longrightarrow> newest_first b c \<le> 0)"

lemma newest_ruled_has:
  assumes "sorted_wrt (\<lambda>a b. newest_first a b \<le> 0) all" and "distinct (map b_id all)"
    and "newest_of (\<lambda>b. in_place b w \<and> backup_check b w \<noteq> Check_Failed \<and> \<not> is_manual s b) all b"
  shows "has (place_reasons all s z w only other_copy) b"
proof -
  have mem: "b \<in> set (ruled_of all s w)" using assms(3) by (simp add: in_ruled newest_of_def)
  have d: "distinct (map b_id (ruled_of all s w))" using assms(2) by (simp add: ruled_of_def here_of_def distinct_map_filter)
  have "ruled_of all s w ! 0 = b"
    by (rule first_of_sorted [OF sorted_ruled [OF assms(1)] d mem]) (use assms(3) in \<open>auto simp: in_ruled newest_of_def\<close>)
  then show ?thesis using always_has(1) [of "ruled_of all s w"] mem unfolding place_reasons_def by fastforce
qed

lemma newest_passed_has:
  assumes "sorted_wrt (\<lambda>a b. newest_first a b \<le> 0) all" and "distinct (map b_id all)"
    and "newest_of (\<lambda>b. in_place b w \<and> backup_check b w = Check_Passed) all b"
  shows "has (place_reasons all s z w only other_copy) b"
proof -
  let ?h = "here_of all w" and ?P = "\<lambda>b. backup_check b w = Check_Passed"
  have mem: "b \<in> set ?h" "?P b" using assms(3) by (simp_all add: in_here newest_of_def)
  obtain i where i: "index_where ?P ?h 0 = Some i" "i < length ?h" "?P (?h ! i)" "\<forall>j < i. \<not> ?P (?h ! j)"
    using index_where_first [of b ?h ?P 0] mem by auto
  obtain k where k: "k < length ?h" "?h ! k = b" using mem(1) by (metis in_set_conv_nth)
  have "i \<le> k" using i(4) k mem(2) not_less by blast
  have s: "sorted_wrt (\<lambda>a b. newest_first a b \<le> 0) ?h" using assms(1) by (simp add: here_of_def sorted_wrt_filter)
  have "newest_first (?h ! i) b \<le> 0"
    using \<open>i \<le> k\<close> k sorted_wrt_nth_less [OF s, of i k] newest_order.cmp_refl [of b] by (cases "i = k") auto
  moreover have "?h ! i \<in> set ?h" using i(2) by simp
  moreover from this have "newest_first b (?h ! i) \<le> 0" using assms(3) i(3) unfolding newest_of_def by (simp add: in_here)
  ultimately have "?h ! i = b" using newest_first_unique [OF assms(2), of "?h ! i" b] mem by (simp add: in_here)
  then show ?thesis using always_has(3) [OF i(1)] unfolding place_reasons_def by metis
qed

text \<open>A backup that failed its check, with no newer one that passed, is kept too; so the newest of all is.\<close>

lemma newest_failed_has:
  assumes "sorted_wrt (\<lambda>a b. newest_first a b \<le> 0) all" and "distinct (map b_id all)"
    and "b \<in> set (here_of all w)" and "backup_check b w = Check_Failed"
    and "\<forall>c \<in> set all. in_place c w \<and> backup_check c w = Check_Passed \<longrightarrow> newest_first b c \<le> 0"
  shows "has (place_reasons all s z w only other_copy) b"
proof -
  let ?h = "here_of all w" and ?P = "\<lambda>b. backup_check b w = Check_Passed"
  obtain k where k: "k < length ?h" "?h ! k = b" using assms(3) by (metis in_set_conv_nth)
  have s: "sorted_wrt (\<lambda>a b. newest_first a b \<le> 0) ?h" using assms(1) by (simp add: here_of_def sorted_wrt_filter)
  have later: "case index_where ?P ?h 0 of None \<Rightarrow> True | Some j \<Rightarrow> k < j"
  proof (cases "index_where ?P ?h 0")
    case (Some j)
    have "\<exists>c \<in> set ?h. ?P c"
    proof (rule ccontr)
      have "\<forall>c \<in> set xs. \<not> ?P c \<Longrightarrow> index_where ?P xs n = None" for xs n by (induction xs arbitrary: n) auto
      moreover assume "\<not> (\<exists>c \<in> set ?h. ?P c)"
      ultimately show False using Some by fastforce
    qed
    then obtain c where "c \<in> set ?h" "?P c" by blast
    then have j: "j < length ?h" "?P (?h ! j)" using index_where_first [of c ?h ?P 0] Some by auto
    then have "?h ! j \<in> set ?h" by simp
    then have "newest_first b (?h ! j) \<le> 0" using assms(5) j(2) by (simp add: in_here)
    have "\<not> j \<le> k"
    proof
      assume "j \<le> k"
      then have "newest_first (?h ! j) b \<le> 0"
        using k sorted_wrt_nth_less [OF s, of j k] newest_order.cmp_refl [of b] by (cases "j = k") auto
      then have "?h ! j = b"
        using newest_first_unique [OF assms(2), of "?h ! j" b] \<open>newest_first b (?h ! j) \<le> 0\<close> \<open>?h ! j \<in> set ?h\<close> assms(3) by (simp add: in_here)
      then show False using j(2) assms(4) by simp
    qed
    then show ?thesis using Some by simp
  qed simp
  have "(k, b) \<in> set (enumerate 0 ?h)" using k by (auto simp: in_set_enumerate_eq)
  then have "has (step_failed w ?h rs) b" for rs
    unfolding step_failed_def
  proof (rule has_fold)
    show "has ((\<lambda>(i, b). if backup_check b w = Check_Failed \<and> length (rs (b_id b)) = 0
       \<and> (case index_where ?P ?h 0 of None \<Rightarrow> True | Some j \<Rightarrow> i < j) then add_reason rs b failed_newest_text else rs) (k, b)) b" for rs
      using later assms(4) by (auto simp: has_def add_reason_def)
  qed (unfold case_prod_unfold, intro adds_intros)
  then show ?thesis unfolding place_reasons_def always_steps by simp
qed

lemma keepI:
  assumes "b \<in> set backups" and "in_place b w"
    and "\<And>all only other_copy. set all = set backups \<Longrightarrow> has (place_reasons all s (zone_of loc) w only other_copy) b"
  shows "b_id b \<in> kept_ids (place_of w (decide backups s loc))"
  unfolding decide_place(1) plan_place_kept(1) using assms by auto

lemma distinct_sorted_ids [simp]: "distinct (map b_id (stable_sort newest_first backups)) \<longleftrightarrow> distinct (map b_id backups)"
  by (rule distinct_stable_sort)

lemma newest_of_set: "newest_of P (stable_sort newest_first backups) b \<longleftrightarrow> newest_of P backups b"
  by (simp add: newest_of_def)

text \<open>With unique ids a kept backup is not deleted.\<close>

lemma kept_not_deleted:
  assumes "distinct (map b_id backups)" and "i \<in> kept_ids (place_of w (decide backups s loc))"
  shows "i \<notin> set (delete_ids (place_of w (decide backups s loc)))"
proof -
  have "distinct (map bd_id ds) \<Longrightarrow> x \<in> set (map bd_id (filter bd_keep ds)) \<Longrightarrow> x \<notin> set (map bd_id (filter (\<lambda>d. \<not> bd_keep d) ds))"
    for x ds by (auto simp: distinct_map dest: inj_onD)
  moreover have "distinct (map bd_id (pp_decisions (place_of w (decide backups s loc))))"
    unfolding decide_place(3) here_of_def using assms(1) by (simp add: distinct_map_filter)
  ultimately show ?thesis using assms(2) unfolding kept_ids_def delete_ids_def by blast
qed

lemma always_kept_ids:
  assumes "distinct (map b_id backups)" and "b \<in> set backups" and "in_place b w"
    and "b_pinned b \<or> w = On_Host \<and> b_needed_by b \<noteq> [] \<or> b_kind b = kind_manual \<and> \<not> rs_include_manual s
      \<or> newest_of (\<lambda>b. in_place b w) backups b
      \<or> newest_of (\<lambda>b. in_place b w \<and> backup_check b w \<noteq> Check_Failed \<and> \<not> is_manual s b) backups b
      \<or> newest_of (\<lambda>b. in_place b w \<and> backup_check b w = Check_Passed) backups b"
  shows "b_id b \<in> kept_ids (place_of w (decide backups s loc))"
proof -
  let ?all = "stable_sort newest_first backups"
  have d: "distinct (map b_id ?all)" using assms(1) by simp
  have here: "b \<in> set (here_of ?all w)" using assms(2,3) by (simp add: in_here)
  have "has (place_reasons ?all s z w only oc) b" for z only oc
    using assms(4)
  proof (elim disjE)
    show manual: "b_kind b = kind_manual \<and> \<not> rs_include_manual s \<Longrightarrow> ?thesis"
      unfolding place_reasons_def by (rule always_has(2) [OF here]) (simp add: is_manual_def)
    show "newest_of (\<lambda>b. in_place b w) backups b \<Longrightarrow> ?thesis"
    proof -
      assume n: "newest_of (\<lambda>b. in_place b w) backups b"
      consider "backup_check b w = Check_Failed" | "is_manual s b" | "backup_check b w \<noteq> Check_Failed" "\<not> is_manual s b" by blast
      then show ?thesis
      proof cases
        case 1
        then show ?thesis by (rule newest_failed_has [OF sorted_all d here]) (use n in \<open>simp add: newest_of_def\<close>)
      next
        case 2
        then show ?thesis using manual by (simp add: is_manual_def)
      next
        case 3
        then show ?thesis by (intro newest_ruled_has [OF sorted_all d]) (use n in \<open>simp add: newest_of_def\<close>)
      qed
    qed
    show "newest_of (\<lambda>b. in_place b w \<and> backup_check b w \<noteq> Check_Failed \<and> \<not> is_manual s b) backups b \<Longrightarrow> ?thesis"
      by (rule newest_ruled_has [OF sorted_all d]) (simp add: newest_of_set)
    show "newest_of (\<lambda>b. in_place b w \<and> backup_check b w = Check_Passed) backups b \<Longrightarrow> ?thesis"
      by (rule newest_passed_has [OF sorted_all d]) (simp add: newest_of_set)
  qed (use pinned_has [OF here] in auto)
  then show ?thesis unfolding decide_place(1) plan_place_kept(1) using assms(2,3) by auto
qed

text \<open>C15: In each of the two places the rules never delete a pinned backup; one made by hand, unless the settings
  let the rules count those; the newest one, and the newest of those the rules count; the newest one that passed its
  check; and on this machine one a restore or update may still need.\<close>

theorem always_kept:
  assumes "distinct (map b_id backups)" and "b \<in> set backups" and "in_place b w"
    and "b_pinned b \<or> w = On_Host \<and> b_needed_by b \<noteq> [] \<or> b_kind b = kind_manual \<and> \<not> rs_include_manual s
      \<or> newest_of (\<lambda>b. in_place b w) backups b
      \<or> newest_of (\<lambda>b. in_place b w \<and> backup_check b w \<noteq> Check_Failed \<and> \<not> is_manual s b) backups b
      \<or> newest_of (\<lambda>b. in_place b w \<and> backup_check b w = Check_Passed) backups b"
  shows "b_id b \<in> kept_ids (place_of w (decide backups s loc)) \<and> b_id b \<notin> set (delete_ids (place_of w (decide backups s loc)))"
  using always_kept_ids [OF assms] kept_not_deleted [OF assms(1)] by blast

subsection \<open>No world is lost\<close>

lemma same_lineage_refl [simp]: "same_lineage b b"
  by (simp add: same_lineage_def same_def)

lemma lineage_loop_grows: "m i \<noteq> None \<Longrightarrow> lineage_loop bs seen m i \<noteq> None"
  by (induction bs seen m rule: lineage_loop.induct) (auto simp: Let_def)

lemma lineage_loop_covers:
  assumes "\<forall>c \<in> set seen. c = seen ! 0 \<or> m (b_id c) \<noteq> None" and "b \<in> set bs" and "good b"
  shows "\<exists>c. (c \<in> set seen \<or> c \<in> set bs \<and> good c) \<and> same_lineage c b
    \<and> (c = (if seen = [] then the (find good bs) else seen ! 0) \<or> lineage_loop bs seen m (b_id c) \<noteq> None)"
  using assms
proof (induction bs arbitrary: seen m)
  case (Cons x xs)
  show ?case
  proof (cases "\<not> good x \<or> list_ex (\<lambda>s. same_lineage s x) seen")
    case True
    then have loop: "lineage_loop (x # xs) seen m = lineage_loop xs seen m" by simp
    show ?thesis
    proof (cases "b = x")
      case True
      then obtain c where c: "c \<in> set seen" "same_lineage c b"
        using \<open>\<not> good x \<or> _\<close> Cons.prems(3) by (auto simp: list_ex_iff)
      then have "c = seen ! 0 \<or> lineage_loop xs seen m (b_id c) \<noteq> None"
        using Cons.prems(1) lineage_loop_grows by blast
      then show ?thesis using c unfolding loop by (intro exI [of _ c]) auto
    next
      case False
      then have "b \<in> set xs" using Cons.prems(2) by simp
      moreover have "seen = [] \<Longrightarrow> find good (x # xs) = find good xs" using True by auto
      ultimately show ?thesis using Cons.IH [OF Cons.prems(1) _ Cons.prems(3)] unfolding loop by (auto split: if_splits)
    qed
  next
    case False
    then obtain m' where loop: "lineage_loop (x # xs) seen m = lineage_loop xs (seen @ [x]) m'"
      and m': "\<forall>i. m i \<noteq> None \<longrightarrow> m' i \<noteq> None" "seen \<noteq> [] \<Longrightarrow> m' (b_id x) \<noteq> None"
      by (cases "seen = []"; cases "m (b_id x) = None"; cases "same (b_level_name x) (b_level_name ((seen @ [x]) ! 0))")
        (auto simp: Let_def)
    have head: "(seen @ [x]) ! 0 = (if seen = [] then x else seen ! 0)" by (cases seen) auto
    have inv: "\<forall>c \<in> set (seen @ [x]). c = (seen @ [x]) ! 0 \<or> m' (b_id c) \<noteq> None"
      using Cons.prems(1) m' unfolding head by auto
    have goal: "c = (if seen = [] then the (find good (x # xs)) else seen ! 0) \<longleftrightarrow> c = (seen @ [x]) ! 0" for c
      using False unfolding head by simp
    show ?thesis
    proof (cases "b = x")
      case True
      have "x = (seen @ [x]) ! 0 \<or> lineage_loop xs (seen @ [x]) m' (b_id x) \<noteq> None"
        using inv lineage_loop_grows [of m' "b_id x"] by auto
      then show ?thesis using True False unfolding loop goal by (intro exI [of _ x]) auto
    next
      case False
      then have "b \<in> set xs" using Cons.prems(2) by simp
      then show ?thesis using Cons.IH [OF inv _ Cons.prems(3)] \<open>\<not> (\<not> good x \<or> _)\<close> unfolding loop goal by fastforce
    qed
  qed
qed simp

text \<open>A backup that is the only copy of something keeps a copy.\<close>

definition survives :: "backup list \<Rightarrow> retention_settings \<Rightarrow> zone option \<Rightarrow> backup \<Rightarrow> bool" where
  "survives backups s loc b \<longleftrightarrow> b_downloaded b
     \<or> b_on_host b \<and> b_id b \<in> kept_ids (place_of On_Host (decide backups s loc))
     \<or> b_off_site b \<and> b_id b \<in> kept_ids (place_of Off_Site (decide backups s loc))"

lemma only_copy_survives:
  assumes "b \<in> set backups" and "b_on_host b \<or> b_off_site b" and "\<not> rs_delete_only_copies s"
    and "only_copies (stable_sort newest_first backups) (b_id b) \<noteq> None"
  shows "survives backups s loc b"
proof (rule ccontr)
  assume n: "\<not> ?thesis"
  let ?all = "stable_sort newest_first backups"
  have keep: "b_id b \<in> kept_ids (place_of w (decide backups s loc))"
    if "in_place b w" "\<not> other_copies ?all s (zone_of loc) w b" for w
  proof -
    have "has (place_reasons ?all s (zone_of loc) w (only_copies ?all) (other_copies ?all s (zone_of loc) w)) b"
      unfolding place_reasons_def by (rule always_has(4)) (use assms that in \<open>simp_all add: in_here\<close>)
    then show ?thesis unfolding decide_place(1) plan_place_kept(1) using assms(1) that(1) by auto
  qed
  show False
  proof (cases "b_off_site b")
    case True
    have "other_copies ?all s (zone_of loc) Off_Site b \<longleftrightarrow> b_downloaded b \<or> b_on_host b \<and> b_id b \<in> kept_ids (place_of On_Host (decide backups s loc))"
      unfolding decide_place(1) by (simp add: other_copies_def)
    then show False using n keep [of Off_Site] True by (auto simp: survives_def in_place_def)
  next
    case False
    then show False using n keep [of On_Host] assms(2) by (auto simp: survives_def in_place_def other_copies_def)
  qed
qed

lemma newest_good_survives:
  assumes "distinct (map b_id backups)" and "newest_of good backups b"
  shows "survives backups s loc b"
proof -
  have b: "b \<in> set backups" "good b" using assms(2) by (simp_all add: newest_of_def)
  have kept: "b_id b \<in> kept_ids (place_of w (decide backups s loc))"
    if "in_place b w" "backup_check b w = Check_Passed" "\<And>c. in_place c w \<Longrightarrow> backup_check c w = Check_Passed \<Longrightarrow> good c" for w
    by (rule always_kept_ids [OF assms(1) b(1) that(1)]) (use assms(2) that in \<open>auto simp: newest_of_def\<close>)
  show ?thesis
  proof (cases "b_off_site b")
    case True
    then show ?thesis using kept [of Off_Site] by (simp add: survives_def in_place_def backup_check_def good_def)
  next
    case False
    then have "b_on_host b" "backup_check b On_Host = Check_Passed" using b(2) by (simp_all add: good_def)
    then show ?thesis using kept [of On_Host] by (simp add: survives_def in_place_def good_def)
  qed
qed

lemma before_restore_only:
  assumes "b \<in> set all" and "b_kind b = kind_before_restore \<or> b_kind b = kind_rollback"
  shows "only_copies all (b_id b) \<noteq> None"
proof -
  let ?F = "\<lambda>m b. if b_kind b = kind_before_restore \<or> b_kind b = kind_rollback
        then m(b_id b \<mapsto> \<lparr>oc_what = Before_Restore, oc_value = [], oc_newer = []\<rparr>) else m"
  have grow: "m i \<noteq> None \<Longrightarrow> foldl ?F m xs i \<noteq> None" for m xs i
    by (induction xs arbitrary: m) auto
  have "foldl ?F m all (b_id b) \<noteq> None" for m
    using assms(1)
  proof (induction all arbitrary: m)
    case (Cons x xs)
    show ?case
    proof (cases "x = b")
      case True
      have "foldl ?F (?F m x) xs (b_id b) \<noteq> None" by (rule grow) (use True assms(2) in auto)
      then show ?thesis by simp
    next
      case False
      then show ?thesis using Cons by simp
    qed
  qed simp
  then show ?thesis unfolding only_copies_def by (rule lineage_loop_grows)
qed

text \<open>C14: As long as the settings do not allow it, the rules never lose a world: for every good backup, a good
  backup of the same world and Minecraft version (as far as they are known) was downloaded or keeps a copy on
  this machine or off the server; and every backup from before a restore does itself.\<close>

theorem no_world_is_lost:
  assumes "distinct (map b_id backups)" and "\<not> rs_delete_only_copies s" and "b \<in> set backups"
  shows "(good b \<longrightarrow> (\<exists>c \<in> set backups. good c \<and> same_lineage c b \<and> survives backups s loc c))
    \<and> ((b_kind b = kind_before_restore \<or> b_kind b = kind_rollback) \<and> (b_on_host b \<or> b_off_site b) \<longrightarrow> survives backups s loc b)"
proof (intro conjI impI)
  let ?all = "stable_sort newest_first backups"
  show "survives backups s loc b"
    if "(b_kind b = kind_before_restore \<or> b_kind b = kind_rollback) \<and> (b_on_host b \<or> b_off_site b)"
    by (rule only_copy_survives) (use that assms before_restore_only [of b ?all] in auto)
  show "\<exists>c \<in> set backups. good c \<and> same_lineage c b \<and> survives backups s loc c" if g: "good b"
  proof -
    obtain c where c: "c \<in> set backups" "good c" "same_lineage c b" "c = the (find good ?all) \<or> only_copies ?all (b_id c) \<noteq> None"
      using lineage_loop_covers [where seen = "[]" and bs = ?all and b = b] assms(3) g
      unfolding only_copies_def by fastforce
    from c(4) have "survives backups s loc c"
    proof
      assume first: "c = the (find good ?all)"
      have "find good xs = Some d \<Longrightarrow> sorted_wrt (\<lambda>a b. newest_first a b \<le> 0) xs \<Longrightarrow> newest_of good xs d" for xs d
        by (induction xs) (auto simp: newest_of_def newest_order.cmp_refl split: if_splits)
      moreover obtain d where d: "find good ?all = Some d"
        using assms(3) g find_None_iff [of good ?all] by (cases "find good ?all") auto
      ultimately have "newest_of good ?all c" using sorted_all first by simp
      then show ?thesis by (intro newest_good_survives [OF assms(1)]) (simp add: newest_of_set)
    next
      assume "only_copies ?all (b_id c) \<noteq> None"
      then show ?thesis by (intro only_copy_survives [OF c(1) _ assms(2)]) (use c(2) in \<open>auto simp: good_def\<close>)
    qed
    then show ?thesis using c by blast
  qed
qed

subsection \<open>What the rules keep\<close>

lemma last_loop_has: "b \<in> set bs \<Longrightarrow> has (last_loop n i bs rs) b"
  by (induction n i bs rs rule: last_loop.induct) (auto intro: addsD [OF adds_last])

lemma hours_loop_has:
  "b \<in> set bs \<Longrightarrow> since < b_created_at b \<Longrightarrow> sorted_wrt (\<lambda>a b. b_created_at b \<le> b_created_at a) bs \<Longrightarrow> has (hours_loop since n i bs rs) b"
proof (induction since n i bs rs rule: hours_loop.induct)
  case (2 since n i c bs rs)
  then have "since < b_created_at c" by auto
  then show ?case using 2 by (auto intro: addsD [OF adds_hours])
qed simp

lemma remdups_adj_twice: "remdups_adj (ys @ k # k # xs) = remdups_adj (ys @ k # xs)"
  by (induction ys rule: remdups_adj.induct) simp_all

lemma periods_loop_keys:
  assumes "remdups_adj (map pe_key out) = map pe_key out" and "int (length out) \<le> n"
    and "\<forall>p \<in> set out. pe_kept p \<in> S \<and> fst (of' (b_created_at (pe_kept p))) = pe_key p" and "set bs \<subseteq> S"
  shows "map pe_key (periods_loop bs n w of' out) = take (nat n) (remdups_adj (map pe_key out @ map (\<lambda>b. fst (of' (b_created_at b))) bs))
    \<and> (\<forall>p \<in> set (periods_loop bs n w of' out). pe_kept p \<in> S \<and> fst (of' (b_created_at (pe_kept p))) = pe_key p)"
  using assms
proof (induction bs arbitrary: out)
  case (Cons b bs)
  obtain key first where kf: "of' (b_created_at b) = (key, first)" by (metis surj_pair)
  consider (same) "out \<noteq> []" "pe_key (last out) = key" | (full) "\<not> (out \<noteq> [] \<and> pe_key (last out) = key)" "int (length out) = n"
    | (new) "\<not> (out \<noteq> [] \<and> pe_key (last out) = key)" "int (length out) < n" using Cons.prems(2) by linarith
  then show ?case
  proof cases
    case same
    define out' where "out' = (if backup_check (pe_kept (last out)) w \<noteq> Check_Passed \<and> backup_check b w = Check_Passed
                then butlast out @ [(last out)\<lparr>pe_kept := b\<rparr>] else out)"
    have "out = butlast out @ [last out]" using same(1) by simp
    from arg_cong [OF this, of "map pe_key"] have last: "map pe_key out = map pe_key (butlast out) @ [key]"
      using same(2) by (simp only: map_append list.map)
    have keys: "map pe_key out' = map pe_key out"
      unfolding out'_def last using last same(2) by (simp add: if_distrib [of "map pe_key"] del: append_butlast_last_id)
    have len: "length out' = length out" using arg_cong [OF keys, of length] by simp
    have kept: "\<forall>p \<in> set out'. pe_kept p \<in> S \<and> fst (of' (b_created_at (pe_kept p))) = pe_key p"
      using Cons.prems(3,4) same kf by (auto simp: out'_def dest: in_set_butlastD last_in_set)
    have loop: "periods_loop (b # bs) n w of' out = periods_loop bs n w of' out'"
      using same kf by (simp add: out'_def)
    have adj: "remdups_adj (map pe_key out @ key # xs) = remdups_adj (map pe_key out @ xs)" for xs
      unfolding last using remdups_adj_twice [of "map pe_key (butlast out)" key xs] by simp
    show ?thesis using Cons.IH [of out'] Cons.prems keys len kept kf unfolding loop by (simp add: adj)
  next
    case full
    then have "map pe_key out = [] \<or> last (map pe_key out) \<noteq> key" by (auto simp: last_map)
    then have "remdups_adj (map pe_key out @ map (\<lambda>b. fst (of' (b_created_at b))) (b # bs))
        = map pe_key out @ remdups_adj (map (\<lambda>b. fst (of' (b_created_at b))) (b # bs))"
      using remdups_adj_append' [of "map pe_key out" "map (\<lambda>b. fst (of' (b_created_at b))) (b # bs)"] Cons.prems(1) kf by auto
    moreover have "nat n = length out" using full(2) by simp
    moreover have "periods_loop (b # bs) n w of' out = out" using full kf by auto
    ultimately show ?thesis using Cons.prems(3) by simp
  next
    case new
    let ?p = "\<lparr>pe_key = key, pe_first = first, pe_newest = b, pe_kept = b\<rparr>"
    have "map pe_key out = [] \<or> last (map pe_key out) \<noteq> key" using new(1) by (auto simp: last_map)
    then have "remdups_adj (map pe_key (out @ [?p])) = map pe_key (out @ [?p])"
      using remdups_adj_append' [of "map pe_key out" "[key]"] Cons.prems(1) by simp
    moreover have "periods_loop (b # bs) n w of' out = periods_loop bs n w of' (out @ [?p])" using new kf by auto
    moreover have "\<forall>p \<in> set (out @ [?p]). pe_kept p \<in> S \<and> fst (of' (b_created_at (pe_kept p))) = pe_key p"
      using Cons.prems(3,4) kf by auto
    moreover have "int (length (out @ [?p])) \<le> n" "set bs \<subseteq> S" using new(2) Cons.prems(4) by simp_all
    ultimately have "map pe_key (periods_loop (b # bs) n w of' out)
        = take (nat n) (remdups_adj (map pe_key (out @ [?p]) @ map (\<lambda>b. fst (of' (b_created_at b))) bs))
      \<and> (\<forall>p \<in> set (periods_loop (b # bs) n w of' out). pe_kept p \<in> S \<and> fst (of' (b_created_at (pe_kept p))) = pe_key p)"
      using Cons.IH [of "out @ [?p]"] by presburger
    then show ?thesis using kf by simp
  qed
qed simp

lemma periods_keys:
  assumes "0 \<le> n"
  shows "map pe_key (periods bs n w of') = take (nat n) (remdups_adj (map (\<lambda>b. fst (of' (b_created_at b))) bs))"
    and "\<forall>p \<in> set (periods bs n w of'). pe_kept p \<in> set bs \<and> fst (of' (b_created_at (pe_kept p))) = pe_key p"
  using periods_loop_keys [of "[]" n "set bs" of' bs w] assms by (simp_all add: periods_def)

text \<open>The reasons a list of periods gives.\<close>

definition step_periods :: "(period \<Rightarrow> rtext) \<Rightarrow> period list \<Rightarrow> reasons \<Rightarrow> reasons" where
  "step_periods t ps rs = foldl (\<lambda>rs p. add_reason rs (pe_kept p) (t p)) rs ps"

lemma adds_periods: "adds (step_periods t ps)"
  unfolding step_periods_def by (intro adds_intros)

lemma periods_have: "p \<in> set ps \<Longrightarrow> has (step_periods t ps rs) (pe_kept p)"
  unfolding step_periods_def by (rule has_fold, assumption, rule has_add_reason, rule adds_reason)

lemma rule_steps:
  assumes "\<not> ru_keep_all r"
  shows "fst (rule_reasons z r w here ruled rs) =
    step_periods (\<lambda>p. monthly_text z p (ru_monthly r)) (periods ruled (ru_monthly r) w (month_of z))
     (step_periods (\<lambda>p. weekly_text z p (ru_weekly r)) (periods ruled (ru_weekly r) w (week_of z))
      (step_periods (\<lambda>p. daily_text z p (ru_daily r)) (periods ruled (ru_daily r) w (day_of z))
       (last_loop (ru_last r) 0 (take (nat (min (ru_last r) (int (length ruled)))) ruled)
        (if 0 < ru_hours r \<and> 0 < length ruled
         then hours_loop (b_created_at (ruled ! 0) - ru_hours r * hour) (ru_hours r) 0 ruled rs else rs))))"
  using assms by (simp add: rule_reasons_def step_periods_def Let_def)

lemma rules_range:
  "0 \<le> ru_last (rules_for s w)" "0 \<le> ru_daily (rules_for s w)" "0 \<le> ru_weekly (rules_for s w)" "0 \<le> ru_monthly (rules_for s w)"
  by (simp_all add: rules_for_def Let_def max_last_def max_daily_def max_weekly_def max_monthly_def)

lemma periods_kept:
  assumes "0 \<le> n" and "k \<in> set (take (nat n) (remdups_adj (map (\<lambda>b. fst (of' (b_created_at b))) bs)))"
  shows "\<exists>p \<in> set (periods bs n w of'). pe_kept p \<in> set bs \<and> fst (of' (b_created_at (pe_kept p))) = k"
proof -
  have "k \<in> set (map pe_key (periods bs n w of'))" using assms(2) by (simp only: periods_keys(1) [OF assms(1)])
  then obtain p where "p \<in> set (periods bs n w of')" "pe_key p = k" by auto
  then show ?thesis using periods_keys(2) [OF assms(1), of bs w of'] by blast
qed

text \<open>The backups the rules of a place count: not failed and not made by hand, newest first.\<close>

definition counted :: "backup list \<Rightarrow> retention_settings \<Rightarrow> site \<Rightarrow> backup list" where
  "counted backups s w = ruled_of (stable_sort newest_first backups) s w"

text \<open>C16: In each place the rules keep every counted backup of the last hours before the newest one, the newest
  ones up to their number, and one of each of the most recent days, weeks and months that have a backup, up to the
  number of each; a place that keeps all keeps every backup.\<close>

theorem rules_keep_what_they_say:
  "let r = rules_for s w; z = zone_of loc; kept = kept_ids (place_of w (decide backups s loc)); bs = counted backups s w
   in (ru_keep_all r \<longrightarrow> (\<forall>b \<in> set backups. in_place b w \<longrightarrow> b_id b \<in> kept))
    \<and> (\<not> ru_keep_all r \<longrightarrow>
         (\<forall>b \<in> set bs. b_created_at (bs ! 0) - ru_hours r * hour < b_created_at b \<and> 0 < ru_hours r \<longrightarrow> b_id b \<in> kept)
       \<and> (\<forall>b \<in> set (take (nat (ru_last r)) bs). b_id b \<in> kept)
       \<and> (\<forall>(n, of') \<in> {(ru_daily r, day_of z), (ru_weekly r, week_of z), (ru_monthly r, month_of z)}.
            \<forall>k \<in> set (take (nat n) (remdups_adj (map (\<lambda>b. fst (of' (b_created_at b))) bs))).
              \<exists>b \<in> set bs. fst (of' (b_created_at b)) = k \<and> b_id b \<in> kept))"
proof -
  define r where "r = rules_for s w"
  define z where "z = zone_of loc"
  define all where "all = stable_sort newest_first backups"
  define bs where "bs = counted backups s w"
  have bs: "bs = ruled_of all s w" by (simp add: bs_def counted_def all_def)
  define R where "R = fst (rule_reasons z r w (here_of all w) bs (pin_reasons w (here_of all w)))"
  define kept where "kept = kept_ids (place_of w (decide backups s loc))"
  have keep: "b_id b \<in> kept" if "has R b" "b \<in> set backups" "in_place b w" for b
    unfolding kept_def decide_place(1) plan_place_kept(1) all_def [symmetric] z_def [symmetric]
    using that addsD [OF adds_always, of R b] unfolding R_def r_def bs place_reasons_def by (auto simp: all_def)
  have mem: "b \<in> set bs \<Longrightarrow> b \<in> set backups \<and> in_place b w" for b by (simp add: bs in_ruled all_def)
  note range = rules_range [of s w, folded r_def]
  have srt: "sorted_wrt (\<lambda>a b. b_created_at b \<le> b_created_at a) bs"
    by (rule sorted_wrt_mono_rel [OF _ sorted_ruled [OF sorted_all [of backups], folded all_def, of s w, folded bs]])
      (auto simp: newest_first_def cmp_or_def cmp_int_def split: if_splits)
  have all_kept: "b_id b \<in> kept" if "ru_keep_all r" "b \<in> set backups" "in_place b w" for b
  proof (rule keep [OF _ that(2,3)])
    have b: "b \<in> set (here_of all w)" using that by (simp add: in_here all_def)
    have "has (foldl (\<lambda>rs b. add_reason rs b (keep_all_text w)) (pin_reasons w (here_of all w)) (here_of all w)) b"
      by (rule has_fold [OF b], rule has_add_reason, rule adds_reason)
    then show "has R b" using that(1) by (simp add: R_def rule_reasons_def)
  qed
  have rules: "(\<forall>b \<in> set bs. b_created_at (bs ! 0) - ru_hours r * hour < b_created_at b \<and> 0 < ru_hours r \<longrightarrow> b_id b \<in> kept)
       \<and> (\<forall>b \<in> set (take (nat (ru_last r)) bs). b_id b \<in> kept)
       \<and> (\<forall>(n, of') \<in> {(ru_daily r, day_of z), (ru_weekly r, week_of z), (ru_monthly r, month_of z)}.
            \<forall>p \<in> set (periods bs n w of'). pe_kept p \<in> set bs \<longrightarrow> b_id (pe_kept p) \<in> kept)" if k: "\<not> ru_keep_all r"
  proof (intro conjI ballI impI)
    note steps = rule_steps [OF k, of z w "here_of all w" bs "pin_reasons w (here_of all w)", folded R_def]
    note after = adds_periods [THEN addsD]
    show "b_id b \<in> kept" if "b \<in> set bs" "b_created_at (bs ! 0) - ru_hours r * hour < b_created_at b \<and> 0 < ru_hours r" for b
    proof (rule keep)
      have "bs \<noteq> []" using that(1) by auto
      then show "has R b" unfolding steps
        by (intro after addsD [OF adds_last]) (use that srt in \<open>simp add: hours_loop_has\<close>)
    qed (use mem that in auto)
    show "b_id b \<in> kept" if "b \<in> set (take (nat (ru_last r)) bs)" for b
    proof (rule keep)
      have "take (nat (min (ru_last r) (int (length bs)))) bs = take (nat (ru_last r)) bs"
        by (cases "ru_last r \<le> int (length bs)") (simp_all add: min_def)
      then show "has R b" unfolding steps by (intro after last_loop_has) (use that in simp)
    qed (use mem that in \<open>auto dest: in_set_takeD\<close>)
    show "case x of (n, of') \<Rightarrow> \<forall>p \<in> set (periods bs n w of'). pe_kept p \<in> set bs \<longrightarrow> b_id (pe_kept p) \<in> kept"
      if x: "x \<in> {(ru_daily r, day_of z), (ru_weekly r, week_of z), (ru_monthly r, month_of z)}" for x
    proof -
      have "has R (pe_kept p)" if p: "p \<in> set (periods bs (fst x) w (snd x))" for p
        using x p unfolding steps by (elim insertE emptyE) (auto intro: after periods_have)
      then show ?thesis using keep mem by (auto simp: case_prod_unfold)
    qed
  qed
  have periods: "\<exists>b \<in> set bs. fst (of' (b_created_at b)) = k \<and> b_id b \<in> kept"
    if a: "\<not> ru_keep_all r" "(n, of') \<in> {(ru_daily r, day_of z), (ru_weekly r, week_of z), (ru_monthly r, month_of z)}"
      "k \<in> set (take (nat n) (remdups_adj (map (\<lambda>b. fst (of' (b_created_at b))) bs)))" for n of' k
  proof -
    have "0 \<le> n" using a(2) range by auto
    then obtain p where "p \<in> set (periods bs n w of')" "pe_kept p \<in> set bs" "fst (of' (b_created_at (pe_kept p))) = k"
      using periods_kept [OF _ a(3)] by blast
    then show ?thesis using rules [OF a(1)] a(2) by blast
  qed
  have each: "case x of (n, of') \<Rightarrow> \<forall>k \<in> set (take (nat n) (remdups_adj (map (\<lambda>b. fst (of' (b_created_at b))) bs))).
      \<exists>b \<in> set bs. fst (of' (b_created_at b)) = k \<and> b_id b \<in> kept"
    if "\<not> ru_keep_all r" "x \<in> {(ru_daily r, day_of z), (ru_weekly r, week_of z), (ru_monthly r, month_of z)}" for x
    using periods [OF that(1), of "fst x" "snd x"] that(2) unfolding case_prod_unfold prod.collapse by blast
  show ?thesis
    unfolding Let_def r_def [symmetric] z_def [symmetric] kept_def [symmetric] bs_def [symmetric]
    using all_kept conjunct1 [OF rules] conjunct1 [OF conjunct2 [OF rules]] each by blast
qed

subsection \<open>An example\<close>

text \<open>Automatic backups on this machine that passed their check.\<close>

definition auto_backup :: "string \<Rightarrow> gotime \<Rightarrow> backup" where
  "auto_backup i t = \<lparr>b_id = i, b_kind = ''scheduled'', b_created_at = t, b_size_bytes = 1000, b_minecraft_version = ''1.21'',
     b_level_name = ''world'', b_verified = Some True, b_on_host = True, b_off_site = False, b_downloaded = False,
     b_pinned = False, b_needed_by = []\<rparr>"

theorem always_kept_witness:
  "let old = (auto_backup ''a'' 0)\<lparr>b_pinned := True\<rparr>; backups = [old, auto_backup ''b'' (100000 * hour)]
   in ''a'' \<in> kept_ids (place_of On_Host (decide backups default_settings None))
      \<and> ''a'' \<notin> set (delete_ids (place_of On_Host (decide backups default_settings None)))"
  unfolding Let_def
  by (rule always_kept [where b = "(auto_backup ''a'' 0)\<lparr>b_pinned := True\<rparr>", simplified auto_backup_def backup.simps, folded auto_backup_def])
    (simp_all add: auto_backup_def in_place_def)

theorem no_world_is_lost_witness:
  "let b = auto_backup ''a'' 0; backups = [b, auto_backup ''b'' (100000 * hour)]
   in \<exists>c \<in> set backups. good c \<and> same_lineage c b \<and> survives backups default_settings None c"
  unfolding Let_def
  using no_world_is_lost [of "[auto_backup ''a'' 0, auto_backup ''b'' (100000 * hour)]" default_settings "auto_backup ''a'' 0" None]
  by (simp add: auto_backup_def good_def backup_check_def default_settings_def)

theorem rules_keep_what_they_say_witness:
  "let backups = [auto_backup ''a'' 0, auto_backup ''b'' hour]
   in ''a'' \<in> kept_ids (place_of On_Host (decide backups default_settings None))"
proof -
  let ?bs = "[auto_backup ''a'' 0, auto_backup ''b'' hour]"
  have "counted ?bs default_settings On_Host = [auto_backup ''b'' hour, auto_backup ''a'' 0]"
    by (simp add: counted_def ruled_of_def here_of_def newest_first_def cmp_or_def cmp_int_def auto_backup_def in_place_def
        backup_check_def is_manual_def kind_manual_def)
  moreover have "ru_hours (rules_for default_settings On_Host) = 24" "\<not> ru_keep_all (rules_for default_settings On_Host)"
    by (simp_all add: rules_for_def default_settings_def max_hours_def)
  ultimately show ?thesis
    using rules_keep_what_they_say [of default_settings On_Host None ?bs] unfolding Let_def by (simp add: auto_backup_def)
qed

end
