(* ===== verification/Retention_Estimate.thy ===== *)
theory Retention_Estimate
  imports Retention
begin

section \<open>The rules editor (internal/backup/retention/text.go and estimate.go)\<close>

text \<open>
  The checks of the settings, their description, and the estimate of how many backups a place keeps
  at a steady pace. The main theorems: settings pass the check exactly when the plans use their
  numbers as they are, and an estimate lies between its largest run and the sum of its rows. The
  English messages and hints of an error are not modelled; products of a number of backups and the
  time between them are not cut to 64 bits.
\<close>

subsection \<open>Definitions\<close>

record range_error =
  re_field :: string
  re_value :: int
  re_min :: int
  re_max :: int

definition range_check :: "string \<Rightarrow> int \<Rightarrow> int \<Rightarrow> int \<Rightarrow> range_error option" where
  "range_check f v lo hi = (if v < lo \<or> hi < v then Some \<lparr>re_field = f, re_value = v, re_min = lo, re_max = hi\<rparr> else None)"

fun first_error :: "'e option list \<Rightarrow> 'e option" where
  "first_error [] = None"
| "first_error (None # es) = first_error es"
| "first_error (Some e # es) = Some e"

definition rule_checks :: "string \<Rightarrow> rules \<Rightarrow> range_error option list" where
  "rule_checks f r = [range_check (f @ ''.hours'') (ru_hours r) 0 max_hours, range_check (f @ ''.last'') (ru_last r) 0 max_last,
     range_check (f @ ''.daily'') (ru_daily r) 0 max_daily, range_check (f @ ''.weekly'') (ru_weekly r) 0 max_weekly,
     range_check (f @ ''.monthly'') (ru_monthly r) 0 max_monthly]"

definition validate_rules :: "retention_settings \<Rightarrow> range_error option" where
  "validate_rules s = first_error (rule_checks ''onHost'' (rs_on_host s) @ rule_checks ''offSite'' (rs_off_site s))"

definition describe_settings :: "retention_settings \<Rightarrow> rtext list" where
  "describe_settings s =
     (let always = [''pinned backups'', ''the newest backup'', ''the newest backup that passed its check'',
              ''backups a restore or update may still need'']
            @ (if rs_include_manual s then [] else [''backups made by hand''])
            @ (if rs_delete_only_copies s then []
               else [''backups that are the only copy of an earlier world (from before a restore, or the last one on an earlier Minecraft version or of another world) until they are downloaded or copied off the server''])
      in [describe_rules (rules_for s On_Host) On_Host, describe_rules (rules_for s Off_Site) Off_Site,
          \<lparr>tx_code = ''gaps'', tx_params = [],
            tx_text = ''The last hours are counted back from the newest backup, and days, weeks and months without a backup don't count, so a pause in backups never makes the rules delete older ones.''\<rparr>,
          \<lparr>tx_code = ''always_kept'', tx_params = [(''includeManual'', format_bool (rs_include_manual s)),
              (''deleteOnlyCopies'', format_bool (rs_delete_only_copies s))],
            tx_text = ''Always kept: '' @ join_parts always @ ''.''\<rparr>])"

record pace =
  pa_every :: duration
  pa_bytes :: int
  pa_location :: "zone option"

record row =
  ro_rule :: string
  ro_n :: int
  ro_count :: int
  ro_up_to :: bool
  ro_text :: rtext

record estimate =
  es_where :: site
  es_rows :: "row list"
  es_count :: int
  es_bytes :: int
  es_summary :: rtext

definition code_estimate_off :: string where "code_estimate_off = ''estimate_off''"

text \<open>\<open>strings.ToUpper\<close> of the first letter of an ASCII label.\<close>

definition capitalised :: "string \<Rightarrow> string" where
  "capitalised l = (case l of [] \<Rightarrow> [] | c # cs \<Rightarrow>
     (if 97 \<le> (of_char c :: nat) \<and> (of_char c :: nat) \<le> 122 then char_of (of_char c - (32 :: nat)) else c) # cs)"

definition rule_row :: "bool \<Rightarrow> string \<Rightarrow> int \<Rightarrow> int \<Rightarrow> bool \<Rightarrow> string \<Rightarrow> row" where
  "rule_row on rule n cnt up label =
     (let c = (if on then cnt else 0); u = (on \<and> up);
          t = capitalised label @ (if \<not> on then [] else if up then '': up to '' @ itoa cnt else '': '' @ itoa cnt)
      in \<lparr>ro_rule = rule, ro_n = n, ro_count = c, ro_up_to = u,
          ro_text = \<lparr>tx_code = ''estimate_'' @ rule, tx_params = [(''n'', itoa n), (''count'', itoa c), (''upTo'', format_bool u)],
            tx_text = t @ ''.''\<rparr>\<rparr>)"

definition rule_rows :: "rules \<Rightarrow> int \<Rightarrow> bool \<Rightarrow> row list" where
  "rule_rows r hours on =
     (if 0 < ru_hours r then [rule_row on ''hours'' (ru_hours r) hours True (hours_phrase (ru_hours r))] else [])
     @ (if 0 < ru_last r then [rule_row on ''last'' (ru_last r) (ru_last r) False (last_phrase (ru_last r))] else [])
     @ (if 0 < ru_daily r then [rule_row on ''daily'' (ru_daily r) (ru_daily r) False (daily_phrase (ru_daily r))] else [])
     @ (if 0 < ru_weekly r then [rule_row on ''weekly'' (ru_weekly r) (ru_weekly r) False (weekly_phrase (ru_weekly r))] else [])
     @ (if 0 < ru_monthly r then [rule_row on ''monthly'' (ru_monthly r) (ru_monthly r) False (monthly_phrase (ru_monthly r))] else [])"

text \<open>One period rule of \<open>steady\<close>: \<open>n\<close> turns from the backup with number \<open>k\<close>, with the numbers counted
  beyond the run. Divisions of a distance in time truncate.\<close>

fun steady_loop :: "zone \<Rightarrow> periodic \<Rightarrow> gotime \<Rightarrow> duration \<Rightarrow> int \<Rightarrow> nat \<Rightarrow> int \<Rightarrow> int list \<Rightarrow> int list" where
  "steady_loop z of' newest every run 0 k extra = extra"
| "steady_loop z of' newest every run (Suc n) k extra =
     (let extra = (if run \<le> k \<and> k \<notin> set extra then extra @ [k] else extra);
          first = snd (of' (newest - k * every));
          begins = date_in z (wall_day z first * 86400) * second
      in steady_loop z of' newest every run n (max (quot (time_sub newest begins) every + 1) (k + 1)) extra)"

definition steady :: "rules \<Rightarrow> gotime \<Rightarrow> duration \<Rightarrow> int \<Rightarrow> zone \<Rightarrow> int" where
  "steady r newest every hours z =
     (let run = max (max hours (ru_last r)) 1;
          extra = steady_loop z (day_of z) newest every run (nat (ru_daily r)) 0 [];
          extra = steady_loop z (week_of z) newest every run (nat (ru_weekly r)) 0 extra;
          extra = steady_loop z (month_of z) newest every run (nat (ru_monthly r)) 0 extra
      in run + int (length extra))"

definition estimate_hours :: "rules \<Rightarrow> duration \<Rightarrow> int" where
  "estimate_hours r every = (if 0 < ru_hours r then quot (ru_hours r * hour + every - 1) every else 0)"

definition estimate_count :: "rules \<Rightarrow> duration \<Rightarrow> int \<Rightarrow> zone \<Rightarrow> int" where
  "estimate_count r every hours z =
     (let start = date_in z (day_number 2026 1 5 * 86400) * second
      in foldl (\<lambda>c h. max c (steady r (start + int h * hour) every hours z)) 0 [0..<168])"

definition estimate_for :: "retention_settings \<Rightarrow> site \<Rightarrow> pace \<Rightarrow> estimate" where
  "estimate_for s w p =
     (let r = rules_for s w; z = (case pa_location p of None \<Rightarrow> utc | Some z \<Rightarrow> z);
          manual = \<lparr>ro_rule = ''manual'', ro_n = 0, ro_count = 0, ro_up_to = False,
            ro_text = \<lparr>tx_code = ''estimate_manual'', tx_params = [(''includeManual'', format_bool (rs_include_manual s))],
              tx_text = (if rs_include_manual s then ''Backups you make by hand: the rules above count them like the others.''
                         else ''Backups you make by hand: kept until you delete them.'')\<rparr>\<rparr>;
          params = [(''where'', where_str w)]
      in if ru_keep_all r
         then \<lparr>es_where = w,
            es_rows = [\<lparr>ro_rule = ''keep_all'', ro_n = 0, ro_count = -1, ro_up_to = False,
              ro_text = \<lparr>tx_code = ''estimate_keep_all'', tx_params = [], tx_text = ''Every backup: kept until you delete it.''\<rparr>\<rparr>],
            es_count = -1, es_bytes = -1,
            es_summary = \<lparr>tx_code = ''estimate_keep_all'', tx_params = params,
              tx_text = ''Keeps every backup '' @ place w @ '', so they take more space over time.''\<rparr>\<rparr>
         else if pa_every p \<le> 0
         then \<lparr>es_where = w, es_rows = rule_rows r 0 False @ [manual], es_count = 0, es_bytes = 0,
            es_summary = \<lparr>tx_code = code_estimate_off, tx_params = params,
              tx_text = ''Automatic backups are off, so the rules have nothing to keep yet.''\<rparr>\<rparr>
         else let every = max (pa_every p) minute; hours = estimate_hours r every;
                  rows = rule_rows r hours True @ [manual]; sum = sum_list (map ro_count rows);
                  cnt = estimate_count r every hours z; bytes = cnt * max (pa_bytes p) 0
              in \<lparr>es_where = w, es_rows = rows, es_count = cnt, es_bytes = bytes,
                  es_summary = \<lparr>tx_code = ''estimate'',
                    tx_params = params @ [(''count'', itoa cnt), (''bytes'', itoa bytes), (''rulesSum'', itoa sum)],
                    tx_text = ''About '' @ itoa cnt @ '' '' @ plural_of cnt ''backup'' ''backups'' @ '', roughly '' @ human_bytes bytes
                      @ '', '' @ place w @ ''.'' @ (if cnt < sum then '' Some backups count for more than one rule.'' else [])\<rparr>\<rparr>)"

subsection \<open>The check\<close>

lemma first_error_None: "first_error es = None \<longleftrightarrow> list_all (\<lambda>e. e = None) es"
  by (induction es rule: first_error.induct) simp_all

lemma first_error_Some: "first_error es = Some e \<Longrightarrow> Some e \<in> set es"
  by (induction es rule: first_error.induct) simp_all

definition in_range :: "rules \<Rightarrow> bool" where
  "in_range r \<longleftrightarrow> ru_hours r \<in> {0..max_hours} \<and> ru_last r \<in> {0..max_last} \<and> ru_daily r \<in> {0..max_daily}
     \<and> ru_weekly r \<in> {0..max_weekly} \<and> ru_monthly r \<in> {0..max_monthly}"

lemma rule_checks_None: "list_all (\<lambda>e. e = None) (rule_checks f r) \<longleftrightarrow> in_range r"
  by (auto simp: rule_checks_def range_check_def in_range_def)

lemma range_check_Some: "Some e = range_check f v lo hi \<Longrightarrow> re_value e < re_min e \<or> re_max e < re_value e"
  by (simp add: range_check_def split: if_split_asm)

lemma rule_checks_Some: "Some e \<in> set (rule_checks f r) \<Longrightarrow> re_value e < re_min e \<or> re_max e < re_value e"
  unfolding rule_checks_def list.set by (elim insertE emptyE range_check_Some)

definition rules_at :: "retention_settings \<Rightarrow> site \<Rightarrow> rules" where
  "rules_at s w = (case w of Off_Site \<Rightarrow> rs_off_site s | On_Host \<Rightarrow> rs_on_host s)"

lemma clamp_id: "min (max v 0) hi = v \<longleftrightarrow> v \<in> {0..hi}" if "0 \<le> hi" for v hi :: int
  using that by auto

lemma rules_update_id:
  "r\<lparr>ru_hours := a, ru_last := b, ru_daily := c, ru_weekly := d, ru_monthly := e\<rparr> = r
    \<longleftrightarrow> a = ru_hours r \<and> b = ru_last r \<and> c = ru_daily r \<and> d = ru_weekly r \<and> e = ru_monthly r"
  by (cases r) auto

lemma rules_for_id: "rules_for s w = rules_at s w \<longleftrightarrow> in_range (rules_at s w)"
proof -
  have range: "0 \<le> max_hours" "0 \<le> max_last" "0 \<le> max_daily" "0 \<le> max_weekly" "0 \<le> max_monthly"
    by (simp_all add: max_hours_def max_last_def max_daily_def max_weekly_def max_monthly_def)
  have "(if w = Off_Site then rs_off_site s else rs_on_host s) = rules_at s w" by (cases w) (simp_all add: rules_at_def)
  then show ?thesis
    by (simp only: rules_for_def Let_def rules_update_id clamp_id [OF range(1)] clamp_id [OF range(2)] clamp_id [OF range(3)]
        clamp_id [OF range(4)] clamp_id [OF range(5)] in_range_def)
qed

text \<open>Settings pass the check exactly when both places use their numbers as they are, and a refused number is
  named with bounds it is really outside of.\<close>

theorem valid_rules_apply_unchanged:
  "(validate_rules s = None \<longleftrightarrow> (\<forall>w. rules_for s w = rules_at s w))
   \<and> (case validate_rules s of None \<Rightarrow> True | Some e \<Rightarrow> re_value e < re_min e \<or> re_max e < re_value e)"
proof
  have "(\<forall>w. in_range (rules_at s w)) \<longleftrightarrow> in_range (rs_on_host s) \<and> in_range (rs_off_site s)"
    by (metis (full_types) rules_at_def site.exhaust site.simps(3,4))
  then show "validate_rules s = None \<longleftrightarrow> (\<forall>w. rules_for s w = rules_at s w)"
    by (simp add: validate_rules_def first_error_None rule_checks_None rules_for_id)
  show "case validate_rules s of None \<Rightarrow> True | Some e \<Rightarrow> re_value e < re_min e \<or> re_max e < re_value e"
  proof (cases "validate_rules s")
    case (Some e)
    then have "Some e \<in> set (rule_checks ''onHost'' (rs_on_host s)) \<or> Some e \<in> set (rule_checks ''offSite'' (rs_off_site s))"
      unfolding validate_rules_def using first_error_Some by (metis Un_iff set_append)
    then have "re_value e < re_min e \<or> re_max e < re_value e" by (elim disjE rule_checks_Some)
    then show ?thesis by (simp add: Some)
  qed simp
qed

subsection \<open>The estimate\<close>

lemma steady_loop_length:
  "length (steady_loop z of' newest every run n k extra) \<le> length extra + (if k < run then n - 1 else n)
   \<and> length extra \<le> length (steady_loop z of' newest every run n k extra)"
proof (induction z of' newest every run n k extra rule: steady_loop.induct)
  case (2 z of' newest every run n k extra)
  show ?case
    using "2.IH" [OF refl refl refl] by (auto simp: Let_def split: if_splits)
qed simp

definition beyond :: "int \<Rightarrow> int" where "beyond n = max 0 (n - 1)"

lemma steady_bounds:
  "max (max hours (ru_last r)) 1 \<le> steady r newest every hours z"
  "steady r newest every hours z
     \<le> max (max hours (ru_last r)) 1 + beyond (ru_daily r) + beyond (ru_weekly r) + beyond (ru_monthly r)"
proof -
  define run where "run = max (max hours (ru_last r)) 1"
  define d where "d = steady_loop z (day_of z) newest every run (nat (ru_daily r)) 0 []"
  define w where "w = steady_loop z (week_of z) newest every run (nat (ru_weekly r)) 0 d"
  define m where "m = steady_loop z (month_of z) newest every run (nat (ru_monthly r)) 0 w"
  have s: "steady r newest every hours z = run + int (length m)"
    by (simp add: steady_def Let_def run_def d_def w_def m_def)
  have "0 < run" by (simp add: run_def)
  then have "length d \<le> nat (ru_daily r) - 1" "length w \<le> length d + (nat (ru_weekly r) - 1)"
    "length m \<le> length w + (nat (ru_monthly r) - 1)"
    using steady_loop_length [of z "day_of z" newest every run "nat (ru_daily r)" 0 "[]"]
      steady_loop_length [of z "week_of z" newest every run "nat (ru_weekly r)" 0 d]
      steady_loop_length [of z "month_of z" newest every run "nat (ru_monthly r)" 0 w]
    by (simp_all add: d_def w_def m_def)
  then show "max (max hours (ru_last r)) 1 \<le> steady r newest every hours z"
    "steady r newest every hours z
     \<le> max (max hours (ru_last r)) 1 + beyond (ru_daily r) + beyond (ru_weekly r) + beyond (ru_monthly r)"
    unfolding s run_def [symmetric] beyond_def by linarith+
qed

lemma fold_max_bounds:
  assumes "xs \<noteq> []" and "\<And>x. lo \<le> f x" and "\<And>x. f x \<le> hi" and "c \<le> hi"
  shows "lo \<le> foldl (\<lambda>c x. max c (f x)) c xs \<and> foldl (\<lambda>c x. max c (f x)) c xs \<le> (hi :: int)"
proof -
  have "max c (foldl (\<lambda>c x. max c (f x)) c xs) = foldl (\<lambda>c x. max c (f x)) c xs" for c
    by (induction xs arbitrary: c) (simp, simp, metis max.assoc max.commute max.left_idem)
  moreover have "foldl (\<lambda>c x. max c (f x)) c xs \<le> hi" if "c \<le> hi" for c
    using that by (induction xs arbitrary: c) (simp_all add: assms(3))
  moreover have "\<exists>x c'. foldl (\<lambda>c x. max c (f x)) c xs = max c' (f x)"
    using assms(1) by (induction xs rule: rev_induct) auto
  ultimately show ?thesis using assms(2,4) by (metis max.coboundedI2)
qed

lemma estimate_count_bounds:
  "max (max hours (ru_last r)) 1 \<le> estimate_count r every hours z"
  "estimate_count r every hours z
     \<le> max (max hours (ru_last r)) 1 + beyond (ru_daily r) + beyond (ru_weekly r) + beyond (ru_monthly r)"
proof -
  define lo where "lo = max (max hours (ru_last r)) 1"
  define hi where "hi = lo + beyond (ru_daily r) + beyond (ru_weekly r) + beyond (ru_monthly r)"
  have "(0 :: int) \<le> hi" by (simp add: hi_def lo_def beyond_def)
  then have "lo \<le> estimate_count r every hours z \<and> estimate_count r every hours z \<le> hi"
    unfolding estimate_count_def Let_def
    by (intro fold_max_bounds) (use steady_bounds [where hours = hours and r = r, folded lo_def, folded hi_def] in auto)
  then show "max (max hours (ru_last r)) 1 \<le> estimate_count r every hours z"
    "estimate_count r every hours z
     \<le> max (max hours (ru_last r)) 1 + beyond (ru_daily r) + beyond (ru_weekly r) + beyond (ru_monthly r)"
    by (simp_all add: lo_def hi_def)
qed

lemma rule_rows_sum:
  assumes "0 \<le> ru_last r" "0 \<le> ru_daily r" "0 \<le> ru_weekly r" "0 \<le> ru_monthly r" "0 < ru_hours r \<or> hours = 0"
  shows "sum_list (map ro_count (rule_rows r hours True)) = hours + ru_last r + ru_daily r + ru_weekly r + ru_monthly r"
  using assms by (auto simp: rule_rows_def rule_row_def Let_def)

text \<open>With automatic backups on, the estimated number of backups is at least what the hours and the last
  rule keep and at least one, and at most the sum of the editor's rows (one when no rule keeps any).\<close>

theorem estimate_within_rows:
  assumes "\<not> ru_keep_all (rules_for s w)" and "0 < pa_every p"
  shows "let e = estimate_for s w p; sum = sum_list (map ro_count (es_rows e))
    in 1 \<le> es_count e \<and> ru_last (rules_for s w) \<le> es_count e
     \<and> estimate_hours (rules_for s w) (max (pa_every p) minute) \<le> es_count e
     \<and> es_count e \<le> max 1 sum \<and> es_bytes e = es_count e * max (pa_bytes p) 0"
proof -
  define r where "r = rules_for s w"
  define every where "every = max (pa_every p) minute"
  define hours where "hours = estimate_hours r every"
  define z where "z = (case pa_location p of None \<Rightarrow> utc | Some z \<Rightarrow> z)"
  define sum where "sum = hours + ru_last r + ru_daily r + ru_weekly r + ru_monthly r"
  note range = rules_range [of s w, folded r_def]
  have h: "0 < ru_hours r \<or> hours = 0" "0 \<le> hours"
    by (auto simp: hours_def estimate_hours_def every_def intro!: pos_imp_zdiv_nonneg_iff [THEN iffD2])
  have count: "es_count (estimate_for s w p) = estimate_count r every hours z"
    using assms by (simp add: estimate_for_def r_def every_def hours_def z_def Let_def)
  have bytes: "es_bytes (estimate_for s w p) = es_count (estimate_for s w p) * max (pa_bytes p) 0"
    using assms by (simp add: estimate_for_def Let_def)
  have sum: "sum_list (map ro_count (es_rows (estimate_for s w p))) = sum"
    using assms rule_rows_sum [OF range h(1)]
    by (simp add: estimate_for_def r_def [symmetric] every_def [symmetric] hours_def [symmetric] sum_def Let_def)
  show ?thesis
    unfolding Let_def r_def [symmetric] every_def [symmetric] hours_def [symmetric] bytes sum count
    using estimate_count_bounds [where hours = hours and r = r and every = every and z = z] range h(2) unfolding sum_def beyond_def
    by (simp add: max_def split: if_splits)
qed

subsection \<open>Examples\<close>

theorem estimate_within_rows_witness:
  "let e = estimate_for default_settings On_Host \<lparr>pa_every = 6 * hour, pa_bytes = 1000, pa_location = None\<rparr>
   in 4 \<le> es_count e \<and> es_count e \<le> 15"
proof -
  let ?p = "\<lparr>pa_every = 6 * hour, pa_bytes = 1000, pa_location = None\<rparr>"
  have r: "\<not> ru_keep_all (rules_for default_settings On_Host)" by (simp add: rules_for_def default_settings_def Let_def)
  have h: "estimate_hours (rules_for default_settings On_Host) (6 * hour) = 4"
    by (simp add: rules_for_def default_settings_def estimate_hours_def Let_def max_hours_def)
  have "sum_list (map ro_count (es_rows (estimate_for default_settings On_Host ?p))) = 15"
    by (simp add: estimate_for_def rules_for_def default_settings_def estimate_hours_def Let_def max_hours_def
        max_last_def max_daily_def max_weekly_def max_monthly_def rule_rows_def rule_row_def)
  then show ?thesis
    using estimate_within_rows [OF r, of ?p] unfolding Let_def by (simp add: h [simplified])
qed

end
