(* ===== verification/Invite_Roles.thy ===== *)
theory Invite_Roles
  imports Go_Dates
begin

section \<open>Roles, scopes and allowances (internal/invites: errors.go, roles.go, scope.go, allowance.go)\<close>

text \<open>
  Who may give which rights to whom. An \<open>*Error\<close> is the record \<open>ierror\<close> with its English text;
  a function that returns an error returns \<open>Some\<close> of it, or \<open>None\<close>. Roles are strings, as in the
  code. The main theorems: a scope lies within another exactly when it covers no other server, the
  servers column is read back as it was written, and (in Team) no sequence of changes made by team members
  other than the owner makes or unmakes an admin or reaches a server beyond their own.
\<close>

subsection \<open>Refusals\<close>

record ierror =
  ie_code :: string
  ie_params :: "(string \<times> string) list"
  ie_msg :: string
  ie_hint :: string
  ie_status :: int
  ie_retry_after :: duration
  ie_reason :: string

definition ierror_of :: "string \<Rightarrow> int \<Rightarrow> (string \<times> string) list \<Rightarrow> string \<Rightarrow> string \<Rightarrow> ierror" where
  "ierror_of c st ps msg hint = \<lparr>ie_code = c, ie_params = ps, ie_msg = msg, ie_hint = hint, ie_status = st,
     ie_retry_after = 0, ie_reason = []\<rparr>"

definition code_not_working :: string where "code_not_working = ''invite_not_working''"
definition code_expired :: string where "code_expired = ''invite_expired''"
definition code_used_up :: string where "code_used_up = ''invite_used_up''"
definition code_bad_options :: string where "code_bad_options = ''invite_options_invalid''"
definition code_role_unknown :: string where "code_role_unknown = ''invite_role_unknown''"
definition code_role_not_allowed :: string where "code_role_not_allowed = ''invite_role_not_allowed''"
definition code_servers_not_allowed :: string where "code_servers_not_allowed = ''invite_servers_not_allowed''"
definition code_players_not_allowed :: string where "code_players_not_allowed = ''players_not_allowed''"
definition code_two_factor_required :: string where "code_two_factor_required = ''two_factor_required''"
definition code_owner_fixed :: string where "code_owner_fixed = ''team_owner_fixed''"
definition code_not_yourself :: string where "code_not_yourself = ''team_not_yourself''"
definition code_member_not_allowed :: string where "code_member_not_allowed = ''team_member_not_allowed''"

record requirement =
  rq_code :: string
  rq_text :: string
  rq_hint :: string

definition two_factor_requirement :: requirement where
  "two_factor_requirement = \<lparr>rq_code = code_two_factor_required,
     rq_text = ''Set up two-factor sign-in before you can use admin rights.'', rq_hint = ''Turn it on from the Account page.''\<rparr>"

definition two_factor_required :: ierror where
  "two_factor_required = ierror_of (rq_code two_factor_requirement) 403 [] (rq_text two_factor_requirement) (rq_hint two_factor_requirement)"

definition bad_options :: "string \<Rightarrow> string \<Rightarrow> (string \<times> string) list \<Rightarrow> ierror" where
  "bad_options f msg ps = ierror_of code_bad_options 400 ((''field'', f) # ps) msg []"

definition install_owner :: string where "install_owner = ''owner''"
definition install_member :: string where "install_member = ''member''"
definition role_admin :: string where "role_admin = ''admin''"
definition role_moderator :: string where "role_moderator = ''moderator''"
definition role_viewer :: string where "role_viewer = ''viewer''"

definition role_unknown :: ierror where
  "role_unknown = ierror_of code_role_unknown 400 [] ''That is not a project role.'' ''Choose admin, moderator or viewer.''"

definition role_not_allowed :: "string \<Rightarrow> ierror" where
  "role_not_allowed r =
     (if r = install_owner
      then ierror_of code_role_not_allowed 403 [(''role'', r)] ''Invites can't make someone the owner.''
             ''Each Playkeeper has one owner: the account that set it up.''
      else ierror_of code_role_not_allowed 403 [(''role'', r)] (''You can't give the '' @ r @ '' role.'')
             ''Ask the owner of this Playkeeper to send the invite.'')"

definition owner_fixed :: ierror where
  "owner_fixed = ierror_of code_owner_fixed 403 [] ''The owner's role can't be changed, and the owner can't be removed.''
     ''Each Playkeeper has one owner: the account that set it up.''"

definition not_yourself :: ierror where
  "not_yourself = ierror_of code_not_yourself 403 [] ''You can't change your own role or remove yourself.''
     ''Ask the owner of this Playkeeper.''"

definition member_not_allowed :: ierror where
  "member_not_allowed = ierror_of code_member_not_allowed 403 [] ''You can't change this team member.''
     ''Admins can change moderators and viewers of their own servers. Ask the owner for anything else.''"

definition servers_not_allowed :: ierror where
  "servers_not_allowed = ierror_of code_servers_not_allowed 403 [] ''You can only give access to servers you can use yourself.''
     ''Choose from your servers, or ask the owner to send the invite.''"

definition players_not_allowed :: ierror where
  "players_not_allowed = ierror_of code_players_not_allowed 403 [] ''You can't let players into this server.''
     ''Ask an admin to make you a moderator of it.''"

definition allowance_not_allowed :: ierror where
  "allowance_not_allowed = ierror_of code_role_not_allowed 403 [] ''Only the owner can invite creators.''
     ''Ask the owner of this Playkeeper to send the invite.''"

subsection \<open>Ids and scopes\<close>

definition id_alphabet :: string where "id_alphabet = ''abcdefghijkmnpqrstuvwxyz23456789''"

definition valid_id :: "string \<Rightarrow> bool" where
  "valid_id i \<longleftrightarrow> length i = 10 \<and> list_all (\<lambda>c. c \<in> set id_alphabet) i"

definition ref_char :: "char \<Rightarrow> bool" where
  "ref_char c \<longleftrightarrow> 97 \<le> code c \<and> code c \<le> 122 \<or> 50 \<le> code c \<and> code c \<le> 57"

definition valid_ref :: "string \<Rightarrow> bool" where
  "valid_ref s \<longleftrightarrow> length s = 10 \<and> list_all ref_char s"

record scope =
  sc_all :: bool
  sc_servers :: "string list"

definition max_scope_servers :: nat where "max_scope_servers = 100"

definition all_servers :: scope where "all_servers = \<lparr>sc_all = True, sc_servers = []\<rparr>"
definition only_servers :: "string list \<Rightarrow> scope" where "only_servers ids = \<lparr>sc_all = False, sc_servers = ids\<rparr>"
definition zero_scope :: scope where "zero_scope = \<lparr>sc_all = False, sc_servers = []\<rparr>"

definition covers :: "scope \<Rightarrow> string \<Rightarrow> bool" where
  "covers s i \<longleftrightarrow> valid_ref i \<and> (sc_all s \<or> i \<in> set (sc_servers s))"

definition within :: "scope \<Rightarrow> scope \<Rightarrow> bool" where
  "within s outer =
     (if sc_all outer then True else if sc_all s then False
      else list_all (\<lambda>i. i \<in> set (sc_servers outer)) (sc_servers s))"

definition overlaps :: "scope \<Rightarrow> scope \<Rightarrow> bool" where
  "overlaps s t =
     (if sc_all s \<and> sc_all t then True
      else if sc_all s then 0 < length (sc_servers t)
      else if sc_all t then 0 < length (sc_servers s)
      else list_ex (\<lambda>i. i \<in> set (sc_servers t)) (sc_servers s))"

definition sorted_scope :: "scope \<Rightarrow> scope" where
  "sorted_scope s = (if sc_all s then all_servers else only_servers (stable_sort cmp_string (sc_servers s)))"

definition scope_string :: "scope \<Rightarrow> string" where
  "scope_string s = (if sc_all s then ''*'' else join '','' (sc_servers (sorted_scope s)))"

fun each_once :: "string list \<Rightarrow> string list \<Rightarrow> bool" where
  "each_once before [] = True"
| "each_once before (i # is) = (if \<not> valid_ref i \<or> i \<in> set before then False else each_once (before @ [i]) is)"

definition scope_check :: "scope \<Rightarrow> ierror option" where
  "scope_check s =
     (if sc_all s \<and> 0 < length (sc_servers s) then Some (bad_options ''servers'' ''Choose all servers or some of them, not both.'' [])
      else if sc_all s then None
      else if length (sc_servers s) = 0 then Some (bad_options ''servers'' ''Choose all servers, or at least one server.'' [])
      else if max_scope_servers < length (sc_servers s)
      then Some (bad_options ''servers'' (''Choose at most '' @ itoa (int max_scope_servers) @ '' servers, or all of them.'')
                   [(''max'', itoa (int max_scope_servers))])
      else if each_once [] (sc_servers s) then None
      else Some (bad_options ''servers'' ''Choose servers from this project, each once.'' []))"

text \<open>\<open>ParseScope\<close>: \<open>None\<close> stands for its error.\<close>

definition parse_scope :: "string \<Rightarrow> scope option" where
  "parse_scope col =
     (if col = ''*'' then Some all_servers
      else let s = only_servers (split_on (CHR '','') col)
           in if scope_check s \<noteq> None then None else Some (sorted_scope s))"

definition narrow_scope :: "scope \<Rightarrow> string list \<Rightarrow> scope \<times> bool" where
  "narrow_scope s existing =
     (if sc_all s then (all_servers, True)
      else let kept = filter (\<lambda>i. i \<in> set existing) (sc_servers s) in (only_servers kept, 0 < length kept))"

subsection \<open>Allowances\<close>

record allowance =
  al_servers :: int
  al_memory_mb :: int
  al_disk_gb :: int

definition zero_allowance :: allowance where "zero_allowance = \<lparr>al_servers = 0, al_memory_mb = 0, al_disk_gb = 0\<rparr>"

definition max_allowance_servers :: int where "max_allowance_servers = 10"
definition min_allowance_memory_mb :: int where "min_allowance_memory_mb = 1024"
definition max_allowance_memory_mb :: int where "max_allowance_memory_mb = 65536"
definition max_allowance_disk_gb :: int where "max_allowance_disk_gb = 4096"

definition allowance_is_zero :: "allowance \<Rightarrow> bool" where
  "allowance_is_zero al \<longleftrightarrow> al = zero_allowance"

definition disk_bytes :: "allowance \<Rightarrow> int" where
  "disk_bytes al = (if 0 < al_disk_gb al then al_disk_gb al * 2 ^ 30 else al_memory_mb al * 15 * 2 ^ 19)"

definition allowance_check :: "allowance \<Rightarrow> ierror option" where
  "allowance_check al =
     (if al_servers al < 1 \<or> max_allowance_servers < al_servers al
      then Some (bad_options ''allowance'' (''Allow 1 to '' @ itoa max_allowance_servers @ '' servers.'') [(''max'', itoa max_allowance_servers)])
      else if al_memory_mb al < min_allowance_memory_mb \<or> max_allowance_memory_mb < al_memory_mb al \<or> al_memory_mb al mod 512 \<noteq> 0
      then Some (bad_options ''allowance'' ''Allow 1 to 64 GB of memory, in steps of 0.5 GB.'' [])
      else if al_disk_gb al < 0 \<or> max_allowance_disk_gb < al_disk_gb al
      then Some (bad_options ''allowance'' (''Allow up to '' @ itoa max_allowance_disk_gb
                   @ '' GB of disk, or leave it to the default from the memory.'') [])
      else None)"

subsection \<open>Roles\<close>

definition project_roles :: "string list" where "project_roles = [role_admin, role_moderator, role_viewer]"

definition rank :: "string \<Rightarrow> nat" where
  "rank r = (if r = role_admin then 3 else if r = role_moderator then 2 else if r = role_viewer then 1 else 0)"

record account =
  ac_user_id :: int
  ac_name :: string
  ac_install_role :: string
  ac_project_role :: string
  ac_servers :: scope
  ac_two_factor :: bool
  ac_allowance :: allowance

definition requires_two_factor :: "string \<Rightarrow> string \<Rightarrow> bool" where
  "requires_two_factor install project \<longleftrightarrow> install \<noteq> install_owner \<and> project = role_admin"

definition can_give :: "account \<Rightarrow> string \<Rightarrow> ierror option" where
  "can_give a r =
     (if r = install_owner then Some (role_not_allowed r)
      else if rank r = 0 then Some role_unknown
      else if ac_install_role a = install_owner then None
      else if ac_install_role a \<noteq> install_member \<or> ac_project_role a \<noteq> role_admin \<or> rank role_admin \<le> rank r
      then Some (role_not_allowed r)
      else if requires_two_factor (ac_install_role a) (ac_project_role a) \<and> \<not> ac_two_factor a then Some two_factor_required
      else None)"

definition can_grant :: "account \<Rightarrow> string \<Rightarrow> scope \<Rightarrow> ierror option" where
  "can_grant a r s =
     (case can_give a r of Some e \<Rightarrow> Some e | None \<Rightarrow>
        case scope_check s of Some e \<Rightarrow> Some e | None \<Rightarrow>
          if ac_install_role a \<noteq> install_owner \<and> \<not> within s (ac_servers a) then Some servers_not_allowed else None)"

definition grantable_roles :: "account \<Rightarrow> string list" where
  "grantable_roles a = filter (\<lambda>r. can_give a r = None) project_roles"

definition at_least :: "string \<Rightarrow> string \<Rightarrow> bool" where
  "at_least r low \<longleftrightarrow> 0 < rank low \<and> rank low \<le> rank r"

definition can_touch :: "account \<Rightarrow> account \<Rightarrow> ierror option" where
  "can_touch a target =
     (if ac_install_role target = install_owner then Some owner_fixed
      else if ac_user_id a = ac_user_id target then Some not_yourself
      else if ac_install_role a = install_owner then None
      else if ac_install_role a \<noteq> install_member \<or> ac_project_role a \<noteq> role_admin
              \<or> rank role_admin \<le> rank (ac_project_role target) then Some member_not_allowed
      else if \<not> ac_two_factor a then Some two_factor_required
      else if \<not> within (ac_servers target) (ac_servers a) then Some servers_not_allowed
      else None)"

definition can_edit :: "account \<Rightarrow> account \<Rightarrow> string \<Rightarrow> scope \<Rightarrow> ierror option" where
  "can_edit a target r s = (case can_touch a target of Some e \<Rightarrow> Some e | None \<Rightarrow> can_grant a r s)"

definition narrows :: "account \<Rightarrow> string \<Rightarrow> scope \<Rightarrow> bool" where
  "narrows target r s \<longleftrightarrow> rank r \<noteq> 0 \<and> rank r \<le> rank (ac_project_role target) \<and> within s (ac_servers target)"

definition can_remove :: "account \<Rightarrow> account \<Rightarrow> ierror option" where
  "can_remove a target = can_touch a target"

definition can_let_players_in :: "account \<Rightarrow> string \<Rightarrow> ierror option" where
  "can_let_players_in a i =
     (if ac_install_role a = install_owner \<and> valid_ref i then None
      else if ac_install_role a = install_member \<and> rank role_moderator \<le> rank (ac_project_role a) \<and> covers (ac_servers a) i then None
      else Some players_not_allowed)"

definition can_grant_allowance :: "account \<Rightarrow> allowance \<Rightarrow> ierror option" where
  "can_grant_allowance a al = (if ac_install_role a \<noteq> install_owner then Some allowance_not_allowed else allowance_check al)"

subsection \<open>Valid scopes\<close>

lemma each_once_iff: "each_once before is \<longleftrightarrow> list_all valid_ref is \<and> distinct is \<and> set before \<inter> set is = {}"
  by (induction before "is" rule: each_once.induct) auto

lemma scope_check_iff:
  "scope_check s = None \<longleftrightarrow>
     (if sc_all s then sc_servers s = []
      else sc_servers s \<noteq> [] \<and> length (sc_servers s) \<le> max_scope_servers \<and> list_all valid_ref (sc_servers s) \<and> distinct (sc_servers s))"
  by (auto simp: scope_check_def each_once_iff)

lemma scope_eq_iff: "s = t \<longleftrightarrow> sc_all s = sc_all t \<and> sc_servers s = sc_servers (t :: scope)"
  by (cases s; cases t) simp

lemma scope_simps [simp]:
  "sc_all all_servers" "sc_servers all_servers = []" "\<not> sc_all (only_servers ids)" "sc_servers (only_servers ids) = ids"
  "\<not> sc_all zero_scope" "sc_servers zero_scope = []"
  by (simp_all add: all_servers_def only_servers_def zero_scope_def)

lemma sorted_scope_simps [simp]:
  "sc_all (sorted_scope s) = sc_all s"
  "set (sc_servers (sorted_scope s)) = (if sc_all s then {} else set (sc_servers s))"
  by (simp_all add: sorted_scope_def)

lemma covers_sorted [simp]: "covers (sorted_scope s) i \<longleftrightarrow> covers s i"
  by (auto simp: covers_def)

lemma within_sorted [simp]: "scope_check s = None \<Longrightarrow> within (sorted_scope s) t \<longleftrightarrow> within s t"
  by (simp add: within_def list_all_iff)

lemma scope_check_sorted: "scope_check s = None \<Longrightarrow> scope_check (sorted_scope s) = None"
proof -
  assume c: "scope_check s = None"
  have "sc_servers (sorted_scope s) = stable_sort cmp_string (sc_servers s)" if "\<not> sc_all s" using that by (simp add: sorted_scope_def)
  moreover have "distinct (stable_sort cmp_string (sc_servers s)) \<longleftrightarrow> distinct (sc_servers s)"
    using distinct_stable_sort [of "\<lambda>x. x" cmp_string "sc_servers s"] by simp
  moreover have "stable_sort cmp_string (sc_servers s) = [] \<longleftrightarrow> sc_servers s = []"
    by (metis length_0_conv length_stable_sort)
  moreover have "sc_servers (sorted_scope s) = []" if "sc_all s" using that by (simp add: sorted_scope_def)
  ultimately show ?thesis using c by (cases "sc_all s") (simp_all add: scope_check_iff list_all_iff)
qed

lemma covers_narrow:
  "covers (fst (narrow_scope s existing)) i \<longleftrightarrow> covers s i \<and> (sc_all s \<or> i \<in> set existing)"
  by (auto simp: narrow_scope_def covers_def Let_def)

subsection \<open>A scope is within another exactly when it covers no other server\<close>

lemma many_refs: "finite S \<Longrightarrow> card S < 1024 \<Longrightarrow> \<exists>i. valid_ref i \<and> i \<notin> S"
proof (rule ccontr)
  assume S: "finite S" "card S < 1024" "\<nexists>i. valid_ref i \<and> i \<notin> S"
  let ?L = "{xs. set xs \<subseteq> {CHR ''a'', CHR ''b''} \<and> length xs = 10}"
  have "valid_ref xs" if "xs \<in> ?L" for xs
    using that by (auto simp: valid_ref_def list_all_iff ref_char_def subset_iff)
  then have "?L \<subseteq> S" using S(3) by auto
  then have "card ?L \<le> card S" by (rule card_mono [OF S(1)])
  moreover have "card ?L = 1024" by (subst card_lists_length_eq) (simp_all add: eval_nat_numeral)
  ultimately show False using S(2) by simp
qed

text \<open>For scopes that pass the check, one lies within another exactly when every server it covers, whether it
  exists or is made later, is covered by the other.\<close>

theorem within_is_inclusion:
  assumes "scope_check s = None" and "scope_check t = None"
  shows "within s t \<longleftrightarrow> (\<forall>i. covers s i \<longrightarrow> covers t i)"
proof -
  have small: "card (set (sc_servers t)) < 1024" if "\<not> sc_all t"
    using that assms(2) card_length [of "sc_servers t"] by (simp add: scope_check_iff max_scope_servers_def)
  show ?thesis
  proof
    show "\<forall>i. covers s i \<longrightarrow> covers t i" if "within s t"
      using that by (auto simp: within_def covers_def list_all_iff split: if_splits)
    show "within s t" if "\<forall>i. covers s i \<longrightarrow> covers t i"
      using that many_refs [OF _ small] assms(1) by (auto simp: within_def covers_def list_all_iff scope_check_iff)
  qed
qed

subsection \<open>The servers column\<close>

lemma insert_by_before: "list_all (\<lambda>y. c x y \<le> 0) ys \<Longrightarrow> insert_by c x ys = x # ys"
  by (cases ys) simp_all

lemma stable_sort_sorted: "sorted_wrt (\<lambda>x y. c x y \<le> 0) xs \<Longrightarrow> stable_sort c xs = xs"
  by (induction xs) (simp_all add: insert_by_before list_all_iff)

lemma sorted_scope_idem [simp]: "sorted_scope (sorted_scope s) = sorted_scope s"
  by (simp add: sorted_scope_def stable_sort_sorted string_order.sorted_stable_sort)

lemma sorted_only: "\<not> sc_all s \<Longrightarrow> only_servers (sc_servers (sorted_scope s)) = sorted_scope s"
  by (simp add: sorted_scope_def)

lemma no_comma: "valid_ref i \<Longrightarrow> CHR '','' \<notin> set i"
  by (auto simp: valid_ref_def list_all_iff ref_char_def)

lemma join_long: "list_all (\<lambda>x. 2 \<le> length x) xs \<Longrightarrow> xs \<noteq> [] \<Longrightarrow> 2 \<le> length (join sep xs)"
  by (induction sep xs rule: join.induct) auto

lemma parse_list:
  assumes "scope_check s = None" and "\<not> sc_all s"
  shows "parse_scope (join '','' (sc_servers s)) = Some (sorted_scope s)"
proof -
  have ok: "sc_servers s \<noteq> []" "list_all valid_ref (sc_servers s)" using assms by (simp_all add: scope_check_iff)
  then have "2 \<le> length (join '','' (sc_servers s))"
    by (intro join_long) (auto simp: list_all_iff valid_ref_def)
  then have "join '','' (sc_servers s) \<noteq> ''*''" by auto
  moreover have "split_on (CHR '','') (join '','' (sc_servers s)) = sc_servers s"
    by (rule split_on_join) (use ok in \<open>auto simp: list_all_iff no_comma\<close>)
  moreover have "only_servers (sc_servers s) = s" using assms(2) by (simp add: scope_eq_iff)
  ultimately show ?thesis using assms(1) by (simp add: parse_scope_def Let_def)
qed

lemma parse_string: "scope_check s = None \<Longrightarrow> parse_scope (scope_string s) = Some (sorted_scope s)"
proof (cases "sc_all s")
  case False
  assume "scope_check s = None"
  then show ?thesis using parse_list [OF scope_check_sorted] False by (simp add: scope_string_def)
qed (simp add: scope_string_def parse_scope_def sorted_scope_def)

lemma parse_scope_Some: "parse_scope col = Some t \<Longrightarrow> scope_check t = None \<and> sorted_scope t = t"
  by (auto simp: parse_scope_def Let_def scope_check_sorted split: if_splits) (simp_all add: scope_check_iff sorted_scope_def)

text \<open>A scope that passes the check is read back from the servers column with the same servers, and whatever
  the column holds, a scope read from it passes the check and is written back to the same scope.\<close>

theorem scope_column_round_trip:
  "(scope_check s = None \<longrightarrow>
      (\<exists>t. parse_scope (scope_string s) = Some t \<and> (\<forall>i. covers t i = covers s i) \<and> sc_all t = sc_all s))
   \<and> (case parse_scope col of None \<Rightarrow> True
       | Some t \<Rightarrow> scope_check t = None \<and> parse_scope (scope_string t) = Some t)"
  using parse_string [of s] parse_scope_Some parse_string by (auto split: option.split)

subsection \<open>Examples\<close>

definition ref_a :: string where "ref_a = ''aaaaaaaaaa''"
definition ref_b :: string where "ref_b = ''bbbbbbbbbb''"

lemma ref_examples [simp]: "valid_ref ref_a" "valid_ref ref_b" "ref_a \<noteq> ref_b" "ref_b \<noteq> ref_a"
  by (simp_all add: valid_ref_def ref_a_def ref_b_def ref_char_def)

theorem within_is_inclusion_witness: "\<not> within all_servers (only_servers [ref_a]) \<and> within (only_servers [ref_a]) (only_servers [ref_b, ref_a])"
  using within_is_inclusion [of "only_servers [ref_a]" "only_servers [ref_b, ref_a]"]
  by (simp add: scope_check_iff max_scope_servers_def covers_def within_def)

theorem scope_column_round_trip_witness:
  "\<exists>t. parse_scope (scope_string (only_servers [ref_b, ref_a])) = Some t \<and> covers t ref_a"
  using scope_column_round_trip [of "only_servers [ref_b, ref_a]" "[]"]
  by (auto simp: scope_check_iff max_scope_servers_def covers_def)

end
