(* ===== verification/Team.thy ===== *)
theory Team
  imports Invite_Roles
begin

section \<open>Changes of the team (internal/panel/team.go, workspace.go)\<close>

text \<open>
  What a signed-in account may do (\<open>access\<close>, \<open>permit\<close>), and the dashboard's handlers that change a
  member's role and servers, that confirm an admin's rights and that remove a member, on the members of
  one project. A \<open>member_row\<close> is a member as the database holds them: the columns of \<open>users\<close> and
  \<open>project_members\<close> the handlers read and write, the state of their row in \<open>customers\<close> (or the empty
  string) and when their two-factor sign-in was turned on (\<open>factorAt\<close>, 0 while it is off). Each
  handler is one step. Listing the project's servers may fail: the parameter \<open>existing\<close> is then
  \<open>None\<close>. Creating accounts, sessions, tokens, links of the member, the audit log and the change of a
  two-factor setup are not modelled here. The main theorem is that members other than the owner never
  reach beyond their own rights, whatever they do.
\<close>

subsection \<open>What an account may do\<close>

record member_row =
  mr_user_id :: int
  mr_name :: string
  mr_install_role :: string
  mr_role :: string
  mr_servers :: string
  mr_admin_factor :: int
  mr_factor :: int
  mr_allowance :: allowance
  mr_customer :: string

record access =
  xs_account :: account
  xs_factor_on :: bool
  xs_customer :: string

definition customer_active :: string where "customer_active = ''active''"
definition customer_paused :: string where "customer_paused = ''paused''"
definition customer_suspended :: string where "customer_suspended = ''suspended''"

text \<open>A servers column as the dashboard reads it: an unreadable one is no servers.\<close>

definition column_scope :: "string \<Rightarrow> scope" where
  "column_scope col = (case parse_scope col of None \<Rightarrow> zero_scope | Some sc \<Rightarrow> sc)"

definition access_of :: "member_row \<Rightarrow> access" where
  "access_of t =
     (let owner = mr_install_role t = install_owner;
          role = (if owner then role_admin else mr_role t);
          servers = (if owner then all_servers else column_scope (mr_servers t));
          factor_on = 0 < mr_factor t;
          two_factor = (factor_on \<and> (\<not> requires_two_factor (mr_install_role t) role \<or> mr_factor t = mr_admin_factor t));
          by_plan = (mr_customer t = customer_active \<or> mr_customer t = customer_paused)
      in \<lparr>xs_account = \<lparr>ac_user_id = mr_user_id t, ac_name = mr_name t, ac_install_role = mr_install_role t,
             ac_project_role = role, ac_servers = servers, ac_two_factor = (by_plan \<or> two_factor),
             ac_allowance = mr_allowance t\<rparr>,
          xs_factor_on = (by_plan \<or> factor_on), xs_customer = mr_customer t\<rparr>)"

definition is_owner :: "access \<Rightarrow> bool" where
  "is_owner a \<longleftrightarrow> ac_install_role (xs_account a) = install_owner"

definition awaiting_confirmation :: "access \<Rightarrow> bool" where
  "awaiting_confirmation a \<longleftrightarrow>
     requires_two_factor (ac_install_role (xs_account a)) (ac_project_role (xs_account a))
     \<and> xs_factor_on a \<and> \<not> ac_two_factor (xs_account a)"

definition access_covers :: "access \<Rightarrow> string \<Rightarrow> bool" where
  "access_covers a i \<longleftrightarrow> is_owner a \<or> covers (ac_servers (xs_account a)) i"

definition forbidden :: "string \<Rightarrow> string \<Rightarrow> ierror" where
  "forbidden msg hint = ierror_of ''forbidden'' 403 [] msg hint"

definition err_forbidden :: ierror where "err_forbidden = forbidden ''Your account is not allowed to do this.'' []"
definition err_no_server :: ierror where
  "err_no_server = forbidden ''You don't have access to this server.'' ''Ask an admin to add it to your servers.''"
definition err_all_servers :: ierror where
  "err_all_servers = forbidden ''Only admins of all servers can do this.'' ''Ask the owner of this Playkeeper.''"
definition err_admin_unconfirmed :: ierror where
  "err_admin_unconfirmed = ierror_of ''admin_unconfirmed'' 403 []
     ''The owner or an admin needs to confirm your Admin rights.'' ''Until then, you have Moderator rights.''"
definition err_machines_hidden :: ierror where
  "err_machines_hidden = forbidden ''Your account sees its servers, not the machines they run on.'' []"
definition err_customer_paused :: ierror where
  "err_customer_paused = forbidden ''Your plan has ended, so your servers are paused.''
     ''You can still see them and download backups. Renew your plan to start them again.''"
definition err_customer_suspended :: ierror where
  "err_customer_suspended = forbidden ''This account is suspended.'' ''Ask the owner of this Playkeeper.''"
definition err_customer_stays :: ierror where
  "err_customer_stays = ierror_of ''conflict'' 409 [] ''This is a customer's account, which follows their plan.''
     ''It pauses when their plan ends.''"

text \<open>Actions are strings, as in the code; an action \<open>act_needs\<close> does not list is the owner's alone.\<close>

definition act_manage_team :: string where "act_manage_team = ''team.manage''"
definition act_manage_account :: string where "act_manage_account = ''account.manage''"
definition act_view_machines :: string where "act_view_machines = ''machines.view''"
definition act_recover_backups :: string where "act_recover_backups = ''backups.recover''"
definition act_create_own_servers :: string where "act_create_own_servers = ''servers.create_own''"

definition paused_may :: "string list" where "paused_may = [''view'', ''backups.make'', act_manage_account]"
definition key_actions :: "string list" where
  "key_actions = [''backups.copies.manage'', ''backups.recovery_key'', act_recover_backups]"
definition machine_wide :: "string list" where "machine_wide = [''servers.create'', ''machine.manage'', ''audit.view'']"

definition act_needs :: "string \<Rightarrow> string" where
  "act_needs act =
     (if act \<in> set [''view'', act_view_machines] then role_viewer
      else if act \<in> set [''servers.run'', ''servers.console'', ''players.manage'', ''backups.make''] then role_moderator
      else if act \<in> set [''backups.restore'', ''servers.manage'', ''servers.create'', act_create_own_servers, act_manage_team,
                ''machine.manage'', ''audit.view'', ''files.view'', ''files.edit''] then role_admin
      else [])"

definition may_hold_backup_keys :: "access \<Rightarrow> bool" where
  "may_hold_backup_keys a \<longleftrightarrow> is_owner a
     \<or> ac_install_role (xs_account a) = install_member \<and> ac_project_role (xs_account a) = role_admin
        \<and> xs_factor_on a \<and> ac_two_factor (xs_account a)"

definition keys_refusal :: "access \<Rightarrow> string \<Rightarrow> ierror option" where
  "keys_refusal a act =
     (if \<not> may_hold_backup_keys a
      then (if ac_install_role (xs_account a) \<noteq> install_member \<or> ac_project_role (xs_account a) \<noteq> role_admin
            then Some err_forbidden
            else if awaiting_confirmation a then Some err_admin_unconfirmed
            else Some two_factor_required)
      else if act = act_recover_backups \<and> \<not> is_owner a \<and> \<not> sc_all (ac_servers (xs_account a)) then Some err_all_servers
      else None)"

definition is_creator :: "access \<Rightarrow> bool" where
  "is_creator a \<longleftrightarrow> \<not> is_owner a \<and> \<not> sc_all (ac_servers (xs_account a)) \<and> \<not> allowance_is_zero (ac_allowance (xs_account a))"

definition hides_machines :: "access \<Rightarrow> bool" where
  "hides_machines a \<longleftrightarrow> is_creator a \<or> xs_customer a \<noteq> []"

definition permit :: "access \<Rightarrow> string \<Rightarrow> string \<Rightarrow> ierror option" where
  "permit a act server =
     (let need = act_needs act; acc = xs_account a
      in if ac_user_id acc = 0 then Some err_forbidden
         else if server \<noteq> [] \<and> \<not> access_covers a server then Some err_no_server
         else if act = act_view_machines \<and> hides_machines a then Some err_machines_hidden
         else if xs_customer a = customer_suspended then Some err_customer_suspended
         else if xs_customer a = customer_paused \<and> act \<notin> set paused_may then Some err_customer_paused
         else if act \<in> set key_actions then keys_refusal a act
         else if is_owner a then None
         else if ac_install_role acc \<noteq> install_member then Some err_forbidden
         else if act = act_manage_account then None
         else if \<not> at_least (ac_project_role acc) need then Some err_forbidden
         else if need \<noteq> role_admin then None
         else if awaiting_confirmation a then Some err_admin_unconfirmed
         else if requires_two_factor (ac_install_role acc) (ac_project_role acc) \<and> \<not> ac_two_factor acc
         then Some two_factor_required
         else if act \<in> set machine_wide \<and> \<not> sc_all (ac_servers acc) then Some err_all_servers
         else if act = act_create_own_servers \<and> \<not> sc_all (ac_servers acc) \<and> allowance_is_zero (ac_allowance acc)
         then Some err_all_servers
         else None)"

subsection \<open>The handlers\<close>

datatype team_error = Team_Refused ierror | Edit_Creator | Servers_Unknown | Nothing_To_Confirm

definition check_grant :: "account \<Rightarrow> string \<Rightarrow> scope \<Rightarrow> string list \<Rightarrow> ierror option" where
  "check_grant a r s existing =
     (case can_grant a r s of Some e \<Rightarrow> Some e | None \<Rightarrow>
        if list_all (\<lambda>i. i \<in> set existing) (sc_servers s) then None
        else Some (bad_options ''servers'' ''Choose servers from this project, each once.'' []))"

definition member_edit :: "string list option \<Rightarrow> access \<Rightarrow> member_row \<Rightarrow> string \<Rightarrow> scope \<Rightarrow> team_error + member_row" where
  "member_edit existing a t r s =
     (let acc = xs_account a; target = xs_account (access_of t);
          confirmed = (if r = role_admin then mr_factor t else 0);
          done = Inr (t\<lparr>mr_role := r, mr_servers := scope_string s, mr_admin_factor := confirmed\<rparr>)
      in if \<not> allowance_is_zero (ac_allowance target) then Inl Edit_Creator
         else case can_edit acc target r s of Some e \<Rightarrow> Inl (Team_Refused e) | None \<Rightarrow>
           case existing of
             Some ex \<Rightarrow> (case check_grant acc r s ex of Some e \<Rightarrow> Inl (Team_Refused e) | None \<Rightarrow> done)
           | None \<Rightarrow> if \<not> narrows target r s then Inl Servers_Unknown else done)"

definition can_confirm :: "access \<Rightarrow> access \<Rightarrow> ierror option" where
  "can_confirm a t =
     (let acc = xs_account a; target = xs_account t
      in if is_owner t \<or> ac_user_id target = ac_user_id acc
            \<or> \<not> requires_two_factor (ac_install_role target) (ac_project_role target) then Some err_forbidden
         else if is_owner a then None
         else if permit a act_manage_team [] \<noteq> None then Some err_forbidden
         else if \<not> within (ac_servers target) (ac_servers acc) then Some err_no_server
         else None)"

definition member_confirm :: "access \<Rightarrow> member_row \<Rightarrow> team_error + member_row" where
  "member_confirm a t =
     (case can_confirm a (access_of t) of Some e \<Rightarrow> Inl (Team_Refused e) | None \<Rightarrow>
        if \<not> awaiting_confirmation (access_of t) \<or> mr_factor t = 0 then Inl Nothing_To_Confirm
        else Inr (if mr_role t = role_admin then t\<lparr>mr_admin_factor := mr_factor t\<rparr> else t))"

definition member_remove :: "access \<Rightarrow> member_row \<Rightarrow> ierror option" where
  "member_remove a t =
     (case can_remove (xs_account a) (xs_account (access_of t)) of Some e \<Rightarrow> Some e | None \<Rightarrow>
        if xs_customer (access_of t) \<noteq> [] then Some err_customer_stays else None)"

text \<open>The project's rows before and after a handler: those with the id in the request's path change.\<close>

definition on_member :: "int \<Rightarrow> (member_row \<Rightarrow> team_error + member_row) \<Rightarrow> member_row list \<Rightarrow> member_row list" where
  "on_member i f team = map (\<lambda>t. if mr_user_id t = i then (case f t of Inl e \<Rightarrow> t | Inr t' \<Rightarrow> t') else t) team"

definition remove_member :: "member_row list \<Rightarrow> access \<Rightarrow> int \<Rightarrow> member_row list" where
  "remove_member team a i =
     filter (\<lambda>t. \<not> (mr_user_id t = i \<and> member_remove a t = None \<and> mr_install_role t = install_member)) team"

text \<open>The changes that members other than the owner make, in any order. The routes ask \<open>permit\<close> first, and an
  actor acts with the rights the database gives them at that moment.\<close>

definition may_act :: "member_row list \<Rightarrow> member_row \<Rightarrow> bool" where
  "may_act team a \<longleftrightarrow> a \<in> set team \<and> mr_install_role a \<noteq> install_owner \<and> permit (access_of a) act_manage_team [] = None"

inductive member_step :: "member_row list \<Rightarrow> member_row list \<Rightarrow> bool" where
  edit: "may_act team a \<Longrightarrow> member_step team (on_member i (\<lambda>t. member_edit existing (access_of a) t r s) team)"
| confirm: "may_act team a \<Longrightarrow> member_step team (on_member i (member_confirm (access_of a)) team)"
| remove: "may_act team a \<Longrightarrow> member_step team (remove_member team (access_of a) i)"

subsection \<open>What a member may change\<close>

text \<open>An admin whose rights count: a member with the role whose two-factor sign-in is the one that was confirmed,
  or whose plan as a customer stands; and an admin who turned it on and waits for that.\<close>

definition acting_admin :: "member_row \<Rightarrow> bool" where
  "acting_admin t \<longleftrightarrow> mr_install_role t = install_member \<and> mr_role t = role_admin
     \<and> (mr_customer t = customer_active
        \<or> mr_customer t \<notin> {customer_paused, customer_suspended} \<and> 0 < mr_factor t \<and> mr_factor t = mr_admin_factor t)"

definition waiting_admin :: "member_row \<Rightarrow> bool" where
  "waiting_admin t \<longleftrightarrow> mr_install_role t \<noteq> install_owner \<and> mr_role t = role_admin
     \<and> mr_customer t \<notin> {customer_active, customer_paused} \<and> 0 < mr_factor t \<and> mr_factor t \<noteq> mr_admin_factor t"

definition below_admin :: "member_row \<Rightarrow> bool" where
  "below_admin t \<longleftrightarrow> mr_install_role t \<noteq> install_owner \<and> mr_role t \<noteq> role_admin"

text \<open>Some admin whose rights count may use all the servers in the member's column.\<close>

definition covered :: "member_row list \<Rightarrow> member_row \<Rightarrow> bool" where
  "covered team t \<longleftrightarrow>
     list_ex (\<lambda>a. acting_admin a \<and> within (column_scope (mr_servers t)) (column_scope (mr_servers a))) team"

text \<open>A row that the members other than the owner may have made of the team's rows.\<close>

definition edited :: "member_row \<Rightarrow> member_row \<Rightarrow> bool" where
  "edited u t \<longleftrightarrow> mr_user_id t = mr_user_id u \<and> mr_name t = mr_name u \<and> mr_install_role t = mr_install_role u
     \<and> mr_admin_factor t = 0 \<and> mr_factor t = mr_factor u \<and> mr_allowance t = mr_allowance u \<and> mr_customer t = mr_customer u"

definition within_reach :: "member_row list \<Rightarrow> member_row \<Rightarrow> bool" where
  "within_reach team t \<longleftrightarrow> below_admin t \<and> covered team t
     \<and> list_ex (\<lambda>u. below_admin u \<and> covered team u \<and> edited u t) team"

definition confirmed :: "member_row list \<Rightarrow> member_row \<Rightarrow> bool" where
  "confirmed team t \<longleftrightarrow>
     list_ex (\<lambda>u. waiting_admin u \<and> covered team u \<and> t = u\<lparr>mr_admin_factor := mr_factor u\<rparr>) team"

lemma rank_admin: "rank r \<le> rank role_admin" "rank r = rank role_admin \<longleftrightarrow> r = role_admin"
  by (auto simp: rank_def role_admin_def role_moderator_def role_viewer_def)

lemma rank_below: "rank r < rank role_admin \<longleftrightarrow> r \<noteq> role_admin"
  using rank_admin [of r] by linarith

lemma install_roles [simp]: "install_member \<noteq> install_owner"
  by (simp add: install_member_def install_owner_def)

lemma within_trans: "within s t \<Longrightarrow> within t u \<Longrightarrow> within s u"
  by (auto simp: within_def list_all_iff split: if_splits)

lemma team_needs_admin: "act_needs act_manage_team = role_admin"
  by (simp add: act_needs_def act_manage_team_def act_view_machines_def act_create_own_servers_def)

lemma account_of_member:
  "mr_install_role t \<noteq> install_owner \<Longrightarrow>
     ac_install_role (xs_account (access_of t)) = mr_install_role t \<and> ac_project_role (xs_account (access_of t)) = mr_role t
     \<and> ac_servers (xs_account (access_of t)) = column_scope (mr_servers t) \<and> ac_user_id (xs_account (access_of t)) = mr_user_id t"
  by (simp add: access_of_def Let_def)

lemma install_of [simp]: "ac_install_role (xs_account (access_of t)) = mr_install_role t"
  by (simp add: access_of_def Let_def)

text \<open>Who passes \<open>permit\<close> for the team is an admin whose rights count.\<close>

lemma actor_acts:
  assumes "mr_install_role a \<noteq> install_owner" and "permit (access_of a) act_manage_team [] = None"
  shows "acting_admin a"
proof -
  note acc = account_of_member [OF assms(1)]
  have keys: "act_manage_team \<notin> set key_actions" "act_manage_team \<notin> set paused_may" "act_manage_team \<noteq> act_manage_account"
    by (simp_all add: key_actions_def paused_may_def act_manage_team_def act_manage_account_def act_recover_backups_def)
  have owner: "\<not> is_owner (access_of a)" using assms(1) by (simp add: is_owner_def)
  have admin: "mr_install_role a = install_member \<and> mr_role a = role_admin \<and> xs_customer (access_of a) \<noteq> customer_suspended
      \<and> xs_customer (access_of a) \<noteq> customer_paused \<and> ac_two_factor (xs_account (access_of a))"
    using assms keys owner acc rank_admin [of "mr_role a"]
    by (auto simp: permit_def Let_def team_needs_admin at_least_def requires_two_factor_def rank_below split: if_splits)
  moreover have "xs_customer (access_of a) = mr_customer a" by (simp add: access_of_def Let_def)
  moreover have "requires_two_factor install_member role_admin" by (simp add: requires_two_factor_def)
  ultimately show ?thesis by (auto simp: acting_admin_def access_of_def Let_def)
qed

lemma coveredI: "may_act team a \<Longrightarrow> within (column_scope (mr_servers t)) (column_scope (mr_servers a)) \<Longrightarrow> covered team t"
  using actor_acts by (auto simp: may_act_def covered_def list_ex_iff)

text \<open>A member whom an actor may touch is not the owner, below admin and on servers the actor can use.\<close>

lemma can_touch_row:
  assumes "may_act team a" and "can_touch (xs_account (access_of a)) (xs_account (access_of t)) = None"
  shows "below_admin t \<and> covered team t"
proof -
  have a: "mr_install_role a \<noteq> install_owner" using assms(1) by (simp add: may_act_def)
  then have t: "mr_install_role t \<noteq> install_owner" and "rank (ac_project_role (xs_account (access_of t))) < rank role_admin"
    and "within (ac_servers (xs_account (access_of t))) (ac_servers (xs_account (access_of a)))"
    using assms(2) by (auto simp: can_touch_def split: if_splits)
  then show ?thesis
    using coveredI [OF assms(1)] account_of_member [OF a] account_of_member [OF t] by (simp add: below_admin_def rank_below)
qed

lemma can_grant_row:
  assumes "may_act team a" and "can_grant (xs_account (access_of a)) r s = None" and "mr_servers t = scope_string s"
  shows "r \<noteq> role_admin \<and> covered team t"
proof -
  have a: "mr_install_role a \<noteq> install_owner" using assms(1) by (simp add: may_act_def)
  then have s: "scope_check s = None" and r: "rank r < rank role_admin"
    and w: "within s (ac_servers (xs_account (access_of a)))"
    using assms(2) by (auto simp: can_grant_def can_give_def split: if_splits option.splits)
  then show ?thesis
    using coveredI [OF assms(1), of t] account_of_member [OF a]
    by (simp add: assms(3) rank_below column_scope_def parse_string)
qed

text \<open>What a handler makes of a row.\<close>

definition row_change :: "member_row list \<Rightarrow> member_row \<Rightarrow> member_row \<Rightarrow> bool" where
  "row_change team t t' \<longleftrightarrow> t' = t
     \<or> below_admin t \<and> covered team t \<and> below_admin t' \<and> covered team t' \<and> edited t t'
     \<or> waiting_admin t \<and> covered team t \<and> t' = t\<lparr>mr_admin_factor := mr_factor t\<rparr>"

lemma member_edit_change:
  assumes "may_act team a" and "member_edit existing (access_of a) t r s = Inr t'"
  shows "row_change team t t'"
proof -
  have edit: "can_edit (xs_account (access_of a)) (xs_account (access_of t)) r s = None"
    and t': "t' = t\<lparr>mr_role := r, mr_servers := scope_string s, mr_admin_factor := (if r = role_admin then mr_factor t else 0)\<rparr>"
    using assms(2) by (auto simp: member_edit_def Let_def split: if_splits option.splits)
  then have touch: "can_touch (xs_account (access_of a)) (xs_account (access_of t)) = None"
    and grant: "can_grant (xs_account (access_of a)) r s = None" by (auto simp: can_edit_def split: option.splits)
  from can_touch_row [OF assms(1) touch] can_grant_row [OF assms(1) grant, of t'] show ?thesis
    by (cases "r = role_admin") (simp_all add: row_change_def t' below_admin_def edited_def)
qed

lemma member_confirm_change:
  assumes "may_act team a" and "member_confirm (access_of a) t = Inr t'"
  shows "row_change team t t'"
proof -
  have a: "mr_install_role a \<noteq> install_owner" using assms(1) by (simp add: may_act_def)
  have conf: "can_confirm (access_of a) (access_of t) = None" and w: "awaiting_confirmation (access_of t)" and "mr_factor t \<noteq> 0"
    and t': "t' = (if mr_role t = role_admin then t\<lparr>mr_admin_factor := mr_factor t\<rparr> else t)"
    using assms(2) by (auto simp: member_confirm_def split: if_splits option.splits)
  then have t: "mr_install_role t \<noteq> install_owner"
    and inside: "within (ac_servers (xs_account (access_of t))) (ac_servers (xs_account (access_of a)))"
    using a by (auto simp: can_confirm_def Let_def is_owner_def split: if_splits)
  have "covered team t" using coveredI [OF assms(1)] inside account_of_member [OF a] account_of_member [OF t] by simp
  moreover have "waiting_admin t"
    using w t by (auto simp: waiting_admin_def awaiting_confirmation_def access_of_def Let_def requires_two_factor_def split: if_splits)
  ultimately show ?thesis by (simp add: row_change_def t' waiting_admin_def)
qed

text \<open>A team after changes: the rows of the owner and the admins are as they were but for the two-factor setup
  confirmed last, no customer is gone, and every row is as it was or within reach of the admins.\<close>

definition unconfirmed :: "member_row \<Rightarrow> member_row" where
  "unconfirmed t = t\<lparr>mr_admin_factor := 0\<rparr>"

definition reached :: "member_row list \<Rightarrow> member_row list \<Rightarrow> bool" where
  "reached team team' \<longleftrightarrow>
     map unconfirmed (filter (\<lambda>t. \<not> below_admin t) team') = map unconfirmed (filter (\<lambda>t. \<not> below_admin t) team)
     \<and> map mr_user_id (filter (\<lambda>t. mr_customer t \<noteq> []) team') = map mr_user_id (filter (\<lambda>t. mr_customer t \<noteq> []) team)
     \<and> list_all (\<lambda>t. t \<in> set team \<or> within_reach team t \<or> confirmed team t) team'"

lemma row_change_same:
  assumes "row_change team t t'"
  shows "below_admin t' \<longleftrightarrow> below_admin t" and "\<not> below_admin t \<Longrightarrow> unconfirmed t' = unconfirmed t"
    and "mr_customer t' = mr_customer t" and "mr_user_id t' = mr_user_id t"
  using assms by (auto simp: row_change_def edited_def below_admin_def unconfirmed_def waiting_admin_def)

lemma row_change_reach:
  assumes "row_change team t t'" and "t \<in> set team"
  shows "t' \<in> set team \<or> within_reach team t' \<or> confirmed team t'"
  using assms unfolding row_change_def within_reach_def confirmed_def list_ex_iff by blast

lemma changed_map:
  assumes "\<And>t. row_change team t (g t)"
  shows "reached team (map g team)"
proof -
  note same = row_change_same [OF assms]
  have "map unconfirmed (filter (\<lambda>t. \<not> below_admin t) (map g ts)) = map unconfirmed (filter (\<lambda>t. \<not> below_admin t) ts)"
    and "map mr_user_id (filter (\<lambda>t. mr_customer t \<noteq> []) (map g ts)) = map mr_user_id (filter (\<lambda>t. mr_customer t \<noteq> []) ts)" for ts
    by (induction ts) (simp_all add: same)
  then show ?thesis using row_change_reach [OF assms] by (simp add: reached_def list_all_iff)
qed

lemma on_member_reached:
  assumes "\<And>t t'. f t = Inr t' \<Longrightarrow> row_change team t t'"
  shows "reached team (on_member i f team)"
  unfolding on_member_def
  by (rule changed_map) (auto simp: row_change_def [of _ t t for t] split: sum.split intro: assms)

lemma reached_step:
  assumes "member_step team team'"
  shows "reached team team'"
  using assms
proof cases
  case (edit a i existing r s)
  show ?thesis unfolding edit(1) by (rule on_member_reached [OF member_edit_change [OF edit(2)]])
next
  case (confirm a i)
  show ?thesis unfolding confirm(1) by (rule on_member_reached [OF member_confirm_change [OF confirm(2)]])
next
  case (remove a i)
  let ?P = "\<lambda>t. \<not> (mr_user_id t = i \<and> member_remove (access_of a) t = None \<and> mr_install_role t = install_member)"
  have "?P t" if "\<not> below_admin t \<or> mr_customer t \<noteq> []" for t
  proof -
    have customer: "xs_customer (access_of t) = mr_customer t" by (simp add: access_of_def Let_def)
    show ?thesis using that can_touch_row [OF remove(2), of t]
      by (auto simp: member_remove_def can_remove_def customer split: option.splits if_splits)
  qed
  then have "filter (\<lambda>t. \<not> below_admin t) (filter ?P ts) = filter (\<lambda>t. \<not> below_admin t) ts"
    and "filter (\<lambda>t. mr_customer t \<noteq> []) (filter ?P ts) = filter (\<lambda>t. mr_customer t \<noteq> []) ts" for ts
    by (induction ts) auto
  then show ?thesis by (simp add: remove(1) reached_def remove_member_def list_all_iff)
qed

text \<open>Confirming an admin makes one whose rights count, but never on more servers than those of the admin who
  confirmed them.\<close>

lemma covered_before:
  assumes "reached team team'" and "covered team' t"
  shows "covered team t"
proof -
  obtain a where a: "a \<in> set team'" "acting_admin a" and s: "within (column_scope (mr_servers t)) (column_scope (mr_servers a))"
    using assms(2) by (auto simp: covered_def list_ex_iff)
  have "\<not> within_reach team a" using a(2) by (simp add: within_reach_def below_admin_def acting_admin_def)
  then consider "a \<in> set team" | "confirmed team a" using assms(1) a(1) by (auto simp: reached_def list_all_iff)
  then show ?thesis
  proof cases
    case 1
    then show ?thesis using a(2) s by (auto simp: covered_def list_ex_iff)
  next
    case 2
    then obtain u where "covered team u" and "a = u\<lparr>mr_admin_factor := mr_factor u\<rparr>"
      by (auto simp: confirmed_def list_ex_iff)
    then have "covered team u" and "mr_servers u = mr_servers a" by simp_all
    then obtain b where b: "b \<in> set team" "acting_admin b" "within (column_scope (mr_servers a)) (column_scope (mr_servers b))"
      by (auto simp: covered_def list_ex_iff)
    show ?thesis unfolding covered_def list_ex_iff using b(1,2) within_trans [OF s b(3)] by blast
  qed
qed

lemma reached_row:
  assumes "reached team team'" and "within_reach team' t \<or> confirmed team' t"
  shows "within_reach team t \<or> confirmed team t"
proof -
  note before = covered_before [OF assms(1)]
  have row: "u \<in> set team \<or> within_reach team u \<or> confirmed team u" if "u \<in> set team'" for u
    using assms(1) that by (simp add: reached_def list_all_iff)
  show ?thesis
  proof (cases "within_reach team' t")
    case True
    then obtain u where u: "u \<in> set team'" "below_admin u" "covered team' u"
"edited u t"
      and t: "below_admin t" "covered team t" using before by (auto simp: within_reach_def list_ex_iff)
    have "\<not> confirmed team u" using u(2) by (auto simp: confirmed_def list_ex_iff waiting_admin_def below_admin_def)
    then consider "u \<in> set team" | "within_reach team u" using row [OF u(1)] by blast
    then show ?thesis
    proof cases
      case 1
      then show ?thesis using u t before by (auto simp: within_reach_def list_ex_iff)
    next
      case 2
      then obtain v where v: "v \<in> set team" "below_admin v" "covered team v" "edited v u"
        by (auto simp: within_reach_def list_ex_iff)
      then have "edited v t" using u(4) by (simp add: edited_def)
      then show ?thesis using v(1-3) t unfolding within_reach_def list_ex_iff by blast
    qed
  next
    case False
    then obtain u where u: "u \<in> set team'" "waiting_admin u" "covered team' u" "t = u\<lparr>mr_admin_factor := mr_factor u\<rparr>"
      using assms(2) by (auto simp: confirmed_def list_ex_iff)
    have "\<not> within_reach team u" using u(2) by (simp add: within_reach_def below_admin_def waiting_admin_def)
    moreover have "\<not> confirmed team u" using u(2) by (auto simp: confirmed_def list_ex_iff waiting_admin_def)
    ultimately have "u \<in> set team" using row [OF u(1)] by blast
    then show ?thesis using u before by (auto simp: confirmed_def list_ex_iff)
  qed
qed

lemma reached_trans:
  assumes "reached team team'" and "reached team' team''"
  shows "reached team team''"
proof -
  have "t \<in> set team \<or> within_reach team t \<or> confirmed team t" if "t \<in> set team''" for t
  proof -
    have "t \<in> set team' \<or> within_reach team' t \<or> confirmed team' t" using assms(2) that by (simp add: reached_def list_all_iff)
    then show ?thesis using assms(1) reached_row [OF assms(1)] by (auto simp: reached_def list_all_iff)
  qed
  then show ?thesis using assms by (simp add: reached_def list_all_iff)
qed

lemma reached_run: "member_step\<^sup>*\<^sup>* team team' \<Longrightarrow> reached team team'"
proof (induction rule: rtranclp_induct)
  case base
  show ?case by (simp add: reached_def list_all_iff)
next
  case (step u v)
  then show ?case using reached_trans reached_step by blast
qed

text \<open>C18: While nobody's two-factor setup changes, whatever the members other than the owner make of the team,
  in any order: the owner and the admins stay exactly as they are but for the two-factor setup an admin's
  rights were confirmed with; no customer of a billing provider is removed; and every row that comes out
  changed is either a member's who was and is below admin, with servers before and after that one admin
  whose rights counted at the start can use, or an admin's who had turned two-factor sign-in on and waited
  for confirmation, of that very setup, again on servers that one such admin can use.\<close>

theorem members_stay_within_their_rights:
  assumes "member_step\<^sup>*\<^sup>* team team'"
  shows "map unconfirmed (filter (\<lambda>t. \<not> below_admin t) team') = map unconfirmed (filter (\<lambda>t. \<not> below_admin t) team)
    \<and> map mr_user_id (filter (\<lambda>t. mr_customer t \<noteq> []) team') = map mr_user_id (filter (\<lambda>t. mr_customer t \<noteq> []) team)
    \<and> list_all (\<lambda>t. t \<in> set team \<or> within_reach team t \<or> confirmed team t) team'"
  using reached_run [OF assms] by (simp add: reached_def)

subsection \<open>An example\<close>

definition example_row :: "int \<Rightarrow> string \<Rightarrow> int \<Rightarrow> int \<Rightarrow> string \<Rightarrow> member_row" where
  "example_row i r admin_factor factor customer =
     \<lparr>mr_user_id = i, mr_name = ''m'', mr_install_role = install_member, mr_role = r, mr_servers = ref_a,
      mr_admin_factor = admin_factor, mr_factor = factor, mr_allowance = zero_allowance, mr_customer = customer\<rparr>"

definition example_team :: "member_row list" where
  "example_team = [example_row 1 role_admin 5 5 [], example_row 2 role_admin 0 7 [], example_row 3 role_viewer 0 0 []]"

text \<open>An admin confirms another's two-factor setup.\<close>

theorem members_stay_within_their_rights_witness:
  "let team = example_team; team' = on_member 2 (member_confirm (access_of (team ! 0))) team
   in map mr_admin_factor team' = [5, 7, 0]
      \<and> map unconfirmed (filter (\<lambda>t. \<not> below_admin t) team') = map unconfirmed (filter (\<lambda>t. \<not> below_admin t) team)"
proof -
  let ?team' = "on_member 2 (member_confirm (access_of (example_team ! 0))) example_team"
  have actor: "may_act example_team (example_team ! 0)" and run: "map mr_admin_factor ?team' = [5, 7, 0]"
    by code_simp+
  show ?thesis
    using members_stay_within_their_rights [OF r_into_rtranclp, OF member_step.confirm [OF actor, of 2]] run
    by (simp add: Let_def)
qed

end
