(* ===== verification/Invites.thy ===== *)
theory Invites
  imports Invite_Roles Go_Crypto
begin

section \<open>Invite links (internal/invites: code.go, invites.go, member.go)\<close>

text \<open>
  An invite as stored, the random code of its link, and the checks when a link is opened, used,
  turned off or accepted. Random bytes are arguments: the buffers that \<open>NewCode\<close> reads are a list,
  and where the list ends before the code is complete the value is \<open>None\<close>. Constant-time comparison
  is equality. What \<open>unicode.IsLetter\<close> or \<open>unicode.IsDigit\<close> says of a rune and \<open>strings.EqualFold\<close> of
  two strings are the parameters \<open>letter\<close> and \<open>same_fold\<close>. \<open>Format\<close>, \<open>LogValue\<close> and \<open>RedactPath\<close>, which
  keep codes out of logs, are not modelled.
\<close>

subsection \<open>Codes\<close>

definition code_len :: nat where "code_len = 22"
definition code_alphabet :: string where
  "code_alphabet = ''ABCDEFGHIJKLMNOPQRSTUVWXYZabcdefghijklmnopqrstuvwxyz0123456789''"
definition join_path :: string where "join_path = ''/join''"

definition take_buf :: "string \<Rightarrow> bytes \<Rightarrow> string" where
  "take_buf c buf = foldl (\<lambda>c b. if unat b < 248 \<and> length c < code_len then c @ [code_alphabet ! (unat b mod 62)] else c) c buf"

fun new_code_loop :: "bytes list \<Rightarrow> string \<Rightarrow> string option" where
  "new_code_loop bufs c =
     (if length c < code_len then (case bufs of [] \<Rightarrow> None | buf # bufs \<Rightarrow> new_code_loop bufs (take_buf c buf)) else Some c)"

declare new_code_loop.simps [simp del]

definition new_code :: "bytes list \<Rightarrow> string option" where
  "new_code bufs = new_code_loop bufs []"

definition hash_code :: "string \<Rightarrow> string" where
  "hash_code c = hex_encode (sha256 (bytes_of c))"

definition well_formed :: "string \<Rightarrow> bool" where
  "well_formed s \<longleftrightarrow> length s = code_len \<and> list_all (\<lambda>c. c \<in> set code_alphabet) s"

text \<open>\<open>hex.DecodeString\<close>.\<close>

definition hex_value :: "char \<Rightarrow> nat option" where
  "hex_value c =
     (if 48 \<le> code c \<and> code c \<le> 57 then Some (code c - 48)
      else if 97 \<le> code c \<and> code c \<le> 102 then Some (code c - 87)
      else if 65 \<le> code c \<and> code c \<le> 70 then Some (code c - 55) else None)"

fun hex_decode :: "string \<Rightarrow> bytes option" where
  "hex_decode [] = Some []"
| "hex_decode [c] = None"
| "hex_decode (c # d # cs) =
     (case (hex_value c, hex_value d, hex_decode cs) of
        (Some x, Some y, Some bs) \<Rightarrow> Some (of_nat (16 * x + y) # bs)
      | _ \<Rightarrow> None)"

definition code_matches :: "string \<Rightarrow> string \<Rightarrow> bool" where
  "code_matches stored c =
     (case hex_decode stored of None \<Rightarrow> False | Some want \<Rightarrow>
        if length want \<noteq> 32 then False else sha256 (bytes_of c) = want)"

definition link_path :: "string \<Rightarrow> string" where
  "link_path c = join_path @ ''/'' @ c"

definition code_from_path :: "string \<Rightarrow> string option" where
  "code_from_path p =
     (case cut_prefix p (join_path @ ''/'') of None \<Rightarrow> None | Some c \<Rightarrow> if \<not> well_formed c then None else Some c)"

text \<open>\<open>newID\<close> on ten random bytes.\<close>

definition new_id :: "bytes \<Rightarrow> string" where
  "new_id b = map (\<lambda>x. id_alphabet ! (unat x mod length id_alphabet)) (take 10 b)"

subsection \<open>Invites\<close>

definition kind_player :: string where "kind_player = ''player''"
definition kind_member :: string where "kind_member = ''member''"
definition default_player_uses :: int where "default_player_uses = 5"
definition max_player_uses :: int where "max_player_uses = 100"
definition max_working_player_invites :: int where "max_working_player_invites = 20"
definition member_lifetime :: duration where "member_lifetime = 7 * 24 * hour"
definition max_label_runes :: nat where "max_label_runes = 64"

definition expiry_one_day :: string where "expiry_one_day = ''1d''"
definition expiry_seven_days :: string where "expiry_seven_days = ''7d''"
definition expiry_thirty_days :: string where "expiry_thirty_days = ''30d''"
definition expiry_until_turned_off :: string where "expiry_until_turned_off = ''until_turned_off''"
definition default_expiry :: string where "default_expiry = expiry_seven_days"

definition lifetime :: "string \<Rightarrow> duration option" where
  "lifetime e =
     (if e = expiry_one_day then Some (24 * hour) else if e = expiry_seven_days then Some (7 * 24 * hour)
      else if e = expiry_thirty_days then Some (30 * 24 * hour) else if e = expiry_until_turned_off then Some 0 else None)"

definition right_away :: string where "right_away = ''right_away''"
definition after_yes :: string where "after_yes = ''after_yes''"

record invite =
  iv_id :: string
  iv_kind :: string
  iv_code_hash :: string
  iv_code :: string
  iv_project_id :: string
  iv_server_id :: string
  iv_role :: string
  iv_servers :: scope
  iv_allowance :: allowance
  iv_approval :: string
  iv_label :: string
  iv_created_by :: int
  iv_created_at :: gotime
  iv_expires_at :: gotime
  iv_max_uses :: int
  iv_uses :: int
  iv_revoked_at :: gotime

definition zero_invite :: invite where
  "zero_invite = \<lparr>iv_id = [], iv_kind = [], iv_code_hash = [], iv_code = [], iv_project_id = [], iv_server_id = [],
     iv_role = [], iv_servers = zero_scope, iv_allowance = zero_allowance, iv_approval = [], iv_label = [], iv_created_by = 0,
     iv_created_at = zero_time, iv_expires_at = zero_time, iv_max_uses = 0, iv_uses = 0, iv_revoked_at = zero_time\<rparr>"

datatype invite_status = Active | Used_Up | Expired | Revoked

definition unlimited :: "invite \<Rightarrow> bool" where
  "unlimited iv \<longleftrightarrow> iv_kind iv = kind_player \<and> iv_max_uses iv = 0"

definition use_limit :: "invite \<Rightarrow> int" where
  "use_limit iv = (if iv_kind iv = kind_member then 1 else iv_max_uses iv)"

definition used_up :: "invite \<Rightarrow> bool" where
  "used_up iv \<longleftrightarrow> \<not> unlimited iv \<and> use_limit iv \<le> iv_uses iv"

definition expired :: "invite \<Rightarrow> gotime \<Rightarrow> bool" where
  "expired iv now = (if iv_expires_at iv = zero_time then iv_kind iv \<noteq> kind_player else \<not> now < iv_expires_at iv)"

definition status_at :: "invite \<Rightarrow> gotime \<Rightarrow> invite_status" where
  "status_at iv now =
     (if iv_revoked_at iv \<noteq> zero_time then Revoked else if used_up iv then Used_Up
      else if expired iv now then Expired else Active)"

definition uses_left :: "invite \<Rightarrow> int option" where
  "uses_left iv = (if unlimited iv then None else Some (max 0 (use_limit iv - iv_uses iv)))"

definition invite_actor :: "invite \<Rightarrow> string" where
  "invite_actor iv = ''invite:'' @ iv_id iv"

definition invite_path :: "invite \<Rightarrow> string" where
  "invite_path iv = (if iv_code iv = [] then [] else link_path (iv_code iv))"

record invite_summary =
  sm_invite :: invite
  sm_status :: invite_status
  sm_uses_left :: "int option"
  sm_path :: string

definition summarize :: "invite \<Rightarrow> gotime \<Rightarrow> invite_summary" where
  "summarize iv now = \<lparr>sm_invite = iv, sm_status = status_at iv now, sm_uses_left = uses_left iv, sm_path = invite_path iv\<rparr>"

definition stamp :: "gotime \<Rightarrow> gotime" where
  "stamp t = time_truncate t millisecond"

definition millis :: "gotime \<Rightarrow> int" where
  "millis t = (if t = zero_time then 0 else unix_milli t)"

definition from_millis :: "int \<Rightarrow> gotime" where
  "from_millis ms = (if ms = 0 then zero_time else from_unix_milli ms)"

subsection \<open>Refusals\<close>

definition not_working :: "string \<Rightarrow> ierror" where
  "not_working reason = (ierror_of code_not_working 404 [] ''This invite link doesn't work any more.''
     ''Ask the person who sent it for a new link.'')\<lparr>ie_reason := reason\<rparr>"

definition not_found :: ierror where "not_found = not_working ''no invite has this code''"

definition expired_error :: ierror where
  "expired_error = ierror_of code_expired 410 [] ''This invite link has expired.'' ''Ask the person who sent it for a new link.''"

definition used_up_error :: "string \<Rightarrow> ierror" where
  "used_up_error k =
     (if k = kind_member
      then ierror_of code_used_up 410 [] ''This invite has already been used.''
             ''If you accepted it, sign in with the username and password you chose.''
      else ierror_of code_used_up 410 [] ''This invite link has been used as many times as it allows.''
             ''Ask the person who sent it for a new link.'')"

definition usable :: "invite \<Rightarrow> gotime \<Rightarrow> ierror option" where
  "usable iv now =
     (if iv_revoked_at iv \<noteq> zero_time then Some (not_working ''the invite was revoked'')
      else if expired iv now then Some expired_error
      else if used_up iv then Some (used_up_error (iv_kind iv)) else None)"

definition check_invite :: "invite \<Rightarrow> string \<Rightarrow> string \<Rightarrow> gotime \<Rightarrow> ierror option" where
  "check_invite iv c k now =
     (if \<not> well_formed c then Some (not_working ''the code is malformed'')
      else if \<not> code_matches (iv_code_hash iv) c then Some (not_working ''the code does not match'')
      else if iv_kind iv \<noteq> k then Some (not_working ''the invite is of another kind'')
      else usable iv now)"

definition record_use :: "invite \<Rightarrow> gotime \<Rightarrow> invite \<times> ierror option" where
  "record_use iv now = (case usable iv now of Some e \<Rightarrow> (iv, Some e) | None \<Rightarrow> (iv\<lparr>iv_uses := iv_uses iv + 1\<rparr>, None))"

definition revoke :: "invite \<Rightarrow> gotime \<Rightarrow> invite" where
  "revoke iv now = (if iv_revoked_at iv = zero_time then iv\<lparr>iv_revoked_at := stamp now\<rparr> else iv)"

subsection \<open>Making invites\<close>

record player_spec =
  ps_server_id :: string
  ps_project_id :: string
  ps_label :: string
  ps_expiry :: string
  ps_max_uses :: int
  ps_unlimited :: bool
  ps_approval :: string

record member_spec =
  ms_project_id :: string
  ms_role :: string
  ms_servers :: scope
  ms_label :: string
  ms_allowance :: allowance

record created =
  cr_invite :: invite
  cr_path :: string

text \<open>The random bytes of a new invite: the buffers of its code and those of its id.\<close>

record randomness =
  rnd_code :: "bytes list"
  rnd_id :: bytes

definition clean_label :: "string \<Rightarrow> ierror + string" where
  "clean_label s =
     (let s = trim_space s
      in if \<not> valid_utf8 s \<or> max_label_runes < rune_count s \<or> list_ex is_control (rune_values s)
         then Inl (bad_options ''label'' (''A label is at most '' @ itoa (int max_label_runes) @ '' characters, on one line.'')
                     [(''max'', itoa (int max_label_runes))])
         else Inr s)"

definition create :: "randomness \<Rightarrow> invite \<Rightarrow> string \<Rightarrow> duration \<Rightarrow> int \<Rightarrow> gotime \<Rightarrow> (ierror + created) option" where
  "create rnd iv label life by now =
     (if \<not> valid_ref (iv_project_id iv) then Some (Inl (bad_options ''project'' ''The invite needs a valid project.'' []))
      else case clean_label label of Inl e \<Rightarrow> Some (Inl e) | Inr label \<Rightarrow>
        let now = stamp now
        in case new_code (rnd_code rnd) of None \<Rightarrow> None | Some c \<Rightarrow>
          let iv = iv\<lparr>iv_id := new_id (rnd_id rnd), iv_code_hash := hash_code c, iv_label := label, iv_created_by := by,
                      iv_created_at := now\<rparr>;
              iv = (if 0 < life then iv\<lparr>iv_expires_at := now + life\<rparr> else iv)
          in Some (Inr \<lparr>cr_invite = iv, cr_path = link_path c\<rparr>))"

text \<open>\<open>cmp.Or\<close> of two strings.\<close>

definition or_string :: "string \<Rightarrow> string \<Rightarrow> string" where
  "or_string a b = (if a \<noteq> [] then a else b)"

definition player_uses :: "player_spec \<Rightarrow> ierror + int" where
  "player_uses spec =
     (if ps_unlimited spec \<and> ps_max_uses spec \<noteq> 0
      then Inl (bad_options ''uses'' ''Choose a number of friends or no limit, not both.'' [])
      else if ps_unlimited spec then Inr 0
      else if ps_max_uses spec = 0 then Inr default_player_uses
      else if ps_max_uses spec < 1 \<or> max_player_uses < ps_max_uses spec
      then Inl (bad_options ''uses'' (''An invite link can be for 1 to '' @ itoa max_player_uses @ '' friends, or have no limit.'')
                  [(''max'', itoa max_player_uses)])
      else Inr (ps_max_uses spec))"

definition new_player :: "randomness \<Rightarrow> player_spec \<Rightarrow> account \<Rightarrow> gotime \<Rightarrow> (ierror + created) option" where
  "new_player rnd spec creator now =
     (if \<not> valid_ref (ps_server_id spec) then Some (Inl (bad_options ''server'' ''The invite needs a valid server.'' []))
      else case can_let_players_in creator (ps_server_id spec) of Some e \<Rightarrow> Some (Inl e) | None \<Rightarrow>
      case lifetime (or_string (ps_expiry spec) default_expiry) of
        None \<Rightarrow> Some (Inl (bad_options ''expiry'' ''An invite link works for 1 day, 7 days, 30 days, or until you turn it off.'' []))
      | Some life \<Rightarrow>
      case player_uses spec of Inl e \<Rightarrow> Some (Inl e) | Inr uses \<Rightarrow>
        let approval = or_string (ps_approval spec) right_away
        in if approval \<noteq> right_away \<and> approval \<noteq> after_yes
           then Some (Inl (bad_options ''approval'' ''An invite link lets people in right away or after you say yes.'' []))
           else case create rnd (zero_invite\<lparr>iv_kind := kind_player, iv_server_id := ps_server_id spec,
                    iv_project_id := ps_project_id spec, iv_approval := approval, iv_max_uses := uses\<rparr>)
                  (ps_label spec) life (ac_user_id creator) now of
                None \<Rightarrow> None
              | Some (Inl e) \<Rightarrow> Some (Inl e)
              | Some (Inr c) \<Rightarrow> Some (Inr (c\<lparr>cr_invite := (cr_invite c)
                  \<lparr>iv_code := (case code_from_path (cr_path c) of None \<Rightarrow> [] | Some x \<Rightarrow> x)\<rparr>\<rparr>)))"

definition new_creator :: "randomness \<Rightarrow> member_spec \<Rightarrow> account \<Rightarrow> gotime \<Rightarrow> (ierror + created) option" where
  "new_creator rnd spec inviter now =
     (case can_grant_allowance inviter (ms_allowance spec) of Some e \<Rightarrow> Some (Inl e) | None \<Rightarrow>
        if ms_role spec \<noteq> role_admin \<or> sc_all (ms_servers spec) \<or> 0 < length (sc_servers (ms_servers spec))
        then Some (Inl (bad_options ''allowance'' ''A creator starts as Admin with no servers, and creates their own.'' []))
        else create rnd (zero_invite\<lparr>iv_kind := kind_member, iv_project_id := ms_project_id spec, iv_role := role_admin,
               iv_allowance := ms_allowance spec, iv_max_uses := 1\<rparr>) (ms_label spec) member_lifetime (ac_user_id inviter) now)"

definition new_member :: "randomness \<Rightarrow> member_spec \<Rightarrow> account \<Rightarrow> string list \<Rightarrow> gotime \<Rightarrow> (ierror + created) option" where
  "new_member rnd spec inviter existing now =
     (if \<not> allowance_is_zero (ms_allowance spec) then new_creator rnd spec inviter now
      else case can_grant inviter (ms_role spec) (ms_servers spec) of Some e \<Rightarrow> Some (Inl e) | None \<Rightarrow>
        if length (sc_servers (fst (narrow_scope (ms_servers spec) existing))) \<noteq> length (sc_servers (ms_servers spec))
        then Some (Inl (bad_options ''servers'' ''Choose servers from this project, each once.'' []))
        else create rnd (zero_invite\<lparr>iv_kind := kind_member, iv_project_id := ms_project_id spec, iv_role := ms_role spec,
               iv_servers := sorted_scope (ms_servers spec), iv_max_uses := 1\<rparr>) (ms_label spec) member_lifetime
               (ac_user_id inviter) now)"

subsection \<open>Accepting a member invite\<close>

definition code_username :: string where "code_username = ''username_invalid''"
definition code_password :: string where "code_password = ''password_invalid''"

definition username_invalid :: "string \<Rightarrow> string \<Rightarrow> ierror" where
  "username_invalid rule msg = ierror_of code_username 400 [(''rule'', rule)] msg []"

definition password_invalid :: "string \<Rightarrow> string \<Rightarrow> ierror" where
  "password_invalid rule msg = ierror_of code_password 400 [(''rule'', rule)] msg []"

text \<open>The en dash in UTF-8.\<close>

definition en_dash :: string where "en_dash = [CHR 0xE2, CHR 0x80, CHR 0x93]"

definition valid_username :: "(nat \<Rightarrow> bool) \<Rightarrow> string \<Rightarrow> ierror option" where
  "valid_username letter u =
     (if rune_count u < 3 \<or> 32 < rune_count u
      then Some (username_invalid ''length'' (''Username must be 3'' @ en_dash @ ''32 characters.''))
      else if list_ex (\<lambda>r. \<not> (letter r \<or> r = 95 \<or> r = 45 \<or> r = 46)) (rune_values u)
      then Some (username_invalid ''characters'' ''Username may contain letters, numbers, dot, dash and underscore.'')
      else None)"

definition valid_password :: "(string \<Rightarrow> string \<Rightarrow> bool) \<Rightarrow> string \<Rightarrow> string \<Rightarrow> ierror option" where
  "valid_password same_fold pw u =
     (if rune_count pw < 10 then Some (password_invalid ''too_short'' ''Password must be at least 10 characters.'')
      else if 256 < length pw then Some (password_invalid ''too_long'' ''Password must be at most 256 bytes.'')
      else if same_fold pw u then Some (password_invalid ''same_as_username'' ''Password must differ from the username.'')
      else None)"

record member_request =
  mr_code :: string
  mr_username :: string
  mr_password :: string

record member_grant =
  mg_invite_id :: string
  mg_project_id :: string
  mg_role :: string
  mg_servers :: scope
  mg_install_role :: string
  mg_username :: string
  mg_allowance :: allowance
  mg_requires :: "requirement list"

record member_page =
  mp_kind :: string
  mp_inviter :: string
  mp_role :: string
  mp_servers :: scope
  mp_allowance :: allowance
  mp_expires_at :: gotime
  mp_requires :: "requirement list"

definition requirements :: "string \<Rightarrow> requirement list" where
  "requirements r = (if requires_two_factor install_member r then [two_factor_requirement] else [])"

definition code_of :: "ierror option \<Rightarrow> string" where
  "code_of e = (case e of None \<Rightarrow> [] | Some e \<Rightarrow> ie_code e)"

definition check_member :: "invite \<Rightarrow> string \<Rightarrow> account \<Rightarrow> string list \<Rightarrow> gotime \<Rightarrow> ierror + scope" where
  "check_member iv c inviter existing now =
     (let err = check_invite iv c kind_member now; give = (\<lambda>s. case err of Some e \<Rightarrow> Inl e | None \<Rightarrow> Inr s)
      in if code_of err = code_not_working then Inl (the err)
         else if \<not> allowance_is_zero (iv_allowance iv)
         then if ac_user_id inviter \<noteq> iv_created_by iv \<or> can_grant_allowance inviter (iv_allowance iv) \<noteq> None \<or> iv_role iv \<noteq> role_admin
              then Inl (not_working ''the invite's creator can no longer invite creators'') else give zero_scope
         else case narrow_scope (iv_servers iv) existing of (servers, ok) \<Rightarrow>
           if \<not> ok then Inl (not_working ''none of the invite's servers exist any more'')
           else if ac_user_id inviter \<noteq> iv_created_by iv \<or> can_grant inviter (iv_role iv) servers \<noteq> None
           then Inl (not_working ''the invite's creator can no longer give its role or servers'')
           else give servers)"

definition preview_member :: "invite \<Rightarrow> string \<Rightarrow> account \<Rightarrow> string list \<Rightarrow> gotime \<Rightarrow> ierror + member_page" where
  "preview_member iv c inviter existing now =
     (case check_member iv c inviter existing now of Inl e \<Rightarrow> Inl e | Inr servers \<Rightarrow>
        Inr \<lparr>mp_kind = kind_member, mp_inviter = ac_name inviter, mp_role = iv_role iv, mp_servers = servers,
             mp_allowance = iv_allowance iv, mp_expires_at = iv_expires_at iv, mp_requires = requirements (iv_role iv)\<rparr>)"

definition accept_member :: "(nat \<Rightarrow> bool) \<Rightarrow> (string \<Rightarrow> string \<Rightarrow> bool) \<Rightarrow> invite \<Rightarrow> member_request \<Rightarrow> account \<Rightarrow> string list
    \<Rightarrow> gotime \<Rightarrow> ierror + member_grant" where
  "accept_member letter same_fold iv req inviter existing now =
     (case check_member iv (mr_code req) inviter existing now of Inl e \<Rightarrow> Inl e | Inr servers \<Rightarrow>
      case valid_username letter (mr_username req) of Some e \<Rightarrow> Inl e | None \<Rightarrow>
      case valid_password same_fold (mr_password req) (mr_username req) of Some e \<Rightarrow> Inl e | None \<Rightarrow>
        Inr \<lparr>mg_invite_id = iv_id iv, mg_project_id = iv_project_id iv, mg_role = iv_role iv, mg_servers = servers,
             mg_install_role = install_member, mg_username = mr_username req, mg_allowance = iv_allowance iv,
             mg_requires = requirements (iv_role iv)\<rparr>)"

subsection \<open>The code of a new link\<close>

lemma length_code_alphabet: "length code_alphabet = 62" by (simp add: code_alphabet_def)

text \<open>The bytes that \<open>NewCode\<close> uses, and the character of each.\<close>

definition good_byte :: "8 word \<Rightarrow> bool" where "good_byte b \<longleftrightarrow> unat b < 248"
definition code_char :: "8 word \<Rightarrow> char" where "code_char b = code_alphabet ! (unat b mod 62)"

lemma take_buf_good:
  "length c \<le> code_len \<Longrightarrow> take_buf c buf = take code_len (c @ map code_char (filter good_byte buf))"
  unfolding take_buf_def
proof (induction buf arbitrary: c)
  case (Cons b buf)
  have more: "take (code_len - length c) (x # xs) = x # take (code_len - Suc (length c)) xs" if "length c < code_len" for x :: char and xs
    by (subst Suc_diff_Suc [OF that, symmetric]) simp
  show ?case using Cons by (cases "length c < code_len") (simp_all add: good_byte_def code_char_def more)
qed simp

lemma new_code_loop_good:
  "length c \<le> code_len \<Longrightarrow> new_code_loop bufs c =
     (let cs = c @ map code_char (filter good_byte (concat bufs)) in if code_len \<le> length cs then Some (take code_len cs) else None)"
proof (induction bufs arbitrary: c)
  case Nil
  then show ?case by (subst new_code_loop.simps) (auto simp: Let_def)
next
  case (Cons buf bufs)
  show ?case
  proof (cases "length c < code_len")
    case True
    let ?d = "c @ map code_char (filter good_byte buf)" and ?r = "map code_char (filter good_byte (concat bufs))"
    have "new_code_loop (buf # bufs) c = new_code_loop bufs (take code_len ?d)"
      using True by (subst new_code_loop.simps) (simp add: take_buf_good)
    also have "\<dots> = (let cs = take code_len ?d @ ?r in if code_len \<le> length cs then Some (take code_len cs) else None)"
      by (rule Cons.IH) simp
    also have "\<dots> = (let cs = ?d @ ?r in if code_len \<le> length cs then Some (take code_len cs) else None)"
      using Cons.prems by (cases "length ?d \<le> code_len") (auto simp: Let_def min_def)
    finally show ?thesis by simp
  next
    case False
    then show ?thesis using Cons.prems by (subst new_code_loop.simps) (auto simp: Let_def)
  qed
qed

lemma new_code_good:
  "new_code bufs = (let cs = map code_char (filter good_byte (concat bufs))
     in if code_len \<le> length cs then Some (take code_len cs) else None)"
  by (simp add: new_code_def new_code_loop_good)

lemma code_char_alphabet: "code_char b \<in> set code_alphabet"
  by (simp add: code_char_def length_code_alphabet)

lemma new_code_well_formed: "new_code bufs = Some c \<Longrightarrow> well_formed c"
  by (auto simp: new_code_good Let_def well_formed_def list_all_iff code_char_alphabet dest!: in_set_takeD split: if_splits)

lemma distinct_code_alphabet: "distinct code_alphabet"
  unfolding code_alphabet_def by simp

lemma each_char_four:
  assumes "i < 62"
  shows "length (filter (\<lambda>n. n < 248 \<and> code_alphabet ! (n mod 62) = code_alphabet ! i) [0..<256]) = 4"
proof -
  have "code_alphabet ! (n mod 62) = code_alphabet ! i \<longleftrightarrow> n mod 62 = i" for n
    by (rule nth_eq_iff_index_eq [OF distinct_code_alphabet]) (use assms in \<open>simp_all add: length_code_alphabet\<close>)
  moreover have "n < 248 \<and> n mod 62 = i \<longleftrightarrow> n \<in> {i, i + 62, i + 124, i + 186}" for n
  proof
    assume n: "n < 248 \<and> n mod 62 = i"
    define q where "q = n div 62"
    have "n = 62 * q + i" using n mult_div_mod_eq [of 62 n] by (simp add: q_def)
    moreover from this have "q = 0 \<or> q = 1 \<or> q = 2 \<or> q = 3" using n by linarith
    ultimately show "n \<in> {i, i + 62, i + 124, i + 186}" by auto
  next
    have "(i + 62) mod 62 = i" "(i + 62 * 2) mod 62 = i" "(i + 62 * 3) mod 62 = i"
      using assms by (simp_all only: mod_mult_self2 mod_add_self2 mod_less)
    then show "n < 248 \<and> n mod 62 = i" if "n \<in> {i, i + 62, i + 124, i + 186}" using that assms by auto
  qed
  ultimately have "{j. j < length [0..<256] \<and> [0..<256] ! j < 248 \<and> code_alphabet ! ([0..<256] ! j mod 62) = code_alphabet ! i}
      = {i, i + 62, i + 124, i + 186}"
    using assms by auto
  then show ?thesis
    by (simp only: length_filter_conv_card) (simp add: card_insert_if)
qed

text \<open>\<open>NewCode\<close> ends as soon as its random bytes hold 22 below 248 and makes the code of the first 22 of them,
  and every character stands for the same number of those bytes.\<close>

theorem new_code_uses_first_good_bytes:
  "new_code bufs = (let good = filter (\<lambda>b. unat b < 248) (concat bufs)
     in if length good < 22 then None else Some (map (\<lambda>b. code_alphabet ! (unat b mod 62)) (take 22 good)))
   \<and> list_all (\<lambda>ch. length (filter (\<lambda>n. n < 248 \<and> code_alphabet ! (n mod 62) = ch) [0..<256]) = 4) code_alphabet"
proof
  show "new_code bufs = (let good = filter (\<lambda>b. unat b < 248) (concat bufs)
     in if length good < 22 then None else Some (map (\<lambda>b. code_alphabet ! (unat b mod 62)) (take 22 good)))"
    by (simp add: new_code_good Let_def good_byte_def [abs_def] code_char_def [abs_def] code_len_def take_map not_less)
  show "list_all (\<lambda>ch. length (filter (\<lambda>n. n < 248 \<and> code_alphabet ! (n mod 62) = ch) [0..<256]) = 4) code_alphabet"
    unfolding list_all_length length_code_alphabet using each_char_four by simp
qed

subsection \<open>Digests\<close>

lemma hex_value_digit: "n < 16 \<Longrightarrow> hex_value (hex_digits ! n) = Some n"
proof -
  assume "n < 16"
  then have "n \<in> set [0..<16]" by simp
  moreover have "list_all (\<lambda>n. hex_value (hex_digits ! n) = Some n) [0..<16]" by code_simp
  ultimately show ?thesis by (simp only: list_all_iff)
qed

lemma byte_halves: "of_nat (16 * unat (drop_bit 4 b) + unat (b AND 15)) = (b :: 8 word)"
proof -
  have "b AND 15 = take_bit 4 b" by (simp add: take_bit_eq_mask mask_eq_exp_minus_1)
  then have "of_nat (16 * unat (drop_bit 4 b) + unat (b AND 15)) = push_bit 4 (drop_bit 4 b) + take_bit 4 b"
    by (simp add: push_bit_eq_mult mult.commute)
  then show ?thesis by (simp only: bits_ident)
qed

lemma nibbles: "unat (drop_bit 4 (b :: 8 word)) < 16" "unat (b AND 15) < 16"
proof -
  have "unat b < 256" using unsigned_less [of b] by simp
  then show "unat (drop_bit 4 b) < 16" by (simp only: unat_drop_bit_eq) (simp add: drop_bit_eq_div)
  have "b AND 15 = take_bit 4 b" by (simp add: take_bit_eq_mask mask_eq_exp_minus_1)
  then show "unat (b AND 15) < 16" by (simp only: unsigned_take_bit_eq) (simp add: take_bit_eq_mod)
qed

lemma hex_round_trip: "hex_decode (hex_encode bs) = Some bs"
  by (induction bs) (simp_all add: hex_encode_def hex_value_digit nibbles byte_halves del: of_nat_add of_nat_mult)

lemma code_matches_hash: "code_matches (hash_code c) c"
  by (simp add: code_matches_def hash_code_def hex_round_trip length_sha256)

lemma code_from_link: "well_formed c \<Longrightarrow> code_from_path (link_path c) = Some c"
  using cut_prefix_append [of "join_path @ ''/''" c] by (simp add: code_from_path_def link_path_def)

subsection \<open>New links work\<close>

lemma create_Some:
  assumes "create rnd iv label life by now = Some (Inr c)"
  obtains x l where "new_code (rnd_code rnd) = Some x" "cr_path c = link_path x" "valid_ref (iv_project_id iv)"
    "cr_invite c = iv\<lparr>iv_id := new_id (rnd_id rnd), iv_code_hash := hash_code x, iv_label := l, iv_created_by := by,
       iv_created_at := stamp now, iv_expires_at := (if 0 < life then stamp now + life else iv_expires_at iv)\<rparr>"
  using assms that by (auto simp: create_def Let_def split: if_splits sum.splits option.splits)

lemma check_right_code:
  "well_formed x \<Longrightarrow> iv_code_hash iv = hash_code x \<Longrightarrow> iv_kind iv = k \<Longrightarrow> check_invite iv x k t = usable iv t"
  by (simp add: check_invite_def code_matches_hash)

lemma stamp_nonneg: "0 \<le> t \<Longrightarrow> 0 \<le> stamp t"
  by (simp add: stamp_def time_truncate_def minus_mod_eq_mult_div)

lemma kinds [simp]: "kind_player \<noteq> kind_member" "kind_member \<noteq> kind_player"
  by (simp_all add: kind_player_def kind_member_def)

lemma player_uses_range: "player_uses spec = Inr n \<Longrightarrow> 0 \<le> n \<and> n \<le> max_player_uses"
  by (auto simp: player_uses_def default_player_uses_def max_player_uses_def split: if_splits)

lemma new_player_Some:
  assumes "new_player rnd spec creator now = Some (Inr c)"
  obtains x l life n app where "well_formed x" "cr_path c = link_path x" "can_let_players_in creator (ps_server_id spec) = None"
    "0 \<le> n" "n \<le> max_player_uses" "lifetime (or_string (ps_expiry spec) default_expiry) = Some life"
    "cr_invite c = zero_invite\<lparr>iv_kind := kind_player, iv_server_id := ps_server_id spec, iv_project_id := ps_project_id spec,
       iv_approval := app, iv_max_uses := n, iv_id := new_id (rnd_id rnd), iv_code_hash := hash_code x, iv_code := x, iv_label := l,
       iv_created_by := ac_user_id creator, iv_created_at := stamp now,
       iv_expires_at := (if 0 < life then stamp now + life else zero_time)\<rparr>"
proof -
  obtain life n app d where a: "can_let_players_in creator (ps_server_id spec) = None"
    "lifetime (or_string (ps_expiry spec) default_expiry) = Some life" "player_uses spec = Inr n"
    "create rnd (zero_invite\<lparr>iv_kind := kind_player, iv_server_id := ps_server_id spec, iv_project_id := ps_project_id spec,
       iv_approval := app, iv_max_uses := n\<rparr>) (ps_label spec) life (ac_user_id creator) now = Some (Inr d)"
    "c = d\<lparr>cr_invite := (cr_invite d)\<lparr>iv_code := (case code_from_path (cr_path d) of None \<Rightarrow> [] | Some x \<Rightarrow> x)\<rparr>\<rparr>"
    using assms by (auto simp: new_player_def Let_def split: if_splits sum.splits option.splits)
  obtain x l where b: "new_code (rnd_code rnd) = Some x" "cr_path d = link_path x"
    "cr_invite d = zero_invite\<lparr>iv_kind := kind_player, iv_server_id := ps_server_id spec, iv_project_id := ps_project_id spec,
       iv_approval := app, iv_max_uses := n, iv_id := new_id (rnd_id rnd), iv_code_hash := hash_code x, iv_label := l,
       iv_created_by := ac_user_id creator, iv_created_at := stamp now,
       iv_expires_at := (if 0 < life then stamp now + life else zero_time)\<rparr>"
    by (rule create_Some [OF a(4)]) (simp add: zero_invite_def)
  note x = new_code_well_formed [OF b(1)]
  have "c = d\<lparr>cr_invite := (cr_invite d)\<lparr>iv_code := x\<rparr>\<rparr>" by (simp add: a(5) b(2) code_from_link [OF x])
  then have c: "cr_path c = link_path x" "cr_invite c = (cr_invite d)\<lparr>iv_code := x\<rparr>" by (simp_all add: b(2))
  show thesis
    by (rule that [where n = n and app = app and l = l, OF x c(1) a(1) _ _ a(2)])
      (use player_uses_range [OF a(3)] in \<open>simp_all add: c(2) b(3) zero_invite_def\<close>)
qed

lemma filter_all: "length (filter P xs) = length xs \<Longrightarrow> filter P xs = xs"
  by (induction xs) (auto, metis Suc_n_not_le_n length_filter_le)

lemma narrow_all:
  assumes "length (sc_servers (fst (narrow_scope s existing))) = length (sc_servers s)" and "scope_check s = None"
  shows "narrow_scope (sorted_scope s) existing = (sorted_scope s, True)"
proof (cases "sc_all s")
  case False
  then have "filter (\<lambda>i. i \<in> set existing) (sc_servers s) = sc_servers s"
    using assms(1) by (intro filter_all) (simp add: narrow_scope_def Let_def)
  then have "\<forall>i \<in> set (sc_servers s). i \<in> set existing" by (simp add: filter_id_conv)
  then have "filter (\<lambda>i. i \<in> set existing) (sc_servers (sorted_scope s)) = sc_servers (sorted_scope s)"
    using False by (simp add: filter_id_conv)
  moreover have "sc_servers (sorted_scope s) \<noteq> []"
    using False assms(2) scope_check_sorted [OF assms(2)] by (simp add: scope_check_iff)
  ultimately show ?thesis using False by (simp add: narrow_scope_def Let_def sorted_only)
qed (simp add: narrow_scope_def sorted_scope_def)

lemma can_grant_sorted: "can_grant a r s = None \<Longrightarrow> can_grant a r (sorted_scope s) = None"
  by (auto simp: can_grant_def scope_check_sorted split: option.splits if_splits)

lemma new_member_Some:
  assumes "new_member rnd spec inviter existing now = Some (Inr c)"
  obtains x l sv where "well_formed x" "cr_path c = link_path x"
    "cr_invite c = zero_invite\<lparr>iv_kind := kind_member, iv_project_id := ms_project_id spec, iv_role := ms_role spec,
       iv_servers := sv, iv_allowance := ms_allowance spec, iv_max_uses := 1, iv_id := new_id (rnd_id rnd),
       iv_code_hash := hash_code x, iv_label := l, iv_created_by := ac_user_id inviter, iv_created_at := stamp now,
       iv_expires_at := stamp now + member_lifetime\<rparr>"
    "if allowance_is_zero (ms_allowance spec) then can_grant inviter (ms_role spec) sv = None \<and> narrow_scope sv existing = (sv, True)
     else can_grant_allowance inviter (ms_allowance spec) = None \<and> ms_role spec = role_admin \<and> sv = zero_scope"
proof (cases "allowance_is_zero (ms_allowance spec)")
  case True
  then have a: "can_grant inviter (ms_role spec) (ms_servers spec) = None"
    "length (sc_servers (fst (narrow_scope (ms_servers spec) existing))) = length (sc_servers (ms_servers spec))"
    "create rnd (zero_invite\<lparr>iv_kind := kind_member, iv_project_id := ms_project_id spec, iv_role := ms_role spec,
       iv_servers := sorted_scope (ms_servers spec), iv_max_uses := 1\<rparr>) (ms_label spec) member_lifetime (ac_user_id inviter) now
     = Some (Inr c)"
    using assms by (auto simp: new_member_def split: option.splits if_splits)
  have "scope_check (ms_servers spec) = None" using a(1) by (simp add: can_grant_def split: option.splits)
  note n = narrow_all [OF a(2) this]
  have al: "ms_allowance spec = zero_allowance" using True by (simp add: allowance_is_zero_def)
  obtain x l where b: "new_code (rnd_code rnd) = Some x" "cr_path c = link_path x"
    "cr_invite c = zero_invite\<lparr>iv_kind := kind_member, iv_project_id := ms_project_id spec, iv_role := ms_role spec,
       iv_servers := sorted_scope (ms_servers spec), iv_max_uses := 1, iv_id := new_id (rnd_id rnd),
       iv_code_hash := hash_code x, iv_label := l, iv_created_by := ac_user_id inviter, iv_created_at := stamp now,
       iv_expires_at := stamp now + member_lifetime\<rparr>"
    by (rule create_Some [OF a(3)]) (simp add: member_lifetime_def)
  show thesis
    by (rule that [OF new_code_well_formed [OF b(1)] b(2)])
      (use True n can_grant_sorted [OF a(1)] in \<open>simp_all add: b(3) zero_invite_def al\<close>)
next
  case False
  then have a: "can_grant_allowance inviter (ms_allowance spec) = None" "ms_role spec = role_admin"
    "create rnd (zero_invite\<lparr>iv_kind := kind_member, iv_project_id := ms_project_id spec, iv_role := role_admin,
               iv_allowance := ms_allowance spec, iv_max_uses := 1\<rparr>) (ms_label spec) member_lifetime (ac_user_id inviter) now
     = Some (Inr c)"
    using assms by (auto simp: new_member_def new_creator_def split: option.splits if_splits)
  obtain x l where b: "new_code (rnd_code rnd) = Some x" "cr_path c = link_path x"
    "cr_invite c = zero_invite\<lparr>iv_kind := kind_member, iv_project_id := ms_project_id spec, iv_role := role_admin,
       iv_allowance := ms_allowance spec, iv_max_uses := 1, iv_id := new_id (rnd_id rnd),
       iv_code_hash := hash_code x, iv_label := l, iv_created_by := ac_user_id inviter, iv_created_at := stamp now,
       iv_expires_at := stamp now + member_lifetime\<rparr>"
    by (rule create_Some [OF a(3)]) (simp add: member_lifetime_def)
  show thesis
    by (rule that [OF new_code_well_formed [OF b(1)] b(2)])
      (use False a(1,2) in \<open>simp_all add: b(3) zero_invite_def\<close>)
qed

text \<open>The link of a new friend invite holds its stored code and opens it until it expires, and not after; that
  of a new member invite, whose code is not stored, gives its role on all its servers for seven days.\<close>

theorem new_links_work:
  assumes "0 \<le> now"
  shows "(case new_player rnd spec creator now of
      Some (Inr c) \<Rightarrow> code_from_path (cr_path c) = Some (iv_code (cr_invite c))
        \<and> (\<forall>t. check_invite (cr_invite c) (iv_code (cr_invite c)) kind_player t = None
              \<longleftrightarrow> iv_expires_at (cr_invite c) = zero_time \<or> t < iv_expires_at (cr_invite c))
    | _ \<Rightarrow> True)
   \<and> (case new_member rnd mspec inviter existing now of
      Some (Inr c) \<Rightarrow> iv_code (cr_invite c) = []
        \<and> (\<exists>x. code_from_path (cr_path c) = Some x
             \<and> (\<forall>t < stamp now + member_lifetime. check_member (cr_invite c) x inviter existing t = Inr (iv_servers (cr_invite c))))
    | _ \<Rightarrow> True)"
proof
  note pos = stamp_nonneg [OF assms]
  show "case new_player rnd spec creator now of
      Some (Inr c) \<Rightarrow> code_from_path (cr_path c) = Some (iv_code (cr_invite c))
        \<and> (\<forall>t. check_invite (cr_invite c) (iv_code (cr_invite c)) kind_player t = None
              \<longleftrightarrow> iv_expires_at (cr_invite c) = zero_time \<or> t < iv_expires_at (cr_invite c))
    | _ \<Rightarrow> True"
  proof (clarsimp split: option.split sum.split)
    fix c assume "new_player rnd spec creator now = Some (Inr c)"
    then show "code_from_path (cr_path c) = Some (iv_code (cr_invite c))
        \<and> (\<forall>t. check_invite (cr_invite c) (iv_code (cr_invite c)) kind_player t = None
              \<longleftrightarrow> iv_expires_at (cr_invite c) = zero_time \<or> t < iv_expires_at (cr_invite c))"
      by (rule new_player_Some) (auto simp: code_from_link check_right_code usable_def expired_def used_up_def unlimited_def
          use_limit_def zero_invite_def)
  qed
  show "case new_member rnd mspec inviter existing now of
      Some (Inr c) \<Rightarrow> iv_code (cr_invite c) = []
        \<and> (\<exists>x. code_from_path (cr_path c) = Some x
             \<and> (\<forall>t < stamp now + member_lifetime. check_member (cr_invite c) x inviter existing t = Inr (iv_servers (cr_invite c))))
    | _ \<Rightarrow> True"
  proof (clarsimp split: option.split sum.split)
    fix c assume "new_member rnd mspec inviter existing now = Some (Inr c)"
    then show "iv_code (cr_invite c) = []
        \<and> (\<exists>x. code_from_path (cr_path c) = Some x
             \<and> (\<forall>t < stamp now + member_lifetime. check_member (cr_invite c) x inviter existing t = Inr (iv_servers (cr_invite c))))"
    proof (rule new_member_Some)
      fix x l sv
      assume x: "well_formed x" "cr_path c = link_path x"
        and c: "cr_invite c = zero_invite\<lparr>iv_kind := kind_member, iv_project_id := ms_project_id mspec, iv_role := ms_role mspec,
           iv_servers := sv, iv_allowance := ms_allowance mspec, iv_max_uses := 1, iv_id := new_id (rnd_id rnd),
           iv_code_hash := hash_code x, iv_label := l, iv_created_by := ac_user_id inviter, iv_created_at := stamp now,
           iv_expires_at := stamp now + member_lifetime\<rparr>"
        and g: "if allowance_is_zero (ms_allowance mspec)
           then can_grant inviter (ms_role mspec) sv = None \<and> narrow_scope sv existing = (sv, True)
           else can_grant_allowance inviter (ms_allowance mspec) = None \<and> ms_role mspec = role_admin \<and> sv = zero_scope"
      have "check_invite (cr_invite c) x kind_member t = None" if "t < stamp now + member_lifetime" for t
        using that pos by (subst check_right_code) (simp_all add: x c zero_invite_def usable_def expired_def used_up_def unlimited_def
            use_limit_def member_lifetime_def)
      then have "check_member (cr_invite c) x inviter existing t = Inr (iv_servers (cr_invite c))"
        if "t < stamp now + member_lifetime" for t
        using that g by (simp add: check_member_def Let_def code_of_def code_not_working_def c split: if_splits)
      then show ?thesis using x by (auto simp: c zero_invite_def code_from_link)
    qed
  qed
qed

subsection \<open>Refused links look alike\<close>

text \<open>What a public page may show of a refusal: everything but its reason.\<close>

definition public :: "ierror \<Rightarrow> ierror" where "public e = e\<lparr>ie_reason := []\<rparr>"

lemma public_not_working [simp]: "public (not_working r) = public not_found"
  by (simp add: public_def not_found_def not_working_def ierror_of_def)

lemma public_code: "public e = public f \<Longrightarrow> ie_code e = ie_code f"
  by (cases e; cases f) (simp add: public_def)

lemma code_not_working_codes [simp]:
  "ie_code (not_working r) = code_not_working" "ie_code not_found = code_not_working" "ie_code expired_error \<noteq> code_not_working" "ie_code (used_up_error k) \<noteq> code_not_working"
  "code_not_working \<noteq> []" "[] \<noteq> code_not_working"
  by (simp_all add: not_found_def not_working_def ierror_of_def expired_error_def used_up_error_def code_not_working_def code_expired_def code_used_up_def)

lemma check_member_error:
  "check_member iv c inviter existing now = Inl e \<Longrightarrow>
     public e = public not_found \<or> check_invite iv c kind_member now = Some e \<and> iv_revoked_at iv = zero_time
       \<and> well_formed c \<and> code_matches (iv_code_hash iv) c"
  by (auto simp: check_member_def check_invite_def usable_def code_of_def Let_def
      split: if_splits option.splits prod.splits)

text \<open>A malformed or wrong code, a link of the other kind, one that was turned off and one whose creator may no
  longer give its role are refused in the same way as a code that no invite has; anything else is said only to
  someone who has the right code of an invite of the right kind that was not turned off.\<close>

theorem refused_links_look_alike:
  "(case check_invite iv c k now of None \<Rightarrow> True
      | Some e \<Rightarrow> (public e = public not_found) =
          (\<not> (well_formed c \<and> code_matches (iv_code_hash iv) c \<and> iv_kind iv = k \<and> iv_revoked_at iv = zero_time)))
   \<and> (case check_member iv c inviter existing now of Inr _ \<Rightarrow> True
      | Inl e \<Rightarrow> public e = public not_found
          \<or> iv_revoked_at iv = zero_time \<and> well_formed c \<and> code_matches (iv_code_hash iv) c)"
proof
  have ne: "public expired_error \<noteq> public not_found" "public (used_up_error l) \<noteq> public not_found" for l
    using public_code [of expired_error not_found] public_code [of "used_up_error l" not_found] by auto
  show "case check_invite iv c k now of None \<Rightarrow> True
      | Some e \<Rightarrow> (public e = public not_found) =
          (\<not> (well_formed c \<and> code_matches (iv_code_hash iv) c \<and> iv_kind iv = k \<and> iv_revoked_at iv = zero_time))"
    by (simp add: check_invite_def usable_def ne)
  show "case check_member iv c inviter existing now of Inr _ \<Rightarrow> True
      | Inl e \<Rightarrow> public e = public not_found
          \<or> iv_revoked_at iv = zero_time \<and> well_formed c \<and> code_matches (iv_code_hash iv) c"
    by (cases "check_member iv c inviter existing now") (use check_member_error in \<open>auto, blast+\<close>)
qed

subsection \<open>Accounts made by an invite\<close>

lemma check_member_Inr:
  assumes "check_member iv c inviter existing now = Inr s"
  shows "check_invite iv c kind_member now = None \<and> ac_user_id inviter = iv_created_by iv
    \<and> (if allowance_is_zero (iv_allowance iv)
       then can_grant inviter (iv_role iv) s = None \<and> s = fst (narrow_scope (iv_servers iv) existing)
       else can_grant_allowance inviter (iv_allowance iv) = None \<and> iv_role iv = role_admin \<and> s = zero_scope)"
  using assms by (auto simp: check_member_def Let_def split: if_splits option.splits prod.splits)

text \<open>C19: An accepted member invite makes a member account, never an owner, only for the holder of its code while it
  is not used, expired or turned off, and with no more than its creator may give at that moment: unless the creator
  is the owner then, they are still an admin with two-factor sign-in on, and the new member gets a role below admin
  on servers within the creator's own. Room to create servers comes from the owner only, within the bounds of an
  allowance and with no other servers. A listed server exists, was in the invite, and an admin must turn on
  two-factor sign-in first.\<close>

theorem accepted_members_within_inviter:
  assumes "accept_member letter same_fold iv req inviter existing now = Inr g"
  shows "mg_install_role g = install_member \<and> ac_user_id inviter = iv_created_by iv
    \<and> code_matches (iv_code_hash iv) (mr_code req) \<and> iv_kind iv = kind_member \<and> status_at iv now = Active
    \<and> (ac_install_role inviter = install_owner
       \<or> ac_install_role inviter = install_member \<and> ac_project_role inviter = role_admin \<and> ac_two_factor inviter
          \<and> rank (mg_role g) < rank role_admin \<and> within (mg_servers g) (ac_servers inviter) \<and> mg_allowance g = zero_allowance)
    \<and> mg_role g \<in> set project_roles
    \<and> (mg_allowance g = zero_allowance
       \<or> ac_install_role inviter = install_owner \<and> allowance_check (mg_allowance g) = None
          \<and> mg_role g = role_admin \<and> mg_servers g = zero_scope)
    \<and> (\<forall>i. covers (mg_servers g) i \<longrightarrow> covers (iv_servers iv) i \<and> (sc_all (iv_servers iv) \<or> i \<in> set existing))
    \<and> (mg_role g = role_admin \<longleftrightarrow> mg_requires g = [two_factor_requirement])"
proof -
  obtain s where s: "check_member iv (mr_code req) inviter existing now = Inr s"
    and g: "mg_install_role g = install_member" "mg_role g = iv_role iv" "mg_servers g = s" "mg_allowance g = iv_allowance iv"
      "mg_requires g = requirements (iv_role iv)"
    using assms by (auto simp: accept_member_def split: sum.splits option.splits)
  note c = check_member_Inr [OF s]
  have open': "code_matches (iv_code_hash iv) (mr_code req)" "iv_kind iv = kind_member" "status_at iv now = Active"
    using c by (auto simp: check_invite_def usable_def status_at_def split: if_splits)
  have "ac_install_role inviter = install_owner
       \<or> ac_install_role inviter = install_member \<and> ac_project_role inviter = role_admin \<and> ac_two_factor inviter
          \<and> rank (iv_role iv) < rank role_admin \<and> within s (ac_servers inviter) \<and> iv_allowance iv = zero_allowance"
    using c by (auto simp: can_grant_def can_give_def can_grant_allowance_def allowance_is_zero_def requires_two_factor_def
        split: if_splits option.splits)
  moreover have "iv_role iv \<in> set project_roles"
    using c by (auto simp: can_grant_def can_give_def rank_def project_roles_def split: if_splits option.splits)
  moreover have "iv_allowance iv = zero_allowance
       \<or> ac_install_role inviter = install_owner \<and> allowance_check (iv_allowance iv) = None
          \<and> iv_role iv = role_admin \<and> s = zero_scope"
    using c by (auto simp: can_grant_allowance_def allowance_is_zero_def split: if_splits)
  moreover have "covers s i \<longrightarrow> covers (iv_servers iv) i \<and> (sc_all (iv_servers iv) \<or> i \<in> set existing)" for i
    using c by (cases "allowance_is_zero (iv_allowance iv)") (auto simp: covers_narrow, auto simp: covers_def)
  moreover have "iv_role iv = role_admin \<longleftrightarrow> requirements (iv_role iv) = [two_factor_requirement]"
    by (simp add: requirements_def requires_two_factor_def install_member_def install_owner_def)
  ultimately show ?thesis using c open' by (simp add: g)
qed

subsection \<open>Examples\<close>

definition owner :: account where
  "owner = \<lparr>ac_user_id = 1, ac_name = ''o'', ac_install_role = install_owner, ac_project_role = role_admin, ac_servers = zero_scope,
     ac_two_factor = False, ac_allowance = zero_allowance\<rparr>"

definition zero_bytes :: randomness where "zero_bytes = \<lparr>rnd_code = [replicate 32 0], rnd_id = replicate 10 0\<rparr>"

definition friends_spec :: player_spec where
  "friends_spec = \<lparr>ps_server_id = ref_a, ps_project_id = ref_b, ps_label = [], ps_expiry = [], ps_max_uses = 0,
     ps_unlimited = False, ps_approval = []\<rparr>"

definition member_spec_a :: member_spec where
  "member_spec_a = \<lparr>ms_project_id = ref_b, ms_role = role_viewer, ms_servers = only_servers [ref_a], ms_label = [],
     ms_allowance = zero_allowance\<rparr>"

definition code_a :: string where "code_a = replicate 22 (CHR ''A'')"

lemma new_code_zero: "new_code (rnd_code zero_bytes) = Some code_a"
proof -
  have "code_char 0 = CHR ''A''" "good_byte 0" by (simp_all add: code_char_def code_alphabet_def good_byte_def)
  then show ?thesis by (simp add: new_code_good zero_bytes_def code_len_def code_a_def filter_replicate Let_def)
qed

lemma clean_empty: "clean_label [] = Inr []"
  by (simp add: clean_label_def trim_space_def trim_runes_def valid_utf8_def rune_count_def rune_values_def Let_def)

lemma new_player_example: "\<exists>c. new_player zero_bytes friends_spec owner 0 = Some (Inr c) \<and> iv_expires_at (cr_invite c) = 7 * 24 * hour"
  by (simp add: new_player_def friends_spec_def can_let_players_in_def owner_def lifetime_def or_string_def default_expiry_def
      expiry_one_day_def expiry_seven_days_def player_uses_def right_away_def create_def zero_invite_def clean_empty new_code_zero
      stamp_def time_truncate_def Let_def)

lemma scope_check_example: "scope_check (only_servers [ref_a]) = None"
  by (simp add: scope_check_iff max_scope_servers_def)

lemma can_grant_example: "can_grant owner role_viewer (only_servers [ref_a]) = None"
  by (simp add: can_grant_def can_give_def owner_def role_viewer_def install_owner_def rank_def role_admin_def role_moderator_def
      scope_check_example)

lemma new_member_example: "\<exists>c. new_member zero_bytes member_spec_a owner [ref_a] 0 = Some (Inr c)"
  by (simp add: new_member_def member_spec_a_def allowance_is_zero_def can_grant_example narrow_scope_def Let_def create_def
      zero_invite_def clean_empty new_code_zero)

theorem new_links_work_witness:
  "(\<exists>c. new_player zero_bytes friends_spec owner 0 = Some (Inr c) \<and> check_invite (cr_invite c) (iv_code (cr_invite c)) kind_player 5 = None)
   \<and> (\<exists>c x. new_member zero_bytes member_spec_a owner [ref_a] 0 = Some (Inr c)
        \<and> check_member (cr_invite c) x owner [ref_a] 5 = Inr (iv_servers (cr_invite c)))"
proof -
  obtain c where c: "new_player zero_bytes friends_spec owner 0 = Some (Inr c)" "iv_expires_at (cr_invite c) = 7 * 24 * hour"
    using new_player_example by blast
  obtain d where d: "new_member zero_bytes member_spec_a owner [ref_a] 0 = Some (Inr d)" using new_member_example by blast
  note w = new_links_work [where now = 0 and rnd = zero_bytes and spec = friends_spec and creator = owner and mspec = member_spec_a
    and inviter = owner and existing = "[ref_a]", unfolded c(1) d, simplified]
  have "check_invite (cr_invite c) (iv_code (cr_invite c)) kind_player 5 = None" using w c(2) by simp
  moreover have "\<exists>x. check_member (cr_invite d) x owner [ref_a] 5 = Inr (iv_servers (cr_invite d))"
  proof -
    obtain x where "\<forall>t < stamp 0 + member_lifetime. check_member (cr_invite d) x owner [ref_a] t = Inr (iv_servers (cr_invite d))"
      using w by blast
    then show ?thesis by (intro exI [of _ x]) (simp add: stamp_def time_truncate_def member_lifetime_def)
  qed
  ultimately show ?thesis using c(1) d by blast
qed

theorem refused_links_look_alike_witness:
  "case check_invite zero_invite ''x'' kind_player 0 of None \<Rightarrow> False | Some e \<Rightarrow> public e = public not_found"
  using refused_links_look_alike [where iv = zero_invite and c = "''x''" and k = kind_player and now = 0]
  by (simp add: check_invite_def well_formed_def code_len_def)

definition member_invite :: invite where
  "member_invite = zero_invite\<lparr>iv_kind := kind_member, iv_code_hash := hash_code code_a, iv_role := role_viewer,
     iv_servers := only_servers [ref_a], iv_created_by := 1, iv_expires_at := 100, iv_max_uses := 1\<rparr>"

definition join_as :: member_request where
  "join_as = \<lparr>mr_code = code_a, mr_username = ''alex'', mr_password = ''correct horse''\<rparr>"

lemma check_member_example: "check_member member_invite code_a owner [ref_a] 5 = Inr (only_servers [ref_a])"
proof -
  have "well_formed code_a" using new_code_well_formed [OF new_code_zero] .
  then have "check_invite member_invite code_a kind_member 5 = None"
    by (subst check_right_code) (simp_all add: member_invite_def usable_def expired_def used_up_def unlimited_def use_limit_def zero_invite_def)
  then show ?thesis
    by (simp add: check_member_def member_invite_def zero_invite_def allowance_is_zero_def narrow_scope_def can_grant_example
        code_of_def Let_def) (simp add: owner_def)
qed

lemma accept_example:
  "accept_member (\<lambda>_. True) (=) member_invite join_as owner [ref_a] 5 =
     Inr \<lparr>mg_invite_id = [], mg_project_id = [], mg_role = role_viewer, mg_servers = only_servers [ref_a],
          mg_install_role = install_member, mg_username = ''alex'', mg_allowance = zero_allowance, mg_requires = []\<rparr>"
proof -
  have "runes ''alex'' = map (\<lambda>c. (code c, [c])) ''alex''" "runes ''correct horse'' = map (\<lambda>c. (code c, [c])) ''correct horse''"
    by (rule runes_ascii, simp add: ascii_def)+
  then have "valid_username (\<lambda>_. True) ''alex'' = None" "valid_password (=) ''correct horse'' ''alex'' = None"
    by (simp_all add: valid_username_def valid_password_def rune_count_def rune_values_def)
  then show ?thesis
    by (simp add: accept_member_def join_as_def check_member_example)
      (simp add: member_invite_def zero_invite_def requirements_def requires_two_factor_def role_viewer_def role_admin_def)
qed

theorem accepted_members_within_inviter_witness:
  "code_matches (iv_code_hash member_invite) code_a \<and> status_at member_invite 5 = Active"
  using accepted_members_within_inviter [OF accept_example] by (simp add: join_as_def)

end
