(* ===== verification/Join_Requests.thy ===== *)
theory Join_Requests
  imports Invites Minecraft_Names
begin

section \<open>Friends at a link (internal/invites: player.go, requests.go, origin.go)\<close>

text \<open>
  What the join page does with a friend invite: preview, looking a player up, redeeming, and the
  requests that wait for a yes. Mojang's lookup is the parameter \<open>lookup\<close>, with the kind and the text
  of its failure. An error that is no \<open>*Error\<close> is \<open>Failed\<close> with its text. The join page's steps
  (\<open>joinInfo\<close>, \<open>JoinAddress\<close>) and the notices are not modelled.
\<close>

subsection \<open>Refusals\<close>

definition code_requests_full :: string where "code_requests_full = ''join_requests_full''"
definition code_request_decided :: string where "code_request_decided = ''join_request_decided''"
definition code_player_name :: string where "code_player_name = ''player_name_invalid''"
definition code_player_unknown :: string where "code_player_unknown = ''player_not_found''"
definition code_player_demo :: string where "code_player_demo = ''player_demo''"
definition code_player_legacy :: string where "code_player_legacy = ''player_legacy''"
definition code_mojang_busy :: string where "code_mojang_busy = ''mojang_busy''"
definition code_mojang_down :: string where "code_mojang_down = ''mojang_unavailable''"

definition run_out_hint :: "string \<Rightarrow> string" where
  "run_out_hint inviter =
     (if inviter \<noteq> [] then ''Ask '' @ inviter @ '' for a new link.'' else ''Ask the person who sent it for a new link.'')
     @ '' If you're already on the list, just join with the address you have.''"

definition run_out_expired :: "invite \<Rightarrow> string \<Rightarrow> ierror" where
  "run_out_expired iv inviter = expired_error\<lparr>ie_params := [(''inviter'', inviter), (''expiredAt'', rfc3339 (iv_expires_at iv))],
     ie_hint := run_out_hint inviter\<rparr>"

definition run_out_used_up :: "invite \<Rightarrow> string \<Rightarrow> ierror" where
  "run_out_used_up iv inviter = (used_up_error kind_player)
     \<lparr>ie_params := [(''inviter'', inviter), (''maxUses'', itoa (iv_max_uses iv))],
      ie_msg := (if iv_max_uses iv = 1 then ''This invite was for one friend, and they've joined.''
                 else ''This invite was for '' @ itoa (iv_max_uses iv) @ '' friends, and they've all joined.''),
      ie_hint := run_out_hint inviter\<rparr>"

definition requests_full :: "string \<Rightarrow> ierror" where
  "requests_full sc =
     (if sc = ''invite''
      then ierror_of code_requests_full 429 [(''scope'', sc)] ''Too many people are waiting to join with this link.''
             ''Ask the person who sent it to answer the requests, then try again.''
      else ierror_of code_requests_full 429 [(''scope'', sc)] ''Too many people on your network are waiting to join.''
             ''Try again once their requests have been answered.'')"

definition request_decided :: ierror where
  "request_decided = ierror_of code_request_decided 409 [] ''Someone already answered this request.''
     ''Reload the Players tab to see the answer.''"

definition player_name_error :: ierror where
  "player_name_error = ierror_of code_player_name 400 [] (''Minecraft usernames are 3'' @ en_dash @ ''16 letters, numbers or underscores.'')
     ''Use the name shown in the Minecraft Launcher.''"

definition player_not_found :: "string \<Rightarrow> ierror" where
  "player_not_found name = ierror_of code_player_unknown 422 [(''name'', name)]
     (''No Minecraft: Java Edition account is called '' @ name @ ''.'')
     ''Check the spelling. On a phone, console or Windows (Bedrock Edition)? This link takes Java Edition names only, so ask whoever sent it whether the server lets Bedrock players in.''"

definition player_demo :: "string \<Rightarrow> ierror" where
  "player_demo name = ierror_of code_player_demo 422 [(''name'', name)]
     (name @ '' hasn't bought Minecraft: Java Edition, so it can't join servers.'')
     ''Buy Java Edition for this account, then open the link again.''"

definition player_legacy :: "string \<Rightarrow> ierror" where
  "player_legacy name = ierror_of code_player_legacy 422 [(''name'', name)]
     (name @ '' is an old Mojang account that was never moved to a Microsoft account, so it can't sign in any more.'')
     ''Use the account you play Minecraft with now.''"

text \<open>\<open>math.Ceil(d.Seconds())\<close> of a wait of minutes, far from where \<open>float64\<close> loses a nanosecond.\<close>

definition seconds_up :: "duration \<Rightarrow> string" where
  "seconds_up d = itoa (- ((- d) div second))"

definition mojang_busy :: "duration \<Rightarrow> string \<Rightarrow> ierror" where
  "mojang_busy wait cause = \<lparr>ie_code = code_mojang_busy, ie_params = [(''seconds'', seconds_up wait)],
     ie_msg = ''Minecraft's account service is busy right now.'',
     ie_hint = (if minute < wait then ''Try again in a few minutes.'' else ''Try again in a minute.''),
     ie_status = 503, ie_retry_after = wait, ie_reason = cause\<rparr>"

definition mojang_down :: "string \<Rightarrow> ierror" where
  "mojang_down cause = (ierror_of code_mojang_down 502 []
     ''Playkeeper couldn't check that name with Minecraft's account service.'' ''Try again in a few minutes.'')\<lparr>ie_reason := cause\<rparr>"

subsection \<open>Looking a friend up\<close>

record profile =
  pr_id :: string
  pr_name :: string
  pr_demo :: bool
  pr_legacy :: bool

datatype lookup_failure = Invalid_Name | No_Account | Rate_Limited duration string | Lookup_Failed string

definition lookup_error :: "lookup_failure \<Rightarrow> string \<Rightarrow> ierror" where
  "lookup_error f name =
     (case f of
        Invalid_Name \<Rightarrow> player_name_error
      | No_Account \<Rightarrow> player_not_found name
      | Rate_Limited retry cause \<Rightarrow> mojang_busy (if 0 < retry then retry else minute) cause
      | Lookup_Failed cause \<Rightarrow> mojang_down cause)"

definition waits :: "invite \<Rightarrow> bool" where
  "waits iv \<longleftrightarrow> iv_approval iv \<noteq> right_away"

definition check_player :: "invite \<Rightarrow> string \<Rightarrow> account \<Rightarrow> gotime \<Rightarrow> ierror option" where
  "check_player iv c creator now =
     (let err = check_invite iv c kind_player now
      in if code_of err = code_not_working then err
         else if ac_user_id creator \<noteq> iv_created_by iv \<or> can_let_players_in creator (iv_server_id iv) \<noteq> None
         then Some (not_working ''the invite's creator can no longer let players in'')
         else if code_of err = code_expired then Some (run_out_expired iv (ac_name creator))
         else if code_of err = code_used_up then Some (run_out_used_up iv (ac_name creator))
         else err)"

definition find_player :: "(string \<Rightarrow> lookup_failure + profile) \<Rightarrow> invite \<Rightarrow> string \<Rightarrow> account \<Rightarrow> string \<Rightarrow> gotime \<Rightarrow> ierror + profile" where
  "find_player lookup iv c creator name now =
     (case check_player iv c creator now of Some e \<Rightarrow> Inl e | None \<Rightarrow>
        if \<not> valid_player_name name then Inl player_name_error
        else case lookup name of Inl f \<Rightarrow> Inl (lookup_error f name) | Inr p \<Rightarrow>
          if normalize_uuid (pr_id p) \<noteq> Some (pr_id p) \<or> \<not> valid_player_name (pr_name p)
          then Inl (mojang_down ''the profile lookup answered with an invalid name or UUID'')
          else if pr_demo p then Inl (player_demo (pr_name p))
          else if pr_legacy p then Inl (player_legacy (pr_name p))
          else Inr p)"

record server_info =
  sv_name :: string
  sv_version :: string
  sv_online :: bool
  sv_playing :: int

record player_page =
  pp_kind :: string
  pp_inviter :: string
  pp_server :: string
  pp_version :: string
  pp_online :: bool
  pp_playing :: int
  pp_approval :: string

definition preview_player :: "invite \<Rightarrow> string \<Rightarrow> account \<Rightarrow> server_info \<Rightarrow> gotime \<Rightarrow> ierror + player_page" where
  "preview_player iv c creator srv now =
     (case check_player iv c creator now of Some e \<Rightarrow> Inl e | None \<Rightarrow>
        Inr \<lparr>pp_kind = kind_player, pp_inviter = ac_name creator, pp_server = trim_space (sv_name srv), pp_version = sv_version srv,
             pp_online = sv_online srv, pp_playing = (if sv_online srv then max 0 (sv_playing srv) else 0),
             pp_approval = (if waits iv then after_yes else right_away)\<rparr>)"

definition lookup_player :: "(string \<Rightarrow> lookup_failure + profile) \<Rightarrow> invite \<Rightarrow> string \<Rightarrow> account \<Rightarrow> string \<Rightarrow> gotime
    \<Rightarrow> ierror + string \<times> string" where
  "lookup_player lookup iv c creator name now =
     (case find_player lookup iv c creator name now of Inl e \<Rightarrow> Inl e | Inr p \<Rightarrow> Inr (pr_name p, pr_id p))"

record redemption =
  rd_invite_id :: string
  rd_server_id :: string
  rd_profile :: profile
  rd_wait :: bool

record player_grant =
  pg_invite_id :: string
  pg_server_id :: string
  pg_profile :: profile
  pg_request_id :: string

definition redeem_player :: "(string \<Rightarrow> lookup_failure + profile) \<Rightarrow> invite \<Rightarrow> string \<Rightarrow> account \<Rightarrow> string \<Rightarrow> gotime \<Rightarrow> ierror + redemption" where
  "redeem_player lookup iv c creator name now =
     (case find_player lookup iv c creator name now of Inl e \<Rightarrow> Inl e | Inr p \<Rightarrow>
        Inr \<lparr>rd_invite_id = iv_id iv, rd_server_id = iv_server_id iv, rd_profile = p, rd_wait = waits iv\<rparr>)"

definition redemption_grant :: "redemption \<Rightarrow> player_grant option" where
  "redemption_grant r = (if rd_wait r then None
     else Some \<lparr>pg_invite_id = rd_invite_id r, pg_server_id = rd_server_id r, pg_profile = rd_profile r, pg_request_id = []\<rparr>)"

subsection \<open>Join requests\<close>

definition max_pending_per_invite :: int where "max_pending_per_invite = 20"
definition max_pending_per_address :: int where "max_pending_per_address = 5"

datatype request_state = Pending | Approved | Declined

record join_request =
  jr_id :: string
  jr_invite_id :: string
  jr_server_id :: string
  jr_player_name :: string
  jr_player_uuid :: string
  jr_address :: string
  jr_state :: request_state
  jr_created_at :: gotime
  jr_decided_at :: gotime
  jr_decided_by :: int

datatype join_error = Refused ierror | Failed string

definition new_join_request :: "bytes \<Rightarrow> redemption \<Rightarrow> string \<Rightarrow> int \<Rightarrow> int \<Rightarrow> gotime \<Rightarrow> join_error + join_request" where
  "new_join_request rnd r address pending_invite pending_address now =
     (if \<not> rd_wait r then Inl (Failed ''the invite lets people in right away, so there is nothing to ask'')
      else if address = [] then Inl (Failed ''a join request needs the address it came from'')
      else if max_pending_per_invite \<le> pending_invite then Inl (Refused (requests_full ''invite''))
      else if max_pending_per_address \<le> pending_address then Inl (Refused (requests_full ''address''))
      else Inr \<lparr>jr_id = new_id rnd, jr_invite_id = rd_invite_id r, jr_server_id = rd_server_id r,
                jr_player_name = pr_name (rd_profile r), jr_player_uuid = pr_id (rd_profile r), jr_address = address,
                jr_state = Pending, jr_created_at = stamp now, jr_decided_at = zero_time, jr_decided_by = 0\<rparr>)"

definition decide_request :: "join_request \<Rightarrow> account \<Rightarrow> request_state \<Rightarrow> gotime \<Rightarrow> join_error + join_request" where
  "decide_request r by st now =
     (case can_let_players_in by (jr_server_id r) of Some e \<Rightarrow> Inl (Refused e) | None \<Rightarrow>
        if jr_state r \<noteq> Pending then Inl (Refused request_decided)
        else Inr (r\<lparr>jr_state := st, jr_decided_at := stamp now, jr_decided_by := ac_user_id by, jr_address := []\<rparr>))"

definition approve :: "join_request \<Rightarrow> account \<Rightarrow> gotime \<Rightarrow> join_error + join_request \<times> player_grant" where
  "approve r by now =
     (let p = \<lparr>pr_id = jr_player_uuid r, pr_name = jr_player_name r, pr_demo = False, pr_legacy = False\<rparr>
      in if normalize_uuid (pr_id p) \<noteq> Some (pr_id p) \<or> \<not> valid_player_name (pr_name p)
         then Inl (Failed ''the join request has no valid player name and UUID'')
         else case decide_request r by Approved now of Inl e \<Rightarrow> Inl e | Inr d \<Rightarrow>
           Inr (d, \<lparr>pg_invite_id = jr_invite_id r, pg_server_id = jr_server_id r, pg_profile = p, pg_request_id = jr_id r\<rparr>))"

definition decline :: "join_request \<Rightarrow> account \<Rightarrow> gotime \<Rightarrow> join_error + join_request" where
  "decline r by now = decide_request r by Declined now"

record origin =
  or_server_id :: string
  or_player_uuid :: string
  or_invite_id :: string
  or_request_id :: string
  or_joined_at :: gotime

definition grant_origin :: "player_grant \<Rightarrow> gotime \<Rightarrow> origin" where
  "grant_origin g now = \<lparr>or_server_id = pg_server_id g, or_player_uuid = pr_id (pg_profile g), or_invite_id = pg_invite_id g,
     or_request_id = pg_request_id g, or_joined_at = stamp now\<rparr>"

subsection \<open>Who gets in\<close>

lemma check_player_None:
  "check_player iv c creator now = None \<Longrightarrow>
     check_invite iv c kind_player now = None \<and> ac_user_id creator = iv_created_by iv \<and> can_let_players_in creator (iv_server_id iv) = None"
  by (auto simp: check_player_def Let_def code_of_def split: if_splits)

lemma find_player_Inr:
  "find_player lookup iv c creator name now = Inr p \<Longrightarrow>
     check_player iv c creator now = None \<and> lookup name = Inr p \<and> valid_player_name name
     \<and> normalize_uuid (pr_id p) = Some (pr_id p) \<and> valid_player_name (pr_name p) \<and> \<not> pr_demo p \<and> \<not> pr_legacy p"
  by (auto simp: find_player_def split: option.splits if_splits sum.splits)

lemma open_invite: "check_invite iv c k now = None \<Longrightarrow>
    code_matches (iv_code_hash iv) c \<and> iv_kind iv = k \<and> status_at iv now = Active"
  by (auto simp: check_invite_def usable_def status_at_def split: if_splits)

text \<open>A friend gets a grant or a request only with the code of an active friend link whose creator may let players
  into its server now, as an account Mojang knows with a valid name and UUID that can join, and gets a grant at once
  only from a link that lets people in right away; and a request is approved only while it waits, by someone who may
  let players into its server, for the player and the server it names.\<close>

theorem friends_are_let_in_by_right:
  "(case redeem_player lookup iv c creator name now of Inl _ \<Rightarrow> True
    | Inr r \<Rightarrow> code_matches (iv_code_hash iv) c \<and> iv_kind iv = kind_player \<and> status_at iv now = Active
        \<and> ac_user_id creator = iv_created_by iv \<and> can_let_players_in creator (iv_server_id iv) = None
        \<and> rd_server_id r = iv_server_id iv \<and> lookup name = Inr (rd_profile r) \<and> valid_player_name (pr_name (rd_profile r))
        \<and> normalize_uuid (pr_id (rd_profile r)) = Some (pr_id (rd_profile r)) \<and> \<not> pr_demo (rd_profile r) \<and> \<not> pr_legacy (rd_profile r)
        \<and> (redemption_grant r \<noteq> None) = (iv_approval iv = right_away))
   \<and> (case approve q by now of Inl _ \<Rightarrow> True
    | Inr (d, g) \<Rightarrow> jr_state q = Pending \<and> can_let_players_in by (jr_server_id q) = None \<and> valid_player_name (jr_player_name q)
        \<and> pg_server_id g = jr_server_id q \<and> pr_id (pg_profile g) = jr_player_uuid q \<and> pr_name (pg_profile g) = jr_player_name q
        \<and> jr_state d = Approved \<and> jr_decided_by d = ac_user_id by \<and> jr_address d = [])"
proof
  show "case redeem_player lookup iv c creator name now of Inl _ \<Rightarrow> True
    | Inr r \<Rightarrow> code_matches (iv_code_hash iv) c \<and> iv_kind iv = kind_player \<and> status_at iv now = Active
        \<and> ac_user_id creator = iv_created_by iv \<and> can_let_players_in creator (iv_server_id iv) = None
        \<and> rd_server_id r = iv_server_id iv \<and> lookup name = Inr (rd_profile r) \<and> valid_player_name (pr_name (rd_profile r))
        \<and> normalize_uuid (pr_id (rd_profile r)) = Some (pr_id (rd_profile r)) \<and> \<not> pr_demo (rd_profile r) \<and> \<not> pr_legacy (rd_profile r)
        \<and> (redemption_grant r \<noteq> None) = (iv_approval iv = right_away)"
  proof (cases "find_player lookup iv c creator name now")
    case (Inr p)
    note f = find_player_Inr [OF Inr]
    note k = check_player_None [OF conjunct1 [OF f]]
    note o = open_invite [OF conjunct1 [OF k]]
    show ?thesis using f k o by (simp add: redeem_player_def Inr redemption_grant_def waits_def)
  qed (simp add: redeem_player_def)
  show "case approve q by now of Inl _ \<Rightarrow> True
    | Inr (d, g) \<Rightarrow> jr_state q = Pending \<and> can_let_players_in by (jr_server_id q) = None \<and> valid_player_name (jr_player_name q)
        \<and> pg_server_id g = jr_server_id q \<and> pr_id (pg_profile g) = jr_player_uuid q \<and> pr_name (pg_profile g) = jr_player_name q
        \<and> jr_state d = Approved \<and> jr_decided_by d = ac_user_id by \<and> jr_address d = []"
    by (simp add: approve_def decide_request_def Let_def split: option.split)
qed

end
