(* ===== verification/Friend_Links.thy ===== *)
theory Friend_Links
  imports Join_Requests
begin

section \<open>Friend links in the dashboard (internal/panel/friends.go, join.go, team.go)\<close>

text \<open>
  The statements and transactions with which the dashboard's handlers count the uses of friend
  links and decide join requests, on the tables invites and join\_requests. The database runs each
  statement and each immediate transaction as one step; between two of them the handlers ask the
  machine's agent, whose answer is an event of its own. Any interleaving of handlers is therefore a
  list of \<open>link_event\<close>. Handlers between two steps are part of the state (\<open>ls_letting\<close>,
  \<open>ls_approving\<close>); \<open>ls_entered\<close> logs, for the theorems only, the link of every friend the agent
  reported as added. A request is loaded in the step that decides it: only its state can change
  in between, and the statements test that again. Failures of the database and the deletion of
  a whole server are not modelled. The main theorem bounds the friends a link lets in.
\<close>

subsection \<open>Definitions\<close>

text \<open>Rows of the table keep times as milliseconds (\<open>Millis\<close>); the statements below read them so.\<close>

definition use_hits :: "invite \<Rightarrow> int \<Rightarrow> bool" where
  "use_hits iv now \<longleftrightarrow> millis (iv_revoked_at iv) = 0 \<and> (millis (iv_expires_at iv) = 0 \<or> now < millis (iv_expires_at iv))
     \<and> (iv_max_uses iv = 0 \<or> iv_uses iv < iv_max_uses iv)"

datatype agent_answer = Added | Already_Listed | Agent_Failed

record link_state =
  ls_ids :: "string list"
  ls_invites :: "string \<Rightarrow> invite option"
  ls_requests :: "join_request list"
  ls_letting :: "string list"
  ls_approving :: "(join_request \<times> join_request) list"
  ls_entered :: "string list"

definition use_invite :: "link_state \<Rightarrow> string \<Rightarrow> int \<Rightarrow> link_state option" where
  "use_invite s i now =
     (case ls_invites s i of None \<Rightarrow> None | Some iv \<Rightarrow>
        if use_hits iv now then Some (s\<lparr>ls_invites := (ls_invites s)(i \<mapsto> iv\<lparr>iv_uses := iv_uses iv + 1\<rparr>)\<rparr>) else None)"

definition give_use_back :: "link_state \<Rightarrow> string \<Rightarrow> link_state" where
  "give_use_back s i =
     (case ls_invites s i of None \<Rightarrow> s | Some iv \<Rightarrow>
        if 0 < iv_uses iv then s\<lparr>ls_invites := (ls_invites s)(i \<mapsto> iv\<lparr>iv_uses := iv_uses iv - 1\<rparr>)\<rparr> else s)"

text \<open>\<open>letIn\<close>: the use is counted, then the agent is asked, then the answer is dealt with.\<close>

definition let_in :: "link_state \<Rightarrow> string \<Rightarrow> int \<Rightarrow> link_state" where
  "let_in s i now = (case use_invite s i now of None \<Rightarrow> s | Some s \<Rightarrow> s\<lparr>ls_letting := i # ls_letting s\<rparr>)"

definition let_in_done :: "link_state \<Rightarrow> string \<Rightarrow> agent_answer \<Rightarrow> link_state" where
  "let_in_done s i a =
     (if i \<notin> set (ls_letting s) then s
      else let s = s\<lparr>ls_letting := remove1 i (ls_letting s)\<rparr>
           in if a = Added then s\<lparr>ls_entered := i # ls_entered s\<rparr> else give_use_back s i)"

definition pending_with :: "(join_request \<Rightarrow> bool) \<Rightarrow> link_state \<Rightarrow> nat" where
  "pending_with P s = length (filter (\<lambda>r. jr_state r = Pending \<and> P r) (ls_requests s))"

text \<open>The transaction of \<open>askToJoin\<close>; it is rolled back where it ends with an error. A request id is
  the table's primary key.\<close>

definition ask_to_join :: "link_state \<Rightarrow> bytes \<Rightarrow> redemption \<Rightarrow> string \<Rightarrow> gotime \<Rightarrow> link_state" where
  "ask_to_join s rnd red address now =
     (if 0 < pending_with (\<lambda>r. jr_server_id r = rd_server_id red \<and> jr_player_uuid r = pr_id (rd_profile red)) s then s
      else case new_join_request rnd red address (int (pending_with (\<lambda>r. jr_invite_id r = rd_invite_id red) s))
                  (int (pending_with (\<lambda>r. jr_address r = address) s)) now of
             Inl _ \<Rightarrow> s
           | Inr jr \<Rightarrow>
               (case use_invite s (rd_invite_id red) (millis now) of None \<Rightarrow> s | Some s' \<Rightarrow>
                  if jr_id jr \<in> jr_id ` set (ls_requests s) then s
                  else s'\<lparr>ls_requests := jr # ls_requests s'\<rparr>))"

definition set_request :: "link_state \<Rightarrow> string \<Rightarrow> (join_request \<Rightarrow> bool) \<Rightarrow> (join_request \<Rightarrow> join_request) \<Rightarrow> link_state" where
  "set_request s i P f = s\<lparr>ls_requests := map (\<lambda>r. if jr_id r = i \<and> P r then f r else r) (ls_requests s)\<rparr>"

definition find_request :: "link_state \<Rightarrow> string \<Rightarrow> join_request option" where
  "find_request s i = find (\<lambda>r. jr_id r = i) (ls_requests s)"

text \<open>\<open>hJoinRequestApprove\<close> up to the agent's answer, and from there.\<close>

definition approve_request :: "link_state \<Rightarrow> string \<Rightarrow> account \<Rightarrow> gotime \<Rightarrow> link_state" where
  "approve_request s i by now =
     (case find_request s i of None \<Rightarrow> s | Some jr \<Rightarrow>
        case approve jr by now of Inl _ \<Rightarrow> s | Inr (decided, _) \<Rightarrow>
          let s = set_request s i (\<lambda>r. jr_state r = Pending) (\<lambda>r. r\<lparr>jr_state := Approved, jr_decided_at := jr_decided_at decided,
                    jr_decided_by := jr_decided_by decided, jr_address := []\<rparr>)
          in s\<lparr>ls_approving := (jr, decided) # ls_approving s\<rparr>)"

text \<open>\<open>putBack\<close>. The index join\_requests\_one\_pending refuses a second request that waits for the same server and player.\<close>

definition put_back :: "link_state \<Rightarrow> join_request \<Rightarrow> join_request \<Rightarrow> link_state" where
  "put_back s jr decided =
     (let P = (\<lambda>r. jr_state r = Approved \<and> jr_decided_at r = jr_decided_at decided \<and> jr_decided_by r = jr_decided_by decided);
          live = (case ls_invites s (jr_invite_id jr) of None \<Rightarrow> False | Some iv \<Rightarrow> millis (iv_revoked_at iv) = 0)
      in if live
         then if 0 < pending_with (\<lambda>r. jr_server_id r = jr_server_id jr \<and> jr_player_uuid r = jr_player_uuid jr) s then s
              else set_request s (jr_id jr) P (\<lambda>r. r\<lparr>jr_state := Pending, jr_decided_at := zero_time, jr_decided_by := 0,
                     jr_address := jr_address jr\<rparr>)
         else set_request s (jr_id jr) P (\<lambda>r. r\<lparr>jr_state := Declined, jr_address := []\<rparr>))"

definition approve_done :: "link_state \<Rightarrow> nat \<Rightarrow> agent_answer \<Rightarrow> link_state" where
  "approve_done s n a =
     (if length (ls_approving s) \<le> n then s
      else case ls_approving s ! n of (jr, decided) \<Rightarrow>
        let s = s\<lparr>ls_approving := take n (ls_approving s) @ drop (n + 1) (ls_approving s)\<rparr>
        in case a of
             Added \<Rightarrow> s\<lparr>ls_entered := jr_invite_id jr # ls_entered s\<rparr>
           | Already_Listed \<Rightarrow> give_use_back s (jr_invite_id jr)
           | Agent_Failed \<Rightarrow> put_back s jr decided)"

definition decline_request :: "link_state \<Rightarrow> string \<Rightarrow> account \<Rightarrow> gotime \<Rightarrow> link_state" where
  "decline_request s i by now =
     (case find_request s i of None \<Rightarrow> s | Some jr \<Rightarrow>
        case decline jr by now of Inl _ \<Rightarrow> s | Inr decided \<Rightarrow>
          give_use_back (set_request s i (\<lambda>r. jr_state r = Pending) (\<lambda>r. r\<lparr>jr_state := Declined,
            jr_decided_at := jr_decided_at decided, jr_decided_by := jr_decided_by decided, jr_address := []\<rparr>)) (jr_invite_id jr))"

text \<open>The transaction of \<open>hInviteRevoke\<close> and of \<open>turnOffLinks\<close>.\<close>

definition turn_off :: "link_state \<Rightarrow> string \<Rightarrow> int \<Rightarrow> gotime \<Rightarrow> link_state" where
  "turn_off s i by now =
     (case ls_invites s i of None \<Rightarrow> s | Some iv \<Rightarrow>
        s\<lparr>ls_invites := (ls_invites s)(i \<mapsto> revoke iv now),
          ls_requests := map (\<lambda>r. if jr_invite_id r = i \<and> jr_state r = Pending
            then r\<lparr>jr_state := Declined, jr_decided_at := stamp now, jr_decided_by := by, jr_address := []\<rparr> else r) (ls_requests s)\<rparr>)"

definition revoke_link :: "link_state \<Rightarrow> string \<Rightarrow> string \<Rightarrow> account \<Rightarrow> gotime \<Rightarrow> link_state" where
  "revoke_link s i server by now =
     (if \<not> valid_id i then s
      else case can_let_players_in by server of Some _ \<Rightarrow> s | None \<Rightarrow>
        case ls_invites s i of None \<Rightarrow> s | Some iv \<Rightarrow>
          if iv_kind iv \<noteq> kind_player \<or> iv_server_id iv \<noteq> server then s else turn_off s i (ac_user_id by) now)"

text \<open>The links that \<open>turnOffLinks\<close> turns off, one transaction each: the open ones that their creator, as they
  stand now, can no longer make.\<close>

definition links_off :: "link_state \<Rightarrow> account \<Rightarrow> string list" where
  "links_off s creator = filter (\<lambda>i. case ls_invites s i of None \<Rightarrow> False | Some iv \<Rightarrow>
     iv_created_by iv = ac_user_id creator \<and> millis (iv_revoked_at iv) = 0
     \<and> (ac_install_role creator = [] \<or>
        \<not> (if iv_kind iv = kind_member then can_grant creator (iv_role iv) (iv_servers iv) = None
           else can_let_players_in creator (iv_server_id iv) = None))) (ls_ids s)"

text \<open>\<open>hInviteCreate\<close>: the new row, unless the server has as many links that work as it may, its id is taken or the
  table's check on the number of uses refuses it.\<close>

definition working_links :: "link_state \<Rightarrow> string \<Rightarrow> gotime \<Rightarrow> nat" where
  "working_links s server now = length (filter (\<lambda>i. case ls_invites s i of None \<Rightarrow> False | Some iv \<Rightarrow>
     iv_kind iv = kind_player \<and> iv_server_id iv = server \<and> use_hits iv (millis now)) (ls_ids s))"

definition make_link :: "link_state \<Rightarrow> randomness \<Rightarrow> player_spec \<Rightarrow> account \<Rightarrow> gotime \<Rightarrow> link_state" where
  "make_link s rnd spec creator now =
     (case new_player rnd spec creator now of
        Some (Inr c) \<Rightarrow>
          if max_working_player_invites \<le> int (working_links s (ps_server_id spec) now) then s
          else if ls_invites s (iv_id (cr_invite c)) \<noteq> None \<or> \<not> (0 \<le> iv_max_uses (cr_invite c) \<and> iv_max_uses (cr_invite c) \<le> 100) then s
          else s\<lparr>ls_ids := ls_ids s @ [iv_id (cr_invite c)], ls_invites := (ls_invites s)(iv_id (cr_invite c) \<mapsto> cr_invite c)\<rparr>
      | _ \<Rightarrow> s)"

datatype link_event =
    Make_Link randomness player_spec account gotime
  | Let_In string gotime | Let_In_Done string agent_answer
  | Ask bytes redemption string gotime
  | Approve string account gotime | Approve_Done nat agent_answer
  | Decline string account gotime | Revoke_Link string string account gotime | Turn_Off string int gotime

fun link_step :: "link_state \<Rightarrow> link_event \<Rightarrow> link_state" where
  "link_step s (Make_Link rnd spec creator now) = make_link s rnd spec creator now"
| "link_step s (Let_In i now) = let_in s i (millis now)"
| "link_step s (Let_In_Done i a) = let_in_done s i a"
| "link_step s (Ask rnd red address now) = ask_to_join s rnd red address now"
| "link_step s (Approve i by now) = approve_request s i by now"
| "link_step s (Approve_Done n a) = approve_done s n a"
| "link_step s (Decline i by now) = decline_request s i by now"
| "link_step s (Revoke_Link i server by now) = revoke_link s i server by now"
| "link_step s (Turn_Off i by now) = turn_off s i by now"

definition no_links :: link_state where
  "no_links = \<lparr>ls_ids = [], ls_invites = (\<lambda>_. None), ls_requests = [], ls_letting = [], ls_approving = [], ls_entered = []\<rparr>"

subsection \<open>The uses that are held\<close>

definition pend :: "join_request list \<Rightarrow> string \<Rightarrow> int" where
  "pend rs i = int (length (filter (\<lambda>r. jr_state r = Pending \<and> jr_invite_id r = i) rs))"

definition waiting :: "join_request list \<Rightarrow> string \<Rightarrow> string \<Rightarrow> int" where
  "waiting rs v u = int (length (filter (\<lambda>r. jr_state r = Pending \<and> jr_server_id r = v \<and> jr_player_uuid r = u) rs))"

definition in_approval :: "(join_request \<times> join_request) list \<Rightarrow> string \<Rightarrow> int" where
  "in_approval as i = int (length (filter (\<lambda>(jr, _). jr_invite_id jr = i) as))"

text \<open>A link's uses are held by the requests that wait, by the approvals and the friends on their way to the agent,
  and by the friends that got in.\<close>

definition held :: "link_state \<Rightarrow> string \<Rightarrow> int" where
  "held s i = pend (ls_requests s) i + in_approval (ls_approving s) i + int (count_list (ls_letting s) i)
     + int (count_list (ls_entered s) i)"

definition same_request :: "join_request \<Rightarrow> join_request \<Rightarrow> bool" where
  "same_request r q \<longleftrightarrow> jr_id r = jr_id q \<and> jr_invite_id r = jr_invite_id q \<and> jr_server_id r = jr_server_id q
     \<and> jr_player_uuid r = jr_player_uuid q"

text \<open>What holds of a link, the uses held and the requests that wait.\<close>

definition link_bound :: "invite \<Rightarrow> int \<Rightarrow> int \<Rightarrow> bool" where
  "link_bound iv h p \<longleftrightarrow> h \<le> iv_uses iv \<and> (iv_max_uses iv = 0 \<or> iv_uses iv \<le> iv_max_uses iv)
     \<and> (millis (iv_revoked_at iv) = 0 \<or> p = 0)"

definition links_bounded :: "link_state \<Rightarrow> bool" where
  "links_bounded s \<longleftrightarrow> (\<forall>i. case ls_invites s i of None \<Rightarrow> held s i = 0 | Some iv \<Rightarrow> link_bound iv (held s i) (pend (ls_requests s) i))"

definition requests_ok :: "link_state \<Rightarrow> bool" where
  "requests_ok s \<longleftrightarrow> distinct (map jr_id (ls_requests s)) \<and> (\<forall>v u. waiting (ls_requests s) v u \<le> 1)
     \<and> (\<forall>(jr, d) \<in> set (ls_approving s). \<exists>r \<in> set (ls_requests s). same_request r jr)"

definition link_ok :: "link_state \<Rightarrow> bool" where
  "link_ok s \<longleftrightarrow> links_bounded s \<and> requests_ok s"

lemma held_nonneg: "0 \<le> pend rs i" "0 \<le> in_approval as i" "0 \<le> held s i"
  by (simp_all add: pend_def in_approval_def held_def)

text \<open>Changing the one request with an id.\<close>

lemma count_update:
  assumes "distinct (map jr_id rs)" and "r0 \<in> set rs" and "jr_id r0 = i"
  shows "int (length (filter Q (map (\<lambda>r. if jr_id r = i \<and> P r then f r else r) rs)))
    = int (length (filter Q rs)) + (if P r0 then (if Q (f r0) then 1 else 0) - (if Q r0 then 1 else 0) else 0)"
  using assms
proof (induction rs)
  case (Cons r rs)
  show ?case
  proof (cases "r = r0")
    case True
    then have "i \<notin> jr_id ` set rs" using Cons.prems by auto
    then have "map (\<lambda>r. if jr_id r = i \<and> P r then f r else r) rs = rs" by (intro map_idI) auto
    then show ?thesis using Cons.prems True by simp
  next
    case False
    then have "r0 \<in> set rs" "jr_id r \<noteq> i" using Cons.prems by auto
    then show ?thesis using Cons by (cases "P r0"; cases "Q (f r0)"; cases "Q r0") simp_all
  qed
qed simp

lemma ids_update: "(\<And>r. jr_id (f r) = jr_id r) \<Longrightarrow> map jr_id (map (\<lambda>r. if B r then f r else r) rs) = map jr_id rs"
  by simp

lemma same_request_update:
  assumes "(\<And>r. same_request (f r) r)" and "r \<in> set rs" and "same_request r q"
  shows "\<exists>r \<in> set (map (\<lambda>r. if B r then f r else r) rs). same_request r q"
proof (intro bexI)
  show "same_request (if B r then f r else r) q" using assms by (auto simp: same_request_def)
  show "(if B r then f r else r) \<in> set (map (\<lambda>r. if B r then f r else r) rs)" using assms(2) by (auto intro!: image_eqI)
qed

lemma update_counts:
  assumes "distinct (map jr_id rs)" and "r0 \<in> set rs" and "jr_id r0 = i" and "\<And>r. same_request (f r) r"
  shows "pend (map (\<lambda>r. if jr_id r = i \<and> P r then f r else r) rs) k
      = pend rs k + (if P r0 \<and> jr_invite_id r0 = k
          then (if jr_state (f r0) = Pending then 1 else 0) - (if jr_state r0 = Pending then 1 else 0) else 0)"
    "waiting (map (\<lambda>r. if jr_id r = i \<and> P r then f r else r) rs) v u
      = waiting rs v u + (if P r0 \<and> jr_server_id r0 = v \<and> jr_player_uuid r0 = u
          then (if jr_state (f r0) = Pending then 1 else 0) - (if jr_state r0 = Pending then 1 else 0) else 0)"
  unfolding pend_def waiting_def count_update [OF assms(1-3)] using assms(4) by (simp_all add: same_request_def)

lemma requests_ok_update:
  assumes "requests_ok s" and "\<And>r. same_request (f r) r" and "\<And>v u. waiting (map (\<lambda>r. if B r then f r else r) (ls_requests s)) v u \<le> 1"
    and "set (ls_approving s') \<subseteq> set (ls_approving s)" and "ls_requests s' = map (\<lambda>r. if B r then f r else r) (ls_requests s)"
  shows "requests_ok s'"
proof -
  have ids: "map jr_id (ls_requests s') = map jr_id (ls_requests s)"
    unfolding assms(5) by (rule ids_update) (use assms(2) in \<open>simp add: same_request_def\<close>)
  have "\<exists>r \<in> set (ls_requests s'). same_request r jr" if "(jr, d) \<in> set (ls_approving s')" for jr d
  proof -
    have "(jr, d) \<in> set (ls_approving s)" using that assms(4) by blast
    then obtain r where "r \<in> set (ls_requests s)" "same_request r jr" using assms(1) unfolding requests_ok_def by fast
    then show ?thesis unfolding assms(5) by (rule same_request_update [OF assms(2)])
  qed
  then show ?thesis using assms(1,3) unfolding requests_ok_def ids by (auto simp: assms(5))
qed

lemma requests_ok_approving: "requests_ok s \<Longrightarrow> ls_requests s' = ls_requests s \<Longrightarrow> set (ls_approving s') \<subseteq> set (ls_approving s) \<Longrightarrow> requests_ok s'"
  by (auto simp: requests_ok_def)

lemma boundedI:
  assumes "\<And>i iv. ls_invites s i = Some iv \<Longrightarrow> link_bound iv (held s i) (pend (ls_requests s) i)"
    and "\<And>i. ls_invites s i = None \<Longrightarrow> held s i = 0"
  shows "links_bounded s"
  unfolding links_bounded_def using assms by (auto split: option.split)

lemma boundedD:
  "links_bounded s \<Longrightarrow> ls_invites s i = Some iv \<Longrightarrow> link_bound iv (held s i) (pend (ls_requests s) i)"
  "links_bounded s \<Longrightarrow> ls_invites s i = None \<Longrightarrow> held s i = 0"
  unfolding links_bounded_def by (metis option.simps(5), metis option.simps(4))

lemma link_bound_less: "link_bound iv h p \<Longrightarrow> h' \<le> h \<Longrightarrow> millis (iv_revoked_at iv) = 0 \<or> 0 \<le> p' \<and> p' \<le> p \<Longrightarrow> link_bound iv h' p'"
  by (auto simp: link_bound_def)

text \<open>A use given back while the state holds one use less of the link than before.\<close>

lemma give_back_bounded:
  assumes "links_bounded s" and "held t i < held s i" and "\<And>k. k \<noteq> i \<Longrightarrow> held t k = held s k"
    and "ls_invites t = ls_invites s" and "\<And>k. pend (ls_requests t) k \<le> pend (ls_requests s) k"
  shows "links_bounded (give_use_back t i)"
proof (cases "ls_invites s i")
  case None
  then show ?thesis using boundedD(2) [OF assms(1)] assms(2) held_nonneg(3) [of t i] by simp
next
  case (Some old)
  note b = boundedD(1) [OF assms(1) Some]
  have "0 < iv_uses old" using b assms(2) held_nonneg(3) [of t i] by (simp add: link_bound_def)
  then have g: "give_use_back t i = t\<lparr>ls_invites := (ls_invites s)(i \<mapsto> old\<lparr>iv_uses := iv_uses old - 1\<rparr>)\<rparr>"
    using Some assms(4) by (simp add: give_use_back_def)
  show ?thesis unfolding g
  proof (rule boundedI)
    let ?u = "t\<lparr>ls_invites := (ls_invites s)(i \<mapsto> old\<lparr>iv_uses := iv_uses old - 1\<rparr>)\<rparr>"
    have held: "held ?u k = held t k" for k by (simp add: held_def)
    note p = held_nonneg(1) [of "ls_requests t"] assms(5)
    fix k
    show "link_bound iv (held ?u k) (pend (ls_requests ?u) k)" if k: "ls_invites ?u k = Some iv" for iv
    proof (cases "k = i")
      case True
      have "link_bound old (held s i) (pend (ls_requests t) i)" by (rule link_bound_less [OF b]) (simp_all add: p)
      then show ?thesis using k assms(2) True by (auto simp: held link_bound_def)
    next
      case False
      then have "ls_invites s k = Some iv" using k by simp
      from boundedD(1) [OF assms(1) this] show ?thesis
        by (rule link_bound_less) (simp_all add: held assms(3) [OF False] p)
    qed
    show "held ?u k = 0" if "ls_invites ?u k = None"
    proof -
      have "k \<noteq> i" "ls_invites s k = None" using that by (auto split: if_splits)
      then show ?thesis using boundedD(2) [OF assms(1)] assms(3) by (simp add: held)
    qed
  qed
qed

lemma give_back_requests [simp]:
  "ls_requests (give_use_back t i) = ls_requests t" "ls_approving (give_use_back t i) = ls_approving t"
  by (simp_all add: give_use_back_def split: option.split)

text \<open>A use taken, with one more held.\<close>

lemma use_invite_bounded:
  assumes "links_bounded s" and "use_invite s i now = Some s'" and "held t i \<le> held s i + 1" and "\<And>k. k \<noteq> i \<Longrightarrow> held t k = held s k"
    and "ls_invites t = ls_invites s'" and "\<And>k. k \<noteq> i \<Longrightarrow> pend (ls_requests t) k \<le> pend (ls_requests s) k"
  shows "links_bounded t"
proof -
  obtain iv where iv: "ls_invites s i = Some iv" "use_hits iv now"
    and s': "s' = s\<lparr>ls_invites := (ls_invites s)(i \<mapsto> iv\<lparr>iv_uses := iv_uses iv + 1\<rparr>)\<rparr>"
    using assms(2) by (auto simp: use_invite_def split: option.splits if_splits)
  note b = boundedD(1) [OF assms(1) iv(1)]
  show ?thesis
  proof (rule boundedI)
    fix k
    show "link_bound jv (held t k) (pend (ls_requests t) k)" if k: "ls_invites t k = Some jv" for jv
    proof (cases "k = i")
      case True
      then show ?thesis using k iv(2) b assms(3) by (auto simp: assms(5) s' use_hits_def link_bound_def)
    next
      case False
      then have "ls_invites s k = Some jv" using k by (simp add: assms(5) s')
      from boundedD(1) [OF assms(1) this] show ?thesis
        by (rule link_bound_less) (simp_all add: assms(4,6) [OF False] held_nonneg)
    qed
    show "held t k = 0" if "ls_invites t k = None"
    proof -
      have "k \<noteq> i" "ls_invites s k = None" using that by (auto simp: assms(5) s' split: if_splits)
      then show ?thesis using boundedD(2) [OF assms(1)] assms(4) by simp
    qed
  qed
qed

lemma use_invite_state: "use_invite s i now = Some s' \<Longrightarrow> ls_requests s' = ls_requests s \<and> ls_letting s' = ls_letting s
    \<and> ls_approving s' = ls_approving s \<and> ls_entered s' = ls_entered s"
  by (auto simp: use_invite_def split: option.splits if_splits)

text \<open>A step that leaves the links as they are and holds no more.\<close>

lemma held_less_bounded:
  assumes "links_bounded s" and "\<And>k. held t k \<le> held s k" and "ls_invites t = ls_invites s"
    and "\<And>k iv. ls_invites s k = Some iv \<Longrightarrow> millis (iv_revoked_at iv) \<noteq> 0 \<Longrightarrow> pend (ls_requests t) k \<le> pend (ls_requests s) k"
  shows "links_bounded t"
proof (rule boundedI)
  fix k
  show "link_bound iv (held t k) (pend (ls_requests t) k)" if k: "ls_invites t k = Some iv" for iv
  proof -
    have k: "ls_invites s k = Some iv" using k by (simp add: assms(3))
    from boundedD(1) [OF assms(1) k] show ?thesis
      by (rule link_bound_less [OF _ assms(2)]) (use assms(4) [OF k] held_nonneg(1) in blast)
  qed
  show "held t k = 0" if "ls_invites t k = None"
    using that boundedD(2) [OF assms(1), of k] assms(2) [of k] held_nonneg(3) [of t k] by (simp add: assms(3))
qed

subsection \<open>Every step keeps the uses\<close>

lemma find_request_Some: "find_request s i = Some r \<Longrightarrow> r \<in> set (ls_requests s) \<and> jr_id r = i"
  by (auto simp: find_request_def find_Some_iff)

lemma pending_with_waiting: "int (pending_with (\<lambda>r. jr_server_id r = v \<and> jr_player_uuid r = u) s) = waiting (ls_requests s) v u"
  by (simp add: pending_with_def waiting_def)

lemma make_link_ok: "link_ok s \<Longrightarrow> link_ok (make_link s rnd spec creator now)"
proof -
  assume s: "link_ok s"
  show ?thesis
  proof (cases "make_link s rnd spec creator now = s")
    case False
    then obtain c where c: "new_player rnd spec creator now = Some (Inr c)" "ls_invites s (iv_id (cr_invite c)) = None"
      "0 \<le> iv_max_uses (cr_invite c)"
      and t: "make_link s rnd spec creator now = s\<lparr>ls_ids := ls_ids s @ [iv_id (cr_invite c)], ls_invites := (ls_invites s)(iv_id (cr_invite c) \<mapsto> cr_invite c)\<rparr>"
      by (auto simp: make_link_def split: option.splits sum.splits if_splits)
    have new: "iv_uses (cr_invite c) = 0" "iv_revoked_at (cr_invite c) = zero_time"
      using c(1) by (rule new_player_Some, simp add: zero_invite_def)+
    let ?t = "s\<lparr>ls_ids := ls_ids s @ [iv_id (cr_invite c)], ls_invites := (ls_invites s)(iv_id (cr_invite c) \<mapsto> cr_invite c)\<rparr>"
    have "links_bounded ?t"
    proof -
      have b: "links_bounded s" using s by (simp add: link_ok_def)
      have held: "held ?t k = held s k" for k by (simp add: held_def)
      have "held s (iv_id (cr_invite c)) = 0" by (rule boundedD(2) [OF b c(2)])
      then have "link_bound (cr_invite c) (held s (iv_id (cr_invite c))) p" for p
        by (simp add: link_bound_def new c(3) millis_def)
      then show ?thesis
        by (intro boundedI) (use boundedD [OF b] in \<open>auto simp: held split: if_splits\<close>)
    qed
    moreover have "requests_ok ?t" using s by (simp add: link_ok_def requests_ok_def)
    ultimately show ?thesis by (simp add: link_ok_def t)
  qed (use s in simp)
qed

lemma let_in_ok: "link_ok s \<Longrightarrow> link_ok (let_in s i now)"
proof (cases "use_invite s i now")
  case (Some s')
  assume s: "link_ok s"
  note u = use_invite_state [OF Some]
  have "links_bounded (s'\<lparr>ls_letting := i # ls_letting s'\<rparr>)"
    by (rule use_invite_bounded [OF _ Some]) (use s u in \<open>simp_all add: link_ok_def held_def\<close>)
  moreover have "requests_ok (s'\<lparr>ls_letting := i # ls_letting s'\<rparr>)" using s u by (simp add: link_ok_def requests_ok_def)
  ultimately show ?thesis by (simp add: let_in_def Some link_ok_def)
qed (simp add: let_in_def)

lemma let_in_done_ok: "link_ok s \<Longrightarrow> link_ok (let_in_done s i a)"
proof (cases "i \<in> set (ls_letting s)")
  case True
  assume s: "link_ok s"
  let ?t = "s\<lparr>ls_letting := remove1 i (ls_letting s)\<rparr>"
  have one: "0 < count_list (ls_letting s) i" using True by (metis count_list_0_iff gr0I)
  have "count_list (remove1 i xs) k = count_list xs k - (if k = i then 1 else 0)" for k and xs :: "string list"
    by (induction xs) auto
  then have held: "held ?t k = held s k - (if k = i then 1 else 0)" for k using one by (simp add: held_def)
  have req: "requests_ok u" if "ls_requests u = ls_requests s" "ls_approving u = ls_approving s" for u
    using s that by (simp add: link_ok_def requests_ok_def)
  show ?thesis
  proof (cases "a = Added")
    case True
    have "links_bounded (?t\<lparr>ls_entered := i # ls_entered ?t\<rparr>)"
      by (rule held_less_bounded [of s]) (use s held one in \<open>simp_all add: link_ok_def held_def\<close>)
    then show ?thesis using req \<open>i \<in> set (ls_letting s)\<close> True by (simp add: let_in_done_def link_ok_def)
  next
    case False
    have "links_bounded (give_use_back ?t i)"
      by (rule give_back_bounded [of s]) (use s in \<open>simp_all add: held link_ok_def\<close>)
    then show ?thesis using req \<open>i \<in> set (ls_letting s)\<close> False by (simp add: let_in_done_def link_ok_def)
  qed
qed (simp add: let_in_done_def)

lemma ask_to_join_ok: "link_ok s \<Longrightarrow> link_ok (ask_to_join s rnd red address now)"
proof -
  assume s: "link_ok s"
  define v where "v = rd_server_id red"
  define u where "u = pr_id (rd_profile red)"
  show ?thesis
  proof (cases "\<exists>jr s'. pending_with (\<lambda>r. jr_server_id r = v \<and> jr_player_uuid r = u) s = 0
      \<and> new_join_request rnd red address (int (pending_with (\<lambda>r. jr_invite_id r = rd_invite_id red) s))
                  (int (pending_with (\<lambda>r. jr_address r = address) s)) now = Inr jr
      \<and> use_invite s (rd_invite_id red) (millis now) = Some s' \<and> jr_id jr \<notin> jr_id ` set (ls_requests s)")
    case False
    then have "ask_to_join s rnd red address now = s"
      by (auto simp: ask_to_join_def v_def u_def split: sum.split option.split)
    then show ?thesis using s by simp
  next
    case True
    then obtain jr s' where h: "pending_with (\<lambda>r. jr_server_id r = v \<and> jr_player_uuid r = u) s = 0"
      "new_join_request rnd red address (int (pending_with (\<lambda>r. jr_invite_id r = rd_invite_id red) s))
                  (int (pending_with (\<lambda>r. jr_address r = address) s)) now = Inr jr"
      "use_invite s (rd_invite_id red) (millis now) = Some s'" "jr_id jr \<notin> jr_id ` set (ls_requests s)" by blast
    have jr: "jr_invite_id jr = rd_invite_id red" "jr_server_id jr = v" "jr_player_uuid jr = u" "jr_state jr = Pending"
      using h(2) by (auto simp: new_join_request_def v_def u_def split: if_splits)
    note st = use_invite_state [OF h(3)]
    let ?t = "s'\<lparr>ls_requests := jr # ls_requests s'\<rparr>"
    have "ask_to_join s rnd red address now = ?t" using h by (simp add: ask_to_join_def v_def u_def)
    moreover have "links_bounded ?t"
      by (rule use_invite_bounded [OF _ h(3)]) (use s st jr in \<open>auto simp: link_ok_def held_def pend_def\<close>)
    moreover have "waiting (jr # ls_requests s) w x \<le> 1" for w x
    proof -
      have "waiting (jr # ls_requests s) w x = (if w = v \<and> x = u then waiting (ls_requests s) w x + 1 else waiting (ls_requests s) w x)"
        using jr by (auto simp: waiting_def)
      moreover have "waiting (ls_requests s) v u = 0" using h(1) by (simp flip: pending_with_waiting)
      ultimately show ?thesis using s by (auto simp: link_ok_def requests_ok_def)
    qed
    then have "requests_ok ?t" using s st h(4) by (auto simp: link_ok_def requests_ok_def)
    ultimately show ?thesis by (simp add: link_ok_def)
  qed
qed

lemma set_request_simps [simp]:
  "ls_invites (set_request s i P f) = ls_invites s" "ls_letting (set_request s i P f) = ls_letting s"
  "ls_approving (set_request s i P f) = ls_approving s" "ls_entered (set_request s i P f) = ls_entered s"
  "ls_requests (set_request s i P f) = map (\<lambda>r. if jr_id r = i \<and> P r then f r else r) (ls_requests s)"
  by (simp_all add: set_request_def)

lemma set_request_ok:
  assumes "requests_ok s" and "r0 \<in> set (ls_requests s)" and "jr_id r0 = i" and f: "\<And>r. same_request (f r) r"
    and "P r0 \<Longrightarrow> jr_state (f r0) = Pending \<Longrightarrow> jr_state r0 = Pending \<or> waiting (ls_requests s) (jr_server_id r0) (jr_player_uuid r0) = 0"
  shows "requests_ok (set_request s i P f)"
    and "pend (ls_requests (set_request s i P f)) k = pend (ls_requests s) k + (if P r0 \<and> jr_invite_id r0 = k
          then (if jr_state (f r0) = Pending then 1 else 0) - (if jr_state r0 = Pending then 1 else 0) else 0)"
proof -
  have dist: "distinct (map jr_id (ls_requests s))" and one: "waiting (ls_requests s) v u \<le> 1" for v u
    using assms(1) by (simp_all add: requests_ok_def)
  note counts = update_counts [of "ls_requests s" r0 i f P, OF dist assms(2,3) f]
  have "waiting (map (\<lambda>r. if jr_id r = i \<and> P r then f r else r) (ls_requests s)) v u \<le> 1" for v u
  proof (cases "P r0 \<and> jr_server_id r0 = v \<and> jr_player_uuid r0 = u \<and> jr_state (f r0) = Pending \<and> jr_state r0 \<noteq> Pending")
    case True
    then have "waiting (ls_requests s) v u = 0" using assms(5) by blast
    then show ?thesis unfolding counts by simp
  next
    case False
    then show ?thesis unfolding counts using one [of v u] by (auto split: if_split)
  qed
  then show "requests_ok (set_request s i P f)"
    by (rule requests_ok_update [OF assms(1) f]) simp_all
  show "pend (ls_requests (set_request s i P f)) k = pend (ls_requests s) k + (if P r0 \<and> jr_invite_id r0 = k
          then (if jr_state (f r0) = Pending then 1 else 0) - (if jr_state r0 = Pending then 1 else 0) else 0)"
    unfolding set_request_simps by (rule counts)
qed

lemma held_set_request: "held (set_request s i P f) k = held s k - pend (ls_requests s) k + pend (ls_requests (set_request s i P f)) k"
  by (simp add: held_def)

lemma approve_request_ok: "link_ok s \<Longrightarrow> link_ok (approve_request s i by now)"
proof (cases "\<exists>jr d g. find_request s i = Some jr \<and> approve jr by now = Inr (d, g)")
  case False
  then have "approve_request s i by now = s" by (auto simp: approve_request_def split: option.split sum.split)
  then show "link_ok s \<Longrightarrow> ?thesis" by simp
next
  case True
  assume s: "link_ok s"
  from True obtain jr d g where h: "find_request s i = Some jr" "approve jr by now = Inr (d, g)" by blast
  note jr = find_request_Some [OF h(1)]
  have pending: "jr_state jr = Pending" using h(2) by (auto simp: approve_def decide_request_def Let_def split: if_splits option.splits)
  let ?f = "\<lambda>r. r\<lparr>jr_state := Approved, jr_decided_at := jr_decided_at d, jr_decided_by := jr_decided_by d, jr_address := []\<rparr>"
  let ?t = "set_request s i (\<lambda>r. jr_state r = Pending) ?f"
  have f: "same_request (?f r) r" for r by (simp add: same_request_def)
  have ok: "requests_ok ?t" and pend: "pend (ls_requests ?t) k = pend (ls_requests s) k - (if jr_invite_id jr = k then 1 else 0)" for k
    using set_request_ok [of s jr i ?f "\<lambda>r. jr_state r = Pending"] s jr f pending by (simp_all add: link_ok_def del: set_request_simps)
  have "\<exists>r \<in> set (ls_requests ?t). same_request r jr"
    unfolding set_request_simps by (rule same_request_update [OF f conjunct1 [OF jr]]) (simp add: same_request_def)
  then have "requests_ok (?t\<lparr>ls_approving := (jr, d) # ls_approving ?t\<rparr>)" using ok by (auto simp: requests_ok_def)
  moreover have "links_bounded (?t\<lparr>ls_approving := (jr, d) # ls_approving ?t\<rparr>)"
  proof (rule held_less_bounded [of s])
    show "held (?t\<lparr>ls_approving := (jr, d) # ls_approving ?t\<rparr>) k \<le> held s k" for k
      using pend [of k] by (simp add: held_def in_approval_def)
    show "pend (ls_requests (?t\<lparr>ls_approving := (jr, d) # ls_approving ?t\<rparr>)) k \<le> pend (ls_requests s) k" for k
      using pend [of k] by simp
  qed (use s in \<open>simp_all add: link_ok_def\<close>)
  moreover have "approve_request s i by now = ?t\<lparr>ls_approving := (jr, d) # ls_approving ?t\<rparr>"
    by (simp add: approve_request_def h Let_def)
  ultimately show ?thesis by (simp only: link_ok_def)
qed

lemma decline_request_ok: "link_ok s \<Longrightarrow> link_ok (decline_request s i by now)"
proof (cases "\<exists>jr d. find_request s i = Some jr \<and> decline jr by now = Inr d")
  case False
  then have "decline_request s i by now = s" by (auto simp: decline_request_def split: option.split sum.split)
  then show "link_ok s \<Longrightarrow> ?thesis" by simp
next
  case True
  assume s: "link_ok s"
  from True obtain jr d where h: "find_request s i = Some jr" "decline jr by now = Inr d" by blast
  note jr = find_request_Some [OF h(1)]
  have pending: "jr_state jr = Pending" using h(2) by (auto simp: decline_def decide_request_def split: if_splits option.splits)
  let ?f = "\<lambda>r. r\<lparr>jr_state := Declined, jr_decided_at := jr_decided_at d, jr_decided_by := jr_decided_by d, jr_address := []\<rparr>"
  let ?t = "set_request s i (\<lambda>r. jr_state r = Pending) ?f"
  have f: "same_request (?f r) r" for r by (simp add: same_request_def)
  have ok: "requests_ok ?t" and pend: "pend (ls_requests ?t) k = pend (ls_requests s) k - (if jr_invite_id jr = k then 1 else 0)" for k
    using set_request_ok [of s jr i ?f "\<lambda>r. jr_state r = Pending"] s jr f pending by (simp_all add: link_ok_def del: set_request_simps)
  then have "requests_ok (give_use_back ?t (jr_invite_id jr))" by (simp add: requests_ok_def del: set_request_simps)
  moreover have "links_bounded (give_use_back ?t (jr_invite_id jr))"
    by (rule give_back_bounded [of s])
      (use s pend in \<open>simp_all add: link_ok_def held_set_request del: set_request_simps(5)\<close>)
  moreover have "decline_request s i by now = give_use_back ?t (jr_invite_id jr)" by (simp add: decline_request_def h)
  ultimately show ?thesis by (simp only: link_ok_def)
qed

lemma in_approval_remove:
  assumes "n < length as"
  shows "in_approval (take n as @ drop (n + 1) as) k = in_approval as k - (if jr_invite_id (fst (as ! n)) = k then 1 else 0)"
proof -
  have "in_approval as k = in_approval (take n as @ as ! n # drop (Suc n) as) k" using id_take_nth_drop [OF assms] by simp
  then show ?thesis by (simp add: in_approval_def case_prod_unfold)
qed

lemma put_back_ok:
  assumes bounded: "links_bounded s" and ok: "requests_ok t" and held: "\<And>k. held t k = held s k - (if jr_invite_id jr = k then 1 else 0)"
    and r0: "r0 \<in> set (ls_requests t)" and same: "same_request r0 jr"
    and ls: "ls_invites t = ls_invites s" and req: "ls_requests t = ls_requests s"
  shows "link_ok (put_back t jr d)"
proof -
  let ?P = "\<lambda>r. jr_state r = Approved \<and> jr_decided_at r = jr_decided_at d \<and> jr_decided_by r = jr_decided_by d"
  let ?f = "\<lambda>r. r\<lparr>jr_state := Pending, jr_decided_at := zero_time, jr_decided_by := 0, jr_address := jr_address jr\<rparr>"
  let ?g = "\<lambda>r. r\<lparr>jr_state := Declined, jr_address := []\<rparr>"
  have f: "same_request (?f r) r" "same_request (?g r) r" for r by (simp_all add: same_request_def)
  have id: "jr_id r0 = jr_id jr" "jr_invite_id r0 = jr_invite_id jr" "jr_server_id r0 = jr_server_id jr" "jr_player_uuid r0 = jr_player_uuid jr"
    using same by (simp_all add: same_request_def)
  define live where "live = (case ls_invites t (jr_invite_id jr) of None \<Rightarrow> False | Some iv \<Rightarrow> millis (iv_revoked_at iv) = 0)"
  consider "put_back t jr d = t"
    | "live" "waiting (ls_requests t) (jr_server_id jr) (jr_player_uuid jr) = 0" "put_back t jr d = set_request t (jr_id jr) ?P ?f"
    | "put_back t jr d = set_request t (jr_id jr) ?P ?g"
  proof -
    have eq: "put_back t jr d = (if live then if 0 < pending_with (\<lambda>r. jr_server_id r = jr_server_id jr \<and> jr_player_uuid r = jr_player_uuid jr) t
          then t else set_request t (jr_id jr) ?P ?f else set_request t (jr_id jr) ?P ?g)"
      by (simp only: put_back_def Let_def live_def)
    show thesis
      using that eq unfolding pending_with_waiting [symmetric] by (metis (no_types, lifting) gr0I int_ops(1))
  qed
  then show ?thesis
  proof cases
    case 1
    have "links_bounded t" by (rule held_less_bounded [OF bounded]) (simp_all add: held req ls)
    then show ?thesis using ok 1 by (simp add: link_ok_def)
  next
    case 2
    note o = set_request_ok [of t r0 "jr_id jr" ?f ?P, OF ok r0 id(1) f(1)]
    have w: "jr_state r0 = Pending \<or> waiting (ls_requests t) (jr_server_id r0) (jr_player_uuid r0) = 0" using 2(2) id by simp
    have pend: "pend (ls_requests (put_back t jr d)) k = pend (ls_requests s) k + (if ?P r0 \<and> jr_invite_id jr = k then 1 else 0)" for k
      unfolding 2(3) using o(2) [OF w] by (simp add: req id del: set_request_simps)
    have "links_bounded (put_back t jr d)"
    proof (rule held_less_bounded [OF bounded])
      show "held (put_back t jr d) k \<le> held s k" for k
        using pend [of k] held [of k] unfolding 2(3) held_set_request req by (simp split: if_splits)
      show "ls_invites (put_back t jr d) = ls_invites s" by (simp only: 2(3) set_request_simps ls)
      show "pend (ls_requests (put_back t jr d)) k \<le> pend (ls_requests s) k" if "ls_invites s k = Some iv" "millis (iv_revoked_at iv) \<noteq> 0" for k iv
        using pend [of k] 2(1) that by (auto simp: live_def ls split: if_splits)
    qed
    then show ?thesis using o(1) [OF w] 2(3) by (simp add: link_ok_def)
  next
    case 3
    note o = set_request_ok [of t r0 "jr_id jr" ?g ?P, OF ok r0 id(1) f(2)]
    have pend: "pend (ls_requests (put_back t jr d)) k = pend (ls_requests s) k" for k
      unfolding 3 using o(2) by (simp add: req del: set_request_simps)
    have "links_bounded (put_back t jr d)"
    proof (rule held_less_bounded [OF bounded])
      show "held (put_back t jr d) k \<le> held s k" for k
        using pend [of k] held [of k] unfolding 3 held_set_request req by simp
      show "ls_invites (put_back t jr d) = ls_invites s" by (simp only: 3 set_request_simps ls)
    qed (simp add: pend)
    then show ?thesis using o(1) 3 by (simp add: link_ok_def)
  qed
qed

lemma approve_done_ok: "link_ok s \<Longrightarrow> link_ok (approve_done s n a)"
proof (cases "n < length (ls_approving s)")
  case True
  assume s: "link_ok s"
  obtain jr d where jd: "ls_approving s ! n = (jr, d)" by fastforce
  define t where "t = s\<lparr>ls_approving := take n (ls_approving s) @ drop (n + 1) (ls_approving s)\<rparr>"
  have sub: "set (ls_approving t) \<subseteq> set (ls_approving s)" by (auto simp: t_def dest: in_set_takeD in_set_dropD)
  have req: "ls_requests t = ls_requests s" by (simp add: t_def)
  have ok: "requests_ok t" by (rule requests_ok_approving [OF _ req sub]) (use s in \<open>simp add: link_ok_def\<close>)
  have held: "held t k = held s k - (if jr_invite_id jr = k then 1 else 0)" for k
    using in_approval_remove [OF True, of k] by (simp add: held_def t_def jd)
  have bounded: "links_bounded s" using s by (simp add: link_ok_def)
  have "approve_done s n a = (case a of Added \<Rightarrow> t\<lparr>ls_entered := jr_invite_id jr # ls_entered t\<rparr>
      | Already_Listed \<Rightarrow> give_use_back t (jr_invite_id jr) | Agent_Failed \<Rightarrow> put_back t jr d)"
    using True by (cases a) (simp_all add: approve_done_def jd t_def Let_def)
  moreover have "link_ok (t\<lparr>ls_entered := jr_invite_id jr # ls_entered t\<rparr>)"
  proof -
    have "links_bounded (t\<lparr>ls_entered := jr_invite_id jr # ls_entered t\<rparr>)"
    proof (rule held_less_bounded [OF bounded])
      show "held (t\<lparr>ls_entered := jr_invite_id jr # ls_entered t\<rparr>) k \<le> held s k" for k
        using held [of k] by (cases "jr_invite_id jr = k") (simp_all add: held_def)
    qed (simp_all add: t_def)
    then show ?thesis using ok by (simp add: link_ok_def requests_ok_def)
  qed
  moreover have "link_ok (give_use_back t (jr_invite_id jr))"
  proof -
    have "links_bounded (give_use_back t (jr_invite_id jr))"
      by (rule give_back_bounded [OF bounded]) (simp_all add: held req, simp add: t_def)
    then show ?thesis using ok by (simp add: link_ok_def requests_ok_def)
  qed
  moreover have "link_ok (put_back t jr d)"
  proof -
    have "(jr, d) \<in> set (ls_approving s)" using True jd by (metis nth_mem)
    then obtain r0 where "r0 \<in> set (ls_requests t)" "same_request r0 jr"
      using s unfolding link_ok_def requests_ok_def req by fast
    then show ?thesis by (rule put_back_ok [OF bounded ok held]) (simp_all add: t_def)
  qed
  ultimately show ?thesis by (cases a) simp_all
qed (simp add: approve_done_def)

lemma filter_update_le: "(\<And>r. Q (g r) \<Longrightarrow> Q r) \<Longrightarrow> length (filter Q (map g rs)) \<le> length (filter Q rs)"
  by (induction rs) (auto simp: le_SucI)

lemma turn_off_ok: "link_ok s \<Longrightarrow> link_ok (turn_off s i by now)"
proof (cases "ls_invites s i")
  case (Some iv)
  assume s: "link_ok s"
  let ?f = "\<lambda>r. r\<lparr>jr_state := Declined, jr_decided_at := stamp now, jr_decided_by := by, jr_address := []\<rparr>"
  let ?g = "\<lambda>r. if jr_invite_id r = i \<and> jr_state r = Pending then ?f r else r"
  let ?t = "s\<lparr>ls_invites := (ls_invites s)(i \<mapsto> revoke iv now), ls_requests := map ?g (ls_requests s)\<rparr>"
  have t: "turn_off s i by now = ?t" by (simp add: turn_off_def Some)
  have le: "length (filter Q (map ?g (ls_requests s))) \<le> length (filter Q (ls_requests s))" if "\<And>r. Q (?g r) \<Longrightarrow> Q r" for Q
    using that by (rule filter_update_le)
  have w: "waiting (map ?g (ls_requests s)) v u \<le> waiting (ls_requests s) v u" for v u
    unfolding waiting_def of_nat_le_iff by (rule le) (simp split: if_splits)
  have p: "pend (map ?g (ls_requests s)) k \<le> pend (ls_requests s) k" for k
    unfolding pend_def of_nat_le_iff by (rule le) (simp split: if_splits)
  have none: "pend (map ?g (ls_requests s)) i = 0" by (auto simp: pend_def filter_empty_conv)
  have bounded: "links_bounded s" using s by (simp add: link_ok_def)
  have le1: "waiting (ls_requests s) v u \<le> 1" for v u using s by (simp add: link_ok_def requests_ok_def)
  have "requests_ok ?t"
    by (rule requests_ok_update [of s ?f "\<lambda>r. jr_invite_id r = i \<and> jr_state r = Pending"])
      (use s order_trans [OF w le1] in \<open>simp_all add: link_ok_def same_request_def\<close>)
  moreover have "links_bounded ?t"
  proof (rule boundedI)
    fix k
    have held: "held ?t k \<le> held s k" using p [of k] by (simp add: held_def)
    show "link_bound jv (held ?t k) (pend (ls_requests ?t) k)" if "ls_invites ?t k = Some jv" for jv
    proof (cases "k = i")
      case True
      then have "jv = revoke iv now" using that by simp
      moreover have "iv_uses (revoke iv now) = iv_uses iv" "iv_max_uses (revoke iv now) = iv_max_uses iv" by (simp_all add: revoke_def)
      ultimately show ?thesis using boundedD(1) [OF bounded Some] held True none by (simp add: link_bound_def)
    next
      case False
      then have "ls_invites s k = Some jv" using that by simp
      from boundedD(1) [OF bounded this] show ?thesis by (rule link_bound_less [OF _ held]) (simp add: p held_nonneg(1))
    qed
    show "held ?t k = 0" if "ls_invites ?t k = None"
      using that boundedD(2) [OF bounded, of k] held held_nonneg(3) [of ?t k] by (simp split: if_splits)
  qed
  ultimately show ?thesis by (simp only: t link_ok_def)
qed (simp add: turn_off_def)

lemma revoke_link_ok: "link_ok s \<Longrightarrow> link_ok (revoke_link s i server by now)"
  by (simp add: revoke_link_def turn_off_ok split: option.split)

interpretation links: machine link_step link_ok
proof
  fix s e assume s: "link_ok s"
  show "link_ok (link_step s e)"
    by (cases e) (simp_all add: s make_link_ok let_in_ok let_in_done_ok ask_to_join_ok approve_request_ok approve_done_ok
        decline_request_ok revoke_link_ok turn_off_ok)
qed

lemma no_links_ok: "link_ok no_links"
  by (simp add: link_ok_def links_bounded_def requests_ok_def no_links_def held_def pend_def in_approval_def waiting_def)

text \<open>C17: However the handlers of the dashboard interleave and whatever the agent answers, a link for a number of
  friends never lets in more of them, those who wait or are on their way counted; no request waits for a link that
  was turned off, even where an approval the agent could not carry out is put back; and a player never has two
  requests waiting for one server.\<close>

theorem links_let_in_no_more_than_they_say:
  "let s = foldl link_step no_links es
   in (case ls_invites s i of None \<Rightarrow> True
       | Some iv \<Rightarrow> (iv_max_uses iv = 0 \<or> int (count_list (ls_entered s) i) + pend (ls_requests s) i \<le> iv_max_uses iv)
           \<and> (millis (iv_revoked_at iv) = 0 \<or> pend (ls_requests s) i = 0))
      \<and> waiting (ls_requests s) v u \<le> 1"
proof -
  define s where "s = foldl link_step no_links es"
  have ok: "link_ok s" unfolding s_def by (rule links.inv_any_run [OF no_links_ok])
  have "(iv_max_uses iv = 0 \<or> int (count_list (ls_entered s) i) + pend (ls_requests s) i \<le> iv_max_uses iv)
           \<and> (millis (iv_revoked_at iv) = 0 \<or> pend (ls_requests s) i = 0)" if "ls_invites s i = Some iv" for iv
    using boundedD(1) [of s i iv] ok that held_nonneg(2) [of "ls_approving s" i] by (auto simp: link_ok_def link_bound_def held_def)
  moreover have "waiting (ls_requests s) v u \<le> 1" using ok by (simp add: link_ok_def requests_ok_def)
  ultimately show ?thesis unfolding Let_def s_def [symmetric] by (auto split: option.split)
qed

end
