(* ===== verification/Version.thy ===== *)
theory Version
  imports Go_Text
begin

section \<open>Release versions (internal/update/version.go)\<close>

text \<open>
  \<open>ParseVersion\<close>, \<open>Compare\<close> and \<open>CompareVersions\<close>: MAJOR.MINOR.PATCH with an optional
  pre-release, ordered as semantic versioning orders them. The numbers are Go's \<open>int\<close>: the
  subtractions of \<open>Compare\<close> and \<open>comparePre\<close> are written with \<open>wrap64\<close>. The order is compared
  with the rules of semantic versioning, written out as \<open>precedes\<close> with numbers of any size; they
  agree while no pre-release identifier starts with a hyphen and every number in one is below
  \<open>2 ^ 63\<close>. \<open>hyphens_break_the_order\<close> and \<open>large_numbers_break_the_order\<close> show why that is asked.
\<close>

subsection \<open>Parsing\<close>

record version =
  ve_major :: int
  ve_minor :: int
  ve_patch :: int
  ve_pre :: "string list"

datatype version_error = Not_A_Version string | Empty_Pre string | Empty_Pre_Id string

text \<open>One part of MAJOR.MINOR.PATCH: the body of the loop over \<open>parts\<close>.\<close>

definition core_number :: "string \<Rightarrow> int option" where
  "core_number p = (case atoi p of
      None \<Rightarrow> None
    | Some v \<Rightarrow> if v < 0 \<or> (1 < length p \<and> hd p = CHR ''0'') then None else Some v)"

definition parse_version :: "string \<Rightarrow> version_error + version" where
  "parse_version s =
     (let t = trim_space s;
          core0 = (case cut_prefix t ''v'' of Some r \<Rightarrow> r | None \<Rightarrow> t);
          (core1, _, _) = cut CHR ''+'' core0;
          (core, pre, has_pre) = cut CHR ''-'' core1
      in case map core_number (split_on CHR ''.'' core) of
           [Some a, Some b, Some c] \<Rightarrow>
             if \<not> has_pre then Inr \<lparr>ve_major = a, ve_minor = b, ve_patch = c, ve_pre = []\<rparr>
             else if pre = [] then Inl (Empty_Pre s)
             else if [] \<in> set (split_on CHR ''.'' pre) then Inl (Empty_Pre_Id s)
             else Inr \<lparr>ve_major = a, ve_minor = b, ve_patch = c, ve_pre = split_on CHR ''.'' pre\<rparr>
         | _ \<Rightarrow> Inl (Not_A_Version s))"

subsection \<open>Comparing\<close>

definition sign :: "int \<Rightarrow> int" where
  "sign n = (if n < 0 then - 1 else if 0 < n then 1 else 0)"

definition compare_pre :: "string \<Rightarrow> string \<Rightarrow> int" where
  "compare_pre a b = (case (atoi a, atoi b) of
      (Some an, Some bn) \<Rightarrow> sign (wrap64 (an - bn))
    | (Some _, None) \<Rightarrow> - 1
    | (None, Some _) \<Rightarrow> 1
    | (None, None) \<Rightarrow> cmp_string a b)"

text \<open>The loop over both pre-releases, and what follows it.\<close>

fun compare_ids :: "string list \<Rightarrow> string list \<Rightarrow> int" where
  "compare_ids (x # xs) (y # ys) =
     (let c = compare_pre x y in if c \<noteq> 0 then c else compare_ids xs ys)"
| "compare_ids xs ys = sign (int (length xs) - int (length ys))"

fun compare_core :: "(int \<times> int) list \<Rightarrow> int option" where
  "compare_core [] = None"
| "compare_core ((a, b) # ds) = (if a \<noteq> b then Some (sign (wrap64 (a - b))) else compare_core ds)"

definition compare :: "version \<Rightarrow> version \<Rightarrow> int" where
  "compare v w =
     (case compare_core [(ve_major v, ve_major w), (ve_minor v, ve_minor w), (ve_patch v, ve_patch w)] of
        Some c \<Rightarrow> c
      | None \<Rightarrow>
          if ve_pre v = [] \<and> ve_pre w = [] then 0
          else if ve_pre v = [] then 1
          else if ve_pre w = [] then - 1
          else compare_ids (ve_pre v) (ve_pre w))"

definition compare_versions :: "string \<Rightarrow> string \<Rightarrow> version_error + int" where
  "compare_versions a b = (case parse_version a of
      Inl e \<Rightarrow> Inl e
    | Inr va \<Rightarrow> (case parse_version b of Inl e \<Rightarrow> Inl e | Inr vb \<Rightarrow> Inr (compare va vb)))"

subsection \<open>Semantic versioning's rules\<close>

text \<open>
  Rule 11: identifiers of digits only are numeric and compare as numbers, however large, others byte by byte, a numeric one is lower
  than another kind; the longer list of identifiers is higher when the shorter is its prefix; a
  version without a pre-release is higher than one with.
\<close>

datatype ident = Numeric nat | Alnum string

definition all_digits :: "string \<Rightarrow> bool" where
  "all_digits s \<longleftrightarrow> s \<noteq> [] \<and> list_all is_digit s"

definition ident :: "string \<Rightarrow> ident" where
  "ident s = (if all_digits s then Numeric (digits_val s) else Alnum s)"

fun cmp_ident :: "ident \<Rightarrow> ident \<Rightarrow> int" where
  "cmp_ident (Numeric a) (Numeric b) = cmp_int (int a) (int b)"
| "cmp_ident (Numeric _) (Alnum _) = - 1"
| "cmp_ident (Alnum _) (Numeric _) = 1"
| "cmp_ident (Alnum a) (Alnum b) = cmp_string a b"

fun idents_less :: "ident list \<Rightarrow> ident list \<Rightarrow> bool" where
  "idents_less _ [] = False"
| "idents_less [] (y # ys) = True"
| "idents_less (x # xs) (y # ys) = (cmp_ident x y < 0 \<or> x = y \<and> idents_less xs ys)"

definition precedes :: "version \<Rightarrow> version \<Rightarrow> bool" where
  "precedes v w \<longleftrightarrow>
     ve_major v < ve_major w
   \<or> ve_major v = ve_major w \<and> ve_minor v < ve_minor w
   \<or> ve_major v = ve_major w \<and> ve_minor v = ve_minor w \<and> ve_patch v < ve_patch w
   \<or> ve_major v = ve_major w \<and> ve_minor v = ve_minor w \<and> ve_patch v = ve_patch w
     \<and> ve_pre v \<noteq> [] \<and> (ve_pre w = [] \<or> idents_less (map ident (ve_pre v)) (map ident (ve_pre w)))"

text \<open>No pre-release identifier starts with a hyphen.\<close>

definition no_hyphens :: "version \<Rightarrow> bool" where
  "no_hyphens v \<longleftrightarrow> list_all (\<lambda>x. \<not> has_prefix x ''-'') (ve_pre v)"

text \<open>Its numeric identifiers are numbers of Go's \<open>int\<close>.\<close>

definition small_numbers :: "version \<Rightarrow> bool" where
  "small_numbers v \<longleftrightarrow> list_all (\<lambda>x. if all_digits x then digits_val x < 2 ^ 63 else True) (ve_pre v)"

subsection \<open>The rules are a strict order\<close>

interpretation ident_order: comparator cmp_ident
proof
  show "cmp_ident x y < 0 \<longleftrightarrow> 0 < cmp_ident y x" for x y
    by (cases x; cases y) (simp_all add: int_order.cmp_swap string_order.cmp_swap)
  show "cmp_ident x y \<le> 0 \<Longrightarrow> cmp_ident y z \<le> 0 \<Longrightarrow> cmp_ident x z \<le> 0" for x y z
    by (cases x; cases y; cases z) (auto intro: int_order.cmp_trans string_order.cmp_trans)
qed

lemma cmp_ident_eq_0: "cmp_ident x y = 0 \<longleftrightarrow> x = y"
  by (cases x; cases y) (auto simp: cmp_int_def cmp_string_eq_0)

lemma cmp_ident_cases: "cmp_ident x y < 0 \<or> x = y \<or> cmp_ident y x < 0"
  using cmp_ident_eq_0 [of x y] ident_order.cmp_swap [of y x] by linarith

lemma cmp_ident_asym: "cmp_ident x y < 0 \<Longrightarrow> \<not> cmp_ident y x < 0"
  using ident_order.cmp_swap [of x y] by linarith

lemma cmp_ident_less_trans: "cmp_ident x y < 0 \<Longrightarrow> cmp_ident y z < 0 \<Longrightarrow> cmp_ident x z < 0"
proof -
  assume a: "cmp_ident x y < 0" "cmp_ident y z < 0"
  then have "cmp_ident x z \<le> 0" using ident_order.cmp_trans [of x y z] by simp
  moreover have "x \<noteq> z" using a cmp_ident_asym by blast
  ultimately show ?thesis using cmp_ident_eq_0 [of x z] by linarith
qed

lemma idents_less_irrefl: "\<not> idents_less xs xs"
  using cmp_ident_eq_0 by (induction xs) (force, auto simp: ident_order.cmp_refl)

lemma idents_less_trans: "idents_less xs ys \<Longrightarrow> idents_less ys zs \<Longrightarrow> idents_less xs zs"
proof (induction xs ys arbitrary: zs rule: idents_less.induct)
  case (3 x xs y ys)
  then show ?case by (cases zs) (auto intro: cmp_ident_less_trans)
next
  case (2 y ys)
  then show ?case by (cases zs) auto
qed simp

lemma idents_less_total: "idents_less xs ys \<or> xs = ys \<or> idents_less ys xs"
proof (induction xs ys rule: idents_less.induct)
  case (1 xs)
  then show ?case by (cases xs) auto
next
  case (3 x xs y ys)
  then show ?case using cmp_ident_cases [of x y] by auto
qed simp

lemma precedes_irrefl: "\<not> precedes v v"
  using idents_less_irrefl by (auto simp: precedes_def)

lemma precedes_trans: "precedes u v \<Longrightarrow> precedes v w \<Longrightarrow> precedes u w"
  unfolding precedes_def using idents_less_trans by (elim disjE conjE) auto

subsection \<open>Compare follows the rules\<close>

lemma sign_simps [simp]: "sign n < 0 \<longleftrightarrow> n < 0" "sign n = 0 \<longleftrightarrow> n = 0" "0 < sign n \<longleftrightarrow> 0 < n"
  by (auto simp: sign_def)

lemma sign_diff [simp]: "sign (a - b) = cmp_int a b"
  by (simp add: sign_def cmp_int_def)

lemma idents_less_Nil [simp]: "idents_less [] ys \<longleftrightarrow> ys \<noteq> []"
  by (cases ys) simp_all

lemma sign_cmp_int: "0 \<le> a \<Longrightarrow> a < 2 ^ 63 \<Longrightarrow> 0 \<le> b \<Longrightarrow> b < 2 ^ 63 \<Longrightarrow> sign (wrap64 (a - b)) = cmp_int a b"
  by simp

lemma atoi_no_hyphen: "atoi s = Some n \<Longrightarrow> \<not> has_prefix s ''-'' \<Longrightarrow> 0 \<le> n \<and> n < 2 ^ 63"
  by (cases s) (auto simp: atoi_def has_prefix_def Let_def split: if_splits)

text \<open>An identifier that is compared as the rules say: no sign in front, and no number too large.\<close>

definition plain_id :: "string \<Rightarrow> bool" where
  "plain_id x \<longleftrightarrow> \<not> has_prefix x ''-'' \<and> \<not> has_prefix x ''+'' \<and> (all_digits x \<longrightarrow> digits_val x < 2 ^ 63)"

lemma atoi_plain: "plain_id x \<Longrightarrow> atoi x = (if all_digits x then Some (int (digits_val x)) else None)"
  by (cases x) (auto simp: plain_id_def atoi_def has_prefix_def all_digits_def Let_def)

lemma compare_pre_ident:
  assumes "plain_id a" and "plain_id b"
  shows "compare_pre a b = cmp_ident (ident a) (ident b)"
proof -
  have "x < 2 ^ 63 \<Longrightarrow> y < 2 ^ 63 \<Longrightarrow> sign (wrap64 (int x - int y)) = cmp_int (int x) (int y)" for x y :: nat
    by (rule sign_cmp_int) simp_all
  then show ?thesis using assms
    by (auto simp: compare_pre_def atoi_plain ident_def plain_id_def)
qed

lemma cmp_ident_values: "cmp_ident x y \<in> {- 1, 0, 1}"
proof -
  have "cmp_string a b \<in> {- 1, 0, 1}" for a b by (induction a b rule: cmp_string.induct) auto
  then show ?thesis by (cases x; cases y) (auto simp: cmp_int_def)
qed

lemma compare_ids_rules:
  assumes "list_all plain_id xs" and "list_all plain_id ys"
  shows "compare_ids xs ys = (if idents_less (map ident xs) (map ident ys) then - 1
           else if idents_less (map ident ys) (map ident xs) then 1 else 0)"
  using assms
proof (induction xs ys rule: compare_ids.induct)
  case (1 x xs y ys)
  let ?c = "cmp_ident (ident x) (ident y)"
  have c: "compare_pre x y = ?c" using 1(2,3) by (simp add: compare_pre_ident)
  consider "?c = - 1" "cmp_ident (ident y) (ident x) > 0" "ident x \<noteq> ident y"
    | "ident x = ident y" "?c = 0"
    | "?c = 1" "cmp_ident (ident y) (ident x) < 0" "ident x \<noteq> ident y"
    using cmp_ident_values [of "ident x" "ident y"] cmp_ident_eq_0 [of "ident x" "ident y"]
      ident_order.cmp_swap [of "ident x" "ident y"] ident_order.cmp_swap [of "ident y" "ident x"]
    by force
  then show ?case
  proof cases
    case 2
    then show ?thesis using 1 c by simp
  qed (use c in simp_all)
qed (simp_all add: sign_def)

lemma compare_core_rules:
  assumes "list_all (\<lambda>(a, b). 0 \<le> a \<and> a < 2 ^ 63 \<and> 0 \<le> b \<and> b < 2 ^ 63) ds"
  shows "compare_core ds = (case dropWhile (\<lambda>(a, b). a = b) ds of [] \<Rightarrow> None | (a, b) # _ \<Rightarrow> Some (cmp_int a b))"
  using assms by (induction ds rule: compare_core.induct) (auto simp: sign_cmp_int)

text \<open>The numbers \<open>ParseVersion\<close> gives.\<close>

definition in_range :: "version \<Rightarrow> bool" where
  "in_range v \<longleftrightarrow> list_all (\<lambda>n. 0 \<le> n \<and> n < 2 ^ 63) [ve_major v, ve_minor v, ve_patch v]"

lemma core_number_range: "core_number p = Some n \<Longrightarrow> 0 \<le> n \<and> n < 2 ^ 63"
  using atoi_range [of p] by (auto simp: core_number_def split: option.splits if_splits)

lemma parse_version_in_range: "parse_version s = Inr v \<Longrightarrow> in_range v"
  by (auto simp: parse_version_def in_range_def Let_def map_eq_Cons_conv dest!: core_number_range
      split: prod.splits list.splits option.splits if_splits)

text \<open>What is cut off at the plus sign is not in an identifier.\<close>

lemma cut_sets: "cut c t = (a, b, h) \<Longrightarrow> c \<notin> set a \<and> set a \<subseteq> set t \<and> set b \<subseteq> set t"
  by (auto simp: cut_def dest!: in_set_dropD set_dropWhileD dest: set_takeWhileD)

lemma split_on_subset: "x \<in> set (split_on c t) \<Longrightarrow> set x \<subseteq> set t"
proof (induction t arbitrary: x)
  case (Cons d t)
  obtain w ws where "split_on c t = w # ws" by (cases "split_on c t") simp_all
  then show ?case using Cons by (fastforce split: if_splits)
qed simp

lemma parse_version_no_plus:
  assumes "parse_version s = Inr v"
  shows "list_all (\<lambda>x. CHR ''+'' \<notin> set x) (ve_pre v)"
proof -
  obtain t core1 core pre h h' build where c: "cut CHR ''+'' t = (core1, build, h)" "cut CHR ''-'' core1 = (core, pre, h')"
    and v: "ve_pre v = [] \<or> ve_pre v = split_on CHR ''.'' pre"
    using assms by (auto simp: parse_version_def Let_def split: prod.splits list.splits option.splits if_splits)
  have "CHR ''+'' \<notin> set pre" using cut_sets [OF c(1)] cut_sets [OF c(2)] by auto
  then show ?thesis using v by (auto simp: list_all_iff dest!: subsetD [OF split_on_subset])
qed

lemma plain_ids: "parse_version s = Inr v \<Longrightarrow> no_hyphens v \<Longrightarrow> small_numbers v \<Longrightarrow> list_all plain_id (ve_pre v)"
  using parse_version_no_plus [of s v]
  by (auto simp: list_all_iff plain_id_def no_hyphens_def small_numbers_def has_prefix_def split: if_splits)
    (metis in_set_takeD list.set_intros(1))

lemma compare_rules:
  assumes "in_range v" and "in_range w" and "list_all plain_id (ve_pre v)" and "list_all plain_id (ve_pre w)"
  shows "compare v w = (if precedes v w then - 1 else if precedes w v then 1 else 0)"
proof -
  have ids: "compare_ids (ve_pre v) (ve_pre w)
     = (if idents_less (map ident (ve_pre v)) (map ident (ve_pre w)) then - 1
        else if idents_less (map ident (ve_pre w)) (map ident (ve_pre v)) then 1 else 0)"
    by (rule compare_ids_rules [OF assms(3,4)])
  have core: "compare_core [(ve_major v, ve_major w), (ve_minor v, ve_minor w), (ve_patch v, ve_patch w)]
     = (case dropWhile (\<lambda>(a, b). a = b) [(ve_major v, ve_major w), (ve_minor v, ve_minor w), (ve_patch v, ve_patch w)]
        of [] \<Rightarrow> None | (a, b) # _ \<Rightarrow> Some (cmp_int a b))"
    using assms(1,2) by (intro compare_core_rules) (simp add: in_range_def)
  show ?thesis unfolding compare_def core ids by (auto simp: precedes_def cmp_int_def)
qed

subsection \<open>The order of releases\<close>

text \<open>C26: \<open>CompareVersions\<close> orders the versions it can read as semantic versioning does: a version
  is older exactly when it precedes the other by the rules, which are a strict order. Left out are
  versions whose pre-release has an identifier that starts with a hyphen or a number of \<open>2 ^ 63\<close> or
  more, on which the code leaves the rules.\<close>

theorem releases_are_ordered:
  assumes "parse_version a = Inr u" and "parse_version b = Inr v"
    and "no_hyphens u" and "no_hyphens v" and "small_numbers u" and "small_numbers v"
  shows "compare_versions a b = Inr (if precedes u v then - 1 else if precedes v u then 1 else 0)
     \<and> \<not> (precedes u v \<and> precedes v u)
     \<and> (\<forall>w. precedes u v \<longrightarrow> precedes v w \<longrightarrow> precedes u w)"
proof (intro conjI allI impI)
  show "compare_versions a b = Inr (if precedes u v then - 1 else if precedes v u then 1 else 0)"
    using assms by (simp add: compare_versions_def compare_rules parse_version_in_range plain_ids [OF assms(1)] plain_ids [OF assms(2)])
  show "\<not> (precedes u v \<and> precedes v u)" using precedes_trans precedes_irrefl by blast
  show "precedes u v \<Longrightarrow> precedes v w \<Longrightarrow> precedes u w" for w by (rule precedes_trans)
qed

lemmas version_eval = parse_version_def trim_space_def trim_runes_def is_space_def cut_prefix_def
  has_prefix_def cut_def core_number_def atoi_def digits_val_def digit_val_def is_digit_def
  char_of_def bit_0

theorem releases_are_ordered_witness:
  "parse_version ''v1.2.0-rc.2'' = Inr \<lparr>ve_major = 1, ve_minor = 2, ve_patch = 0, ve_pre = [''rc'', ''2'']\<rparr>
   \<and> parse_version ''1.2.0-rc.10+b1'' = Inr \<lparr>ve_major = 1, ve_minor = 2, ve_patch = 0, ve_pre = [''rc'', ''10'']\<rparr>
   \<and> compare_versions ''v1.2.0-rc.2'' ''1.2.0-rc.10+b1'' = Inr (- 1)"
proof -
  let ?u = "\<lparr>ve_major = 1, ve_minor = 2, ve_patch = 0, ve_pre = [''rc'', ''2'']\<rparr>"
  let ?v = "\<lparr>ve_major = 1, ve_minor = 2, ve_patch = 0, ve_pre = [''rc'', ''10'']\<rparr>"
  have p: "parse_version ''v1.2.0-rc.2'' = Inr ?u" "parse_version ''1.2.0-rc.10+b1'' = Inr ?v"
    by (simp_all add: version_eval)
  have n: "no_hyphens ?u" "no_hyphens ?v" by (simp_all add: no_hyphens_def has_prefix_def)
  have m: "small_numbers ?u" "small_numbers ?v"
    by (simp_all add: small_numbers_def all_digits_def is_digit_def digits_val_def digit_val_def)
  have "precedes ?u ?v"
    by (simp add: precedes_def ident_def all_digits_def cmp_int_def version_eval)
  then show ?thesis using releases_are_ordered [OF p n m] p by simp
qed

text \<open>
  Why hyphens are left out: \<open>strconv.Atoi\<close> takes \<open>-1\<close> for a number, where semantic versioning
  has an alphanumeric identifier above every number, and with the smallest \<open>int\<close> the subtraction
  wraps around, so that the three versions below are each older than the next.
\<close>

lemma hyphens_break_the_order:
  "compare_pre ''-1'' ''5'' = - 1"
  "compare_pre ''-9223372036854775808'' ''0'' = - 1"
  "compare_pre ''0'' ''1'' = - 1"
  "compare_pre ''1'' ''-9223372036854775808'' = - 1"
  by (simp_all add: compare_pre_def version_eval sign_def wrap64_def)

text \<open>
  Why large numbers are left out: a number \<open>strconv.Atoi\<close> cannot hold is compared as text, so the
  smaller of these two counts as the newer.
\<close>

lemma large_numbers_break_the_order:
  "compare_pre ''99999999999999999999'' ''100000000000000000000'' = 1"
  "cmp_ident (ident ''99999999999999999999'') (ident ''100000000000000000000'') = - 1"
  by (simp_all add: compare_pre_def ident_def all_digits_def cmp_int_def version_eval)

end
