(* ===== verification/Mutf8.thy ===== *)
theory Mutf8
  imports Go_Crypto
begin

section \<open>Java's modified UTF-8 (internal/nbt/nbt.go)\<close>

text \<open>
  \<open>decodeMUTF8\<close> and \<open>encodeMUTF8\<close>, the strings of NBT: NUL is two bytes, and a character outside
  the Basic Multilingual Plane is a surrogate pair of three bytes each. What is decoded is always
  valid UTF-8, and decoding what was encoded gives back every valid string.
\<close>

subsection \<open>utf8.AppendRune\<close>

definition surrogate :: "nat \<Rightarrow> bool" where
  "surrogate r \<longleftrightarrow> 0xD800 \<le> r \<and> r < 0xE000"

text \<open>The runes UTF-8 encodes; \<open>AppendRune\<close> and \<open>WriteRune\<close> write U+FFFD for others.\<close>

definition scalar :: "nat \<Rightarrow> bool" where
  "scalar r \<longleftrightarrow> r < 0x110000 \<and> \<not> surrogate r"

definition utf8_bytes :: "nat \<Rightarrow> nat list" where
  "utf8_bytes r = (if r < 128 then [r]
     else if r < 2048 then [192 + r div 64, 128 + r mod 64]
     else if r < 65536 then [224 + r div 4096, 128 + r div 64 mod 64, 128 + r mod 64]
     else [240 + r div 262144, 128 + r div 4096 mod 64, 128 + r div 64 mod 64, 128 + r mod 64])"

definition encode_rune :: "nat \<Rightarrow> string" where
  "encode_rune r = map char_of (utf8_bytes (if scalar r then r else rune_error))"

subsection \<open>Encoding\<close>

definition put3 :: "nat \<Rightarrow> bytes" where
  "put3 r = [of_nat (0xE0 OR r div 4096), of_nat (0x80 OR r div 64 mod 64), of_nat (0x80 OR r mod 64)]"

definition mutf8_rune :: "nat \<Rightarrow> bytes" where
  "mutf8_rune r = (if r = 0 then [0xC0, 0x80]
     else if r < 0x80 then [of_nat r]
     else if r < 0x800 then [of_nat (0xC0 OR r div 64), of_nat (0x80 OR r mod 64)]
     else if r < 0x10000 then put3 r
     else put3 (0xD800 + (r - 0x10000) div 1024) @ put3 (0xDC00 + (r - 0x10000) mod 1024))"

definition encode_mutf8 :: "string \<Rightarrow> bytes" where
  "encode_mutf8 s = concat (map mutf8_rune (rune_values s))"

subsection \<open>Decoding\<close>

definition three :: "bytes \<Rightarrow> nat option" where
  "three bs = (case bs of
      a # b # c # _ \<Rightarrow>
        if a AND 0xF0 = 0xE0 \<and> b AND 0xC0 = 0x80 \<and> c AND 0xC0 = 0x80
        then Some (unat (a AND 0x0F) * 4096 + unat (b AND 0x3F) * 64 + unat (c AND 0x3F)) else None
    | _ \<Rightarrow> None)"

text \<open>The low half of a surrogate pair whose high half is \<open>r\<close>.\<close>

definition low_half :: "nat \<Rightarrow> bytes \<Rightarrow> nat option" where
  "low_half r bs = (if 0xD800 \<le> r \<and> r < 0xDC00 then
       (case three bs of Some lo \<Rightarrow> if 0xDC00 \<le> lo \<and> lo < 0xE000 then Some lo else None | None \<Rightarrow> None)
     else None)"

function decode_runes :: "bytes \<Rightarrow> string" where
  "decode_runes [] = []"
| "decode_runes (c # cs) =
     (if c < 0x80 then char_of (unat c) # decode_runes cs
      else if c AND 0xE0 = 0xC0 \<and> cs \<noteq> [] \<and> hd cs AND 0xC0 = 0x80
        then encode_rune (unat (c AND 0x1F) * 64 + unat (hd cs AND 0x3F)) @ decode_runes (drop 1 cs)
      else case three (c # cs) of
          None \<Rightarrow> encode_rune rune_error @ decode_runes cs
        | Some r \<Rightarrow> (case low_half r (drop 2 cs) of
              Some lo \<Rightarrow> encode_rune (0x10000 + (r - 0xD800) * 1024 + (lo - 0xDC00)) @ decode_runes (drop 5 cs)
            | None \<Rightarrow> encode_rune (if surrogate r then rune_error else r) @ decode_runes (drop 2 cs)))"
  by pat_completeness auto
termination by (relation "measure length") auto

definition decode_mutf8 :: "bytes \<Rightarrow> string" where
  "decode_mutf8 b = (if list_all (\<lambda>c. c \<noteq> 0 \<and> c < 0x80) b then string_of b else decode_runes b)"

subsection \<open>Bytes and masks\<close>

lemma byte_all: "(\<forall>c::8 word. P c) \<longleftrightarrow> list_all (\<lambda>n. P (word_of_int n)) [0..255]"
proof -
  have "P c" if "\<forall>n \<in> {0..255}. P (word_of_int n)" for c :: "8 word"
  proof -
    have "uint c < 2 ^ LENGTH(8)" by (rule uint_lt2p)
    then have "uint c \<in> {0..255}" by simp
    with that have "P (word_of_int (uint c))" by blast
    then show ?thesis by simp
  qed
  then show ?thesis by (auto simp: list_all_iff)
qed

lemma masks_all:
  "\<forall>c :: 8 word. (c AND 0xE0 = 0xC0 \<longleftrightarrow> 192 \<le> unat c \<and> unat c < 224)
     \<and> (c AND 0xF0 = 0xE0 \<longleftrightarrow> 224 \<le> unat c \<and> unat c < 240)
     \<and> (c AND 0xC0 = 0x80 \<longleftrightarrow> 128 \<le> unat c \<and> unat c < 192)"
  unfolding byte_all by code_simp

lemma fields_all:
  "\<forall>c :: 8 word. unat (c AND 0x1F) = unat c mod 32 \<and> unat (c AND 0x0F) = unat c mod 16
     \<and> unat (c AND 0x3F) = unat c mod 64 \<and> (c < 0x80 \<longleftrightarrow> unat c < 128)"
  unfolding byte_all by code_simp

lemmas mask_simps = spec [OF masks_all, THEN conjunct1] spec [OF masks_all, THEN conjunct2, THEN conjunct1]
  spec [OF masks_all, THEN conjunct2, THEN conjunct2]
  spec [OF fields_all, THEN conjunct1] spec [OF fields_all, THEN conjunct2, THEN conjunct1]
  spec [OF fields_all, THEN conjunct2, THEN conjunct2, THEN conjunct1]
  spec [OF fields_all, THEN conjunct2, THEN conjunct2, THEN conjunct2]

lemma or_all:
  "list_all (\<lambda>k. 0xE0 OR k = 0xE0 + k) [0..<16]"
  "list_all (\<lambda>k. 0xC0 OR k = 0xC0 + k) [0..<32]"
  "list_all (\<lambda>k. 0x80 OR k = 0x80 + k) [0..<64]"
  by code_simp+

lemma or_simps:
  "(k::nat) < 16 \<Longrightarrow> 0xE0 OR k = 0xE0 + k"
  "(k::nat) < 32 \<Longrightarrow> 0xC0 OR k = 0xC0 + k"
  "(k::nat) < 64 \<Longrightarrow> 0x80 OR k = 0x80 + k"
  using or_all by (simp_all only: list_all_iff set_upt atLeastLessThan_iff) simp_all

lemma unat_byte: "n < 256 \<Longrightarrow> unat (of_nat n :: 8 word) = n"
  by (simp add: unat_of_nat)

subsection \<open>Decoding what was encoded\<close>

lemma strip:
  "k < 16 \<Longrightarrow> 224 \<le> 224 + k \<and> 224 + k < 240 \<and> (224 + k) mod 16 = (k::nat)"
  "k < 32 \<Longrightarrow> 192 \<le> 192 + k \<and> 192 + k < 224 \<and> (192 + k) mod 32 = (k::nat)"
  "k < 64 \<Longrightarrow> 128 \<le> 128 + k \<and> 128 + k < 192 \<and> (128 + k) mod 64 = (k::nat)"
  using mod_mult_self1 [of k 14 16] mod_mult_self1 [of k 6 32] mod_mult_self1 [of k 2 64]
  by (simp_all add: add.commute)

lemma mod_64: "k mod 64 < (64 :: nat)"
  by simp

lemma unat_of_nat_byte: "x = of_nat n \<Longrightarrow> n < 256 \<Longrightarrow> unat (x :: 8 word) = n"
  by (simp only: unat_byte)

lemma put3_cases:
  assumes "r < 65536"
  obtains a b c where "put3 r = [a, b, c]" "unat a = 224 + r div 4096"
    "unat b = 128 + r div 64 mod 64" "unat c = 128 + r mod 64"
proof -
  have r: "r div 4096 < 16" using assms by simp
  have m: "n mod 64 < 64" for n :: nat by simp
  show ?thesis
  proof (rule that)
    show "put3 r = [of_nat (224 + r div 4096), of_nat (128 + r div 64 mod 64), of_nat (128 + r mod 64)]"
      unfolding put3_def by (simp only: or_simps r m)
  qed (rule unat_byte, use r m [of "r div 64"] m [of r] in linarith)+
qed

lemma digits3: "r div 4096 * 4096 + r div 64 mod 64 * 64 + r mod 64 = (r::nat)"
proof -
  have "r div 4096 = r div 64 div 64" by (simp add: div_mult2_eq [symmetric])
  then have "r div 4096 * 64 + r div 64 mod 64 = r div 64" using div_mult_mod_eq [of "r div 64" 64] by simp
  then have "(r div 4096 * 64 + r div 64 mod 64) * 64 + r mod 64 = r" using div_mult_mod_eq [of r 64] by simp
  then show ?thesis by (simp add: algebra_simps)
qed

lemma three_put3:
  assumes "r < 65536"
  shows "three (put3 r @ bs) = Some r"
proof -
  obtain a b c where p: "put3 r = [a, b, c]" "unat a = 224 + r div 4096"
    "unat b = 128 + r div 64 mod 64" "unat c = 128 + r mod 64"
    using put3_cases [OF assms] .
  have "r div 4096 < 16" using assms by simp
  then have u: "224 \<le> unat a \<and> unat a < 240 \<and> unat a mod 16 = r div 4096"
    unfolding p by (rule strip)
  have v: "128 \<le> unat b \<and> unat b < 192 \<and> unat b mod 64 = r div 64 mod 64"
    "128 \<le> unat c \<and> unat c < 192 \<and> unat c mod 64 = r mod 64"
    unfolding p by (rule strip, rule mod_64)+
  show ?thesis unfolding p(1) three_def by (simp add: mask_simps u v digits3)
qed

lemma length_put3 [simp]: "length (put3 r) = 3"
  by (simp add: put3_def)

lemma put3_head:
  assumes "r < 65536" and "put3 r = c # cs"
  shows "\<not> c < 0x80 \<and> \<not> c AND 0xE0 = 0xC0"
proof -
  obtain a where "a = c" "unat a = 224 + r div 4096"
    using put3_cases [OF assms(1)] assms(2) by (metis list.inject)
  then have "224 \<le> unat c" by simp
  then show ?thesis by (simp add: mask_simps)
qed

lemma decode_put3:
  assumes "r < 65536"
  shows "decode_runes (put3 r @ bs) = (case low_half r bs of
      Some lo \<Rightarrow> encode_rune (0x10000 + (r - 0xD800) * 1024 + (lo - 0xDC00)) @ decode_runes (drop 3 bs)
    | None \<Rightarrow> encode_rune (if surrogate r then rune_error else r) @ decode_runes bs)"
proof -
  obtain a b c where p: "put3 r = [a, b, c]" by (simp add: put3_def)
  have t: "three (a # b # c # bs) = Some r" using three_put3 [OF assms, of bs] p by simp
  have d: "drop 2 (b # c # bs) = bs" "drop 5 (b # c # bs) = drop 3 bs"
    by (simp_all add: drop_Cons split: nat.split)
  show ?thesis
    unfolding p using put3_head [OF assms p] t by (simp del: decode_runes.simps add: decode_runes.simps(2) [of a] d split: option.split)
qed

lemma decode_mutf8_rune:
  assumes "scalar r"
  shows "decode_runes (mutf8_rune r @ bs) = encode_rune r @ decode_runes bs"
proof -
  consider "r = 0" | "0 < r" "r < 128" | "128 \<le> r" "r < 2048" | "2048 \<le> r" "r < 65536" | "65536 \<le> r" "r < 0x110000"
    using assms by (auto simp: scalar_def) linarith
  then show ?thesis
  proof cases
    case 1
    then show ?thesis by (simp add: mutf8_rune_def)
  next
    case 2
    then show ?thesis
      by (simp add: mutf8_rune_def mask_simps unat_byte encode_rune_def utf8_bytes_def scalar_def surrogate_def)
  next
    case 3
    then have a: "r div 64 < 32" by simp
    have b: "r mod 64 < 64" by simp
    define x y :: "8 word" where "x = of_nat (192 + r div 64)" and "y = of_nat (128 + r mod 64)"
    have u: "unat x = 192 + r div 64" "unat y = 128 + r mod 64"
      by (rule unat_of_nat_byte, fact, use a b in linarith)+
    have m: "192 \<le> unat x \<and> unat x < 224 \<and> unat x mod 32 = r div 64"
      "128 \<le> unat y \<and> unat y < 192 \<and> unat y mod 64 = r mod 64"
      unfolding u by (rule strip, fact a, rule strip, fact b)
    have "mutf8_rune r = [x, y]"
      using 3 unfolding mutf8_rune_def x_def y_def by (simp only: or_simps a b) simp
    moreover have "\<not> unat x < 128" using m(1) by linarith
    moreover have "unat x mod 32 * 64 + unat y mod 64 = r" using m by simp
    ultimately show ?thesis
      using m by (simp add: mask_simps decode_runes.simps(2) [of x] del: decode_runes.simps)
  next
    case 4
    then have "low_half r bs = None" using assms by (auto simp: low_half_def scalar_def surrogate_def)
    then show ?thesis using 4 assms by (simp add: mutf8_rune_def decode_put3 scalar_def)
  next
    case 5
    let ?x = "r - 0x10000"
    let ?h = "0xD800 + ?x div 1024" and ?l = "0xDC00 + ?x mod 1024"
    have d: "?x div 1024 < 1024" using 5 by simp
    have l: "?x mod 1024 < 1024" by simp
    have t: "three (put3 ?l @ bs) = Some ?l" using l by (intro three_put3) linarith
    have low: "low_half ?h (put3 ?l @ bs) = Some ?l"
      using d l unfolding low_half_def by (simp add: t)
    have r: "0x10000 + (?h - 0xD800) * 1024 + (?l - 0xDC00) = r"
      using 5 div_mult_mod_eq [of ?x 1024] by simp
    have "?h < 65536" using d by linarith
    note put = decode_put3 [OF this, of "put3 ?l @ bs"]
    have "mutf8_rune r = put3 ?h @ put3 ?l" using 5 by (simp add: mutf8_rune_def)
    then show ?thesis using put low r by simp
  qed
qed

lemma decode_encoded_runes:
  "list_all scalar rs \<Longrightarrow> decode_runes (concat (map mutf8_rune rs)) = concat (map encode_rune rs)"
  by (induction rs) (simp_all add: decode_mutf8_rune del: decode_runes.simps(2))

subsection \<open>UTF-8 itself\<close>

lemma digits_of:
  fixes x y z w :: nat
  assumes "y < 64" "z < 64" "w < 64"
  shows "(x * 64 + y) div 64 = x" "(x * 64 + y) mod 64 = y"
    "(x * 4096 + y * 64 + z) div 4096 = x" "(x * 4096 + y * 64 + z) div 64 mod 64 = y"
    "(x * 4096 + y * 64 + z) mod 64 = z"
    "(x * 262144 + y * 4096 + z * 64 + w) div 262144 = x"
    "(x * 262144 + y * 4096 + z * 64 + w) div 4096 mod 64 = y"
    "(x * 262144 + y * 4096 + z * 64 + w) div 64 mod 64 = z"
    "(x * 262144 + y * 4096 + z * 64 + w) mod 64 = w"
proof -
  have d: "(q * 64 + s) div 64 = q" "(q * 64 + s) mod 64 = s" if "s < 64" for q s :: nat
    using that by simp_all
  show "(x * 64 + y) div 64 = x" "(x * 64 + y) mod 64 = y" using assms by (simp_all add: d)
  have three: "(q * 4096 + y * 64 + s) div 64 = q * 64 + y" if "s < 64" for q s
    using d(1) [of s "q * 64 + y"] that by (simp add: algebra_simps)
  have three_mod: "(q * 4096 + y * 64 + s) mod 64 = s" if "s < 64" for q s
    using d(2) [of s "q * 64 + y"] that by (simp add: algebra_simps)
  have by_64: "n div 4096 = n div 64 div 64" "n div 262144 = n div 64 div 64 div 64" for n :: nat
    by (simp_all add: div_mult2_eq [symmetric])
  show "(x * 4096 + y * 64 + z) div 4096 = x" "(x * 4096 + y * 64 + z) div 64 mod 64 = y"
    "(x * 4096 + y * 64 + z) mod 64 = z"
    using assms by (simp_all only: by_64 three three_mod d)
  have four: "(x * 262144 + y * 4096 + z * 64 + w) div 64 = x * 4096 + y * 64 + z"
    "(x * 262144 + y * 4096 + z * 64 + w) mod 64 = w"
    using d [of w "x * 4096 + y * 64 + z"] assms(3) by (simp_all add: algebra_simps)
  show "(x * 262144 + y * 4096 + z * 64 + w) div 262144 = x"
    "(x * 262144 + y * 4096 + z * 64 + w) div 4096 mod 64 = y"
    "(x * 262144 + y * 4096 + z * 64 + w) div 64 mod 64 = z"
    "(x * 262144 + y * 4096 + z * 64 + w) mod 64 = w"
    using assms by (simp_all only: by_64 four three three_mod d)
qed

lemma is_cont_split: "is_cont b \<longleftrightarrow> (\<exists>y < 64. b = 128 + y)"
  by (auto simp: is_cont_def) presburger

text \<open>The bytes of a scalar, by the number of them.\<close>

lemma utf8_bytes_cases:
  assumes "scalar r"
  obtains (one) "utf8_bytes r = [r]" "r < 128"
  | (two) x y where "utf8_bytes r = [192 + x, 128 + y]" "r = x * 64 + y" "2 \<le> x" "x < 32" "y < 64"
  | (three) x y z where "utf8_bytes r = [224 + x, 128 + y, 128 + z]" "r = x * 4096 + y * 64 + z"
      "x < 16" "y < 64" "z < 64" "x = 0 \<longrightarrow> 32 \<le> y" "x = 13 \<longrightarrow> y < 32"
  | (four) x y z w where "utf8_bytes r = [240 + x, 128 + y, 128 + z, 128 + w]"
      "r = x * 262144 + y * 4096 + z * 64 + w" "x < 5" "y < 64" "z < 64" "w < 64"
      "x = 0 \<longrightarrow> 16 \<le> y" "x = 4 \<longrightarrow> y < 16"
proof -
  consider "r < 128" | "128 \<le> r" "r < 2048" | "2048 \<le> r" "r < 65536" | "65536 \<le> r" by linarith
  then show ?thesis
  proof cases
    case 1
    then show ?thesis by (intro one) (simp_all add: utf8_bytes_def)
  next
    case 2
    define x y where "x = r div 64" and "y = r mod 64"
    have r: "r = x * 64 + y" and y: "y < 64" by (simp_all add: x_def y_def)
    show ?thesis
    proof (rule two)
      show "utf8_bytes r = [192 + x, 128 + y]" using 2 by (simp add: utf8_bytes_def x_def y_def)
    qed (use r y 2 in linarith)+
  next
    case 3
    define x y z where "x = r div 4096" and "y = r div 64 mod 64" and "z = r mod 64"
    have r: "r = x * 4096 + y * 64 + z" unfolding x_def y_def z_def by (rule digits3 [symmetric])
    have b: "y < 64" "z < 64" by (simp_all add: y_def z_def)
    have s: "r < 0xD800 \<or> 0xE000 \<le> r" using assms by (auto simp: scalar_def surrogate_def)
    show ?thesis
    proof (rule three)
      show "utf8_bytes r = [224 + x, 128 + y, 128 + z]" using 3 by (simp add: utf8_bytes_def x_def y_def z_def)
    qed (use r b 3 s in linarith)+
  next
    case 4
    define v w where "v = r div 64" and "w = r mod 64"
    define x y z where "x = v div 4096" and "y = v div 64 mod 64" and "z = v mod 64"
    have rv: "r = v * 64 + w" by (simp add: v_def w_def)
    have "v = x * 4096 + y * 64 + z" unfolding x_def y_def z_def by (rule digits3 [symmetric])
    with rv have r: "r = x * 262144 + y * 4096 + z * 64 + w" by simp
    have b: "y < 64" "z < 64" "w < 64" by (simp_all add: y_def z_def w_def)
    have d: "r div 262144 = x" "r div 4096 mod 64 = y" "r div 64 mod 64 = z" "r mod 64 = w"
      unfolding r by (rule digits_of, rule b, rule b, rule b)+
    show ?thesis
    proof (rule four)
      show "utf8_bytes r = [240 + x, 128 + y, 128 + z, 128 + w]" using 4 by (simp add: utf8_bytes_def d)
    qed (use r b 4 assms in \<open>(linarith | simp only: scalar_def)+\<close>)
  qed
qed

lemma decode_utf8_bytes:
  assumes "scalar r"
  shows "decode_rune (utf8_bytes r @ bs) = (r, length (utf8_bytes r))"
  using assms
proof (cases rule: utf8_bytes_cases)
  case (two x y)
  then show ?thesis by (simp add: decode_rune_def is_cont_def)
next
  case (three x y z)
  then show ?thesis by (simp add: decode_rune_def is_cont_def)
next
  case (four x y z w)
  then show ?thesis by (simp add: decode_rune_def is_cont_def)
qed simp

lemma utf8_bytes_of_digits:
  "r < 128 \<Longrightarrow> utf8_bytes r = [r]"
  "2 \<le> x \<Longrightarrow> x < 32 \<Longrightarrow> y < 64 \<Longrightarrow> utf8_bytes (x * 64 + y) = [192 + x, 128 + y]"
  "x < 16 \<Longrightarrow> y < 64 \<Longrightarrow> z < 64 \<Longrightarrow> (x = 0 \<longrightarrow> 32 \<le> y) \<Longrightarrow>
     utf8_bytes (x * 4096 + y * 64 + z) = [224 + x, 128 + y, 128 + z]"
  "y < 64 \<Longrightarrow> z < 64 \<Longrightarrow> w < 64 \<Longrightarrow> (x = 0 \<longrightarrow> 16 \<le> y) \<Longrightarrow>
     utf8_bytes (x * 262144 + y * 4096 + z * 64 + w) = [240 + x, 128 + y, 128 + z, 128 + w]"
proof -
  show "r < 128 \<Longrightarrow> utf8_bytes r = [r]" by (simp add: utf8_bytes_def)
next
  assume a: "2 \<le> x" "x < 32" "y < 64"
  then have "\<not> x * 64 + y < 128" "x * 64 + y < 2048" by linarith+
  then show "utf8_bytes (x * 64 + y) = [192 + x, 128 + y]"
    unfolding utf8_bytes_def by (simp only: if_True if_False digits_of(1,2) [OF a(3) a(3) a(3)])
next
  assume a: "x < 16" "y < 64" "z < 64" "x = 0 \<longrightarrow> 32 \<le> y"
  then have "\<not> x * 4096 + y * 64 + z < 128" "\<not> x * 4096 + y * 64 + z < 2048" "x * 4096 + y * 64 + z < 65536"
    by linarith+
  then show "utf8_bytes (x * 4096 + y * 64 + z) = [224 + x, 128 + y, 128 + z]"
    unfolding utf8_bytes_def by (simp only: if_True if_False digits_of(3-5) [OF a(2,3) a(3)])
next
  assume a: "y < 64" "z < 64" "w < 64" "x = 0 \<longrightarrow> 16 \<le> y"
  let ?r = "x * 262144 + y * 4096 + z * 64 + w"
  have "\<not> ?r < 128" "\<not> ?r < 2048" "\<not> ?r < 65536" using a by linarith+
  then show "utf8_bytes ?r = [240 + x, 128 + y, 128 + z, 128 + w]"
    unfolding utf8_bytes_def by (simp only: if_True if_False digits_of a)
qed

text \<open>What \<open>DecodeRune\<close> accepts is the encoding of a scalar.\<close>

lemma decode_rune_scalar:
  assumes "decode_rune (a # bs) = (r, k)" and "\<not> (r = rune_error \<and> k = 1)"
  shows "scalar r \<and> utf8_bytes r = take k (a # bs)"
proof -
  consider (one) "a < 128" "r = a" "k = 1"
    | (two) x b y cs where "a = 192 + x" "2 \<le> x" "x < 32" "bs = b # cs" "b = 128 + y" "y < 64" "r = x * 64 + y" "k = 2"
    | (three) x b y c z cs where "a = 224 + x" "x < 16" "bs = b # c # cs" "b = 128 + y" "y < 64" "c = 128 + z" "z < 64"
        "x = 0 \<longrightarrow> 32 \<le> y" "x = 13 \<longrightarrow> y < 32" "r = x * 4096 + y * 64 + z" "k = 3"
    | (four) x b y c z d w cs where "a = 240 + x" "x < 5" "bs = b # c # d # cs" "b = 128 + y" "y < 64" "c = 128 + z" "z < 64"
        "d = 128 + w" "w < 64" "x = 0 \<longrightarrow> 16 \<le> y" "x = 4 \<longrightarrow> y < 16" "r = x * 262144 + y * 4096 + z * 64 + w" "k = 4"
  proof -
    have "a < 128 \<or> (\<exists>b cs. bs = b # cs \<and> 194 \<le> a \<and> a < 224 \<and> is_cont b)
      \<or> (\<exists>b c cs. bs = b # c # cs \<and> 224 \<le> a \<and> a < 240 \<and> is_cont b \<and> is_cont c \<and> (a = 224 \<longrightarrow> 160 \<le> b) \<and> (a = 237 \<longrightarrow> b < 160))
      \<or> (\<exists>b c d cs. bs = b # c # d # cs \<and> 240 \<le> a \<and> a < 245 \<and> is_cont b \<and> is_cont c \<and> is_cont d
           \<and> (a = 240 \<longrightarrow> 144 \<le> b) \<and> (a = 244 \<longrightarrow> b < 144))" (is "_ \<or> ?two \<or> ?three \<or> ?four")
    proof (rule ccontr)
      assume n: "\<not> (a < 128 \<or> ?two \<or> ?three \<or> ?four)"
      consider "bs = []" | b where "bs = [b]" | b c where "bs = [b, c]" | b c d cs where "bs = b # c # d # cs"
        by (metis list.exhaust)
      then have "decode_rune (a # bs) = (rune_error, 1)"
      proof cases
        case 1
        then show ?thesis using n by (simp add: decode_rune_def)
      next
        case (2 b)
        then have "\<not> (194 \<le> a \<and> a < 224 \<and> is_cont b)" using n by blast
        then show ?thesis using n 2 by (simp add: decode_rune_def)
      next
        case (3 b c)
        then have "\<not> (194 \<le> a \<and> a < 224 \<and> is_cont b)"
          "\<not> (224 \<le> a \<and> a < 240 \<and> is_cont b \<and> is_cont c \<and> (a = 224 \<longrightarrow> 160 \<le> b) \<and> (a = 237 \<longrightarrow> b < 160))"
          using n by blast+
        then show ?thesis using n 3 unfolding decode_rune_def
          by (simp only: list.case if_split [where P = "\<lambda>x. x = _"]) (simp, blast?)
      next
        case (4 b c d cs)
        then have "\<not> (194 \<le> a \<and> a < 224 \<and> is_cont b)"
          "\<not> (224 \<le> a \<and> a < 240 \<and> is_cont b \<and> is_cont c \<and> (a = 224 \<longrightarrow> 160 \<le> b) \<and> (a = 237 \<longrightarrow> b < 160))"
          "\<not> (240 \<le> a \<and> a < 245 \<and> is_cont b \<and> is_cont c \<and> is_cont d
             \<and> (a = 240 \<longrightarrow> 144 \<le> b) \<and> (a = 244 \<longrightarrow> b < 144))"
          using n by blast+
        then show ?thesis using n 4 unfolding decode_rune_def
          by (simp only: list.case if_split [where P = "\<lambda>x. x = _"]) (simp, blast?)
      qed
      with assms show False by simp
    qed
    then show thesis
    proof (elim disjE exE conjE)
      assume "a < 128"
      then show thesis using assms(1) by (intro one) simp_all
    next
      fix b cs assume h: "bs = b # cs" "194 \<le> a" "a < 224" "is_cont b"
      then have "decode_rune (a # bs) = ((a - 192) * 64 + (b - 128), 2)" by (simp add: decode_rune_def)
      then have "r = (a - 192) * 64 + (b - 128)" "k = 2" using assms(1) by simp_all
      then show thesis using h unfolding is_cont_def
        by (intro two [of "a - 192" b cs "b - 128"]) (simp_all, linarith?)
    next
      fix b c cs assume h: "bs = b # c # cs" "224 \<le> a" "a < 240" "is_cont b" "is_cont c" "a = 224 \<longrightarrow> 160 \<le> b" "a = 237 \<longrightarrow> b < 160"
      then have "decode_rune (a # bs) = ((a - 224) * 4096 + (b - 128) * 64 + (c - 128), 3)" by (simp add: decode_rune_def)
      then have "r = (a - 224) * 4096 + (b - 128) * 64 + (c - 128)" "k = 3" using assms(1) by simp_all
      then show thesis using h unfolding is_cont_def
        by (intro three [of "a - 224" b c cs "b - 128" "c - 128"]) linarith+
    next
      fix b c d cs assume h: "bs = b # c # d # cs" "240 \<le> a" "a < 245" "is_cont b" "is_cont c" "is_cont d"
        "a = 240 \<longrightarrow> 144 \<le> b" "a = 244 \<longrightarrow> b < 144"
      then have "decode_rune (a # bs) = ((a - 240) * 262144 + (b - 128) * 4096 + (c - 128) * 64 + (d - 128), 4)"
        by (simp add: decode_rune_def)
      then have "r = (a - 240) * 262144 + (b - 128) * 4096 + (c - 128) * 64 + (d - 128)" "k = 4" using assms(1) by simp_all
      then show thesis using h unfolding is_cont_def
        by (intro four [of "a - 240" b c d cs "b - 128" "c - 128" "d - 128"]) linarith+
    qed
  qed
  then show ?thesis
  proof cases
    case one
    then show ?thesis by (simp add: utf8_bytes_of_digits scalar_def surrogate_def)
  next
    case two
    then show ?thesis by (simp add: utf8_bytes_of_digits scalar_def surrogate_def)
  next
    case three
    have "r < 0xD800 \<or> 0xE000 \<le> r"
    proof (cases "x = 13")
      case True
      then have "y < 32" using three(9) by blast
      then show ?thesis using three(7,10) True by linarith
    next
      case False
      then show ?thesis using three(5,7,10) by linarith
    qed
    then have "scalar r" using three(2,5,7,10) unfolding scalar_def surrogate_def by linarith
    then show ?thesis using three by (simp add: utf8_bytes_of_digits)
  next
    case four
    have "16 \<le> y \<or> 0 < x" "y < 16 \<or> x < 4" using four(2,10,11) by linarith+
    then have "65536 \<le> r" "r < 0x110000" using four(2,5,7,9,12) by linarith+
    then have "scalar r" unfolding scalar_def surrogate_def by linarith
    then show ?thesis using four by (simp add: utf8_bytes_of_digits)
  qed
qed

lemma decode_rune_width: "decode_rune (a # bs) = (r, k) \<Longrightarrow> 1 \<le> k \<and> k \<le> 4"
  by (auto simp: decode_rune_def split: if_splits list.splits)

text \<open>A valid rune of a string is a scalar and its bytes are the encoding.\<close>

lemma runes_scalar:
  assumes "(r, b) \<in> set (runes s)" and "\<not> (r = rune_error \<and> length b = 1)"
  shows "scalar r \<and> encode_rune r = b"
  using assms
proof (induction s rule: runes.induct)
  case (2 c cs)
  obtain q k where qk: "decode_rune (map of_char (take 4 (c # cs))) = (q, k)"
    by (cases "decode_rune (map of_char (take 4 (c # cs)))")
  then have qk': "decode_rune (of_char c # map of_char (take 3 cs)) = (q, k)" by simp
  note w = decode_rune_width [OF qk']
  have runes: "runes (c # cs) = (q, c # take (k - 1) cs) # runes (drop (k - 1) cs)"
    using qk by simp
  show ?case
  proof (cases "(r, b) = (q, c # take (k - 1) cs)")
    case True
    then have "\<not> (q = rune_error \<and> k = 1)" using 2(3) by auto
    from decode_rune_scalar [OF qk' this]
    have q: "scalar q" "utf8_bytes q = take k (map of_char (take 4 (c # cs)))" by simp_all
    have "encode_rune q = take k (take 4 (c # cs))"
      by (simp add: encode_rune_def q take_map [symmetric] o_def)
    also have "\<dots> = c # take (k - 1) cs" using w by (cases k) (simp_all add: min_def)
    finally show ?thesis using q True by simp
  next
    case False
    then have "(r, b) \<in> set (runes (drop (k - 1) cs))" using 2(2) unfolding runes by auto
    then show ?thesis using "2.IH" [OF qk [symmetric] refl] 2(3) by simp
  qed
qed simp

lemma valid_utf8_scalars:
  assumes "valid_utf8 s"
  shows "list_all scalar (rune_values s)" and "concat (map encode_rune (rune_values s)) = s"
proof -
  have *: "scalar r \<and> encode_rune r = b" if "(r, b) \<in> set (runes s)" for r b
    using runes_scalar [OF that] assms that by (auto simp: valid_utf8_def list_all_iff)
  then show "list_all scalar (rune_values s)" by (auto simp: rune_values_def list_all_iff)
  have "map encode_rune (rune_values s) = map snd (runes s)"
    using * by (auto simp: rune_values_def)
  then show "concat (map encode_rune (rune_values s)) = s" by (simp add: runes_bytes)
qed

lemma utf8_bytes_less:
  assumes "scalar r"
  shows "list_all (\<lambda>b. b < 256) (utf8_bytes r)"
  using assms by (cases rule: utf8_bytes_cases) auto

lemma scalar_error: "scalar rune_error"
  by (simp add: scalar_def surrogate_def rune_error_def)

lemma runes_encode_rune:
  "runes (encode_rune r @ s) = (if scalar r then r else rune_error, encode_rune r) # runes s"
proof -
  define q where "q = (if scalar r then r else rune_error)"
  have q: "scalar q" by (simp add: q_def scalar_error)
  have e: "encode_rune r = map char_of (utf8_bytes q)" by (simp add: encode_rune_def q_def)
  have b: "map of_char (encode_rune r) = utf8_bytes q"
    using utf8_bytes_less [OF q] unfolding e by (induction "utf8_bytes q" rule: list.induct)
      (auto simp: map_idI o_def list_all_iff of_char_of)
  have l: "length (utf8_bytes q) \<le> 4" "utf8_bytes q \<noteq> []" by (simp_all add: utf8_bytes_def)
  obtain c cs where c: "encode_rune r = c # cs" using l e by (cases "encode_rune r") auto
  have len: "length (encode_rune r) = length (utf8_bytes q)" by (simp add: e)
  have "map of_char (take 4 (encode_rune r @ s)) = utf8_bytes q @ map of_char (take (4 - length (utf8_bytes q)) s)"
    using b l(1) by (simp add: e)
  then have "decode_rune (map of_char (take 4 (encode_rune r @ s))) = (q, length (utf8_bytes q))"
    using decode_utf8_bytes [OF q] by simp
  then have "runes (encode_rune r @ s)
      = (q, c # take (length (utf8_bytes q) - 1) (cs @ s)) # runes (drop (length (utf8_bytes q) - 1) (cs @ s))"
    unfolding c by simp
  moreover have "length cs = length (utf8_bytes q) - 1" using len c by simp
  ultimately show ?thesis by (simp add: c q_def)
qed

lemma length_encode_error: "length (encode_rune rune_error) = 3"
  by (simp add: encode_rune_def utf8_bytes_def rune_error_def scalar_error [unfolded rune_error_def])

lemma valid_utf8_encode_rune: "valid_utf8 (encode_rune r @ s) \<longleftrightarrow> valid_utf8 s"
proof -
  have "\<not> ((if scalar r then r else rune_error) = rune_error \<and> length (encode_rune r) = 1)"
  proof (cases "scalar r \<and> r \<noteq> rune_error")
    case False
    then have "encode_rune r = encode_rune rune_error" by (auto simp: encode_rune_def scalar_error)
    then show ?thesis by (simp add: length_encode_error)
  qed simp
  then show ?thesis by (auto simp: valid_utf8_def runes_encode_rune)
qed

lemma valid_utf8_ascii_Cons: "of_char c < (128 :: nat) \<Longrightarrow> valid_utf8 (c # s) \<longleftrightarrow> valid_utf8 s"
  by (simp add: valid_utf8_def rune_error_def del: runes.simps(2))

lemma decode_runes_valid: "valid_utf8 (decode_runes b)"
proof (induction b rule: decode_runes.induct)
  case (2 c cs)
  show ?case
    using 2 by (auto simp: valid_utf8_encode_rune valid_utf8_ascii_Cons mask_simps of_char_of split: option.splits)
qed (simp add: valid_utf8_def)

lemma decode_mutf8_fast:
  "list_all (\<lambda>c. c \<noteq> 0 \<and> c < 0x80) b \<Longrightarrow> string_of b = decode_runes b"
  by (induction b) (simp_all add: string_of_def)

lemma decode_mutf8_slow: "decode_mutf8 b = decode_runes b"
  by (simp add: decode_mutf8_def decode_mutf8_fast)

lemma decode_mutf8_valid: "valid_utf8 (decode_mutf8 b)"
  by (simp add: decode_mutf8_slow decode_runes_valid)

lemma decode_encode_mutf8: "valid_utf8 s \<Longrightarrow> decode_mutf8 (encode_mutf8 s) = s"
  using valid_utf8_scalars [of s]
  by (simp add: decode_mutf8_slow encode_mutf8_def decode_encoded_runes)

lemma length_encode_rune: "length (encode_rune r) \<le> 4" "r < 65536 \<Longrightarrow> length (encode_rune r) \<le> 3"
    "r < 2048 \<Longrightarrow> length (encode_rune r) \<le> 3"
  by (simp_all add: encode_rune_def utf8_bytes_def rune_error_def)

lemma three_less: "three bs = Some r \<Longrightarrow> r < 65536 \<and> 3 \<le> length bs"
proof -
  assume t: "three bs = Some r"
  obtain a b c cs where bs: "bs = a # b # c # cs" using t by (auto simp: three_def split: list.splits)
  have "unat a mod 16 < 16" "unat b mod 64 < 64" "unat c mod 64 < 64" by simp_all
  moreover have "r = unat a mod 16 * 4096 + unat b mod 64 * 64 + unat c mod 64"
    using t by (auto simp: three_def bs mask_simps split: if_splits)
  ultimately show ?thesis using bs by simp
qed

text \<open>A decoded string has at most three bytes for each byte it was read from.\<close>

lemma length_decode_mutf8: "length (decode_mutf8 b) \<le> 3 * length b"
  unfolding decode_mutf8_slow
proof (induction b rule: decode_runes.induct)
  case (2 c cs)
  consider (ascii) "c < 0x80"
    | (two) "\<not> c < 0x80" "c AND 0xE0 = 0xC0 \<and> cs \<noteq> [] \<and> hd cs AND 0xC0 = 0x80"
    | (bad) "\<not> c < 0x80" "\<not> (c AND 0xE0 = 0xC0 \<and> cs \<noteq> [] \<and> hd cs AND 0xC0 = 0x80)" "three (c # cs) = None"
    | (one) r where "\<not> c < 0x80" "\<not> (c AND 0xE0 = 0xC0 \<and> cs \<noteq> [] \<and> hd cs AND 0xC0 = 0x80)" "three (c # cs) = Some r"
        "low_half r (drop 2 cs) = None"
    | (pair) r lo where "\<not> c < 0x80" "\<not> (c AND 0xE0 = 0xC0 \<and> cs \<noteq> [] \<and> hd cs AND 0xC0 = 0x80)" "three (c # cs) = Some r"
        "low_half r (drop 2 cs) = Some lo"
    by (metis option.exhaust)
  then show ?case
  proof cases
    case ascii
    then show ?thesis using 2(1) by simp
  next
    case two
    have "length (encode_rune (unat (c AND 0x1F) * 64 + unat (hd cs AND 0x3F))) \<le> 4" by (rule length_encode_rune)
    moreover have "length (decode_runes (drop 1 cs)) \<le> 3 * length (drop 1 cs)" using 2(2) two by blast
    ultimately show ?thesis using two by (cases cs) simp_all
  next
    case bad
    have "length (decode_runes cs) \<le> 3 * length cs" using 2(3) bad by blast
    moreover have "decode_runes (c # cs) = encode_rune rune_error @ decode_runes cs"
      by (simp only: decode_runes.simps(2) bad if_False option.case)
    ultimately show ?thesis by (simp add: length_encode_error)
  next
    case (one r)
    then have r: "r < 65536" "3 \<le> length (c # cs)" using three_less by blast+
    have "length (encode_rune (if surrogate r then rune_error else r)) \<le> 3"
      using r(1) by (simp add: length_encode_error length_encode_rune)
    moreover have "length (decode_runes (drop 2 cs)) \<le> 3 * length (drop 2 cs)" using 2(4,5) one by blast
    moreover have "decode_runes (c # cs) = encode_rune (if surrogate r then rune_error else r) @ decode_runes (drop 2 cs)"
      by (simp only: decode_runes.simps(2) one if_False option.case)
    ultimately show ?thesis using r(2) by simp
  next
    case (pair r lo)
    then have "three (drop 2 cs) = Some lo" by (auto simp: low_half_def split: option.splits if_splits)
    then have "3 \<le> length (drop 2 cs)" using three_less by blast
    moreover have "length (encode_rune (0x10000 + (r - 0xD800) * 1024 + (lo - 0xDC00))) \<le> 4" by (rule length_encode_rune)
    moreover have "length (decode_runes (drop 5 cs)) \<le> 3 * length (drop 5 cs)" using 2(4,5) pair by blast
    moreover have "decode_runes (c # cs) = encode_rune (0x10000 + (r - 0xD800) * 1024 + (lo - 0xDC00)) @ decode_runes (drop 5 cs)"
      by (simp only: decode_runes.simps(2) pair if_False option.case)
    ultimately show ?thesis by simp
  qed
qed simp

end
