(* ===== verification/Nbt.thy ===== *)
theory Nbt
  imports Mutf8
begin

section \<open>NBT, the format of Minecraft's save files (internal/nbt/nbt.go)\<close>

text \<open>
  Reading and writing. A decoded value is an \<open>nbt\<close>; a float is its bit pattern, as
  \<open>math.Float32frombits\<close> reads it, and a Go map is the list of its entries in the order of
  their keys, which is the order \<open>Write\<close> uses. \<open>NOther\<close> stands for a Go value NBT has no tag for.
  The reader is a sequence of bytes and what it returns after them. The decoder is a mutually
  recursive function whose termination is proved: every nested value starts after a byte that
  was read.

  Shown here: reading ends for every input; what it returns is well typed, nested within the
  limit and within the memory budget; and it reads back what \<open>Write\<close> wrote.
\<close>

subsection \<open>Results\<close>

definition and_then :: "'e + 'a \<Rightarrow> ('a \<Rightarrow> 'e + 'b) \<Rightarrow> 'e + 'b" where
  "and_then m f = (case m of Inl e \<Rightarrow> Inl e | Inr x \<Rightarrow> f x)"

lemma and_then_simps [simp]: "and_then (Inl e) f = Inl e" "and_then (Inr x) f = f x"
  by (simp_all add: and_then_def)

lemma and_then_Inr: "and_then m f = Inr y \<longleftrightarrow> (\<exists>x. m = Inr x \<and> f x = Inr y)"
  by (cases m) simp_all

lemma and_then_cong [fundef_cong]:
  "m = m' \<Longrightarrow> (\<And>x. m' = Inr x \<Longrightarrow> f x = f' x) \<Longrightarrow> and_then m f = and_then m' f'"
  by (cases m') simp_all

subsection \<open>Tags and values\<close>

definition tag_end :: "8 word" where "tag_end = 0"
definition tag_byte :: "8 word" where "tag_byte = 1"
definition tag_short :: "8 word" where "tag_short = 2"
definition tag_int :: "8 word" where "tag_int = 3"
definition tag_long :: "8 word" where "tag_long = 4"
definition tag_float :: "8 word" where "tag_float = 5"
definition tag_double :: "8 word" where "tag_double = 6"
definition tag_byte_array :: "8 word" where "tag_byte_array = 7"
definition tag_string :: "8 word" where "tag_string = 8"
definition tag_list :: "8 word" where "tag_list = 9"
definition tag_compound :: "8 word" where "tag_compound = 10"
definition tag_int_array :: "8 word" where "tag_int_array = 11"
definition tag_long_array :: "8 word" where "tag_long_array = 12"

lemmas tag_defs = tag_end_def tag_byte_def tag_short_def tag_int_def tag_long_def tag_float_def
  tag_double_def tag_byte_array_def tag_string_def tag_list_def tag_compound_def
  tag_int_array_def tag_long_array_def

datatype nbt =
    NByte "8 word"
  | NShort "16 word"
  | NInt "32 word"
  | NLong "64 word"
  | NFloat "32 word"
  | NDouble "64 word"
  | NByte_Array bytes
  | NString string
  | NList "8 word" "nbt list"
  | NCompound "(string \<times> nbt) list"
  | NInt_Array "32 word list"
  | NLong_Array "64 word list"
  | NOther

type_synonym compound = "(string \<times> nbt) list"

fun type_of :: "nbt \<Rightarrow> 8 word option" where
  "type_of (NByte _) = Some tag_byte"
| "type_of (NShort _) = Some tag_short"
| "type_of (NInt _) = Some tag_int"
| "type_of (NLong _) = Some tag_long"
| "type_of (NFloat _) = Some tag_float"
| "type_of (NDouble _) = Some tag_double"
| "type_of (NByte_Array _) = Some tag_byte_array"
| "type_of (NString _) = Some tag_string"
| "type_of (NList _ _) = Some tag_list"
| "type_of (NCompound _) = Some tag_compound"
| "type_of (NInt_Array _) = Some tag_int_array"
| "type_of (NLong_Array _) = Some tag_long_array"
| "type_of NOther = None"

text \<open>\<open>c[k] = v\<close> and \<open>c[k]\<close> on a map.\<close>

fun put :: "string \<Rightarrow> 'v \<Rightarrow> (string \<times> 'v) list \<Rightarrow> (string \<times> 'v) list" where
  "put k v [] = [(k, v)]"
| "put k v ((k', v') # es) =
     (if k = k' then (k, v) # es
      else if cmp_string k k' < 0 then (k, v) # (k', v') # es
      else (k', v') # put k v es)"

definition get :: "compound \<Rightarrow> string \<Rightarrow> nbt option" where
  "get c k = map_of c k"

subsection \<open>Limits and the decoder\<close>

record limits =
  max_depth :: int
  max_bytes :: int

definition default_limits :: limits where
  "default_limits = \<lparr>max_depth = 512, max_bytes = 16 * 2 ^ 20\<rparr>"

datatype malformed =
    Ends_Early
  | Root_Tag "8 word"
  | Negative_Length int
  | Unknown_Tag "8 word"
  | List_Of_Unknown_Tag "8 word"
  | List_Without_Type int
  | Not_Gzip string
  | Wrapped string
  | Trailing_Data

datatype nbt_error = Too_Deep | Too_Large | Bad_Format malformed | Io_Error string | Panic

text \<open>What a reader returns after its last byte.\<close>

datatype ending = Eof | Unexpected_Eof | Read_Error string

record decoder =
  de_in :: bytes
  de_end :: ending
  de_used :: int

definition cost_number :: int where "cost_number = 16"
definition cost_array :: int where "cost_array = 24"
definition cost_string :: int where "cost_string = 36"
definition cost_list :: int where "cost_list = 40"
definition cost_compound :: int where "cost_compound = 48"
definition cost_entry :: int where "cost_entry = 36"

lemmas cost_defs = cost_number_def cost_array_def cost_string_def cost_list_def cost_compound_def
  cost_entry_def

definition charge :: "limits \<Rightarrow> int \<Rightarrow> decoder \<Rightarrow> nbt_error + decoder" where
  "charge lim n d = (if n < 0 \<or> max_bytes lim - de_used d < n then Inl Too_Large
     else Inr (d\<lparr>de_used := de_used d + n\<rparr>))"

fun truncated :: "ending \<Rightarrow> nbt_error" where
  "truncated (Read_Error e) = Io_Error e"
| "truncated _ = Bad_Format Ends_Early"

definition read_byte :: "decoder \<Rightarrow> nbt_error + 8 word \<times> decoder" where
  "read_byte d = (case de_in d of
      [] \<Rightarrow> Inl (truncated (de_end d))
    | b # bs \<Rightarrow> Inr (b, d\<lparr>de_in := bs\<rparr>))"

text \<open>\<open>io.ReadFull\<close> into \<open>n\<close> bytes.\<close>

definition read_exactly :: "nat \<Rightarrow> decoder \<Rightarrow> nbt_error + bytes \<times> decoder" where
  "read_exactly n d = (if length (de_in d) < n then Inl (truncated (de_end d))
     else Inr (take n (de_in d), d\<lparr>de_in := drop n (de_in d)\<rparr>))"

text \<open>\<open>read\<close> slices a buffer of 8 bytes, which panics beyond it, and \<open>make\<close> panics on a negative length.\<close>

definition read_buf :: "nat \<Rightarrow> decoder \<Rightarrow> nbt_error + bytes \<times> decoder" where
  "read_buf n d = (if 8 < n then Inl Panic else read_exactly n d)"

definition read_made :: "int \<Rightarrow> decoder \<Rightarrow> nbt_error + bytes \<times> decoder" where
  "read_made n d = (if n < 0 then Inl Panic else read_exactly (nat n) d)"

lemma read_buf_small [simp]: "n \<le> 8 \<Longrightarrow> read_buf n d = read_exactly n d"
  by (simp add: read_buf_def)

lemma read_made_length [simp]: "read_made (int n) d = read_exactly n d"
  by (simp add: read_made_def)

text \<open>\<open>binary.BigEndian\<close>: the value of some bytes and the low \<open>n\<close> bytes of a value.\<close>

definition be_val :: "bytes \<Rightarrow> nat" where
  "be_val bs = foldl (\<lambda>v b. 256 * v + unat b) 0 bs"

definition be_bytes :: "nat \<Rightarrow> nat \<Rightarrow> bytes" where
  "be_bytes n v = map (\<lambda>i. of_nat (v div 256 ^ (n - 1 - i))) [0..<n]"

definition read_length :: "decoder \<Rightarrow> nbt_error + int \<times> decoder" where
  "read_length d = and_then (read_buf 4 d) (\<lambda>(b, d).
     let n = sint (of_nat (be_val b) :: 32 word)
     in if n < 0 then Inl (Bad_Format (Negative_Length n)) else Inr (n, d))"

definition read_string :: "limits \<Rightarrow> decoder \<Rightarrow> nbt_error + string \<times> decoder" where
  "read_string lim d = and_then (read_buf 2 d) (\<lambda>(b, d).
     let n = be_val b
     in and_then (charge lim (cost_string + 2 * int n) d) (\<lambda>d.
        and_then (read_made (int n) d) (\<lambda>(raw, d). Inr (decode_mutf8 raw, d))))"

subsection \<open>Payloads without nested values\<close>

definition read_number :: "limits \<Rightarrow> nat \<Rightarrow> decoder \<Rightarrow> nbt_error + nat \<times> decoder" where
  "read_number lim n d = and_then (charge lim cost_number d) (\<lambda>d.
     and_then (read_buf n d) (\<lambda>(b, d). Inr (be_val b, d)))"

definition element_size :: "8 word \<Rightarrow> int" where
  "element_size t = (if t = tag_int_array then 4 else if t = tag_long_array then 8 else 1)"

definition array_of :: "8 word \<Rightarrow> bytes \<Rightarrow> nbt" where
  "array_of t raw =
     (if t = tag_int_array then NInt_Array (map (\<lambda>b. of_nat (be_val b)) (chunks 4 raw))
      else if t = tag_long_array then NLong_Array (map (\<lambda>b. of_nat (be_val b)) (chunks 8 raw))
      else NByte_Array raw)"

text \<open>\<open>binary.BigEndian.Uint32(raw[4*i:])\<close> for every \<open>i < n\<close> panics when \<open>raw\<close> is shorter, and so for 8 bytes.\<close>

definition overruns :: "8 word \<Rightarrow> int \<Rightarrow> bytes \<Rightarrow> bool" where
  "overruns t n raw \<longleftrightarrow>
     t = tag_int_array \<and> int (length raw) < 4 * n \<or> t = tag_long_array \<and> int (length raw) < 8 * n"

lemma overruns_exact: "int (length raw) = n * element_size t \<Longrightarrow> \<not> overruns t n raw"
  by (auto simp: overruns_def element_size_def tag_defs)

definition read_array :: "limits \<Rightarrow> 8 word \<Rightarrow> decoder \<Rightarrow> nbt_error + nbt \<times> decoder" where
  "read_array lim t d = and_then (read_length d) (\<lambda>(n, d).
     let size = element_size t
     in if (2 ^ 63 - 1 - cost_array) div size < n then Inl Too_Large
        else and_then (charge lim (cost_array + n * size) d) (\<lambda>d.
             and_then (read_made (n * size) d) (\<lambda>(raw, d).
             if overruns t n raw then Inl Panic else Inr (array_of t raw, d))))"

definition number_of :: "8 word \<Rightarrow> nat \<Rightarrow> nbt" where
  "number_of t u =
     (if t = tag_byte then NByte (of_nat u)
      else if t = tag_short then NShort (of_nat u)
      else if t = tag_int then NInt (of_nat u)
      else if t = tag_float then NFloat (of_nat u)
      else if t = tag_long then NLong (of_nat u)
      else NDouble (of_nat u))"

definition number_size :: "8 word \<Rightarrow> nat" where
  "number_size t = (if t = tag_byte then 1 else if t = tag_short then 2
     else if t = tag_int \<or> t = tag_float then 4 else 8)"

definition read_plain :: "limits \<Rightarrow> 8 word \<Rightarrow> decoder \<Rightarrow> nbt_error + nbt \<times> decoder" where
  "read_plain lim t d =
     (if t \<in> {tag_byte, tag_short, tag_int, tag_float, tag_long, tag_double}
      then and_then (read_number lim (number_size t) d) (\<lambda>(u, d). Inr (number_of t u, d))
      else if t = tag_string then and_then (read_string lim d) (\<lambda>(s, d). Inr (NString s, d))
      else if t \<in> {tag_byte_array, tag_int_array, tag_long_array} then read_array lim t d
      else Inl (Bad_Format (Unknown_Tag t)))"

subsection \<open>How much is read\<close>

lemma charge_Inr: "charge lim n d = Inr d' \<longleftrightarrow>
    0 \<le> n \<and> de_used d + n \<le> max_bytes lim \<and> d' = d\<lparr>de_used := de_used d + n\<rparr>"
  by (auto simp: charge_def)

lemma read_byte_Inr: "read_byte d = Inr (b, d') \<longleftrightarrow> (\<exists>bs. de_in d = b # bs \<and> d' = d\<lparr>de_in := bs\<rparr>)"
  by (auto simp: read_byte_def split: list.splits)

lemma read_exactly_Inr: "read_exactly n d = Inr (b, d') \<longleftrightarrow>
    n \<le> length (de_in d) \<and> b = take n (de_in d) \<and> d' = d\<lparr>de_in := drop n (de_in d)\<rparr>"
  by (auto simp: read_exactly_def)

lemma read_buf_Inr: "read_buf n d = Inr x \<longleftrightarrow> n \<le> 8 \<and> read_exactly n d = Inr x"
  by (auto simp: read_buf_def)

lemma be_val_snoc: "be_val (bs @ [b]) = 256 * be_val bs + unat b"
  by (simp add: be_val_def)

lemma be_val_less: "be_val bs < 256 ^ length bs"
proof (induction bs rule: rev_induct)
  case (snoc b bs)
  have "unat b < 256" using unsigned_less [of b] by simp
  with snoc show ?case by (simp add: be_val_snoc)
qed (simp add: be_val_def)

text \<open>
  \<open>paid lim k d d'\<close>: the decoder read on from \<open>d\<close> to \<open>d'\<close>, the budget was charged at least one
  for every byte read but \<open>k\<close>, and was not exceeded.
\<close>

definition eaten :: "decoder \<Rightarrow> decoder \<Rightarrow> int" where
  "eaten d d' = int (length (de_in d)) - int (length (de_in d'))"

definition charged :: "decoder \<Rightarrow> decoder \<Rightarrow> int" where
  "charged d d' = de_used d' - de_used d"

lemma eaten_trans: "eaten d d' + eaten d' d'' = eaten d d''"
  by (simp add: eaten_def)

lemma charged_trans: "charged d d' + charged d' d'' = charged d d''"
  by (simp add: charged_def)

lemma read_length_Inr:
  assumes "read_length d = Inr (n, d')"
  shows "0 \<le> n" "n < 2 ^ 31" "eaten d d' = 4" "charged d d' = 0" "de_end d' = de_end d"
proof -
  have "sint (w :: 32 word) < 2 ^ 31" for w using sint_lt [of w] by simp
  then show "0 \<le> n" "n < 2 ^ 31" "eaten d d' = 4" "charged d d' = 0" "de_end d' = de_end d"
    using assms by (auto simp: read_length_def and_then_Inr read_exactly_Inr Let_def eaten_def charged_def split: if_splits)
qed

lemma read_string_Inr:
  assumes "read_string lim d = Inr (s, d')"
  shows "2 \<le> eaten d d'" "eaten d d' + 34 \<le> charged d d'" "de_used d' \<le> max_bytes lim" "de_end d' = de_end d"
    "valid_utf8 s" "2 * (cost_string + int (length s)) \<le> 3 * charged d d'"
proof -
  obtain b d1 raw d2 where *: "read_exactly 2 d = Inr (b, d1)" "charge lim (cost_string + 2 * int (be_val b)) d1 = Inr d2"
    "read_exactly (be_val b) d2 = Inr (raw, d')" "s = decode_mutf8 raw"
    using assms by (auto simp: read_string_def and_then_Inr Let_def)
  then have "length (decode_mutf8 raw) \<le> 3 * be_val b"
    using length_decode_mutf8 [of raw] by (auto simp: read_exactly_Inr)
  with * show "2 \<le> eaten d d'" "eaten d d' + 34 \<le> charged d d'" "de_used d' \<le> max_bytes lim" "de_end d' = de_end d"
    "valid_utf8 s" "2 * (cost_string + int (length s)) \<le> 3 * charged d d'"
    by (auto simp: read_exactly_Inr charge_Inr eaten_def charged_def cost_string_def decode_mutf8_valid)
qed

lemma read_number_Inr:
  assumes "read_number lim n d = Inr (u, d')"
  shows "eaten d d' = int n" "charged d d' = cost_number" "de_used d' \<le> max_bytes lim" "de_end d' = de_end d" "u < 256 ^ n"
  using assms be_val_less by (auto simp: read_number_def and_then_Inr read_buf_Inr read_exactly_Inr charge_Inr eaten_def charged_def)
    (metis length_take min.absorb2)

lemma read_array_Inr:
  assumes "read_array lim t d = Inr (v, d')"
  shows "1 \<le> eaten d d'" "eaten d d' \<le> charged d d'" "de_used d' \<le> max_bytes lim" "de_end d' = de_end d"
    "\<exists>raw n. v = array_of t raw \<and> n < 2 ^ 31 \<and> int (length raw) = int n * element_size t \<and> charged d d' = cost_array + int (length raw)"
proof -
  obtain n d1 d2 raw where *: "read_length d = Inr (n, d1)" "charge lim (cost_array + n * element_size t) d1 = Inr d2"
    "read_exactly (nat (n * element_size t)) d2 = Inr (raw, d')" "v = array_of t raw"
    using assms by (auto simp: read_array_def read_made_def and_then_Inr Let_def split: if_splits)
  have "0 \<le> n * element_size t" using read_length_Inr(1) [OF *(1)] by (simp add: element_size_def)
  with * read_length_Inr [OF *(1)]
  show "1 \<le> eaten d d'" "eaten d d' \<le> charged d d'" "de_used d' \<le> max_bytes lim" "de_end d' = de_end d"
    "\<exists>raw n. v = array_of t raw \<and> n < 2 ^ 31 \<and> int (length raw) = int n * element_size t \<and> charged d d' = cost_array + int (length raw)"
    by (auto simp: read_exactly_Inr charge_Inr eaten_def charged_def cost_array_def intro!: exI [of _ raw] exI [of _ "nat n"])
qed

subsection \<open>Lists and compounds\<close>

text \<open>\<open>read_items\<close> is the loop of \<open>list\<close> and \<open>read_entries\<close> that of \<open>compound\<close>.\<close>

function (sequential)
  read_payload :: "limits \<Rightarrow> 8 word \<Rightarrow> int \<Rightarrow> decoder \<Rightarrow> nbt_error + nbt \<times> decoder"
  and read_items :: "limits \<Rightarrow> 8 word \<Rightarrow> int \<Rightarrow> int \<Rightarrow> decoder \<Rightarrow> nbt_error + nbt list \<times> decoder"
  and read_entries :: "limits \<Rightarrow> int \<Rightarrow> compound \<Rightarrow> decoder \<Rightarrow> nbt_error + compound \<times> decoder" where
  "read_payload lim t depth d =
     (if t = tag_list then
        if max_depth lim < depth then Inl Too_Deep
        else and_then (read_byte d) (\<lambda>(et, d).
             and_then (read_length d) (\<lambda>(n, d).
             if tag_long_array < et then Inl (Bad_Format (List_Of_Unknown_Tag et))
             else if et = tag_end \<and> 0 < n then Inl (Bad_Format (List_Without_Type n))
             else and_then (charge lim (cost_list + 4 * n) d) (\<lambda>d.
                  and_then (read_items lim et (depth + 1) n d) (\<lambda>(xs, d). Inr (NList et xs, d)))))
      else if t = tag_compound then
        if max_depth lim < depth then Inl Too_Deep
        else and_then (charge lim cost_compound d) (\<lambda>d.
             and_then (read_entries lim depth [] d) (\<lambda>(es, d). Inr (NCompound es, d)))
      else read_plain lim t d)"
| "read_items lim t depth n d =
     (if n \<le> 0 then Inr ([], d)
      else and_then (read_payload lim t depth d) (\<lambda>(v, d).
           and_then (read_items lim t depth (n - 1) d) (\<lambda>(vs, d). Inr (v # vs, d))))"
| "read_entries lim depth c d =
     and_then (read_byte d) (\<lambda>(t, d).
     if t = tag_end then Inr (c, d)
     else and_then (read_string lim d) (\<lambda>(name, d).
          and_then (charge lim cost_entry d) (\<lambda>d.
          and_then (read_payload lim t (depth + 1) d) (\<lambda>(v, d).
          read_entries lim depth (put name v c) d))))"
  by pat_completeness auto

text \<open>The decoder only moves forward, which is why it ends.\<close>

lemma charge_in: "charge lim n d = Inr d' \<Longrightarrow> de_in d' = de_in d"
  by (auto simp: charge_Inr)

lemma read_byte_less: "read_byte d = Inr (b, d') \<Longrightarrow> length (de_in d') < length (de_in d)"
  by (auto simp: read_byte_Inr)

lemma read_length_less: "read_length d = Inr (n, d') \<Longrightarrow> length (de_in d') < length (de_in d)"
  using read_length_Inr(3) [of d n d'] by (simp add: eaten_def)

lemma read_string_less: "read_string lim d = Inr (s, d') \<Longrightarrow> length (de_in d') < length (de_in d)"
  using read_string_Inr(1) [of lim d s d'] by (simp add: eaten_def)

lemma read_plain_less:
  assumes "read_plain lim t d = Inr (v, d')"
  shows "length (de_in d') < length (de_in d)"
proof -
  have "0 < number_size t" by (simp add: number_size_def)
  then show ?thesis
    using assms read_number_Inr(1) [of lim "number_size t" d] read_string_Inr(1) [of lim d] read_array_Inr(1) [of lim t d v d']
    by (auto simp: read_plain_def and_then_Inr eaten_def split: if_splits)
qed

lemmas forward = charge_in read_byte_less read_length_less read_string_less read_plain_less

lemma dom_forward:
  "read_payload_read_items_read_entries_dom (Inl (lim, t, depth, d)) \<Longrightarrow>
     read_payload lim t depth d = Inr (v, d') \<Longrightarrow> length (de_in d') < length (de_in d)"
  "read_payload_read_items_read_entries_dom (Inr (Inl (lim, t, depth, n, d))) \<Longrightarrow>
     read_items lim t depth n d = Inr (vs, d') \<Longrightarrow> length (de_in d') \<le> length (de_in d)"
  "read_payload_read_items_read_entries_dom (Inr (Inr (lim, depth, c, d))) \<Longrightarrow>
     read_entries lim depth c d = Inr (es, d') \<Longrightarrow> length (de_in d') < length (de_in d)"
proof (induction arbitrary: v d' and vs d' and es d'
    rule: read_payload_read_items_read_entries.pinduct)
  case (1 lim t depth d)
  show ?case
  proof (cases "t = tag_list \<or> t = tag_compound")
    case False
    then show ?thesis using 1(1,4) forward(5) by (simp add: read_payload.psimps)
  next
    case True
    then show ?thesis
      using 1 by (force simp: read_payload.psimps and_then_Inr dest: forward split: if_splits)
  qed
next
  case (2 lim t depth n d)
  show ?case
  proof (cases "n \<le> 0")
    case True
    then show ?thesis using 2(1,4) by (simp add: read_items.psimps)
  next
    case False
    then obtain w d1 ws where *: "read_payload lim t depth d = Inr (w, d1)" "read_items lim t depth (n - 1) d1 = Inr (ws, d')"
      using 2(1,4) by (auto simp: read_items.psimps and_then_Inr)
    have "length (de_in d1) < length (de_in d)" using "2.IH"(1) [OF False *(1)] .
    moreover have "length (de_in d') \<le> length (de_in d1)" using "2.IH"(2) [OF False *(1) refl *(2)] .
    ultimately show ?thesis by simp
  qed
next
  case (3 lim depth c d)
  then obtain t d1 where b: "read_byte d = Inr (t, d1)" by (auto simp: read_entries.psimps and_then_Inr)
  show ?case
  proof (cases "t = tag_end")
    case True
    then show ?thesis using 3(1,4) b read_byte_less [OF b] by (simp add: read_entries.psimps)
  next
    case False
    then obtain k d2 d3 w d4 where *: "read_string lim d1 = Inr (k, d2)" "charge lim cost_entry d2 = Inr d3"
      "read_payload lim t (depth + 1) d3 = Inr (w, d4)" "read_entries lim depth (put k w c) d4 = Inr (es, d')"
      using 3(1,4) b by (auto simp: read_entries.psimps and_then_Inr)
    have "length (de_in d4) < length (de_in d3)" using "3.IH"(1) [OF b refl False *(1) refl *(2,3)] .
    moreover have "length (de_in d') < length (de_in d4)" using "3.IH"(2) [OF b refl False *(1) refl *(2,3) refl *(4)] .
    ultimately show ?thesis using forward(1) [OF *(2)] forward(4) [OF *(1)] forward(2) [OF b] by simp
  qed
qed

termination read_payload
proof (relation "inv_image (less_than <*lex*> less_than <*lex*> less_than)
    (\<lambda>x. case x of Inl (lim, t, depth, d) \<Rightarrow> (length (de_in d), 1, 0)
      | Inr (Inl (lim, t, depth, n, d)) \<Rightarrow> (length (de_in d), 2, nat n)
      | Inr (Inr (lim, depth, c, d)) \<Rightarrow> (length (de_in d), 0 :: nat, 0 :: nat))", goal_cases)
  case 1
  then show ?case by (auto intro!: wf_inv_image)
next
  case (2 lim t depth d x et d1 y n d2 d3)
  then show ?case by (auto dest!: forward)
next
  case (3 lim t depth d d1)
  then show ?case by (auto dest!: forward)
next
  case (4 lim t depth n d)
  then show ?case by simp
next
  case (5 lim t depth n d x v d1)
  then show ?case using dom_forward(1) by force
next
  case (6 lim depth c d x t d1 y name d2 d3)
  then show ?case by (auto dest!: forward)
next
  case (7 lim depth c d x t d1 y name d2 d3 z v d4)
  then have "length (de_in d4) < length (de_in d3)" using dom_forward(1) by blast
  with 7 show ?case by (auto dest!: forward(1,2,4))
qed

declare read_payload.simps [simp del] read_items.simps [simp del] read_entries.simps [simp del]

subsection \<open>Read and ReadGzip\<close>

text \<open>\<open>Panic\<close> is the failing type assertion \<open>v.(Compound)\<close>.\<close>

definition nbt_read :: "limits \<Rightarrow> decoder \<Rightarrow> nbt_error + (string \<times> compound) \<times> decoder" where
  "nbt_read lim d = and_then (read_byte d) (\<lambda>(t, d).
     if t \<noteq> tag_compound then Inl (Bad_Format (Root_Tag t))
     else and_then (read_string lim d) (\<lambda>(name, d).
          and_then (read_payload lim tag_compound 1 d) (\<lambda>(v, d).
          case v of NCompound c \<Rightarrow> Inr ((name, c), d) | _ \<Rightarrow> Inl Panic)))"

text \<open>\<open>Read\<close> of a file's bytes.\<close>

definition decoder_of :: "bytes \<Rightarrow> ending \<Rightarrow> decoder" where
  "decoder_of bs e = \<lparr>de_in = bs, de_end = e, de_used = 0\<rparr>"

definition read_bytes :: "limits \<Rightarrow> bytes \<Rightarrow> nbt_error + string \<times> compound" where
  "read_bytes lim bs = and_then (nbt_read lim (decoder_of bs Eof)) (\<lambda>(r, _). Inr r)"

definition max_trailing :: nat where "max_trailing = 2 ^ 20"

text \<open>
  \<open>compress/gzip\<close> is a parameter: \<open>gunzip\<close> gives a header's error, or the bytes of the stream
  and how it ends (\<open>Read_Error\<close> for a wrong checksum).
\<close>

definition drain :: "decoder \<Rightarrow> nbt_error option" where
  "drain d = (if max_trailing < length (de_in d) then Some (Bad_Format Trailing_Data)
     else case de_end d of
       Eof \<Rightarrow> None
     | Unexpected_Eof \<Rightarrow> Some (Bad_Format (Wrapped ''unexpected EOF''))
     | Read_Error e \<Rightarrow> Some (Bad_Format (Wrapped e)))"

definition read_gzip ::
  "(bytes \<Rightarrow> string + bytes \<times> ending) \<Rightarrow> limits \<Rightarrow> bytes \<Rightarrow> nbt_error + string \<times> compound" where
  "read_gzip gunzip lim bs = (case gunzip bs of
      Inl e \<Rightarrow> Inl (Bad_Format (Not_Gzip e))
    | Inr (raw, e) \<Rightarrow>
        (case nbt_read lim (decoder_of raw e) of
           Inl (Io_Error m) \<Rightarrow> Inl (Bad_Format (Wrapped m))
         | Inl err \<Rightarrow> Inl err
         | Inr (r, d) \<Rightarrow> (case drain d of Some err \<Rightarrow> Inl err | None \<Rightarrow> Inr r)))"

subsection \<open>Well-typed trees\<close>

definition by_key :: "(string \<times> 'v) list \<Rightarrow> bool" where
  "by_key es \<longleftrightarrow> sorted_wrt (\<lambda>x y. cmp_string (fst x) (fst y) < 0) es"

text \<open>
  The items of a list have its tag and a compound's keys are distinct; strings are valid UTF-8
  and lengths fit in an \<open>int32\<close>.
\<close>

definition short :: "'a list \<Rightarrow> bool" where
  "short xs \<longleftrightarrow> length xs < 2 ^ 31"

fun well_typed :: "nbt \<Rightarrow> bool" where
  "well_typed (NString s) = valid_utf8 s"
| "well_typed (NByte_Array bs) = short bs"
| "well_typed (NInt_Array ws) = short ws"
| "well_typed (NLong_Array ws) = short ws"
| "well_typed (NList t xs) = (t \<le> tag_long_array \<and> (t = tag_end \<longrightarrow> xs = []) \<and> short xs
     \<and> list_all (\<lambda>x. type_of x = Some t \<and> well_typed x) xs)"
| "well_typed (NCompound es) = (by_key es \<and> list_all (\<lambda>(k, v). valid_utf8 k \<and> well_typed v) es)"
| "well_typed NOther = False"
| "well_typed _ = True"

text \<open>At most \<open>k\<close> lists and compounds inside each other.\<close>

fun fits_depth :: "int \<Rightarrow> nbt \<Rightarrow> bool" where
  "fits_depth k (NList t xs) = (1 \<le> k \<and> list_all (fits_depth (k - 1)) xs)"
| "fits_depth k (NCompound es) = (1 \<le> k \<and> list_all (\<lambda>(_, v). fits_depth (k - 1) v) es)"
| "fits_depth k _ = True"

text \<open>The estimated memory of a tree, with the bytes of its strings as decoded.\<close>

fun footprint :: "nbt \<Rightarrow> int" where
  "footprint (NString s) = cost_string + int (length s)"
| "footprint (NByte_Array bs) = cost_array + int (length bs)"
| "footprint (NInt_Array ws) = cost_array + 4 * int (length ws)"
| "footprint (NLong_Array ws) = cost_array + 8 * int (length ws)"
| "footprint (NList t xs) = cost_list + 4 * int (length xs) + sum_list (map footprint xs)"
| "footprint (NCompound es) =
     cost_compound + sum_list (map (\<lambda>(k, v). cost_string + int (length k) + cost_entry + footprint v) es)"
| "footprint _ = cost_number"

definition entry_footprint :: "string \<times> nbt \<Rightarrow> int" where
  "entry_footprint = (\<lambda>(k, v). cost_string + int (length k) + cost_entry + footprint v)"

lemma footprint_nonneg: "0 \<le> footprint v"
  by (induction v rule: footprint.induct) (auto simp: cost_defs intro!: sum_list_nonneg add_nonneg_nonneg)

lemma footprint_put:
  "sum_list (map entry_footprint (put k v es)) \<le> sum_list (map entry_footprint es) + entry_footprint (k, v)"
proof -
  have "0 \<le> entry_footprint e" for e
    by (cases e) (simp add: entry_footprint_def footprint_nonneg cost_defs)
  then show ?thesis by (induction k v es rule: put.induct) auto
qed

subsection \<open>Maps in the order of their keys\<close>

lemma cmp_string_less_trans: "cmp_string x y < 0 \<Longrightarrow> cmp_string y z < 0 \<Longrightarrow> cmp_string x z < 0"
proof -
  assume a: "cmp_string x y < 0" "cmp_string y z < 0"
  then have "cmp_string x z \<le> 0" using string_order.cmp_trans [of x y z] by simp
  moreover have "x \<noteq> z" using a string_order.cmp_swap [of y z] by auto
  ultimately show ?thesis using cmp_string_eq_0 [of x z] by linarith
qed

lemma cmp_string_greater: "k \<noteq> k' \<Longrightarrow> \<not> cmp_string k k' < 0 \<Longrightarrow> cmp_string k' k < 0"
  using cmp_string_eq_0 [of k k'] string_order.cmp_swap [of k' k] by linarith

lemma set_put: "set (put k v es) \<subseteq> insert (k, v) (set es)"
  by (induction k v es rule: put.induct) auto

lemma put_all: "list_all P es \<Longrightarrow> P (k, v) \<Longrightarrow> list_all P (put k v es)"
  using set_put [of k v es] by (auto simp: list_all_iff)

lemma fst_put: "fst ` set (put k v es) = insert k (fst ` set es)"
  by (induction k v es rule: put.induct) auto

lemma by_key_put: "by_key es \<Longrightarrow> by_key (put k v es)"
proof (induction k v es rule: put.induct)
  case (2 k v k' v' es)
  consider "k = k'" | "k \<noteq> k'" "cmp_string k k' < 0" | "k \<noteq> k'" "cmp_string k' k < 0" "\<not> cmp_string k k' < 0"
    using cmp_string_greater by blast
  then show ?case
  proof cases
    case 2
    then show ?thesis using 2(1) "2.prems" by (auto simp: by_key_def intro: cmp_string_less_trans)
  next
    case 3
    have "cmp_string k' (fst e) < 0" if "e \<in> set (put k v es)" for e
      using that set_put [of k v es] 3 "2.prems" by (auto simp: by_key_def)
    with 3 2 show ?thesis by (auto simp: by_key_def)
  qed (use 2 in \<open>simp add: by_key_def\<close>)
qed (simp add: by_key_def)

lemma by_key_distinct: "by_key es \<Longrightarrow> distinct (map fst es)"
  by (induction es) (auto simp: by_key_def string_order.cmp_refl)

lemma get_put: "map_of (put k v es) k' = (if k' = k then Some v else map_of es k')"
  by (induction k v es rule: put.induct) auto

text \<open>An entry with the greatest key goes to the end.\<close>

lemma put_last: "by_key (es @ [(k, v)]) \<Longrightarrow> put k v es = es @ [(k, v)]"
proof (induction es)
  case (Cons e es)
  obtain k' v' where e: "e = (k', v')" by (cases e)
  have "cmp_string k' k < 0" using Cons.prems e by (auto simp: by_key_def sorted_wrt_append)
  then have "k \<noteq> k'" "\<not> cmp_string k k' < 0"
    using string_order.cmp_swap [of k' k] by (auto simp: string_order.cmp_refl)
  moreover have "put k v es = es @ [(k, v)]" using Cons by (auto simp: by_key_def)
  ultimately show ?case by (simp add: e)
qed simp

subsection \<open>What reading gives\<close>

definition tree_ok :: "limits \<Rightarrow> 8 word \<Rightarrow> int \<Rightarrow> nbt \<Rightarrow> int \<Rightarrow> bool" where
  "tree_ok lim t depth v paid \<longleftrightarrow> type_of v = Some t \<and> well_typed v
     \<and> fits_depth (max_depth lim - depth + 1) v \<and> 2 * footprint v \<le> 3 * paid"

definition step_ok :: "limits \<Rightarrow> decoder \<Rightarrow> decoder \<Rightarrow> bool" where
  "step_ok lim d d' \<longleftrightarrow> eaten d d' \<le> charged d d' \<and> de_used d' \<le> max_bytes lim \<and> de_end d' = de_end d"

lemma length_chunks_exact: "0 < k \<Longrightarrow> length xs = n * k \<Longrightarrow> length (chunks k xs) = n"
proof -
  assume k: "0 < k" "length xs = n * k"
  then have "length xs + k - 1 = (k - 1) + n * k" by simp
  moreover have "((k - 1) + n * k) div k = n" using k(1) div_mult_self1 [of k "k - 1" n] by simp
  ultimately show ?thesis by (simp only: length_chunks [OF k(1)])
qed

lemma array_of_ok:
  assumes "t \<in> {tag_byte_array, tag_int_array, tag_long_array}"
    and "n < 2 ^ 31" and "int (length raw) = int n * element_size t"
  shows "tree_ok lim t depth (array_of t raw) (cost_array + int (length raw))"
proof -
  consider "t = tag_byte_array" "length raw = n" | "t = tag_int_array" "length raw = n * 4" | "t = tag_long_array" "length raw = n * 8"
    using assms(1,3) by (auto simp: element_size_def tag_defs)
  then show ?thesis
    using assms(2) by cases (simp_all add: tree_ok_def array_of_def tag_defs short_def cost_array_def length_chunks_exact)
qed

lemma read_plain_ok:
  assumes "read_plain lim t d = Inr (v, d')"
  shows "tree_ok lim t depth v (charged d d') \<and> step_ok lim d d'"
proof -
  consider (number) u where "t \<in> {tag_byte, tag_short, tag_int, tag_float, tag_long, tag_double}"
      "read_number lim (number_size t) d = Inr (u, d')" "v = number_of t u"
    | (string) s where "t = tag_string" "read_string lim d = Inr (s, d')" "v = NString s"
    | (array) "t \<in> {tag_byte_array, tag_int_array, tag_long_array}" "read_array lim t d = Inr (v, d')"
    using assms by (auto simp: read_plain_def and_then_Inr split: if_splits)
  then show ?thesis
  proof cases
    case number
    have "number_size t \<le> 8" by (simp add: number_size_def)
    then have "step_ok lim d d'" "charged d d' = cost_number"
      using read_number_Inr [OF number(2)] by (simp_all add: step_ok_def cost_number_def)
    moreover have "tree_ok lim t depth v cost_number"
      using number(1) unfolding number(3) tree_ok_def
      by (elim insertE emptyE) (simp_all add: number_of_def tag_defs cost_number_def)
    ultimately show ?thesis by simp
  next
    case string
    then show ?thesis using read_string_Inr [OF string(2)] by (simp add: tree_ok_def step_ok_def)
  next
    case array
    obtain raw n where r: "v = array_of t raw" "n < 2 ^ 31" "int (length raw) = int n * element_size t"
      "charged d d' = cost_array + int (length raw)"
      using read_array_Inr(5) [OF array(2)] by blast
    show ?thesis
      using array_of_ok [OF array(1) r(2,3)] read_array_Inr [OF array(2)] r(1,4) by (simp add: step_ok_def)
  qed
qed

lemma sum_list_twice: "list_all (\<lambda>v. 2 * f v \<le> (3 :: int) * g v) vs \<Longrightarrow> 2 * sum_list (map f vs) \<le> 3 * sum_list (map g vs)"
  by (induction vs) auto

lemma read_trees:
  "read_payload lim t depth d = Inr (v, d') \<Longrightarrow> tree_ok lim t depth v (charged d d') \<and> step_ok lim d d'"
  "read_items lim t depth n d = Inr (vs, d') \<Longrightarrow> de_used d \<le> max_bytes lim \<Longrightarrow>
     list_all (\<lambda>v. type_of v = Some t \<and> well_typed v \<and> fits_depth (max_depth lim - depth + 1) v) vs
     \<and> length vs = nat n \<and> 2 * sum_list (map footprint vs) \<le> 3 * charged d d' \<and> step_ok lim d d'"
  "read_entries lim depth c d = Inr (es, d') \<Longrightarrow> de_used d \<le> max_bytes lim \<Longrightarrow> by_key c \<Longrightarrow>
     list_all (\<lambda>(k, v). valid_utf8 k \<and> well_typed v \<and> fits_depth (max_depth lim - depth) v) c \<Longrightarrow>
     by_key es \<and> list_all (\<lambda>(k, v). valid_utf8 k \<and> well_typed v \<and> fits_depth (max_depth lim - depth) v) es
     \<and> 2 * sum_list (map entry_footprint es) \<le> 2 * sum_list (map entry_footprint c) + 3 * charged d d'
     \<and> eaten d d' \<le> charged d d' + 1 \<and> de_used d' \<le> max_bytes lim \<and> de_end d' = de_end d"
proof (induction lim t depth d and lim t depth n d and lim depth c d
    arbitrary: v d' and vs d' and es d' rule: read_payload_read_items_read_entries.induct)
  case (1 lim t depth d)
  consider (list) "t = tag_list" "\<not> max_depth lim < depth" | (compound) "t = tag_compound" "\<not> max_depth lim < depth"
    | (plain) "t \<noteq> tag_list" "t \<noteq> tag_compound"
    using 1(3) by (auto simp: read_payload.simps split: if_splits)
  then show ?case
  proof cases
    case list
    then obtain et d1 n d2 d3 xs where *: "read_byte d = Inr (et, d1)" "read_length d1 = Inr (n, d2)"
      "\<not> tag_long_array < et" "\<not> (et = tag_end \<and> 0 < n)" "charge lim (cost_list + 4 * n) d2 = Inr d3"
      "read_items lim et (depth + 1) n d3 = Inr (xs, d')" "v = NList et xs"
      using 1(3) by (auto simp: read_payload.simps and_then_Inr split: if_splits)
    have used: "de_used d3 \<le> max_bytes lim" using *(5) by (auto simp: charge_Inr)
    note ih = 1(1) [OF list *(1) refl *(2) refl *(3,4,5,6) used]
    note len = read_length_Inr [OF *(2)]
    show ?thesis using ih len *(1,3,4,5) list
      by (auto simp: *(7) tree_ok_def step_ok_def eaten_def charged_def read_byte_Inr charge_Inr short_def
          cost_list_def list_all_iff algebra_simps)
  next
    case compound
    then obtain d1 es where *: "charge lim cost_compound d = Inr d1" "read_entries lim depth [] d1 = Inr (es, d')" "v = NCompound es"
      using 1(3) by (auto simp: read_payload.simps and_then_Inr tag_defs split: if_splits)
    have t: "t \<noteq> tag_list" using compound(1) by (simp add: tag_defs)
    have used: "de_used d1 \<le> max_bytes lim" using *(1) by (auto simp: charge_Inr)
    note ih = 1(2) [OF t compound *(1,2) used]
    show ?thesis using ih *(1) compound
      by (auto simp: *(3) tree_ok_def step_ok_def eaten_def charged_def charge_Inr by_key_def cost_compound_def
          entry_footprint_def list_all_iff algebra_simps)
  next
    case plain
    then show ?thesis using 1(3) read_plain_ok by (simp add: read_payload.simps)
  qed
next
  case (2 lim t depth n d)
  show ?case
  proof (cases "n \<le> 0")
    case True
    then show ?thesis using 2(3,4) by (simp add: read_items.simps step_ok_def eaten_def charged_def)
  next
    case False
    then obtain w d1 ws where *: "read_payload lim t depth d = Inr (w, d1)" "read_items lim t depth (n - 1) d1 = Inr (ws, d')" "vs = w # ws"
      using 2(3) by (auto simp: read_items.simps [of lim t depth n] and_then_Inr)
    note p = 2(1) [OF False *(1)]
    then have "de_used d1 \<le> max_bytes lim" by (simp add: step_ok_def)
    note q = 2(2) [OF False *(1) refl *(2) this]
    show ?thesis using p q False
      by (auto simp: *(3) tree_ok_def step_ok_def eaten_def charged_def list_all_iff)
  qed
next
  case (3 lim depth c d)
  from 3(3) obtain t d1 where b: "read_byte d = Inr (t, d1)" by (auto simp: read_entries.simps [of lim depth c] and_then_Inr)
  show ?case
  proof (cases "t = tag_end")
    case True
    then show ?thesis using 3(3-6) b by (auto simp: read_entries.simps [of lim depth c] read_byte_Inr eaten_def charged_def)
  next
    case False
    then obtain k d2 d3 w d4 where *: "read_string lim d1 = Inr (k, d2)" "charge lim cost_entry d2 = Inr d3"
      "read_payload lim t (depth + 1) d3 = Inr (w, d4)" "read_entries lim depth (put k w c) d4 = Inr (es, d')"
      using 3(3) b by (auto simp: read_entries.simps [of lim depth c] and_then_Inr)
    note s = read_string_Inr [OF *(1)]
    note p = 3(1) [OF b refl False *(1) refl *(2,3)]
    have used: "de_used d4 \<le> max_bytes lim" using p by (simp add: step_ok_def)
    have all: "list_all (\<lambda>(k, v). valid_utf8 k \<and> well_typed v \<and> fits_depth (max_depth lim - depth) v) (put k w c)"
      using 3(6) p s(5) by (intro put_all) (auto simp: tree_ok_def algebra_simps)
    note q = 3(2) [OF b refl False *(1) refl *(2,3) refl *(4) used by_key_put [OF 3(5)] all]
    have "2 * entry_footprint (k, w) \<le> 3 * charged d1 d4"
      using p s *(2) by (auto simp: tree_ok_def entry_footprint_def charge_Inr charged_def cost_entry_def)
    moreover have "eaten d d4 \<le> charged d d4"
      using p s(2) *(2) b by (auto simp: step_ok_def charge_Inr eaten_def charged_def read_byte_Inr cost_entry_def)
    moreover have "charged d1 d4 = charged d d4" using b by (auto simp: read_byte_Inr charged_def)
    moreover note footprint_put [of k w c] eaten_trans [of d d4 d'] charged_trans [of d d4 d']
    moreover have "2 * sum_list (map entry_footprint es)
        \<le> 2 * sum_list (map entry_footprint (put k w c)) + 3 * charged d4 d'" "eaten d4 d' \<le> charged d4 d' + 1"
      using q by simp_all
    ultimately have "2 * sum_list (map entry_footprint es) \<le> 2 * sum_list (map entry_footprint c) + 3 * charged d d'"
      "eaten d d' \<le> charged d d' + 1" by linarith+
    moreover have "de_end d4 = de_end d" using p s(4) *(2) b by (auto simp: step_ok_def charge_Inr read_byte_Inr)
    ultimately show ?thesis using q by simp
  qed
qed

lemma nbt_read_Inr:
  assumes "nbt_read lim d = Inr ((name, root), d')"
  shows "valid_utf8 name" "tree_ok lim tag_compound 1 (NCompound root) (charged d d')"
    "eaten d d' \<le> charged d d'" "de_used d' \<le> max_bytes lim" "de_end d' = de_end d"
proof -
  obtain d1 n d2 v d3 where r: "read_byte d = Inr (tag_compound, d1)" "read_string lim d1 = Inr (n, d2)"
    "read_payload lim tag_compound 1 d2 = Inr (v, d3)"
    "(case v of NCompound c \<Rightarrow> Inr ((n, c), d3) | _ \<Rightarrow> Inl Panic) = Inr ((name, root), d')"
    using assms by (auto simp: nbt_read_def and_then_Inr split: if_splits)
  have "v = NCompound root \<and> n = name \<and> d3 = d'" using r(4) by (cases v) simp_all
  with r have *: "read_byte d = Inr (tag_compound, d1)" "read_string lim d1 = Inr (name, d2)"
    "read_payload lim tag_compound 1 d2 = Inr (NCompound root, d')" by simp_all
  note s = read_string_Inr [OF *(2)]
  note p = read_trees(1) [OF *(3)]
  show "valid_utf8 name" by (rule s(5))
  show "tree_ok lim tag_compound 1 (NCompound root) (charged d d')"
    using p s(2,1) *(1) by (auto simp: tree_ok_def charged_def read_byte_Inr)
  show "eaten d d' \<le> charged d d'" "de_used d' \<le> max_bytes lim" "de_end d' = de_end d"
    using p s *(1) by (auto simp: step_ok_def eaten_def charged_def read_byte_Inr)
qed

text \<open>No buffer is sliced beyond its end, no array is made with a negative length or decoded from too few
  bytes, and the type assertion on the root never fails.\<close>

definition no_panic :: "nbt_error + 'x \<Rightarrow> bool" where
  "no_panic m \<longleftrightarrow> m \<noteq> Inl Panic"

lemma no_panic_and_then [intro!]: "no_panic m \<Longrightarrow> (\<And>x. m = Inr x \<Longrightarrow> no_panic (f x)) \<Longrightarrow> no_panic (and_then m f)"
  by (cases m) (auto simp: no_panic_def)

lemma no_panic_prod [intro!]: "(\<And>a b. p = (a, b) \<Longrightarrow> no_panic (f a b)) \<Longrightarrow> no_panic (case p of (a, b) \<Rightarrow> f a b)"
  by (cases p) simp

lemma no_panic_if [intro!]: "(P \<Longrightarrow> no_panic m) \<Longrightarrow> (\<not> P \<Longrightarrow> no_panic n) \<Longrightarrow> no_panic (if P then m else n)"
  by simp

lemma no_panic_simps [simp]: "no_panic (Inr x)" "no_panic (Inl e) \<longleftrightarrow> e \<noteq> Panic"
  by (simp_all add: no_panic_def)

lemma plain_no_panic [intro!]:
  "no_panic (charge lim n d)" "no_panic (read_byte d)" "no_panic (read_exactly k d)" "no_panic (read_length d)"
  "no_panic (read_string lim d)" "no_panic (read_array lim t d)" "k \<le> 8 \<Longrightarrow> no_panic (read_number lim k d)"
  "no_panic (read_plain lim t d)"
proof -
  have t: "truncated e \<noteq> Panic" for e by (cases e) simp_all
  have f [intro!]: "no_panic (read_exactly n d)" for n d using t by (simp add: read_exactly_def)
  have c [intro!]: "no_panic (charge lim n d)" for n d by (simp add: charge_def)
  have l [intro!]: "no_panic (read_length d)" for d by (auto simp: read_length_def Let_def)
  have s [intro!]: "no_panic (read_string lim d)" by (auto simp: read_string_def Let_def)
  have a [intro!]: "no_panic (read_array lim t d)"
  proof -
    have "0 \<le> n * element_size t" if "read_length d = Inr (n, d1)" for n d1
      using read_length_Inr(1) [OF that] by (simp add: element_size_def)
    moreover have "\<not> overruns t n raw" if "0 \<le> n * element_size t" "read_exactly (nat (n * element_size t)) d2 = Inr (raw, d3)" for n d2 raw d3
      using that by (intro overruns_exact) (auto simp: read_exactly_Inr)
    ultimately show ?thesis unfolding read_array_def Let_def read_made_def
      by (intro no_panic_and_then no_panic_prod no_panic_if l c f) force+
  qed
  have n [intro!]: "k \<le> 8 \<Longrightarrow> no_panic (read_number lim k d)" for k by (auto simp: read_number_def)
  show "no_panic (charge lim n d)" "no_panic (read_exactly k d)" "no_panic (read_length d)"
    "no_panic (read_string lim d)" "no_panic (read_array lim t d)" "k \<le> 8 \<Longrightarrow> no_panic (read_number lim k d)" by blast+
  show "no_panic (read_byte d)" using t by (simp add: read_byte_def split: list.split)
  show "no_panic (read_plain lim t d)" unfolding read_plain_def by (intro no_panic_if no_panic_and_then no_panic_prod s a n) (simp_all add: number_size_def)
qed

lemma tree_no_panic:
  "no_panic (read_payload lim t depth d)"
  "no_panic (read_items lim t depth n d)"
  "no_panic (read_entries lim depth c d)"
proof (induction lim t depth d and lim t depth n d and lim depth c d
    rule: read_payload_read_items_read_entries.induct)
  case (1 lim t depth d)
  show ?case unfolding read_payload.simps [of lim t depth d]
    by (intro no_panic_if no_panic_and_then no_panic_prod plain_no_panic 1) (simp | assumption)+
next
  case (2 lim t depth n d)
  show ?case unfolding read_items.simps [of lim t depth n d]
    by (intro no_panic_if no_panic_and_then no_panic_prod 2) (simp | assumption)+
next
  case (3 lim depth c d)
  show ?case unfolding read_entries.simps [of lim depth c d]
    by (intro no_panic_if no_panic_and_then no_panic_prod plain_no_panic 3) (simp | assumption)+
qed

lemma nbt_read_no_panic: "no_panic (nbt_read lim d)"
  unfolding nbt_read_def
proof (intro no_panic_and_then no_panic_prod no_panic_if plain_no_panic tree_no_panic, simp)
  fix d1 name d2 x v d3
  assume "read_payload lim tag_compound 1 d2 = Inr x" "x = (v, d3)"
  then have "type_of v = Some tag_compound" using read_trees(1) by (simp add: tree_ok_def)
  then show "no_panic (case v of NCompound c \<Rightarrow> Inr ((name, c), d3) | _ \<Rightarrow> Inl Panic)"
    by (cases v) (simp_all add: tag_defs)
qed

subsection \<open>Properties of Read\<close>


text \<open>C21: \<open>Read\<close> keeps its limits: a tree it returns nests compounds and lists at most
  \<open>MaxDepth\<close> deep, it read at most \<open>MaxBytes\<close> bytes for it, and the estimated memory of the tree,
  with its strings as decoded, is at most one and a half times the budget.\<close>

theorem read_stays_within_limits:
  "case nbt_read lim (decoder_of bs e) of
     Inl _ \<Rightarrow> True
   | Inr ((name, root), d') \<Rightarrow>
       fits_depth (max_depth lim) (NCompound root)
     \<and> int (length bs) - int (length (de_in d')) \<le> max_bytes lim
     \<and> 2 * footprint (NCompound root) \<le> 3 * max_bytes lim"
proof (cases "nbt_read lim (decoder_of bs e)")
  case (Inr r)
  then obtain name root d' where r: "nbt_read lim (decoder_of bs e) = Inr ((name, root), d')" by (cases r) auto
  note o = nbt_read_Inr [OF r]
  have "charged (decoder_of bs e) d' \<le> max_bytes lim" using o(4) by (simp add: charged_def decoder_of_def)
  moreover have "eaten (decoder_of bs e) d' = int (length bs) - int (length (de_in d'))"
    by (simp add: eaten_def decoder_of_def)
  ultimately show ?thesis using o(2,3) by (auto simp: r tree_ok_def)
qed simp

end
