(* ===== verification/Nbt_Write.thy ===== *)
theory Nbt_Write
  imports Nbt
begin

section \<open>Writing NBT, and reading it back (internal/nbt/nbt.go)\<close>

text \<open>
  \<open>Write\<close> to memory: the bytes, or the first failure. Keys are written in sorted order, which is
  the order of a compound's entries in the model. The main result is the round trip through
  \<open>Read\<close>; \<open>read_cost\<close> is what \<open>Read\<close> charges for a tree.
\<close>

subsection \<open>The encoder\<close>

datatype write_error =
    String_Too_Long nat
  | Too_Many_Items nat
  | Items_Without_Type
  | List_Holds "8 word" nbt
  | Key_Without_Tag string
  | No_Tag_Type

text \<open>What is written after a failure is dropped.\<close>

definition then_write :: "write_error + bytes \<Rightarrow> write_error + bytes \<Rightarrow> write_error + bytes" where
  "then_write a b = and_then a (\<lambda>x. and_then b (\<lambda>y. Inr (x @ y)))"

definition enc_uint :: "nat \<Rightarrow> nat \<Rightarrow> write_error + bytes" where
  "enc_uint v n = Inr (be_bytes n v)"

definition enc_string :: "string \<Rightarrow> write_error + bytes" where
  "enc_string s = (let b = encode_mutf8 s in
     if 65535 < length b then Inl (String_Too_Long (length b))
     else then_write (enc_uint (length b) 2) (Inr b))"

definition enc_length :: "nat \<Rightarrow> write_error + bytes" where
  "enc_length n = (if 2 ^ 31 - 1 < n then Inl (Too_Many_Items n) else enc_uint n 4)"

fun enc_uints :: "nat \<Rightarrow> nat list \<Rightarrow> write_error + bytes" where
  "enc_uints k [] = Inr []"
| "enc_uints k (n # ns) = then_write (enc_uint n k) (enc_uints k ns)"

fun enc_value :: "nbt \<Rightarrow> write_error + bytes"
  and enc_items :: "8 word \<Rightarrow> nbt list \<Rightarrow> write_error + bytes"
  and enc_entries :: "compound \<Rightarrow> write_error + bytes" where
  "enc_value (NByte b) = Inr [b]"
| "enc_value (NShort w) = enc_uint (unat w) 2"
| "enc_value (NInt w) = enc_uint (unat w) 4"
| "enc_value (NLong w) = enc_uint (unat w) 8"
| "enc_value (NFloat w) = enc_uint (unat w) 4"
| "enc_value (NDouble w) = enc_uint (unat w) 8"
| "enc_value (NByte_Array bs) = then_write (enc_length (length bs)) (Inr bs)"
| "enc_value (NString s) = enc_string s"
| "enc_value (NList t xs) =
     (if t = tag_end \<and> xs \<noteq> [] then Inl Items_Without_Type
      else then_write (Inr [t]) (then_write (enc_length (length xs)) (enc_items t xs)))"
| "enc_value (NCompound es) = then_write (enc_entries es) (Inr [tag_end])"
| "enc_value (NInt_Array ws) = then_write (enc_length (length ws)) (enc_uints 4 (map unat ws))"
| "enc_value (NLong_Array ws) = then_write (enc_length (length ws)) (enc_uints 8 (map unat ws))"
| "enc_value NOther = Inl No_Tag_Type"
| "enc_items t [] = Inr []"
| "enc_items t (x # xs) =
     (if type_of x \<noteq> Some t then Inl (List_Holds t x) else then_write (enc_value x) (enc_items t xs))"
| "enc_entries [] = Inr []"
| "enc_entries ((k, v) # es) = (case type_of v of
      None \<Rightarrow> Inl (Key_Without_Tag k)
    | Some t \<Rightarrow> then_write (Inr [t]) (then_write (enc_string k) (then_write (enc_value v) (enc_entries es))))"

definition nbt_write :: "string \<Rightarrow> compound \<Rightarrow> write_error + bytes" where
  "nbt_write name root =
     then_write (Inr [tag_compound]) (then_write (enc_string name) (enc_value (NCompound root)))"

subsection \<open>Reading a compound's entries\<close>

text \<open>The accessors of \<open>Compound\<close>; \<open>None\<close> for a missing key or a value of another type.\<close>

definition get_compound :: "compound \<Rightarrow> string \<Rightarrow> compound option" where
  "get_compound c k = (case get c k of Some (NCompound v) \<Rightarrow> Some v | _ \<Rightarrow> None)"

definition get_string :: "compound \<Rightarrow> string \<Rightarrow> string option" where
  "get_string c k = (case get c k of Some (NString s) \<Rightarrow> Some s | _ \<Rightarrow> None)"

definition get_int :: "compound \<Rightarrow> string \<Rightarrow> int option" where
  "get_int c k = (case get c k of
      Some (NByte w) \<Rightarrow> Some (sint w)
    | Some (NShort w) \<Rightarrow> Some (sint w)
    | Some (NInt w) \<Rightarrow> Some (sint w)
    | Some (NLong w) \<Rightarrow> Some (sint w)
    | _ \<Rightarrow> None)"

definition get_bool :: "compound \<Rightarrow> string \<Rightarrow> bool option" where
  "get_bool c k = map_option (\<lambda>v. v \<noteq> 0) (get_int c k)"

text \<open>\<open>None\<close> is the nil slice; an item that is no string fails its type assertion.\<close>

fun item_string :: "nbt \<Rightarrow> string option" where
  "item_string (NString s) = Some s"
| "item_string _ = None"

definition get_strings :: "compound \<Rightarrow> string \<Rightarrow> nbt_error + string list option" where
  "get_strings c k = (case get c k of
      Some (NList t xs) \<Rightarrow>
        if t \<noteq> tag_string then Inr None
        else (case those (map item_string xs) of
            Some ss \<Rightarrow> Inr (Some ss)
          | None \<Rightarrow> Inl Panic)
    | _ \<Rightarrow> Inr None)"

definition get_int_array :: "compound \<Rightarrow> string \<Rightarrow> int list option" where
  "get_int_array c k = (case get c k of Some (NInt_Array ws) \<Rightarrow> Some (map sint ws) | _ \<Rightarrow> None)"

subsection \<open>Numbers and strings\<close>

lemma length_be_bytes [simp]: "length (be_bytes n v) = n"
  by (simp add: be_bytes_def)

lemma be_bytes_Suc: "be_bytes (Suc n) v = be_bytes n (v div 256) @ [of_nat v]"
proof -
  have "map (\<lambda>i. of_nat (v div 256 ^ (Suc n - 1 - i)) :: 8 word) [0..<n] = map (\<lambda>i. of_nat (v div 256 div 256 ^ (n - 1 - i))) [0..<n]"
  proof (rule map_cong [OF refl])
    fix i assume "i \<in> set [0..<n]"
    then have "Suc n - 1 - i = Suc (n - 1 - i)" by auto
    then show "of_nat (v div 256 ^ (Suc n - 1 - i)) = (of_nat (v div 256 div 256 ^ (n - 1 - i)) :: 8 word)"
      by (simp add: div_mult2_eq)
  qed
  then show ?thesis by (simp add: be_bytes_def)
qed

lemma be_val_be_bytes: "v < 256 ^ n \<Longrightarrow> be_val (be_bytes n v) = v"
proof (induction n arbitrary: v)
  case (Suc n)
  have "v div 256 < 256 ^ n" using Suc.prems by simp
  moreover have "unat (of_nat v :: 8 word) = v mod 256" by (simp add: unat_of_nat)
  ultimately show ?case using Suc.IH by (simp add: be_bytes_Suc be_val_snoc)
qed (simp add: be_val_def be_bytes_def)

lemma sint_length: "n < 2 ^ 31 \<Longrightarrow> sint (of_nat n :: 32 word) = int n"
  by (simp add: signed_of_nat signed_take_bit_int_eq_self)

abbreviation at :: "bytes \<Rightarrow> ending \<Rightarrow> int \<Rightarrow> decoder" where
  "at bs e u \<equiv> \<lparr>de_in = bs, de_end = e, de_used = u\<rparr>"

lemma read_exactly_at: "length bs = n \<Longrightarrow> read_exactly n (at (bs @ rest) e u) = Inr (bs, at rest e u)"
  by (simp add: read_exactly_def)

lemma charge_at: "0 \<le> n \<Longrightarrow> u + n \<le> max_bytes lim \<Longrightarrow> charge lim n (at bs e u) = Inr (at bs e (u + n))"
  by (simp add: charge_def)

lemma read_byte_at: "read_byte (at (b # bs) e u) = Inr (b, at bs e u)"
  by (simp add: read_byte_def)

lemma read_length_at: "n < 2 ^ 31 \<Longrightarrow> read_length (at (be_bytes 4 n @ rest) e u) = Inr (int n, at rest e u)"
  by (simp add: read_length_def read_exactly_at be_val_be_bytes sint_length)

lemma read_number_at:
  "k \<le> 8 \<Longrightarrow> v < 256 ^ k \<Longrightarrow> u + cost_number \<le> max_bytes lim \<Longrightarrow>
     read_number lim k (at (be_bytes k v @ rest) e u) = Inr (v, at rest e (u + cost_number))"
  by (simp add: read_number_def charge_at read_exactly_at be_val_be_bytes cost_number_def)

lemma enc_uints_bytes: "enc_uints k ns = Inr (concat (map (be_bytes k) ns))"
  by (induction ns) (simp_all add: then_write_def enc_uint_def)

lemma chunks_uints: "0 < k \<Longrightarrow> chunks k (concat (map (be_bytes k) ns)) = map (be_bytes k) ns"
  by (induction ns) (simp_all add: chunks_step)

lemma length_uints: "length (concat (map (be_bytes k) ns)) = length ns * k"
  by (induction ns) simp_all

lemma then_write_Inr: "then_write a b = Inr z \<longleftrightarrow> (\<exists>x y. a = Inr x \<and> b = Inr y \<and> z = x @ y)"
  by (auto simp: then_write_def and_then_Inr)

lemma enc_length_Inr: "enc_length n = Inr bs \<longleftrightarrow> n < 2 ^ 31 \<and> bs = be_bytes 4 n"
  by (auto simp: enc_length_def enc_uint_def)

lemma read_string_at:
  assumes "enc_string s = Inr bs" and "valid_utf8 s"
    and "u + cost_string + 2 * int (length (encode_mutf8 s)) \<le> max_bytes lim"
  shows "read_string lim (at (bs @ rest) e u)
     = Inr (s, at rest e (u + cost_string + 2 * int (length (encode_mutf8 s))))"
proof -
  have bs: "bs = be_bytes 2 (length (encode_mutf8 s)) @ encode_mutf8 s" "length (encode_mutf8 s) < 256 ^ 2"
    using assms(1) by (auto simp: enc_string_def Let_def then_write_Inr enc_uint_def split: if_splits)
  then show ?thesis using assms(2,3)
    by (simp add: read_string_def read_exactly_at be_val_be_bytes charge_at cost_string_def decode_encode_mutf8 add.assoc)
qed

subsection \<open>Read reads what Write wrote\<close>

text \<open>What \<open>Read\<close> charges for a tree.\<close>

definition string_cost :: "string \<Rightarrow> int" where
  "string_cost s = cost_string + 2 * int (length (encode_mutf8 s))"

fun read_cost :: "nbt \<Rightarrow> int" where
  "read_cost (NString s) = string_cost s"
| "read_cost (NByte_Array bs) = cost_array + int (length bs)"
| "read_cost (NInt_Array ws) = cost_array + 4 * int (length ws)"
| "read_cost (NLong_Array ws) = cost_array + 8 * int (length ws)"
| "read_cost (NList t xs) = cost_list + 4 * int (length xs) + sum_list (map read_cost xs)"
| "read_cost (NCompound es) =
     cost_compound + sum_list (map (\<lambda>(k, v). string_cost k + cost_entry + read_cost v) es)"
| "read_cost _ = cost_number"

lemma read_cost_nonneg: "0 \<le> read_cost v"
  by (induction v rule: read_cost.induct)
    (auto simp: cost_defs string_cost_def intro!: sum_list_nonneg add_nonneg_nonneg)

lemma read_costs_nonneg: "0 \<le> sum_list (map read_cost xs)"
  "0 \<le> sum_list (map (\<lambda>(k, v). string_cost k + cost_entry + read_cost v) es)"
  using read_cost_nonneg by (auto simp: string_cost_def cost_defs intro!: sum_list_nonneg add_nonneg_nonneg)

lemma read_plain_number:
  assumes "t \<in> {tag_byte, tag_short, tag_int, tag_float, tag_long, tag_double}"
    and "bs = be_bytes (number_size t) n" and "n < 256 ^ number_size t" and "u + cost_number \<le> max_bytes lim"
  shows "read_payload lim t depth (at (bs @ rest) e u) = Inr (number_of t n, at rest e (u + cost_number))"
proof -
  have "t \<noteq> tag_list" "t \<noteq> tag_compound" using assms(1) by (auto simp: tag_defs)
  moreover have "number_size t \<le> 8" by (simp add: number_size_def)
  ultimately show ?thesis using assms by (simp add: read_payload.simps read_plain_def read_number_at)
qed

lemma read_plain_array:
  assumes "t \<in> {tag_byte_array, tag_int_array, tag_long_array}" and "n < 2 ^ 31"
    and "int (length raw) = int n * element_size t" and "u + cost_array + int (length raw) \<le> max_bytes lim"
  shows "read_payload lim t depth (at (be_bytes 4 n @ raw @ rest) e u)
     = Inr (array_of t raw, at rest e (u + cost_array + int (length raw)))"
proof -
  have t: "t \<noteq> tag_list" "t \<noteq> tag_compound" "t \<noteq> tag_string"
    "t \<notin> {tag_byte, tag_short, tag_int, tag_float, tag_long, tag_double}"
    using assms(1) by (auto simp: tag_defs)
  have "element_size t \<in> {1, 4, 8}" by (simp add: element_size_def)
  then have m: "\<not> (2 ^ 63 - 1 - cost_array) div element_size t < int n"
    using assms(2) by (auto simp: cost_array_def)
  have "read_array lim t (at (be_bytes 4 n @ raw @ rest) e u)
     = Inr (array_of t raw, at rest e (u + cost_array + int (length raw)))"
    unfolding read_array_def read_length_at [OF assms(2)] and_then_simps prod.case Let_def if_not_P [OF m]
      assms(3) [symmetric]
    using assms(4) overruns_exact [OF assms(3)] by (simp add: charge_at read_exactly_at cost_array_def add.assoc)
  then show ?thesis using assms(1) t by (simp add: read_payload.simps read_plain_def)
qed

lemma unat_16: "unat (w :: 16 word) < 256 ^ 2" and unat_32: "unat (x :: 32 word) < 256 ^ 4"
  and unat_64: "unat (y :: 64 word) < 256 ^ 8"
  using unsigned_less [of w] unsigned_less [of x] unsigned_less [of y] by simp_all

lemma array_of_uints:
  "array_of tag_int_array (concat (map (be_bytes 4) (map unat ws))) = NInt_Array ws"
  "array_of tag_long_array (concat (map (be_bytes 8) (map unat vs))) = NLong_Array vs"
  using unat_32 unat_64
  by (simp_all only: array_of_def tag_defs chunks_uints) (simp_all add: be_val_be_bytes map_idI o_def)

text \<open>The round trip, with more input behind.\<close>

lemma read_written:
  "enc_value v = Inr bs \<Longrightarrow> well_typed v \<Longrightarrow> type_of v = Some t \<Longrightarrow> fits_depth (max_depth lim - depth + 1) v \<Longrightarrow>
     u + read_cost v \<le> max_bytes lim \<Longrightarrow>
     read_payload lim t depth (at (bs @ rest) e u) = Inr (v, at rest e (u + read_cost v))"
  "enc_items t xs = Inr bs \<Longrightarrow> list_all well_typed xs \<Longrightarrow>
     list_all (fits_depth (max_depth lim - depth + 1)) xs \<Longrightarrow> u + sum_list (map read_cost xs) \<le> max_bytes lim \<Longrightarrow>
     read_items lim t depth (int (length xs)) (at (bs @ rest) e u) = Inr (xs, at rest e (u + sum_list (map read_cost xs)))"
  "enc_entries es = Inr bs \<Longrightarrow> by_key (c @ es) \<Longrightarrow> list_all (\<lambda>(k, v). valid_utf8 k \<and> well_typed v) es \<Longrightarrow>
     list_all (\<lambda>(_, v). fits_depth (max_depth lim - depth) v) es \<Longrightarrow>
     u + sum_list (map (\<lambda>(k, v). string_cost k + cost_entry + read_cost v) es) \<le> max_bytes lim \<Longrightarrow>
     read_entries lim depth c (at (bs @ tag_end # rest) e u)
       = Inr (c @ es, at rest e (u + sum_list (map (\<lambda>(k, v). string_cost k + cost_entry + read_cost v) es)))"
proof (induction v and t xs and es arbitrary: bs t depth u rest and bs depth u rest and bs depth u c rest
    rule: enc_value_enc_items_enc_entries.induct)
  case (1 b)
  have "be_bytes 1 (unat b) = [b]" by (simp add: be_bytes_def)
  moreover have "unat b < 256" using unsigned_less [of b] by simp
  ultimately show ?case using 1 read_plain_number [of tag_byte "[b]" "unat b" u lim depth rest e]
    by (simp add: number_size_def number_of_def)
next
  case (2 w)
  then show ?case using read_plain_number [of tag_short bs "unat w" u lim depth rest e] unat_16 [of w]
    by (auto simp: number_size_def number_of_def enc_uint_def tag_defs)
next
  case (3 w)
  then show ?case using read_plain_number [of tag_int bs "unat w" u lim depth rest e] unat_32 [of w]
    by (auto simp: number_size_def number_of_def enc_uint_def tag_defs)
next
  case (4 w)
  then show ?case using read_plain_number [of tag_long bs "unat w" u lim depth rest e] unat_64 [of w]
    by (auto simp: number_size_def number_of_def enc_uint_def tag_defs)
next
  case (5 w)
  then show ?case using read_plain_number [of tag_float bs "unat w" u lim depth rest e] unat_32 [of w]
    by (auto simp: number_size_def number_of_def enc_uint_def tag_defs)
next
  case (6 w)
  then show ?case using read_plain_number [of tag_double bs "unat w" u lim depth rest e] unat_64 [of w]
    by (auto simp: number_size_def number_of_def enc_uint_def tag_defs)
next
  case (7 raw)
  then show ?case using read_plain_array [of tag_byte_array "length raw" raw u lim depth rest e]
    by (auto simp: then_write_Inr enc_length_Inr element_size_def array_of_def tag_defs add.assoc)
next
  case (8 s)
  then show ?case using read_string_at [of s bs u lim rest e]
    by (auto simp: read_payload.simps read_plain_def tag_defs string_cost_def add.assoc)
next
  case (9 t' xs)
  then obtain cs where bs: "length xs < 2 ^ 31" "bs = [t'] @ be_bytes 4 (length xs) @ cs" "enc_items t' xs = Inr cs"
    and t: "\<not> (t' = tag_end \<and> xs \<noteq> [])"
    by (auto simp: then_write_Inr enc_length_Inr split: if_splits)
  have a: "list_all well_typed xs" "list_all (fits_depth (max_depth lim - (depth + 1) + 1)) xs" "\<not> tag_long_array < t'" "\<not> max_depth lim < depth"
    using 9(3,5) by (auto simp: list_all_iff)
  let ?n = "int (length xs)"
  have cost: "u + cost_list + 4 * ?n + sum_list (map read_cost xs) \<le> max_bytes lim" using 9(6) by simp
  then have "charge lim (cost_list + 4 * ?n) (at (cs @ rest) e u) = Inr (at (cs @ rest) e (u + (cost_list + 4 * ?n)))"
    using read_costs_nonneg(1) [of xs] by (intro charge_at) (simp_all add: cost_list_def)
  moreover have "read_items lim t' (depth + 1) ?n (at (cs @ rest) e (u + (cost_list + 4 * ?n)))
      = Inr (xs, at rest e (u + (cost_list + 4 * ?n) + sum_list (map read_cost xs)))"
    using cost by (intro 9(1) [OF t bs(3) a(1,2)]) simp
  moreover have "\<not> (t' = tag_end \<and> 0 < ?n)" using t by auto
  moreover have "t = tag_list" using 9(4) by simp
  ultimately show ?case
    using a(3,4) read_length_at [OF bs(1), of "cs @ rest" e u]
    by (simp add: bs(2) read_payload.simps read_byte_at add.assoc)
next
  case (10 es)
  then obtain cs where bs: "bs = cs @ [tag_end]" "enc_entries es = Inr cs" by (auto simp: then_write_Inr)
  have a: "by_key ([] @ es)" "list_all (\<lambda>(k, v). valid_utf8 k \<and> well_typed v) es"
    "list_all (\<lambda>(_, v). fits_depth (max_depth lim - depth) v) es" "\<not> max_depth lim < depth"
    using 10(3,5) by auto
  let ?s = "sum_list (map (\<lambda>(k, v). string_cost k + cost_entry + read_cost v) es)"
  have cost: "u + cost_compound + ?s \<le> max_bytes lim" using 10(6) by simp
  then have "charge lim cost_compound (at (cs @ tag_end # rest) e u) = Inr (at (cs @ tag_end # rest) e (u + cost_compound))"
    using read_costs_nonneg(2) [of es] by (intro charge_at) (simp_all add: cost_compound_def)
  moreover have "read_entries lim depth [] (at (cs @ tag_end # rest) e (u + cost_compound))
      = Inr ([] @ es, at rest e (u + cost_compound + ?s))"
    using cost by (intro 10(1) [OF bs(2) a(1,2,3)])
  moreover have "t = tag_compound" using 10(4) by simp
  ultimately show ?case using a(4) by (simp add: bs(1) read_payload.simps tag_defs add.assoc)
next
  case (11 ws)
  then show ?case
    using read_plain_array [of tag_int_array "length ws" "concat (map (be_bytes 4) (map unat ws))" u lim depth rest e]
    by (auto simp: then_write_Inr enc_length_Inr enc_uints_bytes element_size_def array_of_uints [unfolded tag_defs] length_uints
        tag_defs add.assoc mult.commute simp del: map_map)
next
  case (12 ws)
  then show ?case
    using read_plain_array [of tag_long_array "length ws" "concat (map (be_bytes 8) (map unat ws))" u lim depth rest e]
    by (auto simp: then_write_Inr enc_length_Inr enc_uints_bytes element_size_def array_of_uints [unfolded tag_defs] length_uints
        tag_defs add.assoc mult.commute simp del: map_map)
next
  case 13
  then show ?case by simp
next
  case (14 t)
  then show ?case by (simp add: read_items.simps)
next
  case (15 t x xs)
  then obtain as cs where bs: "type_of x = Some t" "enc_value x = Inr as" "enc_items t xs = Inr cs" "bs = as @ cs"
    by (auto simp: then_write_Inr split: if_splits)
  have cost: "u + read_cost x \<le> max_bytes lim" "u + read_cost x + sum_list (map read_cost xs) \<le> max_bytes lim"
    using 15(6) read_costs_nonneg(1) [of xs] by simp_all
  have "read_payload lim t depth (at (as @ cs @ rest) e u) = Inr (x, at (cs @ rest) e (u + read_cost x))"
    using 15(4,5) bs cost by (intro 15(1)) simp_all
  moreover have "read_items lim t depth (int (length xs)) (at (cs @ rest) e (u + read_cost x))
      = Inr (xs, at rest e (u + read_cost x + sum_list (map read_cost xs)))"
    using 15(4,5) bs cost by (intro 15(2)) simp_all
  ultimately show ?case by (simp add: bs(4) read_items.simps [of lim t depth "1 + int (length xs)"] add.assoc)
next
  case 16
  then show ?case by (simp add: read_entries.simps read_byte_at)
next
  case (17 k v es)
  from 17(3) obtain t ks vs cs where bs: "type_of v = Some t" "enc_string k = Inr ks" "enc_value v = Inr vs"
    "enc_entries es = Inr cs" "bs = t # ks @ vs @ cs"
    by (auto simp: then_write_Inr split: option.splits)
  have t: "t \<noteq> tag_end" using bs(1) by (cases v) (auto simp: tag_defs)
  have ok: "valid_utf8 k" "well_typed v" "fits_depth (max_depth lim - (depth + 1) + 1) v"
    "list_all (\<lambda>(k, v). valid_utf8 k \<and> well_typed v) es" "list_all (\<lambda>(_, v). fits_depth (max_depth lim - depth) v) es"
    using 17(5,6) by simp_all
  let ?s = "sum_list (map (\<lambda>(k, v). string_cost k + cost_entry + read_cost v) es)"
  let ?in = "cs @ tag_end # rest"
  have cost: "u + string_cost k + cost_entry + read_cost v + ?s \<le> max_bytes lim" using 17(7) by simp
  note nn = read_costs_nonneg(2) [of es] read_cost_nonneg [of v]
  have "read_string lim (at (ks @ vs @ ?in) e u) = Inr (k, at (vs @ ?in) e (u + string_cost k))"
    using read_string_at [OF bs(2) ok(1), of u lim "vs @ ?in" e] cost nn by (simp add: string_cost_def cost_entry_def add.assoc)
  moreover have "charge lim cost_entry (at (vs @ ?in) e (u + string_cost k)) = Inr (at (vs @ ?in) e (u + string_cost k + cost_entry))"
    using cost nn by (intro charge_at) (simp_all add: cost_entry_def)
  moreover have "read_payload lim t (depth + 1) (at (vs @ ?in) e (u + string_cost k + cost_entry))
      = Inr (v, at ?in e (u + string_cost k + cost_entry + read_cost v))"
    using cost nn by (intro 17(1) [OF bs(1,3) ok(2) bs(1) ok(3)]) simp
  moreover have "put k v c = c @ [(k, v)]"
    using 17(4) by (intro put_last) (auto simp: by_key_def sorted_wrt_append)
  moreover have "read_entries lim depth (c @ [(k, v)]) (at ?in e (u + string_cost k + cost_entry + read_cost v))
      = Inr ((c @ [(k, v)]) @ es, at rest e (u + string_cost k + cost_entry + read_cost v + ?s))"
    using cost 17(4) by (intro 17(2) [OF bs(1,4) _ ok(4,5)]) simp_all
  ultimately show ?case
    using t by (simp add: bs(5) read_entries.simps [of lim depth c] read_byte_at add.assoc)
qed

subsection \<open>Writing succeeds\<close>

definition string_fits :: "string \<Rightarrow> bool" where
  "string_fits s \<longleftrightarrow> length (encode_mutf8 s) \<le> 65535"

fun strings_fit :: "nbt \<Rightarrow> bool" where
  "strings_fit (NString s) = string_fits s"
| "strings_fit (NList t xs) = list_all strings_fit xs"
| "strings_fit (NCompound es) = list_all (\<lambda>(k, v). string_fits k \<and> strings_fit v) es"
| "strings_fit _ = True"

lemma then_write_total: "(\<exists>x. a = Inr x) \<Longrightarrow> (\<exists>y. b = Inr y) \<Longrightarrow> \<exists>z. then_write a b = Inr z"
  by (auto simp: then_write_def)

lemma enc_string_total: "string_fits s \<Longrightarrow> \<exists>bs. enc_string s = Inr bs"
  by (simp add: enc_string_def string_fits_def Let_def then_write_def enc_uint_def)

lemma enc_length_total: "short xs \<Longrightarrow> \<exists>bs. enc_length (length xs) = Inr bs"
  by (simp add: enc_length_def short_def enc_uint_def)

lemma well_typed_tag: "well_typed v \<Longrightarrow> \<exists>t. type_of v = Some t"
  by (cases v) simp_all

lemma enc_total:
  "well_typed v \<Longrightarrow> strings_fit v \<Longrightarrow> \<exists>bs. enc_value v = Inr bs"
  "list_all (\<lambda>x. type_of x = Some t \<and> well_typed x) xs \<Longrightarrow> list_all strings_fit xs \<Longrightarrow> \<exists>bs. enc_items t xs = Inr bs"
  "list_all (\<lambda>(k, v). valid_utf8 k \<and> well_typed v) es \<Longrightarrow> list_all (\<lambda>(k, v). string_fits k \<and> strings_fit v) es \<Longrightarrow>
     \<exists>bs. enc_entries es = Inr bs"
proof (induction v and t xs and es rule: enc_value_enc_items_enc_entries.induct)
  case (17 k v es)
  obtain t where "type_of v = Some t" using 17(3) well_typed_tag [of v] by auto
  with 17 show ?case by (auto intro!: then_write_total enc_string_total)
qed (auto simp: enc_uint_def enc_uints_bytes intro!: then_write_total enc_string_total enc_length_total)

subsection \<open>Properties of Write\<close>

lemma nbt_round_trip:
  assumes "valid_utf8 name" and "string_fits name"
    and "well_typed (NCompound root)" and "strings_fit (NCompound root)"
    and "fits_depth (max_depth lim) (NCompound root)"
    and "string_cost name + read_cost (NCompound root) \<le> max_bytes lim"
  shows "\<exists>bs. nbt_write name root = Inr bs
     \<and> (\<forall>rest e. \<exists>d. nbt_read lim (decoder_of (bs @ rest) e) = Inr ((name, root), d) \<and> de_in d = rest)"
proof -
  obtain ns where ns: "enc_string name = Inr ns" using enc_string_total [OF assms(2)] by blast
  obtain vs where vs: "enc_value (NCompound root) = Inr vs" using enc_total(1) [OF assms(3,4)] by blast
  have w: "nbt_write name root = Inr (tag_compound # ns @ vs)"
    unfolding nbt_write_def then_write_def ns vs by simp
  have "nbt_read lim (decoder_of ((tag_compound # ns @ vs) @ rest) e)
      = Inr ((name, root), at rest e (string_cost name + read_cost (NCompound root)))" for rest e
  proof -
    have "read_string lim (at (ns @ vs @ rest) e 0) = Inr (name, at (vs @ rest) e (string_cost name))"
      using read_string_at [OF ns assms(1), of 0 lim "vs @ rest" e] assms(6) read_cost_nonneg [of "NCompound root"]
      by (simp add: string_cost_def)
    moreover have "read_payload lim tag_compound 1 (at (vs @ rest) e (string_cost name))
        = Inr (NCompound root, at rest e (string_cost name + read_cost (NCompound root)))"
      by (rule read_written(1) [OF vs assms(3)]) (use assms(5,6) in simp_all)
    ultimately show ?thesis by (simp add: nbt_read_def decoder_of_def read_byte_at)
  qed
  with w show ?thesis by auto
qed

text \<open>C22: \<open>Write\<close> writes every well-typed tree whose strings take at most 65535 bytes, and \<open>Read\<close>
  reads the same name and tree back from it, whatever follows in the file, when the tree is
  within the depth and what \<open>Read\<close> charges for it is within the budget.\<close>

theorem written_trees_are_read_back:
  assumes "valid_utf8 name" and "string_fits name"
    and "well_typed (NCompound root)" and "strings_fit (NCompound root)"
    and "fits_depth (max_depth lim) (NCompound root)"
    and "string_cost name + read_cost (NCompound root) \<le> max_bytes lim"
  shows "\<exists>bs. nbt_write name root = Inr bs
     \<and> (\<forall>rest e. \<exists>d. nbt_read lim (decoder_of (bs @ rest) e) = Inr ((name, root), d) \<and> de_in d = rest)"
  using assms by (rule nbt_round_trip)

definition sample_tree :: compound where
  "sample_tree = [(''Data'', NCompound [(''Level'', NInt 7), (''Names'', NList tag_string [NString ''a'', NString ''b''])])]"

theorem written_trees_are_read_back_witness:
  "\<exists>bs. nbt_write ''r'' sample_tree = Inr bs
     \<and> (\<exists>d. nbt_read default_limits (decoder_of bs Eof) = Inr ((''r'', sample_tree), d) \<and> de_in d = [])"
proof -
  have cost: "string_cost ''r'' + read_cost (NCompound sample_tree) \<le> max_bytes default_limits"
    by (simp add: sample_tree_def string_cost_def cost_defs encode_mutf8_def mutf8_rune_def text_eval default_limits_def)
  have "\<exists>bs. nbt_write ''r'' sample_tree = Inr bs
     \<and> (\<forall>rest e. \<exists>d. nbt_read default_limits (decoder_of (bs @ rest) e) = Inr ((''r'', sample_tree), d) \<and> de_in d = rest)"
    by (rule written_trees_are_read_back [OF _ _ _ _ _ cost])
      (simp_all add: sample_tree_def string_fits_def encode_mutf8_def mutf8_rune_def text_eval default_limits_def
         valid_utf8_ascii ascii_def by_key_def tag_defs short_def)
  then show ?thesis by (metis append_Nil2)
qed

subsection \<open>Accessors\<close>

lemma get_well_typed: "well_typed (NCompound c) \<Longrightarrow> get c k = Some v \<Longrightarrow> well_typed v"
  by (auto simp: get_def list_all_iff dest: map_of_SomeD)

text \<open>On a well-typed compound the accessor of strings does not panic.\<close>

lemma get_strings_no_panic:
  assumes "well_typed (NCompound c)"
  shows "get_strings c k \<noteq> Inl Panic"
proof -
  have items: "those (map item_string xs) \<noteq> None"
    if "list_all (\<lambda>x. type_of x = Some tag_string \<and> well_typed x) xs" for xs
    using that
  proof (induction xs)
    case (Cons x xs)
    then show ?case by (cases x) (auto simp: tag_defs)
  qed simp
  show ?thesis
  proof (cases "get c k")
    case (Some v)
    show ?thesis
    proof (cases "\<exists>xs. v = NList tag_string xs")
      case True
      then obtain xs where v: "v = NList tag_string xs" by blast
      then obtain ss where "those (map item_string xs) = Some ss"
        using items [of xs] get_well_typed [OF assms Some] by auto
      then show ?thesis using Some v by (simp add: get_strings_def)
    next
      case False
      then show ?thesis using Some by (cases v) (simp_all add: get_strings_def)
    qed
  qed (simp add: get_strings_def)
qed

end
