(* ===== verification/Region.thy ===== *)
theory Region
  imports Nbt_Write
begin

section \<open>Region files (internal/region/region.go)\<close>

text \<open>
  A region file is its bytes: a header of 1024 locations, one of 1024 times, then sectors of
  4096 bytes. \<open>compress/gzip\<close> and \<open>compress/zlib\<close> are a parameter, a \<open>codec\<close>: \<open>pack\<close> compresses,
  \<open>unpack\<close> gives a header's error or the stream's bytes and its ending. Errors leave out the
  coordinates their text names.

  \<open>Chunk\<close> and \<open>SetChunk\<close> are shown to implement a map from chunks to data: on a file whose
  chunks lie in sectors of their own, \<open>SetChunk\<close> changes exactly one entry of the map and keeps
  the file that way.
\<close>

subsection \<open>Sectors and locations\<close>

definition sector :: nat where "sector = 4096"
definition header_size :: nat where "header_size = 2 * sector"
definition max_sectors :: nat where "max_sectors = 255"

definition c_gzip :: "8 word" where "c_gzip = 1"
definition c_zlib :: "8 word" where "c_zlib = 2"
definition c_plain :: "8 word" where "c_plain = 3"
definition c_lz4 :: "8 word" where "c_lz4 = 4"
definition c_external :: "8 word" where "c_external = 128"

lemmas compression_defs = c_gzip_def c_zlib_def c_plain_def c_lz4_def c_external_def

datatype region_error =
    Short_Header nat
  | No_Chunk
  | Points_Outside
  | Cut_Short
  | Bad_Length int
  | Bad_Stream string
  | Lz4_Unsupported
  | Kept_Outside
  | Bad_Compression "8 word"
  | Chunk_Too_Large
  | Cannot_Write "8 word"
  | Write_Failed string
  | Too_Many_Sectors nat

record codec =
  pack :: "8 word \<Rightarrow> bytes \<Rightarrow> string + bytes"
  unpack :: "8 word \<Rightarrow> bytes \<Rightarrow> string + bytes \<times> ending"

definition region_parse :: "bytes \<Rightarrow> region_error + bytes" where
  "region_parse b = (if b = [] then Inr (replicate header_size 0)
     else if length b < header_size then Inl (Short_Header (length b))
     else Inr b)"

definition index :: "int \<Rightarrow> int \<Rightarrow> nat" where
  "index cx cz = nat ((cx AND 31) + (cz AND 31) * 32)"

text \<open>The \<open>n\<close> bytes from \<open>k\<close> on, and writing \<open>xs\<close> over them.\<close>

definition slice :: "nat \<Rightarrow> nat \<Rightarrow> 'a list \<Rightarrow> 'a list" where
  "slice k n b = take n (drop k b)"

definition splice :: "nat \<Rightarrow> 'a list \<Rightarrow> 'a list \<Rightarrow> 'a list" where
  "splice k xs b = take k b @ xs @ drop (k + length xs) b"

text \<open>Where the chunk with index \<open>i\<close> starts, in sectors, and how many it takes.\<close>

definition loc :: "bytes \<Rightarrow> nat \<Rightarrow> nat" where
  "loc b i = be_val (slice (4 * i) 4 b)"

definition loc_off :: "bytes \<Rightarrow> nat \<Rightarrow> nat" where
  "loc_off b i = loc b i div 256"

definition loc_n :: "bytes \<Rightarrow> nat \<Rightarrow> nat" where
  "loc_n b i = loc b i mod 256"

subsection \<open>Chunk\<close>

definition max_chunk :: nat where "max_chunk = 256 * 2 ^ 20"

text \<open>\<open>io.ReadAll\<close> of the stream, limited to one byte more than a chunk may have.\<close>

definition read_stream :: "string + bytes \<times> ending \<Rightarrow> region_error + bytes" where
  "read_stream s = (case s of
      Inl e \<Rightarrow> Inl (Bad_Stream e)
    | Inr (raw, e) \<Rightarrow>
        if max_chunk < length raw then Inl Chunk_Too_Large
        else (case e of
            Eof \<Rightarrow> Inr raw
          | Unexpected_Eof \<Rightarrow> Inl (Bad_Stream ''unexpected EOF'')
          | Read_Error m \<Rightarrow> Inl (Bad_Stream m)))"

definition unpacked :: "codec \<Rightarrow> 8 word \<Rightarrow> bytes \<Rightarrow> region_error + 8 word \<times> bytes" where
  "unpacked co c payload =
     (if c = c_gzip \<or> c = c_zlib then and_then (read_stream (unpack co c payload)) (\<lambda>data. Inr (c, data))
      else if c = c_plain then Inr (c, payload)
      else if c = c_lz4 then Inl Lz4_Unsupported
      else if c AND c_external \<noteq> 0 then Inl Kept_Outside
      else Inl (Bad_Compression c))"

definition chunk_at :: "codec \<Rightarrow> bytes \<Rightarrow> nat \<Rightarrow> region_error + 8 word \<times> bytes" where
  "chunk_at co b i =
     (let off = loc_off b i; n = loc_n b i; start = off * sector;
          len = be_val (slice start 4 b)
      in if off = 0 \<and> n = 0 then Inl No_Chunk
         else if off < 2 \<or> n = 0 \<or> length b + sector < (off + n) * sector then Inl Points_Outside
         else if length b < start + 5 then Inl Cut_Short
         else if len < 1 \<or> n * sector - 4 < len \<or> length b < start + 4 + len then Inl (Bad_Length (int len))
         else unpacked co (b ! (start + 4)) (slice (start + 5) (len - 1) b))"

definition chunk :: "codec \<Rightarrow> bytes \<Rightarrow> int \<Rightarrow> int \<Rightarrow> region_error + 8 word \<times> bytes" where
  "chunk co b cx cz = chunk_at co b (index cx cz)"

subsection \<open>SetChunk\<close>

definition packed :: "codec \<Rightarrow> 8 word \<Rightarrow> bytes \<Rightarrow> region_error + bytes" where
  "packed co c data =
     (if c = c_gzip \<or> c = c_zlib then (case pack co c data of Inl e \<Rightarrow> Inl (Write_Failed e) | Inr p \<Rightarrow> Inr p)
      else if c = c_plain then Inr data
      else Inl (Cannot_Write c))"

definition sectors_for :: "nat \<Rightarrow> nat" where
  "sectors_for n = (n + sector - 1) div sector"

text \<open>The chunk's area: its old one when the data fits, or new sectors at the end of the file.\<close>

definition sectors_at :: "bytes \<Rightarrow> nat \<Rightarrow> nat \<Rightarrow> nat \<times> nat \<times> bytes" where
  "sectors_at b i need =
     (let off = loc_off b i; n = loc_n b i
      in if off < 2 \<or> n < need \<or> length b < (off + n) * sector
         then let off = sectors_for (length b)
              in (off, need, b @ replicate (off * sector + need * sector - length b) 0)
         else (off, n, b))"

definition area :: "nat \<Rightarrow> 8 word \<Rightarrow> bytes \<Rightarrow> bytes" where
  "area n c payload =
     be_bytes 4 (1 + length payload) @ c # payload @ replicate (n * sector - (5 + length payload)) 0"

definition set_at :: "codec \<Rightarrow> bytes \<Rightarrow> nat \<Rightarrow> 8 word \<Rightarrow> bytes \<Rightarrow> gotime \<Rightarrow> region_error + bytes" where
  "set_at co b i c data now = and_then (packed co c data) (\<lambda>payload.
     let need = sectors_for (5 + length payload)
     in if max_sectors < need then Inl (Too_Many_Sectors need)
        else case sectors_at b i need of (off, n, b) \<Rightarrow>
          Inr (splice (sector + 4 * i) (be_bytes 4 (nat (unix_sec now mod 2 ^ 32)))
              (splice (4 * i) (be_bytes 4 (off * 256 + need))
              (splice (off * sector) (area n c payload) b))))"

definition set_chunk ::
  "codec \<Rightarrow> bytes \<Rightarrow> int \<Rightarrow> int \<Rightarrow> 8 word \<Rightarrow> bytes \<Rightarrow> gotime \<Rightarrow> region_error + bytes" where
  "set_chunk co b cx cz c data now = set_at co b (index cx cz) c data now"

subsection \<open>Decode and Encode\<close>

definition chunk_limits :: limits where
  "chunk_limits = \<lparr>max_depth = 512, max_bytes = 512 * 2 ^ 20\<rparr>"

definition decode_chunk :: "bytes \<Rightarrow> nbt_error + compound" where
  "decode_chunk data = and_then (read_bytes chunk_limits data) (\<lambda>(_, root). Inr root)"

definition encode_chunk :: "compound \<Rightarrow> write_error + bytes" where
  "encode_chunk root = nbt_write [] root"

subsection \<open>Slices\<close>

lemma length_slice [simp]: "k + n \<le> length b \<Longrightarrow> length (slice k n b) = n"
  by (simp add: slice_def)

lemma length_splice [simp]: "k + length xs \<le> length b \<Longrightarrow> length (splice k xs b) = length b"
  by (simp add: splice_def)

lemma slice_append: "k + n \<le> length b \<Longrightarrow> slice k n (b @ zs) = slice k n b"
  by (simp add: slice_def)

lemma slice_nth: "k < length b \<Longrightarrow> slice k 1 b = [b ! k]"
  by (simp add: slice_def take_Suc_conv_app_nth Cons_nth_drop_Suc [symmetric])

lemma slice_splice_same: "k + length xs \<le> length b \<Longrightarrow> slice k (length xs) (splice k xs b) = xs"
  by (simp add: slice_def splice_def)

lemma slice_splice_other:
  assumes "p + length xs \<le> length b" and "k + n \<le> p \<or> p + length xs \<le> k"
  shows "slice k n (splice p xs b) = slice k n b"
  using assms(2)
proof
  assume "k + n \<le> p"
  then show ?thesis using assms(1) by (simp add: slice_def splice_def drop_take)
next
  assume k: "p + length xs \<le> k"
  have "drop k (splice p xs b) = drop k b"
    using assms(1) k by (simp add: splice_def)
  then show ?thesis by (simp add: slice_def)
qed

text \<open>Inside what was written.\<close>

lemma slice_splice_inside:
  assumes "p + length xs \<le> length b" and "k + n \<le> length xs"
  shows "slice (p + k) n (splice p xs b) = slice k n xs"
  using assms by (simp add: slice_def splice_def)

subsection \<open>The files SetChunk keeps\<close>

definition present :: "bytes \<Rightarrow> nat \<Rightarrow> bool" where
  "present b i \<longleftrightarrow> \<not> (loc_off b i = 0 \<and> loc_n b i = 0)"

definition data_len :: "bytes \<Rightarrow> nat \<Rightarrow> nat" where
  "data_len b i = be_val (slice (loc_off b i * sector) 4 b)"

text \<open>A chunk's data is complete, and in sectors the file has; the last one may be cut short.\<close>

definition chunk_ok :: "bytes \<Rightarrow> nat \<Rightarrow> bool" where
  "chunk_ok b i \<longleftrightarrow> 2 \<le> loc_off b i \<and> 1 \<le> loc_n b i \<and> loc_off b i + loc_n b i \<le> sectors_for (length b)
     \<and> 1 \<le> data_len b i \<and> data_len b i \<le> loc_n b i * sector - 4
     \<and> loc_off b i * sector + 4 + data_len b i \<le> length b"

definition apart :: "bytes \<Rightarrow> nat \<Rightarrow> nat \<Rightarrow> bool" where
  "apart b i j \<longleftrightarrow> loc_off b i + loc_n b i \<le> loc_off b j \<or> loc_off b j + loc_n b j \<le> loc_off b i"

definition region_ok :: "bytes \<Rightarrow> bool" where
  "region_ok b \<longleftrightarrow> header_size \<le> length b
     \<and> (\<forall>i < 1024. present b i \<longrightarrow> chunk_ok b i)
     \<and> (\<forall>i < 1024. \<forall>j < 1024. i \<noteq> j \<longrightarrow> present b i \<longrightarrow> present b j \<longrightarrow> apart b i j)"

lemma index_less: "index cx cz < 1024"
proof -
  have "0 \<le> z AND 31 \<and> z AND 31 < 32" for z :: int
    using take_bit_int_less_exp [of 5 z] take_bit_nonnegative [of 5 z]
    by (simp add: take_bit_eq_mask mask_eq_exp_minus_1)
  from this [of cx] this [of cz] show ?thesis unfolding index_def by linarith
qed

lemma be_val_zeros: "be_val (replicate n 0) = 0"
proof (induction n)
  case (Suc n)
  have "replicate (Suc n) 0 = replicate n 0 @ [0 :: 8 word]" by (simp add: replicate_append_same)
  then show ?case using Suc by (simp only: be_val_snoc) simp
qed (simp add: be_val_def)

text \<open>A file with no chunks.\<close>

lemma loc_empty: "i < 1024 \<Longrightarrow> loc (replicate header_size 0) i = 0"
  by (simp add: loc_def slice_def header_size_def sector_def be_val_zeros)

lemma region_ok_empty: "region_ok (replicate header_size 0)"
  by (auto simp: region_ok_def present_def loc_off_def loc_n_def loc_empty)

lemma chunk_at_empty: "i < 1024 \<Longrightarrow> chunk_at co (replicate header_size 0) i = Inl No_Chunk"
  by (simp add: chunk_at_def loc_off_def loc_n_def loc_empty)

lemma sectors_for_bounds: "n \<le> sectors_for n * sector" "sectors_for n * sector < n + sector"
proof -
  have "sectors_for n * sector + (n + sector - 1) mod sector = n + sector - 1"
    unfolding sectors_for_def by (rule div_mult_mod_eq)
  moreover have "(n + sector - 1) mod sector < sector" by (simp add: sector_def)
  ultimately show "n \<le> sectors_for n * sector" "sectors_for n * sector < n + sector"
    by (simp_all add: sector_def)
qed

lemma sectors_for_exact: "sectors_for (k * sector) = k"
  using sectors_for_bounds [of "k * sector"] by (simp add: sector_def)

text \<open>On a chunk that is all there, \<open>Chunk\<close> decompresses its data.\<close>

lemma chunk_at_ok:
  assumes "chunk_ok b i"
  shows "chunk_at co b i = unpacked co (b ! (loc_off b i * sector + 4))
           (slice (loc_off b i * sector + 5) (data_len b i - 1) b)"
proof -
  have "(loc_off b i + loc_n b i) * sector \<le> sectors_for (length b) * sector"
    using assms by (intro mult_le_mono1) (simp add: chunk_ok_def)
  then have "(loc_off b i + loc_n b i) * sector \<le> length b + sector"
    using sectors_for_bounds(2) [of "length b"] by linarith
  then show ?thesis using assms
    by (simp add: chunk_at_def chunk_ok_def data_len_def Let_def)
qed

subsection \<open>What SetChunk writes\<close>

lemma sectors_for_mono: "m \<le> n \<Longrightarrow> sectors_for m \<le> sectors_for n"
  unfolding sectors_for_def by (intro div_le_mono) simp

lemma loc_less: "loc b i < 2 ^ 32"
proof -
  have "be_val (slice (4 * i) 4 b) < 256 ^ length (slice (4 * i) 4 b)" by (rule be_val_less)
  also have "\<dots> \<le> 256 ^ 4" by (intro power_increasing) (simp_all add: slice_def)
  finally show ?thesis by (simp add: loc_def)
qed

definition fits_header :: "bytes \<Rightarrow> bool" where
  "fits_header b \<longleftrightarrow> length b \<le> (2 ^ 24 - 1) * sector"

lemma sectors_at_facts:
  assumes "region_ok b" and "fits_header b" and "i < 1024" and "sectors_at b i need = (off, n, b1)" and "1 \<le> need"
  shows "2 \<le> off" "off < 2 ^ 24" "need \<le> n" "(off + n) * sector \<le> length b1" "\<exists>z. b1 = b @ replicate z 0"
    "j < 1024 \<Longrightarrow> j \<noteq> i \<Longrightarrow> present b j \<Longrightarrow> loc_off b j + loc_n b j \<le> off \<or> off + n \<le> loc_off b j"
proof -
  let ?new = "loc_off b i < 2 \<or> loc_n b i < need \<or> length b < (loc_off b i + loc_n b i) * sector"
  have len: "header_size \<le> length b" using assms(1) by (simp add: region_ok_def)
  have "2 \<le> off \<and> off < 2 ^ 24 \<and> need \<le> n \<and> (off + n) * sector \<le> length b1 \<and> (\<exists>z. b1 = b @ replicate z 0)
    \<and> (j < 1024 \<longrightarrow> j \<noteq> i \<longrightarrow> present b j \<longrightarrow> loc_off b j + loc_n b j \<le> off \<or> off + n \<le> loc_off b j)"
  proof (cases ?new)
    case True
    then have p: "off = sectors_for (length b)" "n = need"
      "b1 = b @ replicate (off * sector + need * sector - length b) 0"
      using assms(4) by (auto simp: sectors_at_def Let_def)
    have "sectors_for header_size \<le> off" unfolding p by (intro sectors_for_mono len)
    then have "2 \<le> off" using sectors_for_exact [of 2] by (simp add: header_size_def)
    moreover have "off * sector < (2 ^ 24) * sector"
      using sectors_for_bounds(2) [of "length b"] assms(2) unfolding p(1) fits_header_def by (simp add: sector_def)
    moreover have "length b1 = off * sector + need * sector"
      using sectors_for_bounds(1) [of "length b"] unfolding p(3) p(1) by simp
    moreover have "loc_off b j + loc_n b j \<le> off" if "j < 1024" "present b j" for j
      using assms(1) that by (auto simp: region_ok_def chunk_ok_def p(1))
    ultimately show ?thesis using p by (auto simp: algebra_simps)
  next
    case False
    then have p: "off = loc_off b i" "n = loc_n b i" "b1 = b" "2 \<le> off" "need \<le> n" "(off + n) * sector \<le> length b"
      using assms(4) by (auto simp: sectors_at_def Let_def)
    have "off < 2 ^ 24" using loc_less [of b i] unfolding p(1) loc_off_def by simp
    moreover have "present b i" using p(1,4) by (simp add: present_def)
    ultimately show ?thesis using p assms(1,3)
      by (auto simp: region_ok_def apart_def intro!: exI [of _ "0::nat"])
  qed
  then show "2 \<le> off" "off < 2 ^ 24" "need \<le> n" "(off + n) * sector \<le> length b1" "\<exists>z. b1 = b @ replicate z 0"
    "j < 1024 \<Longrightarrow> j \<noteq> i \<Longrightarrow> present b j \<Longrightarrow> loc_off b j + loc_n b j \<le> off \<or> off + n \<le> loc_off b j"
    by blast+
qed

lemma be_val_be_bytes_mod: "be_val (be_bytes n v) = v mod 256 ^ n"
proof (induction n arbitrary: v)
  case (Suc n)
  have "unat (of_nat v :: 8 word) = v mod 256" by (simp add: unat_of_nat)
  moreover have "v mod (256 * 256 ^ n) = 256 * (v div 256 mod 256 ^ n) + v mod 256" by (rule mod_mult2_eq)
  ultimately show ?case using Suc by (simp add: be_bytes_Suc be_val_snoc)
qed (simp add: be_val_def be_bytes_def)

text \<open>The file \<open>set_at\<close> returns.\<close>

definition rewritten :: "bytes \<Rightarrow> nat \<Rightarrow> nat \<Rightarrow> nat \<Rightarrow> nat \<Rightarrow> 8 word \<Rightarrow> bytes \<Rightarrow> nat \<Rightarrow> bytes" where
  "rewritten b1 i off n need c payload secs =
     splice (sector + 4 * i) (be_bytes 4 secs)
       (splice (4 * i) (be_bytes 4 (off * 256 + need)) (splice (off * sector) (area n c payload) b1))"

lemma length_area: "5 + length payload \<le> n * sector \<Longrightarrow> length (area n c payload) = n * sector"
  by (simp add: area_def)

definition room :: "bytes \<Rightarrow> nat \<Rightarrow> nat \<Rightarrow> nat \<Rightarrow> bytes \<Rightarrow> bool" where
  "room b1 i off n payload \<longleftrightarrow> i < 1024 \<and> 2 \<le> off \<and> (off + n) * sector \<le> length b1 \<and> 5 + length payload \<le> n * sector"

lemma room_header: "room b1 i off n payload \<Longrightarrow> header_size \<le> off * sector \<and> off * sector + n * sector \<le> length b1"
  by (simp add: room_def header_size_def sector_def algebra_simps)

lemma length_rewritten:
  assumes "room b1 i off n payload"
  shows "length (rewritten b1 i off n need c payload secs) = length b1"
  using assms room_header [OF assms] unfolding rewritten_def room_def
  by (simp add: length_area header_size_def sector_def)

text \<open>Locations, and the sectors of another chunk.\<close>

lemma loc_rewritten:
  assumes "room b1 i off n payload" and "j < 1024"
  shows "loc (rewritten b1 i off n need c payload secs) j = (if j = i then (off * 256 + need) mod 2 ^ 32 else loc b1 j)"
proof -
  let ?a = "area n c payload"
  let ?h = "be_bytes 4 (off * 256 + need)"
  note h = room_header [OF assms(1)]
  have i: "i < 1024" and l: "length ?a = n * sector" using assms(1) by (simp_all add: room_def length_area)
  have la: "length (splice (off * sector) ?a b1) = length b1" using h l by simp
  have lh: "length (splice (4 * i) ?h (splice (off * sector) ?a b1)) = length b1"
    using h la i by (simp add: header_size_def sector_def)
  have "slice (4 * j) 4 (rewritten b1 i off n need c payload secs) = slice (4 * j) 4 (splice (4 * i) ?h (splice (off * sector) ?a b1))"
    unfolding rewritten_def using h lh i assms(2)
    by (intro slice_splice_other) (simp_all add: header_size_def sector_def)
  also have "\<dots> = (if j = i then ?h else slice (4 * j) 4 b1)"
  proof (cases "j = i")
    case True
    then show ?thesis using slice_splice_same [of "4 * i" ?h] la h i by (simp add: header_size_def sector_def)
  next
    case False
    then have "slice (4 * j) 4 (splice (4 * i) ?h (splice (off * sector) ?a b1)) = slice (4 * j) 4 (splice (off * sector) ?a b1)"
      using la h i by (intro slice_splice_other) (auto simp: header_size_def sector_def)
    also have "\<dots> = slice (4 * j) 4 b1"
      using h l assms(2) by (intro slice_splice_other) (simp_all add: header_size_def sector_def)
    finally show ?thesis using False by simp
  qed
  finally show ?thesis by (auto simp: loc_def be_val_be_bytes_mod)
qed

lemma slice_rewritten:
  assumes "room b1 i off n payload" and "header_size \<le> k"
  shows "slice k m (rewritten b1 i off n need c payload secs) = slice k m (splice (off * sector) (area n c payload) b1)"
proof -
  let ?b = "splice (off * sector) (area n c payload) b1"
  note h = room_header [OF assms(1)]
  have i: "i < 1024" and l: "length (area n c payload) = n * sector" using assms(1) by (simp_all add: room_def length_area)
  have la: "length ?b = length b1" using h l by simp
  have "slice k m (rewritten b1 i off n need c payload secs) = slice k m (splice (4 * i) (be_bytes 4 (off * 256 + need)) ?b)"
    unfolding rewritten_def using h la i assms(2) by (intro slice_splice_other) (simp_all add: header_size_def sector_def)
  also have "\<dots> = slice k m ?b"
    using h la i assms(2) by (intro slice_splice_other) (simp_all add: header_size_def sector_def)
  finally show ?thesis .
qed

lemma slice_other_chunk:
  assumes "room b1 i off n payload" and "header_size \<le> k" and "k + m \<le> off * sector \<or> off * sector + n * sector \<le> k"
  shows "slice k m (rewritten b1 i off n need c payload secs) = slice k m b1"
  using slice_rewritten [OF assms(1,2)] slice_splice_other [of "off * sector" "area n c payload" b1 k m]
    room_header [OF assms(1)] assms
  by (simp add: room_def length_area)

text \<open>The chunk's own sectors.\<close>

lemma slices_of_area:
  "slice 0 4 (area n c payload) = be_bytes 4 (1 + length payload)"
  "slice 4 1 (area n c payload) = [c]"
  "slice 5 (length payload) (area n c payload) = payload"
  by (simp_all add: slice_def area_def)

lemma own_slices:
  assumes "room b1 i off n payload"
  shows "slice (off * sector) 4 (rewritten b1 i off n need c payload secs) = be_bytes 4 (1 + length payload)"
    "slice (off * sector + 4) 1 (rewritten b1 i off n need c payload secs) = [c]"
    "slice (off * sector + 5) (length payload) (rewritten b1 i off n need c payload secs) = payload"
proof -
  have r: "length (area n c payload) = n * sector" "5 + length payload \<le> n * sector"
    using assms by (simp_all add: room_def length_area)
  note h = room_header [OF assms]
  have "slice (off * sector + k) m (rewritten b1 i off n need c payload secs) = slice k m (area n c payload)"
    if "k + m \<le> n * sector" for k m
    using slice_rewritten [OF assms, of "off * sector + k" m] h r that slice_splice_inside [of "off * sector" "area n c payload" b1 k m]
    by simp
  from this [of 0 4] this [of 4 1] this [of 5 "length payload"]
  show "slice (off * sector) 4 (rewritten b1 i off n need c payload secs) = be_bytes 4 (1 + length payload)"
    "slice (off * sector + 4) 1 (rewritten b1 i off n need c payload secs) = [c]"
    "slice (off * sector + 5) (length payload) (rewritten b1 i off n need c payload secs) = payload"
    using r by (simp_all add: slices_of_area slices_of_area(2) [simplified])
qed

subsection \<open>SetChunk implements updating a map\<close>

text \<open>The codec reads back what it wrote, as \<open>compress/gzip\<close> and \<open>compress/zlib\<close> document.\<close>

definition codec_ok :: "codec \<Rightarrow> bytes \<Rightarrow> bool" where
  "codec_ok co data \<longleftrightarrow> list_all (\<lambda>c. case pack co c data of
       Inl _ \<Rightarrow> True | Inr p \<Rightarrow> unpack co c p = Inr (data, Eof)) [c_gzip, c_zlib]"

lemma unpack_packed:
  assumes "packed co c data = Inr payload" and "codec_ok co data" and "length data \<le> max_chunk"
  shows "unpacked co c payload = Inr (c, data)"
proof -
  have u: "unpack co c payload = Inr (data, Eof)" if "c = c_gzip \<or> c = c_zlib"
    using that assms(1,2) by (elim disjE) (simp_all add: packed_def codec_ok_def split: sum.splits)
  consider "c = c_gzip \<or> c = c_zlib" | "\<not> (c = c_gzip \<or> c = c_zlib)" "c = c_plain" "payload = data"
    using assms(1) by (cases "c = c_gzip \<or> c = c_zlib"; cases "c = c_plain") (simp_all add: packed_def)
  then show ?thesis
  proof cases
    case 1
    then show ?thesis using u [OF 1] assms(3) by (simp add: unpacked_def read_stream_def)
  next
    case 2
    then show ?thesis by (simp add: unpacked_def)
  qed
qed

lemma set_at_Inr:
  assumes "set_at co b i c data now = Inr f"
  obtains payload need off n b1 where "packed co c data = Inr payload" "need = sectors_for (5 + length payload)"
    "need \<le> max_sectors" "sectors_at b i need = (off, n, b1)"
    "f = rewritten b1 i off n need c payload (nat (unix_sec now mod 2 ^ 32))"
proof -
  obtain payload where p: "packed co c data = Inr payload" "\<not> max_sectors < sectors_for (5 + length payload)"
    using assms by (auto simp: set_at_def and_then_Inr Let_def split: if_splits)
  obtain off n b1 where q: "sectors_at b i (sectors_for (5 + length payload)) = (off, n, b1)" by (metis prod_cases3)
  show thesis
    by (rule that [OF p(1) refl _ q]) (use assms p q in \<open>simp_all add: set_at_def rewritten_def Let_def\<close>)
qed

lemma set_at_room:
  assumes "region_ok b" and "fits_header b" and "i < 1024" and "sectors_at b i need = (off, n, b1)"
    and "need = sectors_for (5 + length payload)"
  shows "1 \<le> need" "5 + length payload \<le> need * sector" "room b1 i off n payload"
proof -
  show need: "1 \<le> need" "5 + length payload \<le> need * sector"
    using sectors_for_bounds(1) [of "5 + length payload"] unfolding assms(5) by (auto simp: sector_def)
  note pf = sectors_at_facts [OF assms(1-4) need(1)]
  have "5 + length payload \<le> n * sector" using need(2) pf(3) by (meson le_trans mult_le_mono1)
  then show "room b1 i off n payload" using assms(3) pf(1,4) by (simp add: room_def)
qed

text \<open>How much a file grows.\<close>

lemma set_at_length:
  assumes "region_ok b" and "fits_header b" and "i < 1024" and "set_at co b i c data now = Inr f"
  shows "length f \<le> length b + (max_sectors + 1) * sector"
proof -
  obtain payload need off n b1 where p: "need = sectors_for (5 + length payload)" "need \<le> max_sectors"
    "sectors_at b i need = (off, n, b1)" "f = rewritten b1 i off n need c payload (nat (unix_sec now mod 2 ^ 32))"
    using set_at_Inr [OF assms(4)] by metis
  have "length f = length b1"
    unfolding p(4) by (rule length_rewritten [OF set_at_room(3) [OF assms(1-3) p(3,1)]])
  moreover have "need * sector \<le> max_sectors * sector" by (rule mult_le_mono1 [OF p(2)])
  moreover have "length b1 \<le> length b + sector + need * sector"
    using p(3) sectors_for_bounds [of "length b"] by (auto simp: sectors_at_def Let_def split: if_splits)
  ultimately show ?thesis unfolding add_mult_distrib by linarith
qed

lemma set_at_refines:
  assumes ok: "region_ok b" and small: "fits_header b" and i: "i < 1024" and set: "set_at co b i c data now = Inr f"
    and codec: "codec_ok co data" and len: "length data \<le> max_chunk"
  shows "region_ok f \<and> (\<forall>j < 1024. chunk_at co f j = (if j = i then Inr (c, data) else chunk_at co b j))"
proof -
  obtain payload need off n b1 where p: "packed co c data = Inr payload" "need = sectors_for (5 + length payload)"
    "need \<le> max_sectors" "sectors_at b i need = (off, n, b1)"
    "f = rewritten b1 i off n need c payload (nat (unix_sec now mod 2 ^ 32))"
    using set_at_Inr [OF set] .
  note need = set_at_room(1,2) [OF ok small i p(4,2)] and room = set_at_room(3) [OF ok small i p(4,2)]
  note pf = sectors_at_facts [OF ok small i p(4) need(1)]
  obtain z where z: "b1 = b @ replicate z 0" using pf(5) by blast
  note lf = length_rewritten [OF room, of need c "nat (unix_sec now mod 2 ^ 32)", folded p(5)]
  note own = own_slices [OF room, of need c "nat (unix_sec now mod 2 ^ 32)", folded p(5)]
  have head: "header_size \<le> length b" using ok by (simp add: region_ok_def)
  have loc_b1: "loc b1 j = loc b j" if "j < 1024" for j
    unfolding loc_def z using that head by (subst slice_append) (simp_all add: header_size_def sector_def)
  have loc_f: "loc f j = (if j = i then off * 256 + need else loc b j)" if "j < 1024" for j
  proof -
    have "off * 256 + need < 2 ^ 32" using pf(2) p(3) by (simp add: max_sectors_def)
    then show ?thesis using loc_rewritten [OF room that, of need c] loc_b1 [OF that] by (simp add: p(5))
  qed
  have at_i: "loc_off f i = off" "loc_n f i = need"
    using loc_f [OF i] p(3) by (simp_all add: loc_off_def loc_n_def max_sectors_def)
  have at_j: "loc_off f j = loc_off b j" "loc_n f j = loc_n b j" if "j < 1024" "j \<noteq> i" for j
    using loc_f [OF that(1)] that(2) by (simp_all add: loc_off_def loc_n_def)
  have grown: "length b \<le> length f" "sectors_for (length b) \<le> sectors_for (length f)"
    using lf z sectors_for_mono [of "length b" "length f"] by simp_all
  have "sectors_for ((off + n) * sector) \<le> sectors_for (length f)" unfolding lf by (rule sectors_for_mono [OF pf(4)])
  then have end_i: "off + need \<le> sectors_for (length f)" using pf(3) by (simp add: sectors_for_exact)
  have dlen_i: "data_len f i = 1 + length payload"
  proof -
    have "length payload < 2 ^ 31" using need(2) p(3) by (simp add: max_sectors_def sector_def)
    then show ?thesis using own(1) by (simp add: data_len_def at_i be_val_be_bytes)
  qed
  have "off * sector + need * sector \<le> length f" using pf(3,4) lf
    by (metis add_mult_distrib le_trans mult_le_mono1 nat_add_left_cancel_le)
  then have chunk_i: "chunk_ok f i"
    using need end_i pf(1) by (simp add: chunk_ok_def at_i dlen_i)
  have own_chunk: "chunk_at co f i = Inr (c, data)"
  proof -
    have "off * sector + 4 < length f" using chunk_i by (simp add: chunk_ok_def at_i)
    then have "f ! (off * sector + 4) = c" using slice_nth [of "off * sector + 4" f] own(2) by simp
    then show ?thesis
      using chunk_at_ok [OF chunk_i, of co] unpack_packed [OF p(1) codec len] own(3) by (simp add: at_i dlen_i)
  qed
  have other: "chunk_ok f j \<and> chunk_at co f j = chunk_at co b j" if j: "j < 1024" "j \<noteq> i" "present b j" for j
  proof -
    let ?k = "loc_off b j * sector"
    have cj: "chunk_ok b j" using ok j by (simp add: region_ok_def)
    have "?k + loc_n b j * sector \<le> off * sector \<or> off * sector + n * sector \<le> ?k"
      using pf(6) [OF j] by (metis add_mult_distrib mult_le_mono1)
    moreover have "header_size \<le> ?k" using cj by (simp add: chunk_ok_def header_size_def)
    ultimately have same: "slice (?k + k) m f = slice (?k + k) m b"
      if "k + m \<le> loc_n b j * sector" "?k + k + m \<le> length b" for k m
      using slice_other_chunk [OF room, of "?k + k" m] that unfolding p(5) z by (auto simp: slice_append)
    have d: "1 \<le> data_len b j" "data_len b j \<le> loc_n b j * sector - 4" "?k + 4 + data_len b j \<le> length b"
      using cj by (simp_all add: chunk_ok_def)
    have dl: "data_len f j = data_len b j"
      unfolding data_len_def at_j(1) [OF j(1,2)] using same [of 0 4] d by simp
    have c4: "f ! (?k + 4) = b ! (?k + 4)"
      using same [of 4 1] d slice_nth [of "?k + 4" f] slice_nth [of "?k + 4" b] grown(1) by simp
    have body: "slice (?k + 5) (data_len b j - 1) f = slice (?k + 5) (data_len b j - 1) b"
      using same [of 5 "data_len b j - 1"] d by simp
    have cf: "chunk_ok f j"
      using cj grown by (simp add: chunk_ok_def at_j [OF j(1,2)] dl)
    show ?thesis
      using cf chunk_at_ok [OF cf, of co] chunk_at_ok [OF cj, of co] by (simp add: at_j [OF j(1,2)] dl c4 body [unfolded One_nat_def])
  qed
  have absent: "present f j = present b j \<and> (\<not> present b j \<longrightarrow> chunk_at co f j = chunk_at co b j)" if "j < 1024" "j \<noteq> i" for j
    using at_j [OF that] by (simp add: present_def chunk_at_def)
  have ok_j: "chunk_ok f j" if "j < 1024" "present f j" for j
  proof (cases "j = i")
    case False
    then show ?thesis using other [OF that(1) False] absent [OF that(1) False] that(2) by simp
  qed (simp add: chunk_i)
  have apart_i: "apart f i j" if "j < 1024" "j \<noteq> i" "present f j" for j
    using pf(6) [OF that(1,2)] absent [OF that(1,2)] that(3) pf(3) by (auto simp: apart_def at_i at_j [OF that(1,2)])
  have apart: "apart f j k" if "j < 1024" "k < 1024" "j \<noteq> k" "present f j" "present f k" for j k
  proof -
    consider "j = i" | "k = i" | "j \<noteq> i" "k \<noteq> i" by blast
    then show ?thesis
    proof cases
      case 3
      then have "present b j" "present b k" using absent [OF that(1)] absent [OF that(2)] that(4,5) by simp_all
      then have "apart b j k" using ok that(1-3) by (simp add: region_ok_def)
      then show ?thesis by (simp add: apart_def at_j [OF that(1) 3(1)] at_j [OF that(2) 3(2)])
    qed (use apart_i that in \<open>auto simp: apart_def\<close>)
  qed
  have "region_ok f" using head grown(1) ok_j apart by (simp add: region_ok_def)
  moreover have "chunk_at co f j = (if j = i then Inr (c, data) else chunk_at co b j)" if "j < 1024" for j
  proof (cases "j = i")
    case False
    then show ?thesis using other [OF that False] absent [OF that False] by (cases "present b j") simp_all
  qed (simp add: own_chunk)
  ultimately show ?thesis by blast
qed

subsection \<open>The map of chunks\<close>

text \<open>What a reader sees of a file: for each index the chunk's compression and data, or the error.\<close>

definition chunks_of :: "codec \<Rightarrow> bytes \<Rightarrow> nat \<Rightarrow> region_error + 8 word \<times> bytes" where
  "chunks_of co b i = (if i < 1024 then chunk_at co b i else Inl No_Chunk)"

lemma chunk_chunks_of: "chunk co b cx cz = chunks_of co b (index cx cz)"
  by (simp add: chunk_def chunks_of_def index_less)

lemma parse_empty: "region_parse [] = Inr (replicate header_size 0)"
    "chunks_of co (replicate header_size 0) = (\<lambda>_. Inl No_Chunk)"
  by (auto simp: region_parse_def chunks_of_def chunk_at_empty)

lemma set_chunk_one:
  assumes "region_ok b" and "fits_header b" and "codec_ok co data" and "length data \<le> max_chunk"
    and "set_chunk co b cx cz c data now = Inr f"
  shows "region_ok f \<and> chunks_of co f = (chunks_of co b)(index cx cz := Inr (c, data))"
proof -
  have "region_ok f \<and> (\<forall>j < 1024. chunk_at co f j = (if j = index cx cz then Inr (c, data) else chunk_at co b j))"
    using set_at_refines [OF assms(1,2) index_less] assms(3-5) by (simp add: set_chunk_def)
  then show ?thesis by (auto simp: chunks_of_def fun_eq_iff index_less)
qed

text \<open>C23: A region file implements a map from its 1024 chunks to their data: on a file whose chunks
  are complete and in sectors of their own, \<open>SetChunk\<close> sets exactly the chunk it was given, every
  other chunk reads as before (errors included), and the new file is again such a file, so that
  any sequence of writes can follow. The compression libraries read back what they wrote, and
  the file is shorter than the 64 GiB a location can address.\<close>

theorem set_chunk_updates_one_chunk:
  assumes "region_ok b" and "fits_header b" and "codec_ok co data" and "length data \<le> max_chunk"
    and "set_chunk co b cx cz c data now = Inr f"
  shows "region_ok f \<and> chunks_of co f = (chunks_of co b)(index cx cz := Inr (c, data))"
  using assms by (rule set_chunk_one)

definition sample_codec :: codec where
  "sample_codec = \<lparr>pack = \<lambda>c data. Inr (c # data), unpack = \<lambda>c p. Inr (tl p, Eof)\<rparr>"

lemma sample_codec_ok: "codec_ok sample_codec data"
  by (simp add: codec_ok_def sample_codec_def)

theorem set_chunk_updates_one_chunk_witness:
  "\<exists>f. set_chunk sample_codec (replicate header_size 0) (- 3) 40 c_zlib [1, 2, 3] 0 = Inr f
     \<and> region_ok f \<and> chunk sample_codec f 29 8 = Inr (c_zlib, [1, 2, 3])"
proof -
  have i: "index (- 3) 40 = index 29 8" by (simp add: index_def)
  have p: "packed sample_codec c_zlib [1, 2, 3] = Inr [c_zlib, 1, 2, 3]"
    by (simp add: packed_def sample_codec_def)
  have n: "sectors_for (5 + length [c_zlib, 1, 2, 3]) = 1" by (simp add: sectors_for_def sector_def)
  obtain f where f: "set_chunk sample_codec (replicate header_size 0) (- 3) 40 c_zlib [1, 2, 3] 0 = Inr f"
    by (cases "sectors_at (replicate header_size 0) (index (- 3) 40) 1")
      (simp add: set_chunk_def set_at_def p n [simplified] max_sectors_def)
  have "fits_header (replicate header_size 0)" by (simp add: fits_header_def header_size_def sector_def)
  from set_chunk_updates_one_chunk [OF region_ok_empty this sample_codec_ok _ f]
  have "region_ok f \<and> chunks_of sample_codec f = (chunks_of sample_codec (replicate header_size 0))
      (index (- 3) 40 := Inr (c_zlib, [1, 2, 3]))"
    by (simp add: max_chunk_def)
  then show ?thesis using f by (simp add: chunk_chunks_of i)
qed

end
