(* ===== verification/Entities.thy ===== *)
theory Entities
  imports Region Go_Float
begin

section \<open>Taking an entity out of a chunk (internal/region/region.go)\<close>

text \<open>
  \<open>RemoveEntity\<close> and \<open>RemoveBlockEntity\<close> on a chunk's NBT, which Go changes in place: here they
  return the chunk as it is then. An entity rides another when it is in the other's
  \<open>Passengers\<close>; \<open>census\<close> lists the entities of a list with what each rides. What is shown: the
  entities taken are those that match and ride nothing that matches, the others stay where they
  were, the riders of those taken follow in the chunk's own list, and nothing else of the chunk
  changes.
\<close>

subsection \<open>Matching\<close>

text \<open>\<open>e.String("id")\<close> with its result for a missing key.\<close>

definition string_or_empty :: "compound \<Rightarrow> string \<Rightarrow> string" where
  "string_or_empty e k = (case get_string e k of Some s \<Rightarrow> s | None \<Rightarrow> [])"

definition int_or_zero :: "compound \<Rightarrow> string \<Rightarrow> int" where
  "int_or_zero e k = (case get_int e k of Some n \<Rightarrow> n | None \<Rightarrow> 0)"

definition get_list :: "compound \<Rightarrow> string \<Rightarrow> (8 word \<times> nbt list) option" where
  "get_list e k = (case get e k of Some (NList t xs) \<Rightarrow> Some (t, xs) | _ \<Rightarrow> None)"

text \<open>One coordinate: in the block and, with a position, within a hundredth of a block of it.\<close>

definition coordinate_matches :: "nbt \<Rightarrow> int \<Rightarrow> double option \<Rightarrow> bool" where
  "coordinate_matches v want pos = (case v of
      NDouble w \<Rightarrow>
        int_floor (double_of w) = Some want
        \<and> (case pos of None \<Rightarrow> True
           | Some p \<Rightarrow> \<not> double_less (round_ratio 51 10000) (double_abs (double_sub (double_of w) p)))
    | _ \<Rightarrow> False)"

definition entity_matches :: "string \<Rightarrow> int \<times> int \<times> int \<Rightarrow> double list \<Rightarrow> compound \<Rightarrow> bool" where
  "entity_matches typ xyz pos e = (case xyz of (x, y, z) \<Rightarrow>
     let near = (\<lambda>i. if length pos = 3 then Some (pos ! i) else None)
     in string_or_empty e ''id'' = typ
        \<and> (case get_list e ''Pos'' of
             Some (_, [a, b, c]) \<Rightarrow> coordinate_matches a x (near 0) \<and> coordinate_matches b y (near 1) \<and> coordinate_matches c z (near 2)
           | _ \<Rightarrow> False))"

subsection \<open>Taking\<close>

text \<open>
  The function \<open>take\<close> of \<open>RemoveEntity\<close> with what it appends to \<open>freed\<close>: the items kept, how many
  were taken, the riders set free.
\<close>

lemma size_get: "get e k = Some v \<Longrightarrow> size v < size_list (size_prod (\<lambda>_. 0) size) e"
  by (induction e) (auto simp: get_def split: if_splits)

definition riders :: "compound \<Rightarrow> nbt list" where
  "riders e = (case get_list e ''Passengers'' of Some (_, rs) \<Rightarrow> rs | None \<Rightarrow> [])"

text \<open>\<open>if m > 0 { e["Passengers"] = kept }\<close>.\<close>

definition keep_riders :: "compound \<Rightarrow> nbt list \<Rightarrow> nat \<Rightarrow> compound" where
  "keep_riders e kept m = (case get_list e ''Passengers'' of
      Some (t, _) \<Rightarrow> if 0 < m then put ''Passengers'' (NList t kept) e else e
    | None \<Rightarrow> e)"

lemma size_riders: "size_list size (riders e) \<le> size_list (size_prod (\<lambda>_. 0) size) e"
proof (cases "get e ''Passengers''")
  case (Some v)
  then show ?thesis using size_get [OF Some] by (cases v) (simp_all add: riders_def get_list_def)
qed (simp add: riders_def get_list_def)

function (sequential) take_items :: "(compound \<Rightarrow> bool) \<Rightarrow> nbt list \<Rightarrow> nbt list \<times> nat \<times> nbt list" where
  "take_items p [] = ([], 0, [])"
| "take_items p (NCompound e # xs) =
     (let below = take_items p (riders e); rest = take_items p xs
      in case (below, rest) of ((kept, m, fr), (out, n, freed)) \<Rightarrow>
        if p e then (out, n + 1, riders e @ freed)
        else (NCompound (keep_riders e kept m) # out, m + n, fr @ freed))"
| "take_items p (x # xs) = (case take_items p xs of (out, n, freed) \<Rightarrow> (x # out, n, freed))"
  by pat_completeness auto
termination
  by (relation "measure (\<lambda>(p, xs). size_list size xs)") (simp_all add: less_Suc_eq_le le_SucI trans_le_add1 size_riders)

definition remove_entity ::
  "compound \<Rightarrow> string \<Rightarrow> int \<times> int \<times> int \<Rightarrow> double list \<Rightarrow> nat \<times> compound" where
  "remove_entity c typ xyz pos = (case get_list c ''Entities'' of
      None \<Rightarrow> (0, c)
    | Some (t, xs) \<Rightarrow> (case take_items (entity_matches typ xyz pos) xs of (kept, n, freed) \<Rightarrow>
        if n = 0 then (0, c)
        else let items = kept @ freed
             in (n, put ''Entities'' (NList (if items \<noteq> [] then tag_compound else t) items) c)))"

definition block_entity_matches :: "string \<Rightarrow> int \<times> int \<times> int \<Rightarrow> nbt \<Rightarrow> bool" where
  "block_entity_matches typ xyz v = (case v of
      NCompound e \<Rightarrow> string_or_empty e ''id'' = typ
        \<and> (int_or_zero e ''x'', int_or_zero e ''y'', int_or_zero e ''z'') = xyz
    | _ \<Rightarrow> False)"

definition remove_block_entity :: "compound \<Rightarrow> string \<Rightarrow> int \<times> int \<times> int \<Rightarrow> bool \<times> compound" where
  "remove_block_entity c typ xyz = (case get_list c ''block_entities'' of
      None \<Rightarrow> (False, c)
    | Some (t, xs) \<Rightarrow>
        if list_ex (block_entity_matches typ xyz) xs
        then (True, put ''block_entities'' (NList t (filter (\<lambda>v. \<not> block_entity_matches typ xyz v) xs)) c)
        else (False, c))"

subsection \<open>Entities and what they ride\<close>

definition without :: "string \<Rightarrow> compound \<Rightarrow> compound" where
  "without k e = filter (\<lambda>(k', _). k' \<noteq> k) e"

lemma without_put: "without k (put k v e) = without k e"
  by (induction k v e rule: put.induct) (auto simp: without_def)

definition thing_matches :: "(compound \<Rightarrow> bool) \<Rightarrow> nbt \<Rightarrow> bool" where
  "thing_matches p x = (case x of NCompound e \<Rightarrow> p e | _ \<Rightarrow> False)"

definition riders_of :: "nbt \<Rightarrow> nbt list" where
  "riders_of x = (case x of NCompound e \<Rightarrow> riders e | _ \<Rightarrow> [])"

text \<open>Everything in a list, riders after what they ride: each item with what it rides, outermost first.\<close>

function (sequential) census :: "compound list \<Rightarrow> nbt list \<Rightarrow> (compound list \<times> nbt) list" where
  "census vs [] = []"
| "census vs (NCompound e # xs) = (vs, NCompound e) # census (vs @ [e]) (riders e) @ census vs xs"
| "census vs (x # xs) = (vs, x) # census vs xs"
  by pat_completeness auto
termination
  by (relation "measure (\<lambda>(vs, xs). size_list size xs)") (simp_all add: less_Suc_eq_le le_SucI trans_le_add1 size_riders)

text \<open>What stays in its place, and what is taken: what matches, unless something it rides is taken itself.\<close>

definition stays :: "(compound \<Rightarrow> bool) \<Rightarrow> compound list \<times> nbt \<Rightarrow> bool" where
  "stays p = (\<lambda>(vs, x). \<not> list_ex p vs \<and> \<not> thing_matches p x)"

definition taken :: "(compound \<Rightarrow> bool) \<Rightarrow> nbt list \<Rightarrow> nbt list" where
  "taken p xs = map snd (filter (\<lambda>(vs, x). \<not> list_ex p vs \<and> thing_matches p x) (census [] xs))"

text \<open>An entity's own data: all its fields, with the list of its riders emptied. The entries of a census by
  that data, with the order and the nesting of the census.\<close>

definition own_fields :: "compound \<Rightarrow> string \<Rightarrow> nbt option" where
  "own_fields e k = (case get e k of
      Some (NList t xs) \<Rightarrow> Some (NList t (if k = ''Passengers'' then [] else xs))
    | v \<Rightarrow> v)"

definition own_data :: "nbt \<Rightarrow> nbt + (string \<Rightarrow> nbt option)" where
  "own_data x = (case x of NCompound e \<Rightarrow> Inr (own_fields e) | _ \<Rightarrow> Inl x)"

definition outline :: "(compound list \<times> nbt) list \<Rightarrow> ((string \<Rightarrow> nbt option) list \<times> (nbt + (string \<Rightarrow> nbt option))) list" where
  "outline = map (\<lambda>(vs, x). (map own_fields vs, own_data x))"

lemma outline_simps [simp]:
  "outline [] = []" "outline ((vs, x) # cs) = (map own_fields vs, own_data x) # outline cs"
  "outline (cs @ ds) = outline cs @ outline ds"
  by (simp_all add: outline_def)

lemma census_append: "census vs (xs @ ys) = census vs xs @ census vs ys"
  by (induction vs xs rule: census.induct) simp_all

lemma outline_census_cong:
  "map own_fields vs = map own_fields ws \<Longrightarrow> outline (census vs xs) = outline (census ws xs)"
proof (induction vs xs arbitrary: ws rule: census.induct)
  case (2 vs e xs)
  show ?case using 2(1) [of "ws @ [e]"] 2(2) [of ws] 2(3) by simp
qed simp_all

lemma riding_a_match: "list_ex p vs \<Longrightarrow> filter (\<lambda>(ws, x). \<not> list_ex p ws \<and> q x) (census vs xs) = []"
  by (induction vs xs rule: census.induct) (simp_all add: list_ex_iff)

lemma take_nothing: "take_items p xs = (out, 0, freed) \<Longrightarrow> out = xs \<and> freed = []"
proof (induction p xs arbitrary: out freed rule: take_items.induct)
  case (2 p e xs)
  obtain kept m fr where b: "take_items p (riders e) = (kept, m, fr)" by (metis prod_cases3)
  obtain o' n f where r: "take_items p xs = (o', n, f)" by (metis prod_cases3)
  have "\<not> p e" "m = 0" "n = 0" using 2(3) b r by (auto simp: Let_def split: if_splits)
  then show ?case using 2 b r by (auto simp: keep_riders_def split: option.splits)
qed (auto split: prod.splits)

lemma riders_put: "riders (put ''Passengers'' (NList t xs) e) = xs"
  by (simp add: riders_def get_list_def get_def get_put)

lemma own_fields_put: "get_list e ''Passengers'' = Some (t, ys) \<Longrightarrow> own_fields (put ''Passengers'' (NList t xs) e) = own_fields e"
  by (rule ext) (auto simp: own_fields_def get_list_def get_def get_put split: option.splits nbt.splits)

lemma keep_riders_ok:
  assumes "take_items p (riders e) = (kept, m, fr)"
  shows "own_fields (keep_riders e kept m) = own_fields e \<and> riders (keep_riders e kept m) = kept"
proof (cases "get_list e ''Passengers''")
  case None
  then show ?thesis using assms by (auto simp: keep_riders_def riders_def)
next
  case (Some a)
  obtain t ys where a: "a = (t, ys)" by (cases a)
  show ?thesis
  proof (cases m)
    case 0
    then have "kept = riders e" using take_nothing assms by blast
    then show ?thesis using Some a 0 by (simp add: keep_riders_def)
  next
    case (Suc k)
    then show ?thesis using Some a by (simp add: keep_riders_def own_fields_put riders_put)
  qed
qed

text \<open>What \<open>take\<close> keeps, frees and counts.\<close>

lemma take_items_census:
  assumes "take_items p xs = (out, n, freed)" and "\<not> list_ex p vs" and "map own_fields ws = map own_fields vs"
  shows "outline (census ws out) = outline (filter (stays p) (census vs xs))"
    and "freed = concat (map (\<lambda>(us, x). riders_of x) (filter (\<lambda>(us, x). \<not> list_ex p us \<and> thing_matches p x) (census vs xs)))"
    and "n = length (filter (\<lambda>(us, x). \<not> list_ex p us \<and> thing_matches p x) (census vs xs))"
proof -
  let ?hit = "\<lambda>(us, x). \<not> list_ex p us \<and> thing_matches p x"
  have "outline (census ws out) = outline (filter (stays p) (census vs xs))
     \<and> freed = concat (map (\<lambda>(us, x). riders_of x) (filter ?hit (census vs xs)))
     \<and> n = length (filter ?hit (census vs xs))"
    using assms
  proof (induction p xs arbitrary: out n freed vs ws rule: take_items.induct)
    case (2 p e xs)
    obtain kept m fr where b: "take_items p (riders e) = (kept, m, fr)" by (metis prod_cases3)
    obtain o' n' f where r: "take_items p xs = (o', n', f)" by (metis prod_cases3)
    note rest = 2(2) [OF refl r 2(4,5)]
    show ?case
    proof (cases "p e")
      case True
      then have t: "out = o'" "n = n' + 1" "freed = riders e @ f" using 2(3) b r by (simp_all add: Let_def)
      have "list_ex p (vs @ [e])" using True by simp
      note below = riding_a_match [OF this, of "\<lambda>x. \<not> thing_matches p x"] riding_a_match [OF this, of "thing_matches p"]
      show ?thesis using rest True 2(4) below unfolding t
        by (simp add: stays_def thing_matches_def riders_of_def)
    next
      case False
      then have t: "out = NCompound (keep_riders e kept m) # o'" "n = m + n'" "freed = fr @ f"
        using 2(3) b r by (simp_all add: Let_def)
      define e' where "e' = keep_riders e kept m"
      have k: "own_fields e' = own_fields e" "riders e' = kept" using keep_riders_ok [OF b] by (simp_all add: e'_def)
      have "\<not> list_ex p (vs @ [e])" "map own_fields (ws @ [e']) = map own_fields (vs @ [e])"
        using False 2(4,5) k by simp_all
      note below = 2(1) [OF b this]
      show ?thesis using rest below False 2(4,5) k unfolding t e'_def [symmetric]
        by (simp add: stays_def thing_matches_def own_data_def)
    qed
  qed (auto split: prod.splits simp: thing_matches_def stays_def own_data_def)
  then show "outline (census ws out) = outline (filter (stays p) (census vs xs))"
    and "freed = concat (map (\<lambda>(us, x). riders_of x) (filter ?hit (census vs xs)))"
    and "n = length (filter ?hit (census vs xs))" by simp_all
qed

subsection \<open>Nothing else is lost\<close>

definition entity_list :: "compound \<Rightarrow> nbt list" where
  "entity_list c = (case get_list c ''Entities'' of Some (_, xs) \<Rightarrow> xs | None \<Rightarrow> [])"

text \<open>C24: \<open>RemoveEntity\<close> takes the entities that match (type, block and exact position) and ride nothing that
  matches, and returns how many those are; with none the chunk stays as it is. Otherwise the chunk's
  list holds, in this order, every entity that does not match and rides nothing that matches, with
  its own data, riding what it rode before, in the order of before; then the riders of the entities
  taken, in the chunk's own list with all that rides them. No other part of the chunk changes.\<close>

theorem only_matching_entities_go:
  "case remove_entity c typ xyz pos of (n, c') \<Rightarrow>
     let p = entity_matches typ xyz pos; gone = taken p (entity_list c)
     in n = length gone
      \<and> (if gone = [] then c' = c
         else without ''Entities'' c' = without ''Entities'' c
          \<and> get c' ''Entities'' = Some (NList (if entity_list c' = [] then fst (the (get_list c ''Entities'')) else tag_compound) (entity_list c'))
          \<and> outline (census [] (entity_list c')) =
              outline (filter (stays p) (census [] (entity_list c))) @ outline (census [] (concat (map riders_of gone))))"
proof (cases "get_list c ''Entities''")
  case None
  then show ?thesis by (simp add: remove_entity_def entity_list_def taken_def Let_def)
next
  case (Some l)
  let ?p = "entity_matches typ xyz pos"
  obtain t xs where l: "l = (t, xs)" by (cases l)
  obtain kept n freed where k: "take_items ?p xs = (kept, n, freed)" by (metis prod_cases3)
  have "outline (census [] kept) = outline (filter (stays ?p) (census [] xs))"
    by (rule take_items_census(1) [OF k]) simp_all
  moreover have "freed = concat (map riders_of (taken ?p xs))"
    using take_items_census(2) [OF k, of "[]" "[]"] by (simp add: taken_def case_prod_unfold comp_def)
  moreover have n: "n = length (taken ?p xs)"
    using take_items_census(3) [OF k, of "[]" "[]"] by (simp add: taken_def)
  moreover have xs: "entity_list c = xs" using Some l by (simp add: entity_list_def)
  moreover have "entity_list (put ''Entities'' (NList t' ys) c) = ys" "get (put ''Entities'' (NList t' ys) c) ''Entities'' = Some (NList t' ys)"
    for t' ys by (simp_all add: entity_list_def get_list_def get_def get_put)
  ultimately show ?thesis using Some l k
    by (auto simp: remove_entity_def Let_def without_put census_append)
qed

text \<open>Where an entity goes, a rider of it that matches too is set free and stays.\<close>

definition pig_at_origin :: "(string \<times> nbt) list \<Rightarrow> nbt" where
  "pig_at_origin rs = NCompound (rs @ [(''Pos'', NList tag_double [NDouble 0, NDouble 0, NDouble 0]), (''id'', NString ''pig'')])"

lemma matching_rider_stays:
  "remove_entity [(''Entities'', NList tag_compound [pig_at_origin [(''Passengers'', NList tag_compound [pig_at_origin []])]])]
     ''pig'' (0, 0, 0) [] = (1, [(''Entities'', NList tag_compound [pig_at_origin []])])"
proof -
  have z: "coordinate_matches (NDouble 0) 0 None"
    by (simp add: coordinate_matches_def double_of_def Let_def)
  have p: "entity_matches ''pig'' (0, 0, 0) [] (rs @ [(''Pos'', NList tag_double [NDouble 0, NDouble 0, NDouble 0]), (''id'', NString ''pig'')])"
    if "map_of rs ''Pos'' = None" "map_of rs ''id'' = None" for rs
    using that z by (simp add: entity_matches_def string_or_empty_def get_string_def get_list_def get_def map_add_def)
  show ?thesis
    using p [of "[(''Passengers'', NList tag_compound [pig_at_origin []])]"]
    by (simp add: remove_entity_def pig_at_origin_def get_list_def get_def riders_def map_add_def Let_def split: prod.splits)
qed

text \<open>\<open>RemoveBlockEntity\<close> takes exactly the block entities of that type and place out of the
  chunk, keeps the order of the others and leaves the rest of the chunk alone; it reports
  whether there was one.\<close>

definition block_entities :: "compound \<Rightarrow> nbt list" where
  "block_entities c = (case get_list c ''block_entities'' of Some (_, xs) \<Rightarrow> xs | None \<Rightarrow> [])"

lemma only_matching_block_entities_go:
  "case remove_block_entity c typ xyz of (found, c') \<Rightarrow>
     without ''block_entities'' c' = without ''block_entities'' c
   \<and> block_entities c' = filter (\<lambda>v. \<not> block_entity_matches typ xyz v) (block_entities c)
   \<and> found = (block_entities c' \<noteq> block_entities c)"
proof (cases "get_list c ''block_entities''")
  case (Some l)
  obtain t xs where l: "l = (t, xs)" by (cases l)
  show ?thesis
  proof (cases "list_ex (block_entity_matches typ xyz) xs")
    case True
    then have "filter (\<lambda>v. \<not> block_entity_matches typ xyz v) xs \<noteq> xs"
      by (auto simp: filter_id_conv list_ex_iff)
    with True show ?thesis using Some l
      by (simp add: remove_block_entity_def block_entities_def without_put get_list_def get_def get_put)
  next
    case False
    then have "filter (\<lambda>v. \<not> block_entity_matches typ xyz v) xs = xs"
      by (auto simp: filter_id_conv list_ex_iff)
    with False show ?thesis using Some l by (simp add: remove_block_entity_def block_entities_def)
  qed
qed (simp add: remove_block_entity_def block_entities_def)

end
