(* ===== verification/Entity_Fix.thy ===== *)
theory Entity_Fix
  imports Entities
begin

section \<open>Removing an entity from a stopped server's world (internal/agent/removeentity.go)\<close>

text \<open>
  The crash helper's fix: the request's check, the region file that saves the entity, and the
  file with the entity taken out. The data directory is a map from names to files; a read that
  fails (a link, a device, a file over the limit) is a constructor, and whether the write
  succeeds is an argument. Error texts are constructors. The handler around it (the stopped
  container, the backup before, the audit log) is not modelled.
\<close>

subsection \<open>Requests\<close>

record fix_request =
  rq_what :: string
  rq_type :: string
  rq_dimension :: string
  rq_level :: string
  rq_x :: int
  rq_y :: int
  rq_z :: int
  rq_pos :: "double list"

datatype request_error = Say_What | Not_An_Id | Not_A_World | Outside_World | Three_Numbers | Not_A_Dimension
  | Outside_Block

definition lower_digit :: "char \<Rightarrow> bool" where
  "lower_digit c \<longleftrightarrow> (97 \<le> code c \<and> code c \<le> 122) \<or> is_digit c"

text \<open>\<open>reResourceID\<close> and \<open>reLevelName\<close>.\<close>

definition resource_id :: "string \<Rightarrow> bool" where
  "resource_id s = (case cut CHR '':'' s of (ns, path, found) \<Rightarrow>
     found \<and> 1 \<le> length ns \<and> length ns \<le> 64 \<and> list_all (\<lambda>c. lower_digit c \<or> c \<in> set ''_.-'') ns
     \<and> 1 \<le> length path \<and> length path \<le> 200 \<and> list_all (\<lambda>c. lower_digit c \<or> c \<in> set ''_./-'') path)"

definition level_name_ok :: "string \<Rightarrow> bool" where
  "level_name_ok s \<longleftrightarrow> 1 \<le> length s \<and> length s \<le> 64
     \<and> list_all (\<lambda>c. lower_digit c \<or> (65 \<le> code c \<and> code c \<le> 90) \<or> c \<in> set ''_.+ -'') s"

definition max_world_xz :: int where "max_world_xz = 30000000"
definition max_world_y :: int where "max_world_y = 4096"

definition go_abs :: "int \<Rightarrow> int" where
  "go_abs n = (if n < 0 then wrap64 (- n) else n)"

text \<open>A coordinate of the exact position, against its block.\<close>

definition pos_outside :: "int \<Rightarrow> double \<Rightarrow> bool" where
  "pos_outside n v = (let b = of_int_double n
     in is_nan v \<or> double_less v (double_sub b (round_ratio 1 100)) \<or> double_less (double_add b (round_ratio 101 100)) v)"

definition valid_entity_request :: "fix_request \<Rightarrow> request_error option" where
  "valid_entity_request r =
     (if rq_what r \<noteq> ''entity'' \<and> rq_what r \<noteq> ''block_entity'' then Some Say_What
      else if \<not> resource_id (rq_type r) \<or> \<not> resource_id (rq_dimension r) then Some Not_An_Id
      else if rq_level r \<noteq> [] \<and> \<not> level_name_ok (rq_level r) then Some Not_A_World
      else if max_world_xz < go_abs (rq_x r) \<or> max_world_xz < go_abs (rq_z r) \<or> max_world_y < go_abs (rq_y r)
        then Some Outside_World
      else if rq_pos r \<noteq> [] \<and> (length (rq_pos r) \<noteq> 3 \<or> rq_what r \<noteq> ''entity'') then Some Three_Numbers
      else if list_ex (\<lambda>p. p \<in> {[], ''.'', ''..''}) (split_on CHR ''/'' (fst (snd (cut CHR '':'' (rq_dimension r)))))
        then Some Not_A_Dimension
      else if list_ex (\<lambda>(n, v). pos_outside n v) (zip [rq_x r, rq_y r, rq_z r] (rq_pos r)) then Some Outside_Block
      else None)"

text \<open>The smallest \<open>int\<close> has no absolute value, and passes for a place inside the world.\<close>

lemma smallest_int_is_inside: "\<not> max_world_xz < go_abs (- (2 ^ 63))"
  by (simp add: go_abs_def max_world_xz_def wrap64_def)

subsection \<open>Where a dimension is saved\<close>

definition paper_world :: "string \<Rightarrow> string \<Rightarrow> string" where
  "paper_world level dimension =
     (if dimension = ''minecraft:overworld'' then level
      else if dimension = ''minecraft:the_nether'' then level @ ''_nether''
      else if dimension = ''minecraft:the_end'' then level @ ''_the_end''
      else case cut CHR '':'' dimension of (ns, path, _) \<Rightarrow>
        level @ ''_'' @ ns @ ''_'' @ map (\<lambda>c. if c = CHR ''/'' then CHR ''_'' else c) path)"

definition dimension_folders :: "string \<Rightarrow> string \<Rightarrow> bool \<Rightarrow> string list" where
  "dimension_folders level dimension own = (case cut CHR '':'' dimension of (ns, path, _) \<Rightarrow>
     let (paper, world) =
       (if dimension = ''minecraft:overworld'' then ([], level)
        else if dimension = ''minecraft:the_nether'' then (paper_world level dimension @ ''/DIM-1'', level @ ''/DIM-1'')
        else if dimension = ''minecraft:the_end'' then (paper_world level dimension @ ''/DIM1'', level @ ''/DIM1'')
        else (paper_world level dimension @ ''/dimensions/'' @ ns @ ''/'' @ path, []))
     in [level @ ''/dimensions/'' @ ns @ ''/'' @ path]
        @ (if own \<and> paper \<noteq> [] then [paper] else [])
        @ (if world \<noteq> [] then [world] else []))"

subsection \<open>The fix\<close>

datatype disk_file = Regular bytes | Unreadable | Not_Regular

type_synonym files = "string \<Rightarrow> disk_file option"

datatype fix_error =
    Plugin_World
  | Could_Not_Read string
  | Region_Unreadable string region_error
  | Chunk_Unreadable string region_error
  | Chunk_Damaged string nbt_error
  | Encode_Failed write_error
  | Set_Failed region_error
  | No_File string
  | Gone "string list"
  | Could_Not_Write string

record entity_fix =
  fx_req :: fix_request
  fx_file :: string
  fx_cx :: int
  fx_cz :: int

definition max_region_file :: nat where "max_region_file = 2 ^ 30"

definition read_file :: "files \<Rightarrow> string \<Rightarrow> nat \<Rightarrow> bytes option" where
  "read_file fs name limit = (case fs name of
      Some (Regular b) \<Rightarrow> if limit < length b then None else Some b
    | _ \<Rightarrow> None)"

text \<open>What \<open>RemoveEntity\<close> or \<open>RemoveBlockEntity\<close> leaves of the chunk, if it found anything.\<close>

definition take_out :: "fix_request \<Rightarrow> compound \<Rightarrow> compound option" where
  "take_out r c =
     (let xyz = (rq_x r, rq_y r, rq_z r);
          (n, c1) = (if rq_what r = ''entity'' then remove_entity c (rq_type r) xyz (rq_pos r) else (1, c))
      in if rq_what r = ''entity'' \<and> n = 0 then None
         else let (found, c2) = (if rq_what r = ''block_entity'' then remove_block_entity c1 (rq_type r) xyz else (True, c1))
              in if found then Some c2 else None)"

definition fix_apply :: "codec \<Rightarrow> files \<Rightarrow> entity_fix \<Rightarrow> gotime \<Rightarrow> fix_error + bytes option" where
  "fix_apply co fs f now = (case read_file fs (fx_file f) max_region_file of
      None \<Rightarrow> Inl (Could_Not_Read (fx_file f))
    | Some raw \<Rightarrow> (case region_parse raw of
        Inl e \<Rightarrow> Inl (Region_Unreadable (fx_file f) e)
      | Inr b \<Rightarrow> (case chunk co b (fx_cx f) (fx_cz f) of
          Inl e \<Rightarrow> if e = No_Chunk then Inr None else Inl (Chunk_Unreadable (fx_file f) e)
        | Inr (compression, data) \<Rightarrow> (case decode_chunk data of
            Inl e \<Rightarrow> Inl (Chunk_Damaged (fx_file f) e)
          | Inr c \<Rightarrow> (case take_out (fx_req f) c of
              None \<Rightarrow> Inr None
            | Some c' \<Rightarrow> (case encode_chunk c' of
                Inl e \<Rightarrow> Inl (Encode_Failed e)
              | Inr data \<Rightarrow> (case set_chunk co b (fx_cx f) (fx_cz f) compression data now of
                  Inl e \<Rightarrow> Inl (Set_Failed e)
                | Inr b' \<Rightarrow> Inr (Some b'))))))))"

text \<open>The loop over the folders; \<open>looked\<close> are the files that did not save it.\<close>

fun find_file :: "codec \<Rightarrow> files \<Rightarrow> entity_fix \<Rightarrow> gotime \<Rightarrow> string \<Rightarrow> string list \<Rightarrow> string list \<Rightarrow> fix_error + entity_fix" where
  "find_file co fs f now name [] looked =
     (if looked = [] then Inl (No_File name) else Inl (Gone looked))"
| "find_file co fs f now name (dir # dirs) looked =
     (let p = dir @ ''/'' @ name
      in case fs p of
           None \<Rightarrow> find_file co fs f now name dirs looked
         | Some Not_Regular \<Rightarrow> find_file co fs f now name dirs looked
         | Some _ \<Rightarrow>
             let f' = f\<lparr>fx_file := p\<rparr>
             in case fix_apply co fs f' now of
                  Inl e \<Rightarrow> Inl e
                | Inr (Some _) \<Rightarrow> Inr f'
                | Inr None \<Rightarrow> find_file co fs f' now name dirs (looked @ [p]))"

text \<open>\<open>level\<close> is the server's world and \<open>own\<close> whether it keeps dimensions in folders of their own.\<close>

definition plan_entity_fix ::
  "codec \<Rightarrow> files \<Rightarrow> string \<Rightarrow> bool \<Rightarrow> fix_request \<Rightarrow> gotime \<Rightarrow> fix_error + entity_fix" where
  "plan_entity_fix co fs level own r now =
     (let cx = rq_x r div 16; cz = rq_z r div 16;
          f = \<lparr>fx_req = r, fx_file = [], fx_cx = cx, fx_cz = cz\<rparr>;
          kind = (if rq_what r = ''block_entity'' then ''region'' else ''entities'');
          name = kind @ ''/r.'' @ itoa (cx div 32) @ ''.'' @ itoa (cz div 32) @ ''.mca''
      in if own \<and> rq_level r \<noteq> [] \<and> rq_level r \<noteq> level \<and> rq_level r \<noteq> paper_world level (rq_dimension r)
         then Inl Plugin_World
         else find_file co fs f now name (dimension_folders level (rq_dimension r) own) [])"

definition write_entity_fix ::
  "codec \<Rightarrow> files \<Rightarrow> entity_fix \<Rightarrow> gotime \<Rightarrow> bool \<Rightarrow> fix_error + files" where
  "write_entity_fix co fs f now writes = (case fix_apply co fs f now of
      Inl e \<Rightarrow> Inl e
    | Inr None \<Rightarrow> Inl (Gone [fx_file f])
    | Inr (Some b) \<Rightarrow> if writes then Inr (fs(fx_file f \<mapsto> Regular b)) else Inl (Could_Not_Write (fx_file f)))"

subsection \<open>The chunk written can be read\<close>

text \<open>What a decoded tree keeps when values are taken out of it or moved up.\<close>

fun raw_ok :: "nbt \<Rightarrow> bool" where
  "raw_ok (NString s) = valid_utf8 s"
| "raw_ok (NList t xs) = (t \<le> tag_long_array \<and> list_all raw_ok xs)"
| "raw_ok (NCompound es) = (by_key es \<and> list_all (\<lambda>(k, v). valid_utf8 k \<and> raw_ok v) es)"
| "raw_ok _ = True"

lemma well_typed_raw_ok: "well_typed v \<Longrightarrow> raw_ok v"
  by (induction v rule: raw_ok.induct) (auto simp: list_all_iff)

lemma written_is_typed:
  "enc_value v = Inr bs \<Longrightarrow> raw_ok v \<Longrightarrow> well_typed v \<and> strings_fit v"
  "enc_items t xs = Inr bs \<Longrightarrow> list_all raw_ok xs \<Longrightarrow>
     list_all (\<lambda>x. type_of x = Some t \<and> well_typed x) xs \<and> list_all strings_fit xs"
  "enc_entries es = Inr bs \<Longrightarrow> list_all (\<lambda>(k, v). valid_utf8 k \<and> raw_ok v) es \<Longrightarrow>
     list_all (\<lambda>(k, v). valid_utf8 k \<and> well_typed v) es \<and> list_all (\<lambda>(k, v). string_fits k \<and> strings_fit v) es"
proof (induction v and t xs and es arbitrary: bs and bs and bs rule: enc_value_enc_items_enc_entries.induct)
  case (17 k v es)
  obtain t where t: "type_of v = Some t" using 17(3) by (cases "type_of v") simp_all
  then obtain ks vs cs where w: "enc_string k = Inr ks" "enc_value v = Inr vs" "enc_entries es = Inr cs"
    using 17(3) by (auto simp: then_write_Inr)
  have "string_fits k" using w(1) by (simp add: enc_string_def string_fits_def Let_def split: if_splits)
  then show ?case using 17(1) [OF t w(2)] 17(2) [OF t w(3)] 17(4) by simp
qed (auto simp: then_write_Inr enc_length_Inr short_def enc_string_def string_fits_def Let_def split: if_splits)

lemma list_all_put: "list_all (\<lambda>(k, v). P k \<and> Q v) es \<Longrightarrow> P k \<Longrightarrow> Q v \<Longrightarrow> list_all (\<lambda>(k, v). P k \<and> Q v) (put k v es)"
  by (rule put_all) simp_all

lemma get_in: "get e k = Some v \<Longrightarrow> (k, v) \<in> set e"
  by (simp add: get_def map_of_SomeD)

lemma get_list_in: "get_list e k = Some (t, xs) \<Longrightarrow> (k, NList t xs) \<in> set e"
  by (cases "get e k") (auto simp: get_list_def dest: get_in split: nbt.splits)

lemma riders_raw_ok: "raw_ok (NCompound e) \<Longrightarrow> list_all raw_ok (riders e)"
proof (cases "get_list e ''Passengers''")
  case (Some p)
  then obtain t rs where p: "get_list e ''Passengers'' = Some (t, rs)" by (cases p) auto
  assume "raw_ok (NCompound e)"
  then have "raw_ok (NList t rs)" using get_list_in [OF p] by (auto simp: list_all_iff)
  then show ?thesis by (simp add: riders_def p)
qed (simp add: riders_def)

lemma valid_utf8_literals:
  "valid_utf8 ''Passengers''" "valid_utf8 ''Entities''" "valid_utf8 ''block_entities''"
  by (simp_all add: valid_utf8_ascii ascii_def)

lemma keep_riders_raw_ok:
  assumes "raw_ok (NCompound e)" and "list_all raw_ok kept"
  shows "raw_ok (NCompound (keep_riders e kept m))"
proof (cases "get_list e ''Passengers''")
  case (Some p)
  then obtain t rs where p: "get_list e ''Passengers'' = Some (t, rs)" by (cases p) auto
  have "t \<le> tag_long_array" using get_list_in [OF p] assms(1) by (auto simp: list_all_iff)
  then show ?thesis using assms p
    by (simp add: keep_riders_def by_key_put list_all_put valid_utf8_literals)
qed (use assms in \<open>simp add: keep_riders_def\<close>)

lemma take_items_raw_ok:
  "take_items p xs = (out, n, freed) \<Longrightarrow> list_all raw_ok xs \<Longrightarrow> list_all raw_ok out \<and> list_all raw_ok freed"
proof (induction p xs arbitrary: out n freed rule: take_items.induct)
  case (2 p e xs)
  obtain kept m fr where b: "take_items p (riders e) = (kept, m, fr)" by (metis prod_cases3)
  obtain o' n' f where r: "take_items p xs = (o', n', f)" by (metis prod_cases3)
  have e: "raw_ok (NCompound e)" "list_all raw_ok (riders e)" "list_all raw_ok xs"
    using 2(4) riders_raw_ok by simp_all
  note ih = 2(1) [OF b e(2)] 2(2) [OF refl r e(3)]
  show ?case
    using 2(3) b r ih e keep_riders_raw_ok [OF e(1), of kept m] by (cases "p e") (auto simp: Let_def simp del: raw_ok.simps)
qed (auto split: prod.splits)

text \<open>Depth: a rider that is set free moves up.\<close>

lemma fits_depth_mono: "fits_depth k v \<Longrightarrow> k \<le> k' \<Longrightarrow> fits_depth k' v"
proof (induction k v arbitrary: k' rule: fits_depth.induct)
  case (1 k t xs)
  have "list_all (fits_depth (k' - 1)) xs"
    unfolding list_all_iff
  proof
    fix x assume "x \<in> set xs"
    then show "fits_depth (k' - 1) x" using 1(1) [of x "k' - 1"] 1(2,3) by (simp add: list_all_iff)
  qed
  then show ?case using 1(2,3) by simp
next
  case (2 k es)
  have "list_all (\<lambda>(_, v). fits_depth (k' - 1) v) es"
    unfolding list_all_iff
  proof
    fix x assume x: "x \<in> set es"
    obtain a v where xa: "x = (a, v)" by (cases x)
    have "fits_depth (k' - 1) v" using 2(1) [OF x, of a v "k' - 1"] 2(2,3) x xa by (auto simp: list_all_iff)
    then show "case x of (_, v) \<Rightarrow> fits_depth (k' - 1) v" by (simp add: xa)
  qed
  then show ?case using 2(2,3) by simp
qed simp_all

lemma riders_fit:
  assumes "fits_depth k (NCompound e)"
  shows "list_all (fits_depth (k - 2)) (riders e)"
proof (cases "get_list e ''Passengers''")
  case (Some p)
  then obtain t rs where p: "get_list e ''Passengers'' = Some (t, rs)" by (cases p) auto
  then have "fits_depth (k - 1) (NList t rs)" using get_list_in [OF p] assms by (auto simp: list_all_iff)
  then show ?thesis by (simp add: riders_def p)
qed (simp add: riders_def)

lemma keep_riders_fits:
  assumes "fits_depth k (NCompound e)" and "list_all (fits_depth (k - 2)) kept"
  shows "fits_depth k (NCompound (keep_riders e kept m))"
proof (cases "get_list e ''Passengers''")
  case (Some p)
  then obtain t rs where p: "get_list e ''Passengers'' = Some (t, rs)" by (cases p) auto
  then have "fits_depth (k - 1) (NList t rs)" using get_list_in [OF p] assms by (auto simp: list_all_iff)
  then have "list_all (\<lambda>(_, v). fits_depth (k - 1) v) (put ''Passengers'' (NList t kept) e)"
    using assms by (intro put_all) auto
  then show ?thesis using assms p by (simp add: keep_riders_def)
qed (use assms in \<open>simp add: keep_riders_def\<close>)

lemma take_items_fits:
  "take_items p xs = (out, n, freed) \<Longrightarrow> list_all (fits_depth k) xs \<Longrightarrow>
     list_all (fits_depth k) out \<and> list_all (fits_depth k) freed"
proof (induction p xs arbitrary: k out n freed rule: take_items.induct)
  case (2 p e xs)
  obtain kept m fr where b: "take_items p (riders e) = (kept, m, fr)" by (metis prod_cases3)
  obtain o' n' f where r: "take_items p xs = (o', n', f)" by (metis prod_cases3)
  have e: "fits_depth k (NCompound e)" "list_all (fits_depth (k - 2)) (riders e)" "list_all (fits_depth k) xs"
    using 2(4) riders_fit by simp_all
  note ih = 2(1) [OF b e(2)] 2(2) [OF refl r e(3)]
  have up: "list_all (fits_depth (k - 2)) ys \<Longrightarrow> list_all (fits_depth k) ys" for ys
    using fits_depth_mono [of "k - 2" _ k] by (auto simp: list_all_iff)
  show ?case
    using 2(3) b r ih e(3) up [OF e(2)] up [of fr] keep_riders_fits [OF e(1), of kept m]
    by (cases "p e") (auto simp: Let_def simp del: fits_depth.simps)
qed (auto split: prod.splits)

lemma put_ok:
  "raw_ok (NCompound d) \<Longrightarrow> valid_utf8 k \<Longrightarrow> raw_ok v \<Longrightarrow> raw_ok (NCompound (put k v d))"
  "fits_depth n (NCompound d) \<Longrightarrow> fits_depth (n - 1) v \<Longrightarrow> fits_depth n (NCompound (put k v d))"
  by (simp_all add: by_key_put list_all_put put_all)

lemma list_of_ok:
  assumes "get_list d k = Some (t, xs)"
  shows "raw_ok (NCompound d) \<Longrightarrow> raw_ok (NList t xs)"
    "fits_depth n (NCompound d) \<Longrightarrow> fits_depth (n - 1) (NList t xs)"
  using get_list_in [OF assms] by (auto simp: list_all_iff)

lemma remove_entity_ok:
  assumes "remove_entity d ty xyz ps = (n, d')" and "raw_ok (NCompound d)" and "fits_depth k (NCompound d)"
  shows "raw_ok (NCompound d') \<and> fits_depth k (NCompound d')"
proof (cases "get_list d ''Entities''")
  case (Some l)
  obtain t xs where l: "get_list d ''Entities'' = Some (t, xs)" using Some by (cases l) auto
  obtain kept m freed where t: "take_items (entity_matches ty xyz ps) xs = (kept, m, freed)" by (metis prod_cases3)
  note a = list_of_ok(1) [OF l assms(2)] list_of_ok(2) [OF l assms(3)]
  have r: "list_all raw_ok (kept @ freed)" using take_items_raw_ok [OF t] a(1) by simp
  have f: "list_all (fits_depth (k - 1 - 1)) (kept @ freed)" using take_items_fits [OF t, of "k - 1 - 1"] a(2) by simp
  let ?l = "NList (if kept @ freed \<noteq> [] then tag_compound else t) (kept @ freed)"
  have "raw_ok ?l" "fits_depth (k - 1) ?l" using r f a by (simp_all add: tag_defs)
  with assms(2,3) have "raw_ok (NCompound (put ''Entities'' ?l d)) \<and> fits_depth k (NCompound (put ''Entities'' ?l d))"
    by (blast intro: put_ok valid_utf8_literals)
  then show ?thesis using assms l t by (auto simp: remove_entity_def Let_def simp del: raw_ok.simps fits_depth.simps split: if_splits)
qed (use assms in \<open>simp add: remove_entity_def\<close>)

lemma remove_block_entity_ok:
  assumes "remove_block_entity d ty xyz = (found, d')" and "raw_ok (NCompound d)" and "fits_depth k (NCompound d)"
  shows "raw_ok (NCompound d') \<and> fits_depth k (NCompound d')"
proof (cases "get_list d ''block_entities''")
  case (Some l)
  obtain t xs where l: "get_list d ''block_entities'' = Some (t, xs)" using Some by (cases l) auto
  let ?l = "NList t (filter (\<lambda>v. \<not> block_entity_matches ty xyz v) xs)"
  have "raw_ok ?l" "fits_depth (k - 1) ?l"
    using list_of_ok(1) [OF l assms(2)] list_of_ok(2) [OF l assms(3)] by (auto simp: list_all_iff)
  with assms(2,3) have "raw_ok (NCompound (put ''block_entities'' ?l d)) \<and> fits_depth k (NCompound (put ''block_entities'' ?l d))"
    by (blast intro: put_ok valid_utf8_literals)
  then show ?thesis using assms l by (auto simp: remove_block_entity_def simp del: raw_ok.simps fits_depth.simps split: if_splits)
qed (use assms in \<open>simp add: remove_block_entity_def\<close>)

lemma take_out_ok:
  assumes "take_out r c = Some c'" and "raw_ok (NCompound c)" and "fits_depth k (NCompound c)"
  shows "raw_ok (NCompound c') \<and> fits_depth k (NCompound c')"
proof -
  let ?xyz = "(rq_x r, rq_y r, rq_z r)"
  obtain n c1 where e: "remove_entity c (rq_type r) ?xyz (rq_pos r) = (n, c1)" by fastforce
  obtain found c2 where b: "remove_block_entity c (rq_type r) ?xyz = (found, c2)" by fastforce
  show ?thesis
    using assms(1) remove_entity_ok [OF e assms(2,3)] remove_block_entity_ok [OF b assms(2,3)] e b assms(2,3)
    by (auto simp: take_out_def Let_def simp del: raw_ok.simps fits_depth.simps split: if_splits)
qed

text \<open>What \<open>Encode\<close> wrote, \<open>Decode\<close> reads.\<close>

lemma nbt_write_string_fits: "nbt_write name c = Inr bs \<Longrightarrow> \<exists>vs. enc_value (NCompound c) = Inr vs"
  by (auto simp: nbt_write_def then_write_Inr simp del: enc_value.simps)

lemma decode_encoded:
  assumes "decode_chunk data = Inr c" and "take_out r c = Some c'" and "encode_chunk c' = Inr data'"
    and "string_cost [] + read_cost (NCompound c') \<le> max_bytes chunk_limits"
  shows "decode_chunk data' = Inr c'"
proof -
  obtain name d where "nbt_read chunk_limits (decoder_of data Eof) = Inr ((name, c), d)"
    using assms(1) by (auto simp: decode_chunk_def read_bytes_def and_then_Inr)
  note t = nbt_read_Inr(2) [OF this, unfolded tree_ok_def]
  then have "well_typed (NCompound c)" "fits_depth (max_depth chunk_limits) (NCompound c)"
    by (simp_all del: well_typed.simps fits_depth.simps)
  then have k: "raw_ok (NCompound c') \<and> fits_depth (max_depth chunk_limits) (NCompound c')"
    using take_out_ok [OF assms(2)] well_typed_raw_ok by blast
  obtain vs where vs: "enc_value (NCompound c') = Inr vs"
    using nbt_write_string_fits assms(3) unfolding encode_chunk_def by blast
  have w: "well_typed (NCompound c')" "strings_fit (NCompound c')"
    using written_is_typed(1) [OF vs] k by blast+
  have "valid_utf8 []" "string_fits []"
    by (simp_all add: valid_utf8_def string_fits_def encode_mutf8_def rune_values_def)
  from nbt_round_trip [OF this w k [THEN conjunct2] assms(4)] obtain bs where
    bs: "nbt_write [] c' = Inr bs" "\<And>rest e. \<exists>d. nbt_read chunk_limits (decoder_of (bs @ rest) e) = Inr (([], c'), d) \<and> de_in d = rest"
    by blast
  have "data' = bs" using bs(1) assms(3) by (simp add: encode_chunk_def)
  moreover obtain d where "nbt_read chunk_limits (decoder_of bs Eof) = Inr (([], c'), d)" using bs(2) [of "[]" Eof] by auto
  ultimately show ?thesis by (simp add: decode_chunk_def read_bytes_def)
qed

subsection \<open>The whole fix\<close>

lemma region_parse_small: "region_parse raw = Inr b \<Longrightarrow> length raw \<le> max_region_file \<Longrightarrow> fits_header b"
  by (auto simp: region_parse_def fits_header_def header_size_def sector_def max_region_file_def split: if_splits)

text \<open>C25: The fix changes one chunk of one file. When it succeeds, only the planned file differs; its
  other chunks read as before, and the chunk reads back as the one the region code left after
  taking the entity out, so that the game can load it. The file's chunks are complete and apart,
  the compression libraries read back what they wrote, and the changed chunk is within what a
  chunk may hold.\<close>

theorem entity_fix_changes_one_chunk:
  assumes "fs (fx_file f) = Some (Regular raw)" and "region_parse raw = Inr b" and "region_ok b"
    and "chunk co b (fx_cx f) (fx_cz f) = Inr (compression, data)" and "decode_chunk data = Inr c"
    and "take_out (fx_req f) c = Some c'" and "encode_chunk c' = Inr data'" and "codec_ok co data'"
    and "length data' \<le> max_chunk" and "string_cost [] + read_cost (NCompound c') \<le> max_bytes chunk_limits"
    and "write_entity_fix co fs f now writes = Inr fs'"
  shows "\<exists>b'. fs' = fs(fx_file f \<mapsto> Regular b') \<and> region_ok b'
     \<and> chunks_of co b' = (chunks_of co b)(index (fx_cx f) (fx_cz f) := Inr (compression, data'))
     \<and> decode_chunk data' = Inr c'"
proof -
  have small: "length raw \<le> max_region_file"
    using assms(1,11) by (auto simp: write_entity_fix_def fix_apply_def read_file_def split: if_splits)
  then have r: "read_file fs (fx_file f) max_region_file = Some raw" using assms(1) by (simp add: read_file_def)
  obtain b' where b': "set_chunk co b (fx_cx f) (fx_cz f) compression data' now = Inr b'" "fs' = fs(fx_file f \<mapsto> Regular b')"
    using assms(11) unfolding write_entity_fix_def fix_apply_def
    by (auto simp: r assms(2,4-7) split: sum.splits if_splits)
  show ?thesis
    using set_chunk_one [OF assms(3) region_parse_small [OF assms(2) small] assms(8,9) b'(1)]
      decode_encoded [OF assms(5-7,10)] b'(2) by blast
qed

text \<open>A world with one pig in one chunk.\<close>

definition pig_request :: fix_request where
  "pig_request = \<lparr>rq_what = ''entity'', rq_type = ''pig'', rq_dimension = [], rq_level = [],
     rq_x = 0, rq_y = 0, rq_z = 0, rq_pos = []\<rparr>"

definition pig_chunk :: compound where
  "pig_chunk = [(''Entities'', NList tag_compound [pig_at_origin []])]"

definition no_pig_chunk :: compound where
  "no_pig_chunk = [(''Entities'', NList tag_compound [])]"

lemma take_out_pig: "take_out pig_request pig_chunk = Some no_pig_chunk"
proof -
  have z: "coordinate_matches (NDouble 0) 0 None"
    by (simp add: coordinate_matches_def double_of_def Let_def)
  show ?thesis
    by (simp add: take_out_def pig_request_def pig_chunk_def no_pig_chunk_def remove_entity_def get_list_def get_def
        pig_at_origin_def entity_matches_def string_or_empty_def get_string_def z riders_def Let_def)
qed

text \<open>An encoding is no longer than what reading it costs.\<close>

lemma small_encoding:
  assumes "well_typed (NCompound c)" and "strings_fit (NCompound c)" and "fits_depth 512 (NCompound c)"
    and "string_cost [] + read_cost (NCompound c) \<le> 1000"
  shows "\<exists>bs. encode_chunk c = Inr bs \<and> decode_chunk bs = Inr c \<and> length bs \<le> 1000"
proof -
  have e: "valid_utf8 []" "string_fits []"
    by (simp_all add: valid_utf8_def string_fits_def encode_mutf8_def rune_values_def)
  let ?lim = "\<lparr>max_depth = 512, max_bytes = 1000\<rparr>"
  have "fits_depth (max_depth ?lim) (NCompound c)" "string_cost [] + read_cost (NCompound c) \<le> max_bytes ?lim"
    unfolding limits.simps by (rule assms)+
  from nbt_round_trip [OF e assms(1,2) this] obtain bs d where bs: "nbt_write [] c = Inr bs"
    "nbt_read ?lim (decoder_of (bs @ []) Eof) = Inr (([], c), d)" "de_in d = []" by blast
  have "length bs \<le> 1000"
    using nbt_read_Inr(3,4) [OF bs(2)] bs(3) by (simp add: eaten_def charged_def decoder_of_def)
  moreover have "fits_depth (max_depth chunk_limits) (NCompound c)"
    "string_cost [] + read_cost (NCompound c) \<le> max_bytes chunk_limits"
    using assms(3,4) by (simp_all add: chunk_limits_def del: fits_depth.simps read_cost.simps)
  from nbt_round_trip [OF e assms(1,2) this] obtain bs2 where
    "nbt_write [] c = Inr bs2" "\<And>rest e. \<exists>d. nbt_read chunk_limits (decoder_of (bs2 @ rest) e) = Inr (([], c), d) \<and> de_in d = rest"
    by blast
  then have "decode_chunk bs = Inr c"
    using bs(1) by (simp add: decode_chunk_def read_bytes_def) (metis (no_types, lifting) and_then_simps(2) append_Nil2 case_prod_conv)
  ultimately show ?thesis using bs(1) by (simp add: encode_chunk_def)
qed

theorem entity_fix_changes_one_chunk_witness:
  "\<exists>raw fs' b'. write_entity_fix sample_codec [''f'' \<mapsto> Regular raw]
        \<lparr>fx_req = pig_request, fx_file = ''f'', fx_cx = 0, fx_cz = 0\<rparr> 0 True = Inr fs'
     \<and> fs' ''f'' = Some (Regular b') \<and> region_ok b'"
proof -
  let ?f = "\<lparr>fx_req = pig_request, fx_file = ''f'', fx_cx = 0, fx_cz = 0\<rparr>"
  let ?empty = "replicate header_size 0"
  obtain d0 where d0: "encode_chunk pig_chunk = Inr d0" "decode_chunk d0 = Inr pig_chunk" "length d0 \<le> 1000"
    using small_encoding [of pig_chunk]
    by (auto simp: pig_chunk_def pig_at_origin_def string_cost_def cost_defs encode_mutf8_def mutf8_rune_def text_eval
        string_fits_def valid_utf8_ascii ascii_def by_key_def tag_defs short_def)
  obtain d1 where d1: "encode_chunk no_pig_chunk = Inr d1" "decode_chunk d1 = Inr no_pig_chunk" "length d1 \<le> 1000"
    using small_encoding [of no_pig_chunk]
    by (auto simp: no_pig_chunk_def string_cost_def cost_defs encode_mutf8_def mutf8_rune_def text_eval
        string_fits_def valid_utf8_ascii ascii_def by_key_def tag_defs short_def)
  have writes: "\<exists>g. set_chunk sample_codec b 0 0 c_plain d 0 = Inr g" if "length d \<le> 1000" for b d
  proof -
    have "sectors_for (5 + length d) \<le> 1" using that by (simp add: sectors_for_def sector_def)
    then show ?thesis
      by (cases "sectors_at b (index 0 0) (sectors_for (5 + length d))")
        (simp add: set_chunk_def set_at_def packed_def compression_defs max_sectors_def)
  qed
  obtain b0 where b0: "set_chunk sample_codec ?empty 0 0 c_plain d0 0 = Inr b0" using writes [OF d0(3)] by blast
  have "fits_header ?empty" by (simp add: fits_header_def header_size_def sector_def)
  moreover have "length d0 \<le> max_chunk" "length d1 \<le> max_chunk" using d0(3) d1(3) by (simp_all add: max_chunk_def)
  ultimately have b0_ok: "region_ok b0" "chunk sample_codec b0 0 0 = Inr (c_plain, d0)" and d1_small: "length d1 \<le> max_chunk"
    using set_chunk_one [OF region_ok_empty _ sample_codec_ok _ b0] by (simp_all add: chunk_chunks_of)
  have parse: "region_parse b0 = Inr b0"
    using b0_ok(1) by (auto simp: region_parse_def region_ok_def header_size_def sector_def)
  have short: "length b0 \<le> max_region_file"
    using set_at_length [OF region_ok_empty _ index_less b0 [unfolded set_chunk_def]]
    by (simp add: fits_header_def header_size_def sector_def max_sectors_def max_region_file_def)
  obtain b1 where b1: "set_chunk sample_codec b0 0 0 c_plain d1 0 = Inr b1" using writes [OF d1(3)] by blast
  let ?fs = "[''f'' \<mapsto> Regular b0]"
  have w: "write_entity_fix sample_codec ?fs ?f 0 True = Inr (?fs(''f'' \<mapsto> Regular b1))"
    using b0_ok(2) b1 d0(2) d1(1) take_out_pig short
    by (simp add: write_entity_fix_def fix_apply_def read_file_def parse)
  have cost: "string_cost [] + read_cost (NCompound no_pig_chunk) \<le> max_bytes chunk_limits"
    by (simp add: no_pig_chunk_def string_cost_def cost_defs encode_mutf8_def mutf8_rune_def text_eval chunk_limits_def)
  have "\<exists>b'. ?fs(''f'' \<mapsto> Regular b1) = ?fs(fx_file ?f \<mapsto> Regular b') \<and> region_ok b'
     \<and> chunks_of sample_codec b' = (chunks_of sample_codec b0)(index (fx_cx ?f) (fx_cz ?f) := Inr (c_plain, d1))
     \<and> decode_chunk d1 = Inr no_pig_chunk"
    by (rule entity_fix_changes_one_chunk [OF _ parse b0_ok(1) _ d0(2) _ d1(1) sample_codec_ok d1_small cost w])
      (simp_all add: b0_ok(2) take_out_pig)
  then obtain b' where b': "?fs(''f'' \<mapsto> Regular b1) = ?fs(''f'' \<mapsto> Regular b')" "region_ok b'" by auto
  have "(?fs(''f'' \<mapsto> Regular b1)) ''f'' = Some (Regular b1)" by simp
  then have "b1 = b'" using b'(1) by (metis disk_file.inject fun_upd_same option.inject)
  with w b'(2) show ?thesis by (metis fun_upd_same)
qed

end
