(* ===== verification/Regexp.thy ===== *)
theory Regexp
  imports Go_Text
begin

section \<open>Regular expressions as package regexp matches them\<close>

text \<open>
  The expressions the modelled code compiles, over the runes of a text with the bytes each came
  from. A position is what stands before it, last rune first, and what follows. \<open>matches r p\<close>
  lists where a match of \<open>r\<close> that starts at \<open>p\<close> can end, in the order the package prefers them, so
  that its leftmost-first match is the first one. A repetition tries as many rounds as it can
  first; none of the modelled expressions repeats or is an expression of the empty text.
\<close>

subsection \<open>Expressions and their matches\<close>

type_synonym item = "nat \<times> string"

type_synonym position = "item list \<times> item list"

datatype regexp =
    Class "(nat \<times> nat) list"
  | Not_Class "(nat \<times> nat) list"
  | Text_Start
  | Text_End
  | Word_Boundary
  | Empty_Match
  | Seq regexp regexp
  | Alt regexp regexp
  | Rep nat nat regexp
  | Star regexp

definition in_class :: "(nat \<times> nat) list \<Rightarrow> nat \<Rightarrow> bool" where
  "in_class cs r \<longleftrightarrow> list_ex (\<lambda>(a, b). a \<le> r \<and> r \<le> b) cs"

definition word_rune :: "nat \<Rightarrow> bool" where
  "word_rune r \<longleftrightarrow> in_class [(48, 57), (65, 90), (95, 95), (97, 122)] r"

definition at_word :: "item list \<Rightarrow> bool" where
  "at_word xs = (case xs of [] \<Rightarrow> False | (r, _) # _ \<Rightarrow> word_rune r)"

definition one :: "(nat \<Rightarrow> bool) \<Rightarrow> position \<Rightarrow> position list" where
  "one f p = (case p of (b, a) \<Rightarrow> case a of [] \<Rightarrow> [] | x # xs \<Rightarrow> if f (fst x) then [(x # b, xs)] else [])"

fun rounds :: "(position \<Rightarrow> position list) \<Rightarrow> nat \<Rightarrow> nat \<Rightarrow> position \<Rightarrow> position list" where
  "rounds f 0 0 p = [p]"
| "rounds f 0 (Suc n) p = concat (map (rounds f 0 n) (f p)) @ [p]"
| "rounds f (Suc m) n p = concat (map (rounds f m n) (f p))"

text \<open>\<open>Rep m n r\<close> is \<open>r{m,m+n}\<close>.\<close>

primrec matches :: "regexp \<Rightarrow> position \<Rightarrow> position list" where
  "matches (Class cs) p = one (in_class cs) p"
| "matches (Not_Class cs) p = one (\<lambda>r. \<not> in_class cs r) p"
| "matches Text_Start p = (if fst p = [] then [p] else [])"
| "matches Text_End p = (if snd p = [] then [p] else [])"
| "matches Word_Boundary p = (if at_word (fst p) \<noteq> at_word (snd p) then [p] else [])"
| "matches Empty_Match p = [p]"
| "matches (Seq r s) p = concat (map (matches s) (matches r p))"
| "matches (Alt r s) p = matches r p @ matches s p"
| "matches (Rep m n r) p = rounds (matches r) m n p"
| "matches (Star r) p = rounds (matches r) 0 (length (snd p)) p"

subsection \<open>Searching and replacing\<close>

fun search :: "regexp \<Rightarrow> item list \<Rightarrow> item list \<Rightarrow> (position \<times> position) option" where
  "search r b [] = (case matches r (b, []) of [] \<Rightarrow> None | e # _ \<Rightarrow> Some ((b, []), e))"
| "search r b (x # xs) = (case matches r (b, x # xs) of
      [] \<Rightarrow> search r (x # b) xs
    | e # _ \<Rightarrow> Some ((b, x # xs), e))"

text \<open>\<open>MatchString\<close>.\<close>

definition match_string :: "regexp \<Rightarrow> item list \<Rightarrow> bool" where
  "match_string r s \<longleftrightarrow> search r [] s \<noteq> None"

definition prefix_match :: "regexp \<Rightarrow> item list \<Rightarrow> position option" where
  "prefix_match r s = (case matches r ([], s) of [] \<Rightarrow> None | e # _ \<Rightarrow> Some e)"

text \<open>\<open>FindAllStringIndex\<close>: each match as the positions where it starts and ends.\<close>

function find_all :: "regexp \<Rightarrow> item list \<Rightarrow> item list \<Rightarrow> (position \<times> position) list" where
  "find_all r b a = (case search r b a of
      None \<Rightarrow> []
    | Some (s, e) \<Rightarrow> if length (snd e) < length a then (s, e) # find_all r (fst e) (snd e) else [(s, e)])"
  by pat_completeness auto
termination by (relation "measure (\<lambda>(r, b, a). length a)") auto

declare find_all.simps [simp del]

definition bytes_of :: "item list \<Rightarrow> string" where
  "bytes_of xs = concat (map snd xs)"

text \<open>\<open>ReplaceAllString\<close> with a text without \<open>$\<close>.\<close>

function replace_from :: "regexp \<Rightarrow> string \<Rightarrow> item list \<Rightarrow> item list \<Rightarrow> string" where
  "replace_from r t b a = (case search r b a of
      None \<Rightarrow> bytes_of a
    | Some (s, e) \<Rightarrow> bytes_of (take (length a - length (snd s)) a) @ t @
        (if length (snd e) < length a then replace_from r t (fst e) (snd e) else bytes_of (snd e)))"
  by pat_completeness auto
termination by (relation "measure (\<lambda>(r, t, b, a). length a)") auto

declare replace_from.simps [simp del]

definition replace_all_string :: "regexp \<Rightarrow> string \<Rightarrow> string \<Rightarrow> string" where
  "replace_all_string r s t = replace_from r t [] (runes s)"

subsection \<open>What a match covers\<close>

text \<open>\<open>moved p q\<close>: the position \<open>q\<close> lies ahead of \<open>p\<close> in the same text.\<close>

definition moved :: "position \<Rightarrow> position \<Rightarrow> item list \<Rightarrow> bool" where
  "moved p q xs \<longleftrightarrow> snd p = xs @ snd q \<and> fst q = rev xs @ fst p"

lemma moved_refl [simp]: "moved p p []"
  by (simp add: moved_def)

lemma moved_ex [simp]: "Ex (moved p p)"
  using moved_refl by blast

lemma moved_trans: "moved p q xs \<Longrightarrow> moved q s ys \<Longrightarrow> moved p s (xs @ ys)"
  by (simp add: moved_def)

lemma one_moved: "q \<in> set (one f p) \<Longrightarrow> \<exists>x. moved p q [x] \<and> f (fst x)"
  by (auto simp: one_def moved_def split: prod.splits list.splits if_splits)

lemma rounds_moved:
  assumes "\<And>p q. q \<in> set (f p) \<Longrightarrow> \<exists>xs. moved p q xs" and "q \<in> set (rounds f m n p)"
  shows "\<exists>xs. moved p q xs"
  using assms
proof (induction f m n p arbitrary: q rule: rounds.induct)
  case (1 f p)
  then show ?case using moved_refl by auto
next
  case (2 f n p)
  show ?case
  proof (cases "q = p")
    case False
    then obtain s where "s \<in> set (f p)" "q \<in> set (rounds f 0 n s)" using 2(3) by auto
    then obtain xs ys where "moved p s xs" "moved s q ys" using 2(1) [of s q] 2(2) [of s p] 2(2) by blast
    then show ?thesis using moved_trans by blast
  qed simp
next
  case (3 f m n p)
  then obtain s where "s \<in> set (f p)" "q \<in> set (rounds f m n s)" by auto
  then obtain xs ys where "moved p s xs" "moved s q ys" using 3(1) [of s q] 3(2) [of s p] 3(2) by blast
  then show ?case using moved_trans by blast
qed

lemma matches_moved: "q \<in> set (matches r p) \<Longrightarrow> \<exists>xs. moved p q xs"
proof (induction r arbitrary: p q)
  case (Seq r s)
  then obtain m where "m \<in> set (matches r p)" "q \<in> set (matches s m)" by auto
  then obtain xs ys where "moved p m xs" "moved m q ys" using Seq.IH(1) [of m p] Seq.IH(2) [of q m] by blast
  then show ?case using moved_trans by blast
next
  case (Rep m n r)
  show ?case by (rule rounds_moved [OF Rep.IH]) (use Rep.prems in simp_all)
next
  case (Star r)
  show ?case by (rule rounds_moved [OF Star.IH]) (use Star.prems in simp_all)
qed (auto dest: one_moved split: if_splits)

lemma search_Some:
  "search r b a = Some (s, e) \<Longrightarrow>
     (\<exists>xs. moved (b, a) s xs) \<and> e \<in> set (matches r s) \<and> (\<exists>ys. moved s e ys)"
proof (induction r b a rule: search.induct)
  case (1 r b)
  then show ?case using matches_moved [of _ r "(b, [])"] by (fastforce split: list.splits intro: exI [of _ "[]"])
next
  case (2 r b x xs)
  show ?case
  proof (cases "matches r (b, x # xs)")
    case Nil
    then have "search r (x # b) xs = Some (s, e)" using 2(2) by simp
    then obtain ys where "moved (x # b, xs) s ys" and *: "e \<in> set (matches r s) \<and> (\<exists>ys. moved s e ys)"
      using 2(1) [OF Nil] by blast
    then have "moved (b, x # xs) s (x # ys)" by (simp add: moved_def)
    then show ?thesis using * by blast
  next
    case (Cons q qs)
    then have "s = (b, x # xs)" "e = q" using 2(2) by auto
    then show ?thesis using Cons matches_moved [of q r "(b, x # xs)"] by (auto intro: exI [of _ "[]"])
  qed
qed

lemma rounds_one:
  assumes "q \<in> set (rounds (one f) m n p)"
  shows "\<exists>xs. moved p q xs \<and> list_all (f \<circ> fst) xs \<and> m \<le> length xs \<and> length xs \<le> m + n"
  using assms
proof (induction "one f" m n p arbitrary: q rule: rounds.induct)
  case (1 p)
  then show ?case by (auto intro!: exI [of _ "[]"])
next
  case (2 n p)
  show ?case
  proof (cases "q = p")
    case True
    then show ?thesis by (auto intro!: exI [of _ "[]"])
  next
    case False
    then obtain t where "t \<in> set (one f p)" "q \<in> set (rounds (one f) 0 n t)" using 2(2) by auto
    moreover then obtain x where "moved p t [x]" "f (fst x)" using one_moved by blast
    moreover obtain xs where "moved t q xs" "list_all (f \<circ> fst) xs" "length xs \<le> n"
      using 2(1) [of t q] calculation by auto
    ultimately show ?thesis using moved_trans [of p t "[x]" q xs] by (auto intro!: exI [of _ "x # xs"])
  qed
next
  case (3 m n p)
  then obtain t where "t \<in> set (one f p)" "q \<in> set (rounds (one f) m n t)" by auto
  moreover then obtain x where "moved p t [x]" "f (fst x)" using one_moved by blast
  moreover obtain xs where "moved t q xs" "list_all (f \<circ> fst) xs" "m \<le> length xs" "length xs \<le> m + n"
    using 3(1) [of t q] calculation by auto
  ultimately show ?case using moved_trans [of p t "[x]" q xs] by (auto intro!: exI [of _ "x # xs"])
qed

text \<open>The items of a text, and the rest of it from one of them on.\<close>

lemma bytes_of_append [simp]: "bytes_of (xs @ ys) = bytes_of xs @ bytes_of ys"
  by (simp add: bytes_of_def)

lemma bytes_of_runes [simp]: "bytes_of (runes s) = s"
  by (simp add: bytes_of_def runes_bytes)

lemma runes_items:
  "(r, t) \<in> set (runes s) \<Longrightarrow> t \<noteq> [] \<and> (r < 128 \<longrightarrow> t = [char_of r])"
proof (induction s rule: runes.induct)
  case (2 c cs)
  obtain a k where ak: "decode_rune (map of_char (take 4 (c # cs))) = (a, k)"
    by (cases "decode_rune (map of_char (take 4 (c # cs)))")
  have rs: "runes (c # cs) = (a, c # take (k - 1) cs) # runes (drop (k - 1) cs)"
    by (subst runes.simps(2)) (simp only: ak Let_def case_prod_conv)
  have first: "a < 128 \<longrightarrow> k = 1 \<and> a = code c"
    using ak decode_rune_ge [of "code c" "map of_char (take 3 cs)"] by (cases "code c < 128") auto
  show ?case
  proof (cases "(r, t) \<in> set (runes (drop (k - 1) cs))")
    case True
    then show ?thesis using "2.IH" [OF ak [symmetric] refl] by blast
  next
    case False
    then have "r = a" "t = c # take (k - 1) cs" using "2.prems" unfolding rs by auto
    then show ?thesis using first by auto
  qed
qed simp

lemma runes_rest: "runes s = xs @ ys \<Longrightarrow> runes (bytes_of ys) = ys"
proof (induction xs arbitrary: s)
  case Nil
  then show ?case using bytes_of_runes [of s] by simp
next
  case (Cons x xs)
  then obtain c cs where s: "s = c # cs" by (cases s) auto
  show ?case using Cons s by (auto simp: Let_def split: prod.splits)
qed

lemma length_bytes_of: "set xs \<subseteq> set (runes s) \<Longrightarrow> length xs \<le> length (bytes_of xs)"
proof (induction xs)
  case (Cons x xs)
  then have "snd x \<noteq> []" using runes_items [of "fst x" "snd x" s] by simp
  then show ?case using Cons by (cases "snd x") (auto simp: bytes_of_def)
qed simp

end
