(* ===== verification/Log_Lines.thy ===== *)
theory Log_Lines
  imports Regexp
begin

section \<open>Cleaning console lines (internal/minecraft/logparse.go)\<close>

text \<open>
  \<open>CleanLine\<close> and the functions it calls: terminal codes and Minecraft's formatting codes are
  removed and addresses replaced before a line of the server is stored or shown. The expressions
  are written out as \<open>regexp\<close>. \<open>RedactIPs\<close> cuts the text at byte positions, and a cut with its
  ends crossed would panic: it is \<open>None\<close> here, and shown not to happen. Which event a line tells
  of (\<open>Parse\<close>) is not modelled.
\<close>

subsection \<open>The expressions\<close>

abbreviation (input) lit :: "nat \<Rightarrow> regexp" where "lit c \<equiv> Class [(c, c)]"

definition optional :: "regexp \<Rightarrow> regexp" where "optional r = Rep 0 1 r"

fun word_of :: "nat list \<Rightarrow> regexp" where
  "word_of [] = Empty_Match"
| "word_of (c # cs) = Seq (lit c) (word_of cs)"

text \<open>
  A letter of a case-insensitive expression stands for its upper case and, as Unicode folds case,
  for the long s and the Kelvin sign.
\<close>

fun any_case :: "nat list \<Rightarrow> regexp" where
  "any_case [] = Empty_Match"
| "any_case (c # cs) = Seq (Class ([(c, c), (c - 32, c - 32)] @ (if c = 115 then [(383, 383)] else if c = 107 then [(8490, 8490)] else [])))
     (any_case cs)"

fun one_of :: "regexp list \<Rightarrow> regexp" where
  "one_of [] = Class []"
| "one_of [r] = r"
| "one_of (r # rs) = Alt r (one_of rs)"

definition runes_of :: "string \<Rightarrow> nat list" where "runes_of s = map of_char s"

definition digit_re :: regexp where "digit_re = Class [(48, 57)]"

definition hex_re :: regexp where "hex_re = Class [(48, 57), (97, 102), (65, 70)]"

definition re_ansi :: regexp where
  "re_ansi = Alt (Seq (lit 27) (Seq (lit 91) (Seq (Star (Class [(48, 57), (59, 59), (63, 63)])) (Class [(65, 90), (97, 122)]))))
     (Seq (lit 91) (Seq (Rep 1 7 (Class [(48, 57), (59, 59)])) (lit 109)))"

definition re_ipv4 :: regexp where
  "re_ipv4 = Seq Word_Boundary (Seq (Rep 3 0 (Seq (Rep 1 2 digit_re) (lit 46))) (Seq (Rep 1 2 digit_re) Word_Boundary))"

definition re_port :: regexp where
  "re_port = Seq Text_Start (Seq (lit 58) (Seq (Rep 1 4 digit_re) Word_Boundary))"

definition re_version_of :: regexp where
  "re_version_of = Seq (Alt Text_Start (Not_Class [(48, 57), (65, 90), (95, 95), (97, 122), (0x17F, 0x17F), (0x212A, 0x212A)]))
     (Seq (one_of (map (\<lambda>w. any_case (runes_of w)) [''version'', ''v'', ''build'', ''loader'', ''neoforge'', ''forge'', ''minecraft'',
        ''mc'', ''fabric'', ''quilt'', ''paper'', ''purpur'', ''java'']))
       (Seq (optional (lit 58)) (Seq (optional (lit 32)) Text_End)))"

definition re_mod_id_next :: regexp where
  "re_mod_id_next = Seq Text_Start (Seq (lit 32) (Seq (lit 40) (Seq (Class [(97, 122)])
     (Seq (Rep 1 62 (Class [(97, 122), (48, 57), (95, 95)])) (lit 41)))))"

definition re_colour :: regexp where
  "re_colour = Seq (lit 167) (Class [(48, 57), (97, 102), (107, 111), (114, 114), (120, 120), (65, 70), (75, 79), (82, 82), (88, 88)])"

definition re_ipv6_port :: regexp where
  "re_ipv6_port = Seq (lit 47) (Seq (optional (lit 91)) (Seq (Rep 0 4 hex_re)
     (Seq (Rep 2 5 (Seq (lit 58) (Rep 0 4 hex_re)))
     (Seq (optional (Seq (lit 37) (Seq (Class [(48, 57), (65, 90), (95, 95), (97, 122), (46, 46)])
         (Star (Class [(48, 57), (65, 90), (95, 95), (97, 122), (46, 46)])))))
     (Seq (optional (lit 93)) (optional (Seq (lit 58) (Rep 1 4 digit_re))))))))"

subsection \<open>Cleaning\<close>

definition strip_ansi :: "string \<Rightarrow> string" where
  "strip_ansi s = replace_all_string re_ansi s []"

definition strip_colours :: "string \<Rightarrow> string" where
  "strip_colours s = replace_all_string re_colour s []"

definition is_word :: "char \<Rightarrow> bool" where
  "is_word c \<longleftrightarrow> 97 \<le> code c \<and> code c \<le> 122 \<or> 65 \<le> code c \<and> code c \<le> 90 \<or> 48 \<le> code c \<and> code c \<le> 57"

definition version_char :: "string \<Rightarrow> nat \<Rightarrow> bool" where
  "version_char s i \<longleftrightarrow>
     (if length s \<le> i then False
      else if s ! i \<in> set ''-_.+'' then i + 1 < length s \<and> is_word (s ! (i + 1))
      else is_word (s ! i))"

text \<open>\<open>FindString\<close> of the port's expression: its text, empty where it does not match.\<close>

definition port_of :: "string \<Rightarrow> string" where
  "port_of after = (case prefix_match re_port (runes after) of None \<Rightarrow> [] | Some (b, _) \<Rightarrow> bytes_of (rev b))"

definition ipv4_end :: "string \<Rightarrow> nat \<Rightarrow> nat \<Rightarrow> nat option" where
  "ipv4_end s start fin =
     (let prior = (if 0 < start then s ! (start - 1) else CHR 0x00);
          after = drop fin s;
          p = port_of after
      in if p \<noteq> [] \<and> \<not> version_char after (length p) then Some (fin + length p)
         else if prior = CHR ''/'' then
           (if \<not> version_char after 0 \<and> \<not> has_prefix after ''/'' then Some fin else None)
         else if prior \<in> set (''-_.+'' @ [CHR 0x5C]) \<or> is_word prior \<or> version_char after 0 \<or> has_prefix after ''/'' then None
         else if match_string re_version_of (runes (take start s)) \<or> prefix_match re_mod_id_next (runes after) \<noteq> None then None
         else Some fin)"

text \<open>\<open>s[i:j]\<close>, which panics unless \<open>i \<le> j\<close>.\<close>

definition cut_out :: "string \<Rightarrow> nat \<Rightarrow> nat \<Rightarrow> string option" where
  "cut_out s i j = (if i \<le> j \<and> j \<le> length s then Some (take (j - i) (drop i s)) else None)"

definition redacted :: string where "redacted = ''[ip redacted]''"

fun redact_loop :: "string \<Rightarrow> (nat \<times> nat) list \<Rightarrow> nat \<Rightarrow> string \<Rightarrow> string option" where
  "redact_loop s [] lst b = (case cut_out s lst (length s) of None \<Rightarrow> None | Some t \<Rightarrow> Some (b @ t))"
| "redact_loop s ((i, j) # ms) lst b =
     (case ipv4_end s i j of
        None \<Rightarrow> redact_loop s ms lst b
      | Some e \<Rightarrow> (case cut_out s lst i of
          None \<Rightarrow> None
        | Some t \<Rightarrow> redact_loop s ms e (b @ t @ redacted)))"

definition byte_index :: "position \<Rightarrow> nat" where
  "byte_index p = length (bytes_of (fst p))"

definition quads :: "string \<Rightarrow> (nat \<times> nat) list" where
  "quads s = map (\<lambda>(p, q). (byte_index p, byte_index q)) (find_all re_ipv4 [] (runes s))"

definition redact_ips :: "string \<Rightarrow> string option" where
  "redact_ips s =
     (let s = replace_all_string re_ipv6_port s (''/'' @ redacted)
      in redact_loop s (quads s) 0 [])"

text \<open>\<open>RedactIPs\<close> always has a result, \<open>redact_ips_never_panics\<close> below.\<close>

definition clean_line :: "string \<Rightarrow> string" where
  "clean_line s = the (redact_ips (strip_colours (strip_ansi s)))"

subsection \<open>Addresses never overlap\<close>

text \<open>An address starts with digits, a full stop and another digit.\<close>

definition digit_item :: "item \<Rightarrow> bool" where "digit_item = in_class [(48, 57)] \<circ> fst"

lemma one_class: "matches (Class cs) = one (in_class cs)"
  by (rule ext) simp

lemma set_Seq: "q \<in> set (matches (Seq r s) p) \<longleftrightarrow> (\<exists>m. m \<in> set (matches r p) \<and> q \<in> set (matches s m))"
  by (simp only: matches.simps set_concat set_map) blast

lemma digits_match:
  assumes "q \<in> set (matches (Rep m n digit_re) p)"
  obtains ds where "moved p q ds" "list_all digit_item ds" "m \<le> length ds"
  using assms rounds_one [of q "in_class [(48, 57)]" m n p] by (auto simp: digit_re_def one_class digit_item_def)

lemma lit_match:
  assumes "q \<in> set (matches (lit c) p)"
  obtains x where "moved p q [x]" "fst x = c"
  using assms one_moved [of q "in_class [(c, c)]" p] by (auto simp: in_class_def)

lemma ipv4_starts:
  assumes "q \<in> set (matches re_ipv4 p)"
  obtains ds x d rest where "snd p = ds @ x # d # rest" and "list_all digit_item ds" "ds \<noteq> []" "fst x = 46" "digit_item d"
proof -
  let ?quad = "matches (Seq (Rep 1 2 digit_re) (lit 46))"
  have quad: "\<exists>ds x. snd u = ds @ x # snd v \<and> list_all digit_item ds \<and> ds \<noteq> [] \<and> fst x = 46" if v: "v \<in> set (?quad u)" for u v
  proof -
    obtain m where m: "m \<in> set (matches (Rep 1 2 digit_re) u)" "v \<in> set (matches (lit 46) m)" using v unfolding set_Seq by blast
    obtain ds where ds: "moved u m ds" "list_all digit_item ds" "1 \<le> length ds" using digits_match [OF m(1)] by blast
    obtain x where x: "moved m v [x]" "fst x = 46" using lit_match [OF m(2)] by blast
    have "snd u = ds @ x # snd v" using ds(1) x(1) by (simp add: moved_def)
    moreover have "ds \<noteq> []" using ds(3) by auto
    ultimately show ?thesis using ds(2) x(2) by blast
  qed
  have three: "v \<in> set (matches (Rep 3 0 r) u) \<Longrightarrow> \<exists>w. w \<in> set (matches r u) \<and> (\<exists>t. t \<in> set (matches r w))" for r u v
    by (auto simp: numeral_3_eq_3)
  from assms obtain w where "w \<in> set (matches (Rep 3 0 (Seq (Rep 1 2 digit_re) (lit 46))) p)"
    unfolding re_ipv4_def set_Seq by (auto split: if_splits)
  from three [OF this] obtain t1 where t1: "t1 \<in> set (?quad p)" and "\<exists>t2. t2 \<in> set (?quad t1)" by blast
  then obtain t2 where t2: "t2 \<in> set (?quad t1)" by blast
  obtain ds x where 1: "snd p = ds @ x # snd t1" "list_all digit_item ds" "ds \<noteq> []" "fst x = 46" using quad [OF t1] by blast
  obtain es y where 2: "snd t1 = es @ y # snd t2" "list_all digit_item es" "es \<noteq> []" using quad [OF t2] by blast
  then obtain d rest where "snd t1 = d # rest" "digit_item d" by (cases es) auto
  then show ?thesis using 1 that by auto
qed

text \<open>A port is a colon, digits and the end of a word.\<close>

lemma port_parts:
  assumes a: "set a \<subseteq> set (runes s)" "runes (bytes_of a) = a" and p: "port_of (bytes_of a) = p" "p \<noteq> []"
  obtains x ds rest where "a = x # ds @ rest" "fst x = 58" "list_all digit_item ds" "ds \<noteq> []" "\<not> at_word rest"
    "p = bytes_of (x # ds)" "length p = Suc (length ds)"
proof -
  from p obtain b rest where "prefix_match re_port a = Some (b, rest)" and pb: "p = bytes_of (rev b)"
    by (auto simp: port_of_def a(2) split: option.splits)
  then have "(b, rest) \<in> set (matches re_port ([], a))" by (auto simp: prefix_match_def split: list.splits)
  then obtain m0 m1 m2 where m: "m0 \<in> set (matches Text_Start ([], a))" "m1 \<in> set (matches (lit 58) m0)"
      "m2 \<in> set (matches (Rep 1 4 digit_re) m1)" "(b, rest) \<in> set (matches Word_Boundary m2)"
    unfolding re_port_def set_Seq by blast
  have m0: "m0 = ([], a)" and m2: "m2 = (b, rest)" and word: "at_word b \<noteq> at_word rest" using m(1,4) by (auto split: if_splits)
  obtain x where x: "moved ([], a) m1 [x]" "fst x = 58" using lit_match m(2) m0 by blast
  obtain ds where ds: "moved m1 m2 ds" "list_all digit_item ds" "1 \<le> length ds" using digits_match [OF m(3)] by blast
  have a_eq: "a = x # ds @ rest" and b_eq: "b = rev ds @ [x]" using x ds m2 by (auto simp: moved_def)
  have "at_word b"
  proof (cases ds rule: rev_cases)
    case (snoc es d)
    then have "digit_item d" using ds(2) by simp
    then show ?thesis using b_eq snoc by (cases d) (simp add: at_word_def word_rune_def digit_item_def in_class_def)
  qed (use ds in simp)
  then have "\<not> at_word rest" using word by simp
  moreover have p_eq: "p = bytes_of (x # ds)" using pb b_eq by simp
  moreover have "length (bytes_of (x # ds)) = Suc (length ds)"
  proof -
    have "length (snd y) = 1" if "y \<in> set (x # ds)" for y
    proof -
      have "y \<in> set (runes s)" using that a(1) a_eq by auto
      moreover have "fst y < 128" using that x(2) ds(2) by (auto simp: list_all_iff digit_item_def in_class_def)
      ultimately show ?thesis using runes_items [of "fst y" "snd y" s] by simp
    qed
    then have "list_all (\<lambda>y. length (snd y) = 1) (x # ds)" by (simp add: list_all_iff)
    moreover have "list_all (\<lambda>y. length (snd y) = 1) ys \<Longrightarrow> length (bytes_of ys) = length ys" for ys :: "item list"
      by (induction ys) (simp_all add: bytes_of_def)
    ultimately show ?thesis by fastforce
  qed
  moreover have "ds \<noteq> []" using ds(3) by auto
  ultimately show ?thesis using that a_eq x(2) ds(2) by simp
qed

lemma length_bytes_rev [simp]: "length (bytes_of (rev xs)) = length (bytes_of xs)"
  by (simp add: bytes_of_def length_concat sum_list_rev rev_map [symmetric])

lemma byte_index_moved: "moved p q xs \<Longrightarrow> byte_index q = byte_index p + length (bytes_of xs)"
  by (simp add: moved_def byte_index_def)

lemma takeWhile_digits:
  "list_all digit_item ds \<Longrightarrow> \<not> digit_item x \<Longrightarrow> takeWhile digit_item (ds @ x # xs) = ds"
  by (induction ds) auto

text \<open>The next address starts after the port of one, unless the port runs on into it.\<close>

lemma next_after_port:
  assumes s: "runes s = rev b @ a" and p: "port_of (bytes_of a) = p" "p \<noteq> []" "\<not> version_char (bytes_of a) (length p)"
    and found: "search re_ipv4 b a = Some (st, e)"
  shows "length (bytes_of b) + length p \<le> byte_index st"
proof -
  have a: "set a \<subseteq> set (runes s)" "runes (bytes_of a) = a" using s runes_rest [of s "rev b" a] by auto
  obtain x ds rest where port: "a = x # ds @ rest" "fst x = 58" "list_all digit_item ds" "ds \<noteq> []" "\<not> at_word rest"
      "p = bytes_of (x # ds)" "length p = Suc (length ds)"
    using port_parts [OF a p(1,2)] by blast
  obtain xs where xs: "moved (b, a) st xs" and match: "e \<in> set (matches re_ipv4 st)" using search_Some [OF found] by blast
  have a_eq: "a = xs @ snd st" using xs by (simp add: moved_def)
  have idx: "byte_index st = length (bytes_of b) + length (bytes_of xs)"
    using byte_index_moved [OF xs] by (simp add: byte_index_def)
  show ?thesis
  proof (cases "length xs \<le> length ds")
    case True
    obtain qs y d more where m: "snd st = qs @ y # d # more" "list_all digit_item qs" "qs \<noteq> []" "fst y = 46" "digit_item d"
      using ipv4_starts [OF match] by blast
    have "xs \<noteq> []"
      using a_eq port(1,2) m(1-3) by (cases qs) (auto simp: digit_item_def in_class_def)
    then obtain es where es: "xs = x # es" using a_eq port(1) by (cases xs) auto
    then have "ds @ rest = es @ snd st" "length es < length ds" using a_eq port(1) True by auto
    then obtain fs where fs: "ds = es @ fs" "snd st = fs @ rest" "fs \<noteq> []"
      by (auto simp: append_eq_append_conv2)
    have rest_head: "\<not> digit_item z" if "rest = z # zs" for z zs
      using port(5) that by (cases z) (auto simp: at_word_def word_rune_def digit_item_def in_class_def)
    have "takeWhile digit_item (fs @ rest) = fs"
      using port(3) fs(1) rest_head by (cases rest) (auto simp: takeWhile_digits list_all_iff)
    moreover have "takeWhile digit_item (qs @ y # d # more) = qs"
      by (rule takeWhile_digits [OF m(2)]) (use m(4) in \<open>simp add: digit_item_def in_class_def\<close>)
    ultimately have "fs = qs" using m(1) fs(2) by simp
    then have rest: "rest = y # d # more" using m(1) fs(2) by simp
    have "y \<in> set (runes s)" "d \<in> set (runes s)" using a(1) port(1) rest by auto
    moreover have "fst d < 128" "fst y < 128" using m(4,5) by (auto simp: digit_item_def in_class_def)
    ultimately have "snd y = [char_of (fst y)]" "snd d = [char_of (fst d)]"
      using runes_items [of "fst y" "snd y" s] runes_items [of "fst d" "snd d" s] by auto
    then have "bytes_of a = p @ CHR ''.'' # char_of (fst d) # bytes_of more"
      using port(1,6) rest m(4) by (simp add: bytes_of_def char_of_def bit_0)
    moreover have "is_word (char_of (fst d))"
      using m(5) by (auto simp: is_word_def digit_item_def in_class_def of_char_of)
    ultimately have "version_char (bytes_of a) (length p)" by (simp add: version_char_def nth_append)
    then show ?thesis using p(3) by simp
  next
    case False
    then have "length (x # ds) \<le> length xs" by simp
    then obtain ys where "xs = (x # ds) @ ys"
      using a_eq port(1) append_eq_append_conv_if [of xs "snd st" "x # ds" rest] by (metis append_Cons append_eq_append_conv_if append_take_drop_id)
    then show ?thesis using idx port(6) bytes_of_append [of "x # ds" ys] by simp
  qed
qed

lemma ipv4_end_Some:
  "ipv4_end s i j = Some f \<Longrightarrow> f = j \<or> (f = j + length (port_of (drop j s)) \<and> port_of (drop j s) \<noteq> []
     \<and> \<not> version_char (drop j s) (length (port_of (drop j s))))"
  by (auto simp: ipv4_end_def Let_def split: if_splits)

lemma drop_index: "runes s = rev (fst p) @ snd p \<Longrightarrow> drop (byte_index p) s = bytes_of (snd p) \<and> byte_index p \<le> length s"
  using bytes_of_runes [of s] length_bytes_rev [of "fst p"] by (auto simp: byte_index_def)

lemma ipv4_end_le:
  assumes s: "runes s = rev (fst p) @ snd p" and f: "ipv4_end s i (byte_index p) = Some f"
  shows "f \<le> length s"
proof -
  note d = drop_index [OF s]
  show ?thesis
  proof (cases "f = byte_index p")
    case False
    then have f_eq: "f = byte_index p + length (port_of (bytes_of (snd p)))" "port_of (bytes_of (snd p)) \<noteq> []"
      using ipv4_end_Some [OF f] d by auto
    have a: "set (snd p) \<subseteq> set (runes s)" "runes (bytes_of (snd p)) = snd p" using s runes_rest [of s "rev (fst p)" "snd p"] by auto
    obtain x ds rest where *: "snd p = x # ds @ rest" "port_of (bytes_of (snd p)) = bytes_of (x # ds)"
      using port_parts [OF a refl f_eq(2)] by blast
    have "length s = byte_index p + length (bytes_of (snd p))" using d by (metis le_add_diff_inverse length_drop)
    moreover have "length (bytes_of (x # ds)) \<le> length (bytes_of (snd p))"
      unfolding *(1) using bytes_of_append [of "x # ds" rest] by simp
    ultimately show ?thesis using f_eq(1) *(2) by simp
  qed (use d in simp)
qed

lemma redact_loop_total:
  "runes s = rev b @ a \<Longrightarrow> lst \<le> length s \<Longrightarrow> (\<And>st e. search re_ipv4 b a = Some (st, e) \<Longrightarrow> lst \<le> byte_index st) \<Longrightarrow>
     redact_loop s (map (\<lambda>(p, q). (byte_index p, byte_index q)) (find_all re_ipv4 b a)) lst acc \<noteq> None"
proof (induction re_ipv4 b a arbitrary: lst acc rule: find_all.induct)
  case (1 b a)
  show ?case
  proof (cases "search re_ipv4 b a")
    case None
    then show ?thesis using 1(3) by (simp add: find_all.simps [of re_ipv4 b a] cut_out_def)
  next
    case (Some m)
    then obtain st e where m: "search re_ipv4 b a = Some (st, e)" by (cases m) simp
    obtain xs ys where xs: "moved (b, a) st xs" and ys: "moved st e ys" using search_Some [OF m] by blast
    have st: "runes s = rev (fst st) @ snd st" and e: "runes s = rev (fst e) @ snd e"
      using 1(2) xs ys by (auto simp: moved_def)
    have lst: "lst \<le> byte_index st" "byte_index st \<le> length s" using 1(4) [OF m] drop_index [OF st] by auto
    have le: "byte_index st \<le> byte_index e" using byte_index_moved [OF ys] by simp
    have after: "byte_index e \<le> byte_index st'" "ipv4_end s (byte_index st) (byte_index e) = Some f \<Longrightarrow> f \<le> byte_index st'"
      if next_m: "search re_ipv4 (fst e) (snd e) = Some (st', e')" for st' e' f
    proof -
      obtain zs where "moved (fst e, snd e) st' zs" using search_Some [OF next_m] by blast
      from byte_index_moved [OF this] show 2: "byte_index e \<le> byte_index st'" by (simp add: byte_index_def)
      assume "ipv4_end s (byte_index st) (byte_index e) = Some f"
      then show "f \<le> byte_index st'"
        using ipv4_end_Some [of s "byte_index st" "byte_index e" f] 2 drop_index [OF e] next_after_port [OF e _ _ _ next_m]
        by (auto simp: byte_index_def)
    qed
    let ?rest = "if length (snd e) < length a then find_all re_ipv4 (fst e) (snd e) else []"
    have all: "find_all re_ipv4 b a = (st, e) # ?rest" using m by (simp add: find_all.simps [of re_ipv4 b a])
    have rest: "redact_loop s (map (\<lambda>(p, q). (byte_index p, byte_index q)) ?rest) l acc' \<noteq> None"
      if "l \<le> length s" "\<And>st' e'. search re_ipv4 (fst e) (snd e) = Some (st', e') \<Longrightarrow> l \<le> byte_index st'" for l acc'
      using 1(1) [OF m refl _ e that] that(1) by (simp add: cut_out_def)
    show ?thesis
    proof (cases "ipv4_end s (byte_index st) (byte_index e)")
      case None
      have "redact_loop s (map (\<lambda>(p, q). (byte_index p, byte_index q)) ?rest) lst acc \<noteq> None"
      proof (rule rest)
        show "lst \<le> byte_index st'" if "search re_ipv4 (fst e) (snd e) = Some (st', e')" for st' e'
          using after(1) [OF that] lst(1) le by simp
      qed (use lst in simp)
      then show ?thesis using None by (simp add: all)
    next
      case (Some f)
      have "redact_loop s (map (\<lambda>(p, q). (byte_index p, byte_index q)) ?rest) f acc' \<noteq> None" for acc'
        by (rule rest) (use ipv4_end_le [OF e Some] after(2) Some in auto)
      then show ?thesis using Some lst by (simp add: all cut_out_def)
    qed
  qed
qed

text \<open>C29: \<open>RedactIPs\<close> has a result for every text: the addresses and ports it cuts out never overlap,
  so no cut has its ends crossed.\<close>

theorem redact_ips_never_panics: "\<exists>t. redact_ips s = Some t"
proof -
  have "redact_ips s \<noteq> None" unfolding redact_ips_def Let_def quads_def by (rule redact_loop_total) auto
  then show ?thesis by simp
qed

end
