(* ===== verification/Clean_Output.thy ===== *)
theory Clean_Output
  imports Chat Log_Lines
begin

section \<open>Server output of schedules (internal/schedule/chat.go)\<close>

text \<open>
  What a schedule stores of a console's reply or an error: \<open>cleanOutput\<close>, its cut to 300 bytes, and
  \<open>rejected\<close>, which tells a reply that refuses a command. The main lemma: whatever the server
  answers, what is stored is one line of at most 300 bytes without control bytes.
\<close>

subsection \<open>Definitions\<close>

definition max_detail :: nat where "max_detail = 300"

definition format_re :: regexp where
  "format_re = Seq (lit 167) (optional (Not_Class [(10, 10)]))"

definition white_re :: regexp where "white_re = Class [(9, 10), (12, 13), (32, 32)]"

definition space_re :: regexp where "space_re = Seq white_re (Star white_re)"

definition malformed_item :: "item \<Rightarrow> bool" where
  "malformed_item x \<longleftrightarrow> fst x = rune_error \<and> length (snd x) = 1"

text \<open>\<open>strings.ToValidUTF8\<close> with nothing in place of malformed bytes.\<close>

definition to_valid_utf8 :: "string \<Rightarrow> string" where
  "to_valid_utf8 s = bytes_of (filter (\<lambda>x. \<not> malformed_item x) (runes s))"

text \<open>\<open>strings.Map\<close> with the function of \<open>cleanOutput\<close>; it writes U+FFFD for a malformed byte.\<close>

definition blank_controls :: "string \<Rightarrow> string" where
  "blank_controls s = concat (map (\<lambda>x.
     if fst x < 32 \<or> 127 \<le> fst x \<and> fst x < 160 then '' ''
     else if malformed_item x then [CHR 0xEF, CHR 0xBF, CHR 0xBD]
     else snd x) (runes s))"

fun cut_back :: "string \<Rightarrow> nat \<Rightarrow> nat" where
  "cut_back s 0 = 0"
| "cut_back s (Suc n) = (if is_cont (code (s ! Suc n)) then cut_back s n else Suc n)"

definition ellipsis :: string where "ellipsis = [CHR 0xE2, CHR 0x80, CHR 0xA6]"

definition truncate :: "string \<Rightarrow> nat \<Rightarrow> string" where
  "truncate s n = (if length s \<le> n then s else take (cut_back s (n - length ellipsis)) s @ ellipsis)"

definition clean_output :: "string \<Rightarrow> string" where
  "clean_output s =
     (let s = replace_all_string format_re (clean_line (to_valid_utf8 s)) [];
          s = blank_controls s
      in truncate (trim_space (replace_all_string space_re s '' '')) max_detail)"

definition rejected :: "string \<Rightarrow> bool" where
  "rejected out \<longleftrightarrow> list_ex (has_prefix (trim_space (clean_output out)))
     [''Unknown or incomplete command'', ''Incorrect argument for command'', ''Unknown command'', ''Expected whitespace'']"

subsection \<open>One short line\<close>

definition plain_byte :: "char \<Rightarrow> bool" where
  "plain_byte c \<longleftrightarrow> 32 \<le> code c \<and> code c \<noteq> (127 :: nat)"

lemma width_of_rune:
  "decode_rune (a # bs) = (r, k) \<Longrightarrow> 128 \<le> a \<Longrightarrow> k \<le> 4 \<and> list_all (\<lambda>b. 128 \<le> (b :: nat)) (take (k - 1) bs)"
  by (auto simp: decode_rune_def is_cont_def take_Cons' split: list.splits if_splits)

lemma rune_bytes: "(r, t) \<in> set (runes s) \<Longrightarrow> 128 \<le> r \<Longrightarrow> list_all (\<lambda>c. 128 \<le> (code c :: nat)) t"
proof (induction s rule: runes.induct)
  case (2 c cs)
  obtain a k where ak: "decode_rune (map of_char (take 4 (c # cs))) = (a, k)"
    by (cases "decode_rune (map of_char (take 4 (c # cs)))")
  have rs: "runes (c # cs) = (a, c # take (k - 1) cs) # runes (drop (k - 1) cs)"
    by (subst runes.simps(2)) (simp only: ak Let_def case_prod_conv)
  have first: "128 \<le> a \<longrightarrow> list_all (\<lambda>c. 128 \<le> (code c :: nat)) (c # take (k - 1) cs)"
  proof (cases "code c < (128 :: nat)")
    case True
    then have "a = code c" using ak by simp
    then show ?thesis using True by simp
  next
    case False
    then have "k \<le> 4" "list_all (\<lambda>b. 128 \<le> (b :: nat)) (take (k - 1) (map of_char (take 3 cs)))"
      using width_of_rune [of "code c" "map of_char (take 3 cs)" a k] ak by auto
    moreover have "k - 1 \<le> 3" using \<open>k \<le> 4\<close> by simp
    ultimately show ?thesis using False by (auto simp: take_map min_def list_all_iff)
  qed
  show ?case
  proof (cases "(r, t) \<in> set (runes (drop (k - 1) cs))")
    case True
    then show ?thesis using "2.IH" [OF ak [symmetric] refl] "2.prems" by blast
  next
    case False
    then have "r = a" "t = c # take (k - 1) cs" using "2.prems" unfolding rs by auto
    then show ?thesis using first "2.prems" by simp
  qed
qed simp

lemma blank_controls_plain: "list_all plain_byte (blank_controls s)"
proof -
  have "list_all plain_byte (if fst x < 32 \<or> 127 \<le> fst x \<and> fst x < 160 then '' ''
     else if malformed_item x then [CHR 0xEF, CHR 0xBF, CHR 0xBD] else snd x)" if "x \<in> set (runes s)" for x
    using that runes_items [of "fst x" "snd x" s] rune_bytes [of "fst x" "snd x" s]
    by (cases "128 \<le> fst x") (auto simp: plain_byte_def list_all_iff of_char_of)
  then show ?thesis by (auto simp: blank_controls_def list_all_iff)
qed

lemma replace_from_bytes: "set (replace_from r t b a) \<subseteq> set (bytes_of a) \<union> set t"
proof (induction r t b a rule: replace_from.induct)
  case (1 r t b a)
  show ?case
  proof (cases "search r b a")
    case (Some m)
    then obtain st e where m: "search r b a = Some (st, e)" by (cases m) simp
    then obtain xs ys where "moved (b, a) st xs" "moved st e ys" using search_Some by blast
    then have a: "a = xs @ ys @ snd e" by (simp add: moved_def)
    have 1: "set (bytes_of (take n a)) \<subseteq> set (bytes_of a)" for n by (auto simp: bytes_of_def dest: in_set_takeD)
    have 2: "set (bytes_of (snd e)) \<subseteq> set (bytes_of a)" by (auto simp: a)
    have "set (if length (snd e) < length a then replace_from r t (fst e) (snd e) else bytes_of (snd e))
        \<subseteq> set (bytes_of a) \<union> set t"
      using "1.IH" [OF m refl] 2 by auto
    then show ?thesis
      using 1 [of "length a - length (snd st)"] by (simp add: replace_from.simps [of r t b a] m) blast
  qed (simp add: replace_from.simps [of r t b a])
qed

lemma trim_space_bytes: "set (trim_space s) \<subseteq> set s"
proof -
  have "set (trim_runes xs) \<subseteq> set xs" for xs
    unfolding trim_runes_def using set_dropWhileD by (metis set_rev subset_code(1))
  then have "set (concat (map snd (trim_runes (runes s)))) \<subseteq> set (concat (map snd (runes s)))" by fastforce
  then show ?thesis by (simp only: trim_space_def runes_bytes)
qed

lemma cut_back_le: "cut_back s n \<le> n"
  by (induction n) auto

lemma truncate_length: "length ellipsis \<le> n \<Longrightarrow> length (truncate s n) \<le> n"
  using cut_back_le [of s "n - length ellipsis"] by (auto simp: truncate_def)

text \<open>What a schedule stores of a reply or an error is at most 300 bytes long and holds no
  control byte, so no line break and no terminal code, whatever the server sent.\<close>

theorem stored_output_is_one_line:
  "length (clean_output s) \<le> max_detail \<and> list_all plain_byte (clean_output s)"
proof
  show "length (clean_output s) \<le> max_detail"
    unfolding clean_output_def Let_def by (rule truncate_length) (simp add: ellipsis_def max_detail_def)
  let ?b = "blank_controls (replace_all_string format_re (clean_line (to_valid_utf8 s)) [])"
  let ?t = "trim_space (replace_all_string space_re ?b '' '')"
  have "list_all plain_byte ?t"
    using blank_controls_plain [of "replace_all_string format_re (clean_line (to_valid_utf8 s)) []"]
      trim_space_bytes [of "replace_all_string space_re ?b '' ''"] replace_from_bytes [of space_re "'' ''" "[]" "runes ?b"]
    by (fastforce simp: list_all_iff replace_all_string_def plain_byte_def)
  then show "list_all plain_byte (clean_output s)"
    unfolding clean_output_def Let_def truncate_def
    by (auto simp: list_all_iff ellipsis_def plain_byte_def dest: in_set_takeD)
qed

end
