(* ===== verification/Schedule_Store.thy ===== *)
theory Schedule_Store
  imports Plan Clean_Output
begin

section \<open>The agent's schedules tables (internal/agent/schedules.go)\<close>

text \<open>
  The statements with which the agent keeps schedules and their runs: the tables \<open>schedules\<close>,
  \<open>schedule_runs\<close> and the audit trail's entries of scheduled console commands. A row is the
  \<open>schedule\<close> it is read back as: \<open>encoding/json\<close> gives back the timing, payload and run it was
  given, and times of a schedule are kept in milliseconds. Of \<open>saveScheduleRun\<close> the statement with
  the number \<open>fault\<close> may fail; the ones before it have taken effect then. The requests around the
  statements (decoding, checks, audit, answers) are not modelled here.
\<close>

subsection \<open>Tables\<close>

record run_row =
  rr_schedule :: string
  rr_server :: string
  rr_kind :: task
  rr_due :: int
  rr_started :: "int option"
  rr_finished :: "int option"
  rr_result :: run_result
  rr_reason :: reason
  rr_detail :: string
  rr_operation :: string
  rr_players :: "int option"

record audit_entry =
  au_actor :: string
  au_action :: string
  au_target :: string
  au_outcome :: run_result
  au_detail :: string

record store =
  st_schedules :: "schedule list"
  st_runs :: "run_row list"
  st_audit :: "audit_entry list"

definition schedule_run_age :: duration where "schedule_run_age = 90 * 24 * hour"

definition is_row :: "string \<Rightarrow> string \<Rightarrow> schedule \<Rightarrow> bool" where
  "is_row srv i s \<longleftrightarrow> s_id s = i \<and> s_server_id s = srv"

subsection \<open>Reading and changing schedules\<close>

definition load_order :: "schedule \<Rightarrow> schedule \<Rightarrow> int" where
  "load_order = cmp_or (\<lambda>a b. cmp_int (s_created_at a) (s_created_at b)) (\<lambda>a b. cmp_string (s_id a) (s_id b))"

definition load_schedules :: "string \<Rightarrow> store \<Rightarrow> schedule list" where
  "load_schedules srv st = stable_sort load_order (filter (\<lambda>s. s_server_id s = srv) (st_schedules st))"

definition stored_time :: "gotime \<Rightarrow> gotime" where
  "stored_time t = from_unix_milli (unix_milli t)"

text \<open>The insertion of a new schedule, which the primary key refuses for an id there is.\<close>

definition insert_schedule :: "schedule \<Rightarrow> gotime \<Rightarrow> store \<Rightarrow> store" where
  "insert_schedule s now st =
     (if s_id s \<in> s_id ` set (st_schedules st) then st
      else st\<lparr>st_schedules := st_schedules st @ [s\<lparr>s_created_at := stored_time now, s_updated_at := stored_time now, s_last_run := None\<rparr>]\<rparr>)"

text \<open>The update of an edit leaves the last run in its row, without its retry.\<close>

definition update_schedule :: "schedule \<Rightarrow> gotime \<Rightarrow> store \<Rightarrow> store" where
  "update_schedule s now st = st\<lparr>st_schedules := map (\<lambda>row.
     if is_row (s_server_id s) (s_id s) row
     then row\<lparr>s_name := s_name s, s_task := s_task s, s_timing := s_timing s, s_payload := s_payload s, s_enabled := s_enabled s,
            s_updated_at := stored_time now, s_last_run := map_option (\<lambda>l. l\<lparr>ru_retry_at := zero_time\<rparr>) (s_last_run row)\<rparr>
     else row) (st_schedules st)\<rparr>"

definition delete_schedule :: "string \<Rightarrow> string \<Rightarrow> store \<Rightarrow> store" where
  "delete_schedule srv i st = st\<lparr>st_schedules := filter (\<lambda>s. \<not> is_row srv i s) (st_schedules st)\<rparr>"

subsection \<open>Saving a run\<close>

definition nonzero_milli :: "gotime \<Rightarrow> int option" where
  "nonzero_milli t = (if t = zero_time then None else Some (unix_milli t))"

definition run_row_of :: "string \<Rightarrow> schedule \<Rightarrow> run \<Rightarrow> run_row" where
  "run_row_of srv s run = \<lparr>rr_schedule = s_id s, rr_server = srv, rr_kind = s_task s, rr_due = unix_milli (ru_due run),
     rr_started = nonzero_milli (ru_started run), rr_finished = nonzero_milli (ru_finished run), rr_result = ru_result run,
     rr_reason = ru_reason run, rr_detail = ru_detail run, rr_operation = ru_operation run, rr_players = ru_players run\<rparr>"

definition same_occurrence :: "run_row \<Rightarrow> run_row \<Rightarrow> bool" where
  "same_occurrence r q \<longleftrightarrow> rr_schedule q = rr_schedule r \<and> rr_due q = rr_due r"

text \<open>An insertion that meets the row of its occurrence updates it, but not its server and kind.\<close>

definition upsert_run :: "run_row \<Rightarrow> run_row list \<Rightarrow> run_row list" where
  "upsert_run r rs =
     (if list_ex (same_occurrence r) rs
      then map (\<lambda>q. if same_occurrence r q then r\<lparr>rr_server := rr_server q, rr_kind := rr_kind q\<rparr> else q) rs
      else rs @ [r])"

definition command_audit :: "schedule \<Rightarrow> run \<Rightarrow> audit_entry list" where
  "command_audit s run =
     (if s_task s = Console_Command \<and> (ru_result run = Succeeded \<or> ru_result run = Failed)
      then [\<lparr>au_actor = actor (s_id s), au_action = ''console.command'', au_target = ''server'', au_outcome = ru_result run,
             au_detail = the (redact_ips (p_command (s_payload s)))\<rparr>]
      else [])"

text \<open>The store afterwards, and whether \<open>saveScheduleRun\<close> returned without an error.\<close>

definition save_schedule_run :: "string \<Rightarrow> nat option \<Rightarrow> gotime \<Rightarrow> string \<Rightarrow> run \<Rightarrow> store \<Rightarrow> store \<times> bool" where
  "save_schedule_run srv fault now i run st =
     (if fault = Some 0 then (st, False)
      else let st1 = st\<lparr>st_schedules := map (\<lambda>s. if is_row srv i s then s\<lparr>s_last_run := Some run\<rparr> else s) (st_schedules st)\<rparr>
      in if \<not> list_ex (is_row srv i) (st_schedules st) then (st1, True)
      else if fault = Some 1 then (st1, False)
      else case find (\<lambda>s. s_id s = i) (st_schedules st1) of
        None \<Rightarrow> (st1, False)
      | Some s \<Rightarrow>
          if fault = Some 2 then (st1, False)
          else let st2 = st1\<lparr>st_runs := upsert_run (run_row_of srv s run) (st_runs st1), st_audit := st_audit st1 @ command_audit s run\<rparr>
          in if fault = Some 3 then (st2, False)
          else (st2\<lparr>st_runs := filter (\<lambda>r. \<not> (rr_server r = srv \<and> rr_due r < unix_milli (now - schedule_run_age))) (st_runs st2)\<rparr>, True))"

subsection \<open>What the statements keep\<close>

text \<open>Ids are a primary key, and so is a run's occurrence.\<close>

definition keys_ok :: "store \<Rightarrow> bool" where
  "keys_ok st \<longleftrightarrow> distinct (map s_id (st_schedules st)) \<and> distinct (map (\<lambda>r. (rr_schedule r, rr_due r)) (st_runs st))"

lemma map_keep: "(\<And>x. f (g x) = f x) \<Longrightarrow> map f (map g xs) = map f xs"
  by simp

lemma ids_after_edit:
  "map s_id (st_schedules (update_schedule s now st)) = map s_id (st_schedules st)"
  "map s_id (st_schedules (delete_schedule srv i st)) = map s_id (filter (\<lambda>s. \<not> is_row srv i s) (st_schedules st))"
  by (auto simp: update_schedule_def delete_schedule_def)

lemma ids_after_save: "map s_id (st_schedules (fst (save_schedule_run srv fault now i run st))) = map s_id (st_schedules st)"
  by (auto simp: save_schedule_run_def Let_def split: option.splits)

lemma upsert_run_keys:
  "distinct (map (\<lambda>r. (rr_schedule r, rr_due r)) rs) \<Longrightarrow> distinct (map (\<lambda>r. (rr_schedule r, rr_due r)) (upsert_run r rs))"
proof (cases "list_ex (same_occurrence r) rs")
  case True
  assume "distinct (map (\<lambda>r. (rr_schedule r, rr_due r)) rs)"
  moreover have "map (\<lambda>r. (rr_schedule r, rr_due r)) (upsert_run r rs) = map (\<lambda>r. (rr_schedule r, rr_due r)) rs"
    unfolding upsert_run_def using True by (auto simp: same_occurrence_def)
  ultimately show ?thesis by simp
next
  case False
  assume "distinct (map (\<lambda>r. (rr_schedule r, rr_due r)) rs)"
  then show ?thesis using False by (auto simp: upsert_run_def same_occurrence_def list_ex_iff)
qed

lemma distinct_map_filter: "distinct (map f xs) \<Longrightarrow> distinct (map f (filter P xs))"
  by (induction xs) auto

lemma keys_kept:
  assumes "keys_ok st"
  shows "keys_ok (insert_schedule s now st)" "keys_ok (update_schedule s now st)" "keys_ok (delete_schedule srv i st)"
    "keys_ok (fst (save_schedule_run srv fault now i run st))"
proof -
  show "keys_ok (insert_schedule s now st)" using assms by (auto simp: keys_ok_def insert_schedule_def)
  show "keys_ok (update_schedule s now st)" using assms ids_after_edit(1) by (simp add: keys_ok_def) (simp add: update_schedule_def)
  show "keys_ok (delete_schedule srv i st)" using assms by (simp add: keys_ok_def delete_schedule_def distinct_map_filter)
  have "distinct (map (\<lambda>r. (rr_schedule r, rr_due r)) (st_runs (fst (save_schedule_run srv fault now i run st))))"
    using assms upsert_run_keys by (auto simp: save_schedule_run_def keys_ok_def Let_def distinct_map_filter split: option.splits)
  then show "keys_ok (fst (save_schedule_run srv fault now i run st))" using assms ids_after_save by (simp add: keys_ok_def)
qed

end
