(* ===== verification/Runner.thy ===== *)
theory Runner
  imports Schedule_Store
begin

section \<open>The runner of a server's schedules (internal/schedule/runner.go)\<close>

text \<open>
  The runner waits for due schedules and runs them one at a time: restarts with their countdown,
  backups, announcements and console commands. It asks its surroundings (the clock, the server, the
  database, timers, the context) one question at a time, and the script of a \<open>world\<close> holds the
  answers. Between two questions people may change the schedules: an \<open>Edit\<close> in the script. A
  process that dies is a script that ends: the operation then has no result (\<open>None\<close>), and what it
  changed until then stays. \<open>w_trace\<close> logs the calls with their outcome, for the theorems.

  A \<open>step\<close> is such an operation, and \<open>do_then\<close> runs one after another. The loops call themselves
  after at least one answer was used up, which is why they end for every script.
\<close>

subsection \<open>Questions and answers\<close>

record server_state =
  ss_running :: bool
  ss_sleeping :: bool
  ss_players :: int
  ss_players_known :: bool
  ss_busy :: bool

datatype op_kind = Op_Restart | Op_Backup

record operation =
  op_what :: op_kind
  op_actor :: string
  op_schedule_id :: string
  op_due :: gotime
  op_note :: string
  op_only_if_played :: bool

datatype op_error = Err_Busy | Err_Not_Running | Err_Nobody_Played | Err_Other string

datatype woke = Woke_Timer | Woke_Reload | Woke_Done

datatype edit = Create schedule gotime | Change schedule gotime | Delete string string

datatype answer =
    Now_Is gotime
  | State_Is "string + server_state"
  | Command_Is "string + string"
  | Run_Is string "op_error option"
  | Load_Is bool
  | Save_Is gotime "nat option"
  | Woke_By woke
  | Done_Is bool
  | Edit edit

datatype call =
    Sent string
  | Ran operation "op_error option"
  | Saved string run bool
  | Waited duration

text \<open>
  The configuration; \<open>cf_message\<close> is the English text of a validation error and \<open>cf_quote\<close> is
  \<open>strconv.Quote\<close>.
\<close>

record config =
  cf_server :: string
  cf_zones :: "string \<Rightarrow> zone option"
  cf_busy_retry :: duration
  cf_busy_give_up :: duration
  cf_message :: "schedule_error \<Rightarrow> string"
  cf_quote :: "string \<Rightarrow> string"

record world =
  w_store :: store
  w_runs :: "string \<Rightarrow> run option"
  w_current :: "(job \<times> gotime) option"
  w_logged :: "string \<Rightarrow> gotime option"
  w_script :: "answer list"
  w_trace :: "call list"

definition max_sleep :: duration where "max_sleep = minute"
definition retry_delay :: duration where "retry_delay = minute"
definition min_notice :: duration where "min_notice = minute"

text \<open>\<open>NewRunner\<close>'s defaults for the two waiting times.\<close>

definition with_defaults :: "config \<Rightarrow> config" where
  "with_defaults c = c\<lparr>cf_busy_retry := (if cf_busy_retry c \<le> 0 then 30 * second else cf_busy_retry c),
     cf_busy_give_up := (if cf_busy_give_up c \<le> 0 then 15 * minute else cf_busy_give_up c)\<rparr>"

subsection \<open>Steps\<close>

type_synonym 'a step = "world \<Rightarrow> 'a option \<times> world"

definition ret :: "'a \<Rightarrow> 'a step" where "ret x w = (Some x, w)"

definition do_then :: "'a step \<Rightarrow> ('a \<Rightarrow> 'b step) \<Rightarrow> 'b step" where
  "do_then m f w = (case m w of (None, w') \<Rightarrow> (None, w') | (Some x, w') \<Rightarrow> f x w')"

definition change :: "(world \<Rightarrow> world) \<Rightarrow> unit step" where "change f w = (Some (), f w)"

definition look :: "(world \<Rightarrow> 'a) \<Rightarrow> 'a step" where "look f w = (Some (f w), w)"

definition apply_edit :: "edit \<Rightarrow> store \<Rightarrow> store" where
  "apply_edit e st = (case e of Create s t \<Rightarrow> insert_schedule s t st | Change s t \<Rightarrow> update_schedule s t st
     | Delete srv i \<Rightarrow> delete_schedule srv i st)"

fun edits_first :: "answer list \<Rightarrow> store \<Rightarrow> answer list \<times> store" where
  "edits_first (Edit e # as) st = edits_first as (apply_edit e st)"
| "edits_first as st = (as, st)"

text \<open>One question: \<open>f\<close> reads its answer and says what is logged and how the store changes.\<close>

definition ask :: "(answer \<Rightarrow> store \<Rightarrow> ('a \<times> call list \<times> store) option) \<Rightarrow> 'a step" where
  "ask f w = (case edits_first (w_script w) (w_store w) of
      ([], st) \<Rightarrow> (None, w\<lparr>w_script := [], w_store := st\<rparr>)
    | (a # as, st) \<Rightarrow> (case f a st of
          None \<Rightarrow> (None, w\<lparr>w_script := [], w_store := st\<rparr>)
        | Some (x, cs, st') \<Rightarrow> (Some x, w\<lparr>w_script := as, w_store := st', w_trace := w_trace w @ cs\<rparr>)))"

definition now_is :: "gotime step" where
  "now_is = ask (\<lambda>a st. case a of Now_Is t \<Rightarrow> Some (t, [], st) | _ \<Rightarrow> None)"

definition get_state :: "(string + server_state) step" where
  "get_state = ask (\<lambda>a st. case a of State_Is r \<Rightarrow> Some (r, [], st) | _ \<Rightarrow> None)"

definition send :: "string \<Rightarrow> (string + string) step" where
  "send cmd = ask (\<lambda>a st. case a of Command_Is r \<Rightarrow> Some (r, [Sent cmd], st) | _ \<Rightarrow> None)"

definition run_op :: "operation \<Rightarrow> (string \<times> op_error option) step" where
  "run_op op = ask (\<lambda>a st. case a of Run_Is i e \<Rightarrow> Some ((i, e), [Ran op e], st) | _ \<Rightarrow> None)"

definition load_rows :: "config \<Rightarrow> schedule list option step" where
  "load_rows c = ask (\<lambda>a st. case a of Load_Is ok \<Rightarrow> Some (if ok then Some (load_schedules (cf_server c) st) else None, [], st) | _ \<Rightarrow> None)"

definition save_row :: "config \<Rightarrow> string \<Rightarrow> run \<Rightarrow> bool step" where
  "save_row c i run = ask (\<lambda>a st. case a of
      Save_Is now fault \<Rightarrow> (case save_schedule_run (cf_server c) fault now i run st of (st', ok) \<Rightarrow> Some (ok, [Saved i run ok], st'))
    | _ \<Rightarrow> None)"

definition sleep :: "duration \<Rightarrow> woke step" where
  "sleep d = ask (\<lambda>a st. case a of Woke_By k \<Rightarrow> Some (k, [Waited d], st) | _ \<Rightarrow> None)"

definition ctx_done :: "bool step" where
  "ctx_done = ask (\<lambda>a st. case a of Done_Is b \<Rightarrow> Some (b, [], st) | _ \<Rightarrow> None)"

definition set_current :: "(job \<times> gotime) option \<Rightarrow> unit step" where
  "set_current a = change (\<lambda>w. w\<lparr>w_current := a\<rparr>)"

subsection \<open>Steps use up answers\<close>

lemma do_then_cong [fundef_cong]:
  assumes "m = m'" and "w = w'" and "\<And>x v. m' w' = (Some x, v) \<Longrightarrow> f x v = g x v"
  shows "do_then m f w = do_then m' g w'"
  using assms by (auto simp: do_then_def split: prod.splits option.splits)

lemma edits_first_length: "edits_first as st = (bs, st') \<Longrightarrow> length bs \<le> length as"
  by (induction as st rule: edits_first.induct) auto

text \<open>\<open>uses m\<close>: with a result, \<open>m\<close> used an answer up; \<open>keeps\<close>: it at least added none.\<close>

definition uses :: "'a step \<Rightarrow> bool" where
  "uses m \<longleftrightarrow> (\<forall>w x v. m w = (Some x, v) \<longrightarrow> length (w_script v) < length (w_script w))"

definition keeps :: "'a step \<Rightarrow> bool" where
  "keeps m \<longleftrightarrow> (\<forall>w. length (w_script (snd (m w))) \<le> length (w_script w))"

lemma usesD: "uses m \<Longrightarrow> m w = (Some x, v) \<Longrightarrow> length (w_script v) < length (w_script w)"
  by (simp add: uses_def)

lemma keepsD: "keeps m \<Longrightarrow> m w = (x, v) \<Longrightarrow> length (w_script v) \<le> length (w_script w)"
  unfolding keeps_def by (metis snd_conv)

lemma uses_ask: "uses (ask f)" and keeps_ask: "keeps (ask f)"
  by (auto simp: uses_def keeps_def ask_def dest: edits_first_length split: prod.splits list.splits option.splits)

lemma keeps_ret: "keeps (ret x)" and keeps_look: "keeps (look h)"
  and keeps_change: "(\<And>w. w_script (h' w) = w_script w) \<Longrightarrow> keeps (change h')"
  by (simp_all add: keeps_def ret_def look_def change_def)

lemma keeps_do_then: "keeps m \<Longrightarrow> (\<And>x. keeps (f x)) \<Longrightarrow> keeps (do_then m f)"
  unfolding keeps_def do_then_def by (auto split: prod.splits option.splits) (metis order_trans snd_conv)+

lemma uses_do_then: "uses m \<Longrightarrow> (\<And>x. keeps (f x)) \<Longrightarrow> uses (do_then m f)"
  unfolding uses_def keeps_def do_then_def by (auto split: prod.splits option.splits) (metis order_le_less_trans snd_conv)

lemma uses_then: "keeps m \<Longrightarrow> (\<And>x. uses (f x)) \<Longrightarrow> uses (do_then m f)"
  unfolding uses_def keeps_def do_then_def by (auto split: prod.splits option.splits) (metis order_less_le_trans snd_conv)

lemma asks_use: "uses now_is" "uses get_state" "uses (send cmd)" "uses (run_op op)" "uses (load_rows c)" "uses (save_row c i r)"
    "uses (sleep d)" "uses ctx_done"
  and asks_keep: "keeps now_is" "keeps get_state" "keeps (send cmd)" "keeps (run_op op)" "keeps (load_rows c)" "keeps (save_row c i r)"
    "keeps (sleep d)" "keeps ctx_done"
  by (simp_all add: now_is_def get_state_def send_def run_op_def load_rows_def save_row_def sleep_def ctx_done_def uses_ask keeps_ask)

lemmas keeps_rules = asks_keep keeps_ret keeps_look keeps_do_then

text \<open>
  A relation between the world before and after, which every question but a save and a run of an
  operation obeys, and every change of the current activity. What a job does obeys it then, whatever
  the answers are, up to the operation it runs; \<open>job_relation\<close> takes that in, too.
\<close>

locale quiet_relation =
  fixes R :: "world \<Rightarrow> world \<Rightarrow> bool"
  assumes R_refl: "R w w"
    and R_trans: "R u v \<Longrightarrow> R v w \<Longrightarrow> R u w"
    and R_now: "R w (snd (now_is w))"
    and R_state: "R w (snd (get_state w))"
    and R_send: "R w (snd (send cmd w))"
    and R_load: "R w (snd (load_rows c w))"
    and R_sleep: "R w (snd (sleep d w))"
    and R_done: "R w (snd (ctx_done w))"
    and R_current: "R w (w\<lparr>w_current := a\<rparr>)"
begin

lemma R_ret: "R w (snd (ret x w))"
  by (simp add: ret_def R_refl)

lemma R_then:
  assumes "R w (snd (m w))" and "\<And>x v. m w = (Some x, v) \<Longrightarrow> R v (snd (f x v))"
  shows "R w (snd (do_then m f w))"
  using assms by (cases "m w"; cases "fst (m w)") (auto simp: do_then_def intro: R_trans)

lemma R_change_current: "R w (snd (set_current a w))"
  by (simp add: set_current_def change_def R_current)

lemmas R_asks = R_now R_state R_send R_load R_sleep R_done R_ret R_change_current

end

locale job_relation = quiet_relation +
  assumes R_run: "R w (snd (run_op op w))"

interpretation script: job_relation "\<lambda>w v. length (w_script v) \<le> length (w_script w)"
  using asks_keep by unfold_locales (auto simp: keeps_def)

subsection \<open>Loading and saving\<close>

definition in_memory :: "(string \<Rightarrow> run option) \<Rightarrow> schedule \<Rightarrow> schedule" where
  "in_memory runs s = (case runs (s_id s) of
      None \<Rightarrow> s
    | Some run \<Rightarrow> (case s_last_run s of
          None \<Rightarrow> s\<lparr>s_last_run := Some run\<rparr>
        | Some l \<Rightarrow> if \<not> ru_due run < ru_due l then s\<lparr>s_last_run := Some run\<rparr> else s))"

definition load :: "config \<Rightarrow> schedule list option step" where
  "load c = do_then (load_rows c) (\<lambda>rows. case rows of
      None \<Rightarrow> ret None
    | Some rows \<Rightarrow>
        let own = filter (\<lambda>s. s_server_id s = cf_server c) rows
        in do_then (look (\<lambda>w. map (in_memory (w_runs w)) own)) (\<lambda>out.
           do_then (change (\<lambda>w. w\<lparr>w_runs := (\<lambda>i. if i \<in> s_id ` set own then w_runs w i else None)\<rparr>)) (\<lambda>_. ret (Some out))))"

definition save :: "config \<Rightarrow> string \<Rightarrow> run \<Rightarrow> bool step" where
  "save c i run = do_then (change (\<lambda>w. w\<lparr>w_runs := (w_runs w)(i \<mapsto> run)\<rparr>)) (\<lambda>_. save_row c i run)"

definition record_run :: "config \<Rightarrow> job \<Rightarrow> run \<Rightarrow> unit step" where
  "record_run c j run = do_then (save c (s_id (j_schedule j)) run) (\<lambda>_. ret ())"

text \<open>\<open>markInterrupted\<close>, over what is left of the list.\<close>

fun mark_interrupted :: "config \<Rightarrow> schedule list \<Rightarrow> unit step" where
  "mark_interrupted c [] = ret ()"
| "mark_interrupted c (s # ss) = (case s_last_run s of
      None \<Rightarrow> mark_interrupted c ss
    | Some l \<Rightarrow>
        if ru_result l \<noteq> Running then mark_interrupted c ss
        else do_then now_is (\<lambda>n.
             do_then (record_run c \<lparr>j_schedule = s, j_due = ru_due l, j_start = zero_time, j_reason = No_Reason\<rparr>
                 (l\<lparr>ru_finished := n, ru_result := Failed, ru_reason := Interrupted\<rparr>)) (\<lambda>_.
             mark_interrupted c ss)))"

definition log_invalid :: "(schedule \<times> timing_error) list \<Rightarrow> unit step" where
  "log_invalid invs = change (\<lambda>w. w\<lparr>w_logged := foldl (\<lambda>lg (s, _). lg(s_id s \<mapsto> s_updated_at s)) (w_logged w) invs\<rparr>)"

subsection \<open>Outcomes\<close>

definition blank_run :: "run_result \<Rightarrow> reason \<Rightarrow> run" where
  "blank_run res why = \<lparr>ru_due = zero_time, ru_started = zero_time, ru_finished = zero_time, ru_result = res, ru_reason = why,
     ru_detail = [], ru_operation = [], ru_players = None, ru_retry_at = zero_time\<rparr>"

definition offline :: "server_state \<Rightarrow> run option" where
  "offline st =
     (if ss_sleeping st then Some (blank_run Skipped Server_Sleeping)
      else if \<not> ss_running st then Some (blank_run Skipped Server_Stopped) else None)"

definition state_failed :: "string \<Rightarrow> run" where
  "state_failed e = (blank_run Failed Run_Error)\<lparr>ru_detail := clean_output (''Could not check the server: '' @ e)\<rparr>"

definition players :: "server_state \<Rightarrow> int option" where
  "players st = (if ss_players_known st then Some (ss_players st) else None)"

definition people_playing :: "config \<Rightarrow> job \<Rightarrow> server_state \<Rightarrow> run step" where
  "people_playing c j st = do_then now_is (\<lambda>n. ret ((blank_run Skipped People_Playing)
     \<lparr>ru_players := players st, ru_retry_at := retry_at (cf_zones c) (j_schedule j) (j_due j) n\<rparr>))"

definition chat_error_text :: "chat_error \<Rightarrow> string" where
  "chat_error_text e = (case e of
      Not_Chat_Safe \<Rightarrow> ''the message contains line breaks or control characters''
    | Too_Long_To_Send \<Rightarrow> ''the message is too long to send in one command'')"

definition invalid_run :: "string \<Rightarrow> run" where
  "invalid_run detail = (blank_run Failed Invalid_Schedule)\<lparr>ru_detail := detail\<rparr>"

subsection \<open>Warnings\<close>

text \<open>A warning's time and the time left then.\<close>

definition warning_steps :: "int list \<Rightarrow> gotime \<Rightarrow> gotime \<Rightarrow> (gotime \<times> duration) list" where
  "warning_steps ws at now =
     (let ds = map (\<lambda>w. w * second) (rev (sort ws));
          steps = map (\<lambda>d. (at - d, d)) (filter (\<lambda>d. \<not> at - d < now) ds);
          late = list_ex (\<lambda>d. at - d < now) ds
      in if late \<and> (case steps of [] \<Rightarrow> True | (t, _) # _ \<Rightarrow> 5 * second < time_sub t now)
         then (now, time_sub at now) # steps else steps)"

definition turned_off :: "config \<Rightarrow> string \<Rightarrow> bool step" where
  "turned_off c i = do_then (load_rows c) (\<lambda>rows. ret (case rows of
      None \<Rightarrow> False
    | Some rows \<Rightarrow> (case find (is_row (cf_server c) i) rows of Some s \<Rightarrow> \<not> s_enabled s | None \<Rightarrow> True)))"

definition called_off :: "bool \<Rightarrow> unit step" where
  "called_off warned = (if warned then do_then (send restart_called_off) (\<lambda>_. ret ()) else ret ())"

text \<open>A wait during a restart's countdown: \<open>Some\<close> run when it ends the restart.\<close>

function countdown_wait :: "config \<Rightarrow> job \<Rightarrow> gotime \<Rightarrow> bool \<Rightarrow> run option step" where
  "countdown_wait c j t warned w = do_then (turned_off c (s_id (j_schedule j))) (\<lambda>off w.
     if off then do_then (called_off warned) (\<lambda>_. ret (Some (blank_run Skipped Turned_Off))) w
     else do_then now_is (\<lambda>n w.
       if time_sub t n \<le> 0 then ret None w
       else do_then (sleep (time_sub t n)) (\<lambda>k w.
         if k = Woke_Done then ret (Some (blank_run Failed Interrupted)) w
         else countdown_wait c j t warned w) w) w) w"
  by pat_completeness auto

lemma turned_off_uses: "uses (turned_off c i)" and turned_off_keeps: "keeps (turned_off c i)"
  unfolding turned_off_def by (intro uses_do_then asks_use keeps_rules)+

termination countdown_wait
proof (relation "measure (\<lambda>(c, j, t, warned, w). length (w_script w))", goal_cases)
  case (2 c j t warned w off w1 n w2 k w3)
  then show ?case
    using usesD [OF turned_off_uses 2(1)] usesD [OF asks_use(1) 2(3)] usesD [OF asks_use(7) 2(5)] by simp
qed simp

declare countdown_wait.simps [simp del]

context quiet_relation begin

lemma R_turned_off: "R w (snd (turned_off c i w))"
  unfolding turned_off_def by (intro R_then R_asks)

lemma R_called_off: "R w (snd (called_off warned w))"
  by (auto simp: called_off_def intro!: R_then R_asks)

lemma R_countdown_wait: "R w (snd (countdown_wait c j t warned w))"
proof (induction "length (w_script w)" arbitrary: w rule: less_induct)
  case less
  show ?case
    by (subst countdown_wait.simps)
      (auto intro!: R_then R_asks R_turned_off R_called_off less dest!: usesD [OF turned_off_uses] usesD [OF asks_use(1)] usesD [OF asks_use(7)])
qed

end


text \<open>\<open>sleepUntil\<close>: whether the context is still live.\<close>

function sleep_until :: "gotime \<Rightarrow> bool step" where
  "sleep_until t w = do_then now_is (\<lambda>n w.
     if time_sub t n \<le> 0 then ret True w
     else do_then (sleep (time_sub t n)) (\<lambda>k w. if k = Woke_Done then ret False w else sleep_until t w) w) w"
  by pat_completeness auto
termination sleep_until
proof (relation "measure (\<lambda>(t, w). length (w_script w))", goal_cases)
  case (2 t w n w1 k w2)
  then show ?case using usesD [OF asks_use(1) 2(1)] usesD [OF asks_use(7) 2(3)] by simp
qed simp

declare sleep_until.simps [simp del]

context quiet_relation begin

lemma R_sleep_until: "R w (snd (sleep_until t w))"
proof (induction "length (w_script w)" arbitrary: w rule: less_induct)
  case less
  show ?case
    by (subst sleep_until.simps) (auto intro!: R_then R_asks less dest!: usesD [OF asks_use(1)] usesD [OF asks_use(7)])
qed

end


subsection \<open>Operations\<close>

text \<open>\<open>operation\<close>, once the operation names its schedule.\<close>

function operation_loop :: "config \<Rightarrow> operation \<Rightarrow> gotime \<Rightarrow> run step" where
  "operation_loop c op give_up w = do_then (run_op op) (\<lambda>r w. case snd r of
      None \<Rightarrow> ret ((blank_run Succeeded No_Reason)\<lparr>ru_operation := fst r\<rparr>) w
    | Some Err_Not_Running \<Rightarrow> ret ((blank_run Skipped Server_Stopped)\<lparr>ru_operation := fst r\<rparr>) w
    | Some Err_Nobody_Played \<Rightarrow> ret (blank_run Skipped Nobody_Played) w
    | Some e \<Rightarrow> do_then ctx_done (\<lambda>ended w.
        if ended then ret ((blank_run Failed Interrupted)\<lparr>ru_operation := fst r\<rparr>) w
        else case e of
          Err_Other txt \<Rightarrow> ret ((blank_run Failed Run_Error)\<lparr>ru_detail := clean_output txt, ru_operation := fst r\<rparr>) w
        | _ \<Rightarrow> do_then now_is (\<lambda>n w.
            if \<not> n < give_up then ret (blank_run Failed Busy) w
            else do_then now_is (\<lambda>n w.
              do_then (sleep_until (n + cf_busy_retry c)) (\<lambda>live w.
                if live then operation_loop c op give_up w else ret (blank_run Failed Interrupted) w) w) w) w) w) w"
  by pat_completeness auto

lemma keeps_sleep_until: "keeps (sleep_until t)"
  using script.R_sleep_until by (simp add: keeps_def)

lemma keeps_countdown_wait: "keeps (countdown_wait c j t warned)"
  using script.R_countdown_wait by (simp add: keeps_def)

lemmas used_up = usesD [OF asks_use(1)] usesD [OF asks_use(2)] usesD [OF asks_use(4)] usesD [OF asks_use(8)]

termination operation_loop
  by (relation "measure (\<lambda>(c, op, give_up, w). length (w_script w))")
    (auto dest!: used_up keepsD [OF keeps_sleep_until])

declare operation_loop.simps [simp del]

context job_relation begin

lemma R_operation_loop: "R w (snd (operation_loop c op give_up w))"
proof (induction "length (w_script w)" arbitrary: w rule: less_induct)
  case less
  show ?case
    by (subst operation_loop.simps)
      (auto intro!: R_then R_run R_asks R_sleep_until less dest!: used_up keepsD [OF keeps_sleep_until] split: option.splits op_error.splits)
qed

end


definition perform :: "config \<Rightarrow> job \<Rightarrow> op_kind \<Rightarrow> string \<Rightarrow> bool \<Rightarrow> gotime \<Rightarrow> run step" where
  "perform c j what note only give_up = operation_loop c
     \<lparr>op_what = what, op_actor = actor (s_id (j_schedule j)), op_schedule_id = s_id (j_schedule j), op_due = j_due j,
      op_note = note, op_only_if_played = only\<rparr> give_up"

function wait_idle :: "config \<Rightarrow> job \<Rightarrow> bool \<Rightarrow> gotime \<Rightarrow> run option step" where
  "wait_idle c j warned give_up w = do_then get_state (\<lambda>r w. case r of
      Inl _ \<Rightarrow> ret None w
    | Inr st \<Rightarrow>
        if \<not> ss_busy st then ret None w
        else case offline st of
          Some skip \<Rightarrow> ret (Some skip) w
        | None \<Rightarrow> do_then now_is (\<lambda>n w.
            if \<not> n < give_up then do_then (called_off warned) (\<lambda>_. ret (Some (blank_run Failed Busy))) w
            else do_then now_is (\<lambda>n w.
              do_then (countdown_wait c j (n + cf_busy_retry c) warned) (\<lambda>stop w. case stop of
                  Some r \<Rightarrow> ret (Some r) w
                | None \<Rightarrow> wait_idle c j warned give_up w) w) w) w) w"
  by pat_completeness auto
termination wait_idle
  by (relation "measure (\<lambda>(c, j, warned, give_up, w). length (w_script w))")
    (auto dest!: used_up keepsD [OF keeps_countdown_wait])

declare wait_idle.simps [simp del]

context quiet_relation begin

lemma R_wait_idle: "R w (snd (wait_idle c j warned give_up w))"
proof (induction "length (w_script w)" arbitrary: w rule: less_induct)
  case less
  show ?case
    by (subst wait_idle.simps)
      (auto intro!: R_then R_asks R_countdown_wait R_called_off less dest!: used_up keepsD [OF keeps_countdown_wait]
        split: option.splits sum.splits)
qed

end


subsection \<open>The four kinds of schedules\<close>

definition nobody :: "server_state \<Rightarrow> bool" where
  "nobody st \<longleftrightarrow> ss_players_known st \<and> ss_players st = 0"

definition seen_now :: "int option \<Rightarrow> server_state \<Rightarrow> int option" where
  "seen_now seen st = (case players st of None \<Rightarrow> seen | Some n \<Rightarrow> Some n)"

text \<open>
  The loop over the warnings: the run that ends the restart, or whether a warning went out and
  whether everyone left, each with the players last seen.
\<close>

fun warn_loop :: "config \<Rightarrow> job \<Rightarrow> bool \<Rightarrow> int option \<Rightarrow> (gotime \<times> duration) list \<Rightarrow> ((run + bool \<times> bool) \<times> int option) step" where
  "warn_loop c j warned seen [] = ret (Inr (warned, False), seen)"
| "warn_loop c j warned seen ((t, remaining) # ws) =
     do_then (countdown_wait c j t warned) (\<lambda>stop. case stop of
       Some r \<Rightarrow> ret (Inl r, seen)
     | None \<Rightarrow> do_then get_state (\<lambda>r.
         case (case r of Inl _ \<Rightarrow> None | Inr st \<Rightarrow> offline st) of
           Some skip \<Rightarrow> ret (Inl skip, seen)
         | None \<Rightarrow>
             let p = s_payload (j_schedule j);
                 seen = (case r of Inl _ \<Rightarrow> seen | Inr st \<Rightarrow> seen_now seen st)
             in if (case r of Inl _ \<Rightarrow> False | Inr st \<Rightarrow> p_if_empty p = Now_If_Empty \<and> nobody st) then ret (Inr (warned, True), seen)
                else case restart_warning remaining (p_message p) of
                  Inl e \<Rightarrow> ret (Inl (invalid_run (chat_error_text e)), seen)
                | Inr cmd \<Rightarrow> do_then (send cmd) (\<lambda>sent. warn_loop c j (case sent of Inl _ \<Rightarrow> warned | Inr _ \<Rightarrow> True) seen ws)))"

text \<open>The wait from the last warning to the restart.\<close>

definition last_wait :: "config \<Rightarrow> job \<Rightarrow> gotime \<Rightarrow> bool \<Rightarrow> int option \<Rightarrow> (run option \<times> int option) step" where
  "last_wait c j at warned seen = do_then (countdown_wait c j at warned) (\<lambda>stop. case stop of
      Some r \<Rightarrow> ret (Some r, seen)
    | None \<Rightarrow> do_then get_state (\<lambda>r. case r of
        Inl _ \<Rightarrow> ret (None, seen)
      | Inr st \<Rightarrow> (case offline st of Some skip \<Rightarrow> ret (Some skip, seen) | None \<Rightarrow> ret (None, seen_now seen st))))"

definition restart_at_last :: "config \<Rightarrow> job \<Rightarrow> bool \<Rightarrow> bool \<Rightarrow> run step" where
  "restart_at_last c j warned emptied = do_then now_is (\<lambda>n.
     let give_up = n + cf_busy_give_up c
     in do_then (wait_idle c j warned give_up) (\<lambda>stop. case stop of
          Some r \<Rightarrow> ret r
        | None \<Rightarrow> do_then (if warned \<and> \<not> emptied then do_then (send restart_now) (\<lambda>_. ret ()) else ret ()) (\<lambda>_.
            do_then (perform c j Op_Restart [] False give_up) (\<lambda>res.
            do_then (called_off (warned \<and> ru_result res = Failed \<and> ru_reason res \<noteq> Interrupted)) (\<lambda>_. ret res)))))"

definition countdown :: "config \<Rightarrow> job \<Rightarrow> int option \<Rightarrow> (run \<times> int option) step" where
  "countdown c j seen = do_then now_is (\<lambda>n.
     let p = s_payload (j_schedule j); at = later (j_due j) (n + min (payload_lead p) min_notice)
     in do_then (set_current (Some (j, at))) (\<lambda>_.
        do_then (warn_loop c j False seen (warning_steps (p_warn_seconds p) at n)) (\<lambda>(r, seen). case r of
            Inl run \<Rightarrow> ret (run, seen)
          | Inr (warned, emptied) \<Rightarrow>
              do_then (if emptied then ret (None, seen) else last_wait c j at warned seen) (\<lambda>(stop, seen). case stop of
                  Some run \<Rightarrow> ret (run, seen)
                | None \<Rightarrow> do_then (restart_at_last c j warned emptied) (\<lambda>run. ret (run, seen))))))"

text \<open>The deferred function puts the players last seen into the run.\<close>

definition with_seen :: "run \<times> int option \<Rightarrow> run" where
  "with_seen r = (case r of (run, seen) \<Rightarrow> if ru_players run = None then run\<lparr>ru_players := seen\<rparr> else run)"

definition restart :: "config \<Rightarrow> job \<Rightarrow> run step" where
  "restart c j = do_then get_state (\<lambda>r. case r of
      Inl e \<Rightarrow> ret (state_failed e)
    | Inr st \<Rightarrow> (case offline st of
        Some skip \<Rightarrow> ret skip
      | None \<Rightarrow>
          let p = s_payload (j_schedule j); seen = players st
          in if p_skip_if_playing p \<and> ss_players_known st \<and> 0 < ss_players st then people_playing c j st
             else if nobody st \<and> p_if_empty p = Skip_If_Empty then ret (with_seen (blank_run Skipped Nobody_Online, seen))
             else if nobody st \<and> p_if_empty p = Now_If_Empty then
               do_then now_is (\<lambda>n. do_then (perform c j Op_Restart [] False (n + cf_busy_give_up c)) (\<lambda>run. ret (with_seen (run, seen))))
             else do_then (countdown c j seen) (\<lambda>out. ret (with_seen out))))"

definition run_backup :: "config \<Rightarrow> job \<Rightarrow> run step" where
  "run_backup c j = do_then get_state (\<lambda>r.
     let p = s_payload (j_schedule j)
     in case r of
          Inr st \<Rightarrow>
            if p_skip_if_playing p \<and> ss_players_known st \<and> 0 < ss_players st then people_playing c j st
            else do_then (perform c j Op_Backup (p_note p) (p_only_if_played p) (j_due j + grace (j_schedule j)))
                   (\<lambda>run. ret (run\<lparr>ru_players := players st\<rparr>))
        | Inl _ \<Rightarrow> do_then (perform c j Op_Backup (p_note p) (p_only_if_played p) (j_due j + grace (j_schedule j)))
                   (\<lambda>run. ret (run\<lparr>ru_players := None\<rparr>)))"

definition chat :: "server_state \<Rightarrow> string \<Rightarrow> string \<Rightarrow> run step" where
  "chat st txt color =
     (if nobody st then ret ((blank_run Skipped Nobody_Online)\<lparr>ru_players := players st\<rparr>)
      else case tellraw txt color of
        Inl e \<Rightarrow> ret (invalid_run (chat_error_text e))
      | Inr cmd \<Rightarrow> do_then (send cmd) (\<lambda>r. case r of
            Inl e \<Rightarrow> ret ((blank_run Failed Run_Error)\<lparr>ru_detail := clean_output e, ru_players := players st\<rparr>)
          | Inr _ \<Rightarrow> ret ((blank_run Succeeded No_Reason)\<lparr>ru_players := players st\<rparr>)))"

definition announce :: "job \<Rightarrow> run step" where
  "announce j = do_then get_state (\<lambda>r. case r of
      Inl e \<Rightarrow> ret (state_failed e)
    | Inr st \<Rightarrow> (case offline st of
        Some skip \<Rightarrow> ret skip
      | None \<Rightarrow> chat st (p_message (s_payload (j_schedule j))) color_announcement))"

definition run_command :: "job \<Rightarrow> run step" where
  "run_command j = do_then get_state (\<lambda>r. case r of
      Inl e \<Rightarrow> ret (state_failed e)
    | Inr st \<Rightarrow> (case offline st of
        Some skip \<Rightarrow> ret skip
      | None \<Rightarrow> (case say_text (p_command (s_payload (j_schedule j))) of
          Some txt \<Rightarrow> chat st (say_prefix @ txt) color_say
        | None \<Rightarrow> do_then (send (p_command (s_payload (j_schedule j)))) (\<lambda>r. case r of
              Inl e \<Rightarrow> ret ((blank_run Failed Run_Error)\<lparr>ru_detail := clean_output e, ru_players := players st\<rparr>)
            | Inr out \<Rightarrow>
                if rejected out then ret ((blank_run Failed Rejected)\<lparr>ru_detail := clean_output out, ru_players := players st\<rparr>)
                else ret ((blank_run Succeeded No_Reason)\<lparr>ru_detail := clean_output out, ru_players := players st\<rparr>)))))"

definition execute :: "config \<Rightarrow> job \<Rightarrow> run step" where
  "execute c j = (case validate_payload (s_payload (j_schedule j)) (s_task (j_schedule j)) of
      Some e \<Rightarrow> ret (invalid_run (cf_message c e))
    | None \<Rightarrow> (case s_task (j_schedule j) of
        Restart \<Rightarrow> restart c j
      | Backup \<Rightarrow> run_backup c j
      | Announcement \<Rightarrow> announce j
      | Console_Command \<Rightarrow> run_command j
      | Other_Task k \<Rightarrow> ret (invalid_run (''unknown schedule kind '' @ cf_quote c k))))"

context quiet_relation begin

lemma R_warn_loop: "R w (snd (warn_loop c j warned seen ws w))"
proof (induction ws arbitrary: warned seen w)
  case (Cons s ws)
  then show ?case
    by (cases s) (auto simp: Let_def intro!: R_then R_asks R_countdown_wait split: option.splits sum.splits)
qed (simp add: R_ret)

lemma R_last_wait: "R w (snd (last_wait c j at warned seen w))"
  by (auto simp: last_wait_def intro!: R_then R_asks R_countdown_wait split: option.splits sum.splits)

lemma R_people_playing: "R w (snd (people_playing c j st w))"
  unfolding people_playing_def by (intro R_then R_asks)

lemma R_chat: "R w (snd (chat st txt color w))"
  by (auto simp: chat_def intro!: R_then R_asks split: sum.splits)

lemma R_announce: "R w (snd (announce j w))"
  by (auto simp: announce_def intro!: R_then R_asks R_chat split: option.splits sum.splits)

lemma R_run_command: "R w (snd (run_command j w))"
  by (auto simp: run_command_def intro!: R_then R_asks R_chat split: option.splits sum.splits)

end

context job_relation begin

lemma R_perform: "R w (snd (perform c j what note only give_up w))"
  unfolding perform_def by (rule R_operation_loop)

lemma R_restart_at_last: "R w (snd (restart_at_last c j warned emptied w))"
  by (auto simp: restart_at_last_def Let_def intro!: R_then R_asks R_wait_idle R_called_off R_perform split: option.splits)

lemma R_countdown: "R w (snd (countdown c j seen w))"
  by (auto simp: countdown_def Let_def
      intro!: R_then R_asks R_warn_loop R_last_wait R_restart_at_last split: option.splits sum.splits)

lemma R_execute: "R w (snd (execute c j w))"
proof -
  have "R w (snd (restart c j w))"
    by (auto simp: restart_def Let_def intro!: R_then R_asks R_people_playing R_perform R_countdown split: option.splits sum.splits)
  moreover have "R w (snd (run_backup c j w))"
    by (auto simp: run_backup_def Let_def intro!: R_then R_asks R_people_playing R_perform split: option.splits sum.splits)
  ultimately show ?thesis
    by (auto simp: execute_def intro!: R_asks R_announce R_run_command split: option.splits task.splits)
qed

end

subsection \<open>Running a job, and the runner\<close>

definition run_job :: "config \<Rightarrow> job \<Rightarrow> unit step" where
  "run_job c j =
     (let i = s_id (j_schedule j)
      in do_then now_is (\<lambda>started.
         do_then (save c i ((blank_run Running No_Reason)\<lparr>ru_due := j_due j, ru_started := started\<rparr>)) (\<lambda>ok.
         if \<not> ok then
           change (\<lambda>w. w\<lparr>w_runs := (w_runs w)(i \<mapsto> (blank_run Failed Run_Error)
             \<lparr>ru_due := j_due j, ru_started := started, ru_finished := started\<rparr>)\<rparr>)
         else do_then (set_current (Some (j, zero_time))) (\<lambda>_.
              do_then (execute c j) (\<lambda>out.
              do_then (set_current None) (\<lambda>_.
              do_then now_is (\<lambda>n.
              record_run c j (out\<lparr>ru_due := j_due j, ru_started := started, ru_finished := n\<rparr>))))))))"

fun record_missed :: "config \<Rightarrow> gotime \<Rightarrow> job list \<Rightarrow> unit step" where
  "record_missed c n [] = ret ()"
| "record_missed c n (j # js) =
     do_then (record_run c j ((blank_run Missed (j_reason j))\<lparr>ru_due := j_due j, ru_finished := n\<rparr>)) (\<lambda>_. record_missed c n js)"

text \<open>One round of \<open>Run\<close>'s loop after the schedules were read; whether the runner goes on.\<close>

definition pursue :: "config \<Rightarrow> gotime \<Rightarrow> decision \<Rightarrow> bool step" where
  "pursue c n d = (case d_due d of
      j # _ \<Rightarrow> do_then (run_job c j) (\<lambda>_. do_then ctx_done (\<lambda>ended. ret (\<not> ended)))
    | [] \<Rightarrow> do_then (sleep (if d_wake d = zero_time then max_sleep else min max_sleep (time_sub (d_wake d) n)))
              (\<lambda>k. ret (k \<noteq> Woke_Done)))"

definition round :: "config \<Rightarrow> gotime \<Rightarrow> bool \<Rightarrow> schedule list \<Rightarrow> bool step" where
  "round c since first ss =
     do_then (if first then mark_interrupted c ss else ret ()) (\<lambda>_.
     do_then now_is (\<lambda>n.
     let d = plan (cf_zones c) ss n since
     in do_then (log_invalid (d_invalid d)) (\<lambda>_.
        do_then (record_missed c n (d_missed d)) (\<lambda>_. pursue c n d))))"

definition after_failed_load :: "bool step" where
  "after_failed_load = do_then ctx_done (\<lambda>ended.
     if ended then ret False else do_then (sleep retry_delay) (\<lambda>k. ret (k \<noteq> Woke_Done)))"

lemma load_uses: "uses (load c)"
  unfolding load_def Let_def
  by (intro uses_do_then asks_use allI) (auto intro!: keeps_rules keeps_change split: option.splits)

lemma keeps_execute: "keeps (execute c j)"
  using script.R_execute by (simp add: keeps_def)

lemma save_keeps: "keeps (save c i run)"
  unfolding save_def by (intro keeps_rules keeps_change) simp

lemma record_keeps: "keeps (record_run c j run)"
  unfolding record_run_def by (intro keeps_rules save_keeps)

lemma mark_keeps: "keeps (mark_interrupted c ss)"
  by (induction ss) (auto intro!: keeps_rules record_keeps split: option.splits)

lemma missed_keeps: "keeps (record_missed c n js)"
  by (induction js) (auto intro!: keeps_rules record_keeps)

lemma run_job_keeps: "keeps (run_job c j)"
  unfolding run_job_def Let_def set_current_def
  by (intro keeps_rules save_keeps) (auto intro!: keeps_rules keeps_change keeps_execute record_keeps)

lemma round_keeps: "keeps (round c since first ss)"
  unfolding round_def pursue_def Let_def log_invalid_def
  by (intro keeps_rules) (auto intro!: keeps_rules keeps_change mark_keeps missed_keeps run_job_keeps split: list.splits)

function run_loop :: "config \<Rightarrow> gotime \<Rightarrow> bool \<Rightarrow> unit step" where
  "run_loop c since first w = do_then (load c) (\<lambda>rows w. case rows of
      None \<Rightarrow> do_then after_failed_load (\<lambda>go w. if go then run_loop c since first w else ret () w) w
    | Some ss \<Rightarrow> do_then (round c since first ss) (\<lambda>go w. if go then run_loop c since False w else ret () w) w) w"
  by pat_completeness auto

lemma failed_load_keeps: "keeps after_failed_load"
  unfolding after_failed_load_def by (auto intro!: keeps_rules)

termination run_loop
  by (relation "measure (\<lambda>(c, since, first, w). length (w_script w))")
    (auto dest!: usesD [OF load_uses] keepsD [OF failed_load_keeps] keepsD [OF round_keeps])

declare run_loop.simps [simp del]

definition run_runner :: "config \<Rightarrow> unit step" where
  "run_runner c = do_then now_is (\<lambda>since. run_loop c since True)"

text \<open>A process that starts: it keeps nothing but the database. \<open>lives\<close> runs one after another.\<close>

definition start_process :: "answer list \<Rightarrow> world \<Rightarrow> world" where
  "start_process script w = w\<lparr>w_runs := (\<lambda>_. None), w_current := None, w_logged := (\<lambda>_. None), w_script := script\<rparr>"

definition lives :: "config \<Rightarrow> answer list list \<Rightarrow> world \<Rightarrow> world" where
  "lives c scripts w = foldl (\<lambda>w script. snd (run_runner c (start_process script w))) w scripts"

end
