(* ===== verification/Runner_Once.thy ===== *)
theory Runner_Once
  imports Runner
begin

section \<open>Every occurrence runs at most once (internal/schedule/runner.go)\<close>

text \<open>
  What the runner promises, over any number of processes that die at any point, any answers and any
  edits in between: an occurrence of a schedule is begun at most once, and its restart or backup is
  carried out at most once. \<open>evolves\<close> is what a step does that saves no run; \<open>safe\<close> is the invariant
  of the database and the trace, and \<open>current\<close> relates schedules the runner has read to both.
\<close>

subsection \<open>What the trace tells\<close>

text \<open>The occurrences of a schedule that were begun, and the operations carried out for it.\<close>

definition starts :: "string \<Rightarrow> call list \<Rightarrow> gotime list" where
  "starts i cs = concat (map (\<lambda>x. case x of
     Saved k run ok \<Rightarrow> if k = i \<and> ok \<and> ru_result run = Running then [ru_due run] else [] | _ \<Rightarrow> []) cs)"

definition performed :: "string \<Rightarrow> call list \<Rightarrow> gotime list" where
  "performed i cs = concat (map (\<lambda>x. case x of
     Ran op e \<Rightarrow> if op_schedule_id op = i \<and> e \<noteq> Some Err_Busy then [op_due op] else [] | _ \<Rightarrow> []) cs)"

definition created :: "answer list \<Rightarrow> string list" where
  "created as = concat (map (\<lambda>a. case a of Edit (Create s t) \<Rightarrow> [s_id s] | _ \<Rightarrow> []) as)"

lemma starts_append [simp]: "starts i (cs @ ds) = starts i cs @ starts i ds"
  and performed_append [simp]: "performed i (cs @ ds) = performed i cs @ performed i ds"
  and created_append [simp]: "created (as @ bs) = created as @ created bs"
  and trace_Nil [simp]: "starts i [] = []" "performed i [] = []" "created [] = []"
  by (simp_all add: starts_def performed_def created_def)

text \<open>Ids are random: a new schedule has an id that no schedule had before.\<close>

definition fresh :: "answer list \<Rightarrow> string set \<Rightarrow> bool" where
  "fresh as used \<longleftrightarrow> distinct (created as) \<and> set (created as) \<inter> used = {}"

definition covers :: "schedule \<Rightarrow> gotime \<Rightarrow> bool" where
  "covers s d \<longleftrightarrow> (\<exists>l. s_last_run s = Some l \<and> d \<le> ru_due l)"

lemma covers_mono: "covers s d \<Longrightarrow> e \<le> d \<Longrightarrow> covers s e"
  by (auto simp: covers_def)

subsection \<open>Steps that save nothing\<close>

definition same_run :: "schedule \<Rightarrow> schedule \<Rightarrow> bool" where
  "same_run s t \<longleftrightarrow> s_id t = s_id s \<and> s_server_id t = s_server_id s
     \<and> map_option ru_due (s_last_run t) = map_option ru_due (s_last_run s)"

text \<open>The schedules of \<open>ts\<close> come from \<open>ss\<close>, or were created with an id of \<open>ks\<close>.\<close>

definition come_from :: "schedule list \<Rightarrow> string list \<Rightarrow> schedule list \<Rightarrow> bool" where
  "come_from ss ks ts \<longleftrightarrow> (\<forall>t \<in> set ts. (\<exists>s \<in> set ss. same_run s t) \<or> (s_id t \<in> set ks \<and> s_last_run t = None))
     \<and> (distinct (map s_id ss) \<longrightarrow> distinct (map s_id ts))"

lemma come_from_refl: "come_from ss [] ss"
  by (auto simp: come_from_def same_run_def)

lemma come_from_trans: "come_from ss ks ts \<Longrightarrow> come_from ts ls us \<Longrightarrow> come_from ss (ks @ ls) us"
  unfolding come_from_def same_run_def by (intro conjI ballI) (metis (no_types, lifting) Un_iff map_option_is_None set_append)+

lemma come_from_mono: "come_from ss ks ts \<Longrightarrow> set ks \<subseteq> set ls \<Longrightarrow> come_from ss ls ts"
  unfolding come_from_def by blast

lemma edit_comes_from:
  "come_from (st_schedules st) (created [Edit e]) (st_schedules (apply_edit e st))"
proof (cases e)
  case (Create s t)
  then show ?thesis
    by (auto simp: created_def apply_edit_def insert_schedule_def come_from_def same_run_def)
next
  case (Change s t)
  let ?g = "\<lambda>row. if is_row (s_server_id s) (s_id s) row
     then row\<lparr>s_name := s_name s, s_task := s_task s, s_timing := s_timing s, s_payload := s_payload s, s_enabled := s_enabled s,
            s_updated_at := stored_time t, s_last_run := map_option (\<lambda>l. l\<lparr>ru_retry_at := zero_time\<rparr>) (s_last_run row)\<rparr>
     else row"
  have same: "same_run row (?g row)" for row
    by (cases "s_last_run row") (auto simp: same_run_def)
  have "\<exists>r \<in> set (st_schedules st). same_run r row" if row: "row \<in> set (map ?g (st_schedules st))" for row
  proof -
    obtain r where "r \<in> set (st_schedules st)" "row = ?g r" using row unfolding set_map by blast
    then show ?thesis using same [of r] by blast
  qed
  moreover have "st_schedules (apply_edit e st) = map ?g (st_schedules st)" by (simp add: Change apply_edit_def update_schedule_def)
  moreover have "distinct (map s_id (st_schedules st)) \<longrightarrow> distinct (map s_id (st_schedules (apply_edit e st)))"
    using ids_after_edit(1) [of s t st] by (simp only: Change apply_edit_def edit.case simp_thms)
  ultimately show ?thesis by (simp add: come_from_def)
next
  case (Delete srv i)
  then show ?thesis
    by (auto simp: created_def apply_edit_def come_from_def same_run_def delete_schedule_def distinct_map_filter)
qed

lemma edits_come_from:
  "edits_first as st = (bs, st') \<Longrightarrow>
     \<exists>ks. created as = ks @ created bs \<and> come_from (st_schedules st) ks (st_schedules st')"
proof (induction as st rule: edits_first.induct)
  case (1 e as st)
  then obtain ks where "created as = ks @ created bs" "come_from (st_schedules (apply_edit e st)) ks (st_schedules st')" by auto
  then show ?case using come_from_trans [OF edit_comes_from [of st e]] created_append [of "[Edit e]" as] by fastforce
qed (use come_from_refl in auto)

text \<open>The id of an answer is created before the answer, so none is lost or gained.\<close>

definition evolves :: "world \<Rightarrow> world \<Rightarrow> bool" where
  "evolves w v \<longleftrightarrow> (\<exists>ks. created (w_script w) = ks @ created (w_script v)
     \<and> come_from (st_schedules (w_store w)) ks (st_schedules (w_store v)))
     \<and> (\<exists>cs. w_trace v = w_trace w @ cs \<and> (\<forall>i. starts i cs = []))"

lemma evolves_refl: "evolves w w"
  using come_from_refl by (auto simp: evolves_def)

lemma evolves_trans:
  assumes "evolves u v" and "evolves v w"
  shows "evolves u w"
proof -
  obtain ks ls where "created (w_script u) = ks @ ls @ created (w_script w)"
      and "come_from (st_schedules (w_store u)) ks (st_schedules (w_store v))" "come_from (st_schedules (w_store v)) ls (st_schedules (w_store w))"
    using assms by (auto simp: evolves_def)
  then show ?thesis using assms come_from_trans by (fastforce simp: evolves_def)
qed

lemma created_Cons: "created (a # as) = created [a] @ created as"
  using created_append [of "[a]" as] by simp

lemma edits_first_head: "edits_first as st = (a # bs, st') \<Longrightarrow> created [a] = []"
  by (induction as st rule: edits_first.induct) (auto simp: created_def)

text \<open>Every question: the edits before it, then its answer.\<close>

lemma ask_cases:
  assumes "ask f w = (r, v)"
  obtains (stopped) "r = None" "evolves w v" "w_trace v = w_trace w"
  | (answered) u x cs a st where "evolves w u" "w_trace u = w_trace w" "f a (w_store u) = Some (x, cs, st)" "r = Some x"
      "v = u\<lparr>w_store := st, w_trace := w_trace u @ cs\<rparr>"
proof -
  obtain bs st where e: "edits_first (w_script w) (w_store w) = (bs, st)" by (cases "edits_first (w_script w) (w_store w)")
  obtain ks where ks: "created (w_script w) = ks @ created bs" "come_from (st_schedules (w_store w)) ks (st_schedules st)"
    using edits_come_from [OF e] by blast
  have stop: "evolves w (w\<lparr>w_script := [], w_store := st\<rparr>)"
    using ks come_from_mono [OF ks(2), of "ks @ created bs"] by (auto simp: evolves_def)
  show ?thesis
  proof (cases bs)
    case Nil
    then have "r = None" "v = w\<lparr>w_script := [], w_store := st\<rparr>" using assms e by (simp_all add: ask_def)
    then show ?thesis using stop stopped by simp
  next
    case (Cons a as)
    have "created [a] = []" using edits_first_head e Cons by blast
    then have go: "evolves w (w\<lparr>w_script := as, w_store := st\<rparr>)"
      using ks created_Cons [of a as] Cons by (auto simp: evolves_def)
    show ?thesis
    proof (cases "f a st")
      case None
      then have "r = None" "v = w\<lparr>w_script := [], w_store := st\<rparr>" using assms e Cons by (simp_all add: ask_def)
      then show ?thesis using stop stopped by simp
    next
      case (Some y)
      then obtain x cs st' where "f a st = Some (x, cs, st')" by (cases y) auto
      then show ?thesis using assms e go answered [of "w\<lparr>w_script := as, w_store := st\<rparr>" a x cs st'] Cons by (simp add: ask_def)
    qed
  qed
qed

text \<open>A question whose answer leaves the store alone and logs no save.\<close>

lemma ask_evolves:
  assumes "\<And>a st x cs st'. f a st = Some (x, cs, st') \<Longrightarrow> st' = st \<and> (\<forall>i. starts i cs = [])"
  shows "evolves w (snd (ask f w))"
proof (cases "ask f w")
  case (Pair r v)
  then show ?thesis
  proof (cases rule: ask_cases)
    case (answered u x cs a st)
    then show ?thesis using assms [OF answered(3)] evolves_trans [OF answered(1), of v] Pair come_from_refl
      by (auto simp: evolves_def)
  qed (simp add: Pair)
qed

interpretation evolution: job_relation evolves
proof unfold_locales
  show "evolves w (w\<lparr>w_current := a\<rparr>)" for w a using evolves_refl [of w] by (simp add: evolves_def)
qed (auto intro: evolves_refl evolves_trans intro!: ask_evolves
    simp: now_is_def get_state_def send_def run_op_def load_rows_def sleep_def ctx_done_def starts_def split: answer.splits)

subsection \<open>The invariant\<close>

text \<open>
  \<open>rest\<close> is what the scripts of later processes hold. A row of the server covers what was begun of
  its schedule: its last run is due then or later.
\<close>

definition safe :: "string \<Rightarrow> answer list \<Rightarrow> world \<Rightarrow> bool" where
  "safe srv rest w \<longleftrightarrow> distinct (map s_id (st_schedules (w_store w)))
     \<and> fresh (w_script w @ rest) (s_id ` set (st_schedules (w_store w)) \<union> {i. starts i (w_trace w) \<noteq> []})
     \<and> (\<forall>s \<in> set (st_schedules (w_store w)). s_server_id s = srv \<longrightarrow> (\<forall>d \<in> set (starts (s_id s) (w_trace w)). covers s d))
     \<and> (\<forall>i. sorted_wrt (<) (starts i (w_trace w)))"

text \<open>Schedules that were read: nothing later was begun of them or is stored as their last run.\<close>

definition current :: "string \<Rightarrow> answer list \<Rightarrow> schedule set \<Rightarrow> world \<Rightarrow> bool" where
  "current srv rest S w \<longleftrightarrow> (\<forall>s \<in> S. s_id s \<notin> set (created (w_script w @ rest))
     \<and> (\<forall>d \<in> set (starts (s_id s) (w_trace w)). covers s d)
     \<and> (\<forall>t \<in> set (st_schedules (w_store w)). is_row srv (s_id s) t \<longrightarrow> (\<forall>l. s_last_run t = Some l \<longrightarrow> covers s (ru_due l))))"

lemma fresh_later:
  assumes "fresh as (A \<union> B)" and "created as = ks @ created bs" and "A' \<subseteq> A \<union> set ks"
  shows "fresh bs (A' \<union> B)"
proof -
  have "distinct (ks @ created bs)" "(set ks \<union> set (created bs)) \<inter> (A \<union> B) = {}"
    using assms(1) unfolding fresh_def assms(2) by simp_all
  then show ?thesis using assms(3) unfolding fresh_def by fastforce
qed

lemma same_run_due: "same_run s t \<Longrightarrow> s_last_run t = Some l \<Longrightarrow> \<exists>k. s_last_run s = Some k \<and> ru_due l = ru_due k"
  by (cases "s_last_run s") (auto simp: same_run_def)

lemma same_run_covers: "same_run s t \<Longrightarrow> covers s d \<Longrightarrow> covers t d"
  by (cases "s_last_run t") (auto simp: same_run_def covers_def)

lemma evolves_keeps:
  assumes "evolves w v"
  shows "safe srv rest w \<Longrightarrow> safe srv rest v" and "current srv rest S w \<Longrightarrow> current srv rest S v"
proof -
  obtain ks where ks: "created (w_script w) = ks @ created (w_script v)"
      "come_from (st_schedules (w_store w)) ks (st_schedules (w_store v))"
    and starts: "\<And>i. starts i (w_trace v) = starts i (w_trace w)"
    using assms by (auto simp: evolves_def)
  have rows: "(\<exists>s \<in> set (st_schedules (w_store w)). same_run s t) \<or> (s_id t \<in> set ks \<and> s_last_run t = None)"
    if "t \<in> set (st_schedules (w_store v))" for t using ks(2) that by (simp add: come_from_def)
  show "safe srv rest v" if safe: "safe srv rest w"
  proof -
    have "distinct (map s_id (st_schedules (w_store v)))" using safe ks(2) by (simp add: safe_def come_from_def)
    moreover have "s_id ` set (st_schedules (w_store v)) \<subseteq> s_id ` set (st_schedules (w_store w)) \<union> set ks"
      using rows by (force simp: same_run_def)
    then have "fresh (w_script v @ rest) (s_id ` set (st_schedules (w_store v)) \<union> {i. starts i (w_trace v) \<noteq> []})"
      unfolding starts by (rule fresh_later [where as = "w_script w @ rest", rotated -1]) (use safe in \<open>simp_all add: safe_def ks(1)\<close>)
    moreover have "covers t d" if t: "t \<in> set (st_schedules (w_store v))" "s_server_id t = srv" "d \<in> set (starts (s_id t) (w_trace v))" for t d
      using rows [OF t(1)]
    proof (elim disjE bexE conjE)
      fix s assume "s \<in> set (st_schedules (w_store w))" and same: "same_run s t"
      then have "covers s d" using safe t(2,3) by (auto simp: safe_def same_run_def starts)
      then show ?thesis by (rule same_run_covers [OF same])
    next
      assume "s_id t \<in> set ks"
      moreover have "starts (s_id t) (w_trace w) \<noteq> []" using t(3) starts by auto
      ultimately show ?thesis using safe by (auto simp: safe_def fresh_def ks(1))
    qed
    ultimately show ?thesis using safe by (simp add: safe_def starts)
  qed
  show "current srv rest S v" if cur: "current srv rest S w"
    unfolding current_def
  proof (intro ballI conjI impI allI)
    fix s assume s: "s \<in> S"
    then show "s_id s \<notin> set (created (w_script v @ rest))" using cur by (simp add: current_def ks(1))
    show "covers s d" if "d \<in> set (starts (s_id s) (w_trace v))" for d using cur s that by (simp add: current_def starts)
    fix t l assume t: "t \<in> set (st_schedules (w_store v))" "is_row srv (s_id s) t" "s_last_run t = Some l"
    from rows [OF t(1)] show "covers s (ru_due l)"
    proof (elim disjE bexE conjE)
      fix r assume r: "r \<in> set (st_schedules (w_store w))" "same_run r t"
      then obtain k where "s_last_run r = Some k" "ru_due l = ru_due k" using same_run_due t(3) by blast
      then show ?thesis using cur s r t(2) by (auto simp: current_def same_run_def is_row_def)
    qed (simp add: t(3))
  qed
qed

subsection \<open>Saving a run\<close>

lemma save_rows:
  assumes save: "save_schedule_run srv fault now i run st = (st', ok)" and t: "t \<in> set (st_schedules st')"
  shows "\<exists>s \<in> set (st_schedules st). t = s \<or> (is_row srv i s \<and> t = s\<lparr>s_last_run := Some run\<rparr>)"
    and "ok \<Longrightarrow> is_row srv i t \<Longrightarrow> s_last_run t = Some run"
proof -
  let ?g = "\<lambda>s. if is_row srv i s then s\<lparr>s_last_run := Some run\<rparr> else s"
  have rows: "st_schedules st' = (if fault = Some 0 then st_schedules st else map ?g (st_schedules st))" "fault = Some 0 \<Longrightarrow> \<not> ok"
    using save by (simp_all add: save_schedule_run_def Let_def split: if_splits option.splits prod.splits) (blast | force)+
  show "\<exists>s \<in> set (st_schedules st). t = s \<or> (is_row srv i s \<and> t = s\<lparr>s_last_run := Some run\<rparr>)"
    using t unfolding rows(1) by (auto split: if_splits)
  assume "ok" "is_row srv i t"
  then obtain s where "s \<in> set (st_schedules st)" "t = ?g s" using t rows by (auto split: if_splits)
  then show "s_last_run t = Some run" using \<open>is_row srv i t\<close> by (auto split: if_splits)
qed

text \<open>A run no earlier than what was begun can be saved; one that begins has to be later.\<close>

lemma save_safe:
  assumes safe: "safe (cf_server c) rest w" and cur: "current (cf_server c) rest S w"
    and later: "\<And>d. d \<in> set (starts i (w_trace w)) \<Longrightarrow> d \<le> ru_due run \<and> (ru_result run = Running \<longrightarrow> d < ru_due run)"
    and new: "i \<notin> set (created (w_script w @ rest))"
    and others: "\<And>s. s \<in> S \<Longrightarrow> s_id s = i \<Longrightarrow> covers s (ru_due run)"
    and saved: "save c i run w = (r, v)"
  shows "safe (cf_server c) rest v" and "current (cf_server c) rest S v"
    and "\<And>k. performed k (w_trace v) = performed k (w_trace w)"
    and "\<And>k. starts k (w_trace v) = starts k (w_trace w)
           @ (if k = i \<and> r = Some True \<and> ru_result run = Running then [ru_due run] else [])"
proof -
  let ?srv = "cf_server c"
  define w0 where "w0 = w\<lparr>w_runs := (w_runs w)(i \<mapsto> run)\<rparr>"
  have "evolves w w0" using evolves_refl [of w] by (simp add: w0_def evolves_def)
  have ask: "save_row c i run w0 = (r, v)" using saved by (simp add: save_def do_then_def change_def w0_def)
  have "safe ?srv rest v \<and> current ?srv rest S v \<and> (\<forall>k. performed k (w_trace v) = performed k (w_trace w)) \<and>
      (\<forall>k. starts k (w_trace v) = starts k (w_trace w) @ (if k = i \<and> r = Some True \<and> ru_result run = Running then [ru_due run] else []))"
    using ask unfolding save_row_def
  proof (cases rule: ask_cases)
    case stopped
    then show ?thesis using evolves_keeps [OF evolves_trans [OF \<open>evolves w w0\<close> stopped(2)]] safe cur by (simp add: w0_def)
  next
    case (answered u ok cs a st)
    have wu: "evolves w u" using evolves_trans \<open>evolves w w0\<close> answered(1) by blast
    note safe_u = evolves_keeps(1) [OF wu safe] and cur_u = evolves_keeps(2) [OF wu cur]
    have tr: "w_trace u = w_trace w" using answered(2) by (simp add: w0_def)
    obtain now fault where st: "save_schedule_run ?srv fault now i run (w_store u) = (st, ok)" and cs: "cs = [Saved i run ok]"
      using answered(3) by (auto split: answer.splits prod.splits)
    have v: "w_script v = w_script u" "w_store v = st" "w_trace v = w_trace w @ [Saved i run ok]"
      using answered(5) tr cs by simp_all
    have new_u: "i \<notin> set (created (w_script u @ rest))" using new wu by (auto simp: evolves_def)
    have ids: "map s_id (st_schedules st) = map s_id (st_schedules (w_store u))" using ids_after_save [of ?srv fault now i run "w_store u"] st by simp
    have starts_v: "starts k (w_trace v) = starts k (w_trace w) @ (if k = i \<and> ok \<and> ru_result run = Running then [ru_due run] else [])" for k
      by (simp add: v starts_def)
    have "covers t d" if t: "t \<in> set (st_schedules st)" "s_server_id t = ?srv" "d \<in> set (starts (s_id t) (w_trace v))" for t d
    proof (cases "s_id t = i")
      case True
      have le: "d \<le> ru_due run" using t(3) later True by (auto simp: starts_v split: if_splits)
      obtain s where s: "s \<in> set (st_schedules (w_store u))" "t = s \<or> t = s\<lparr>s_last_run := Some run\<rparr>" using save_rows(1) [OF st t(1)] by blast
      show ?thesis
      proof (cases "s_last_run t = Some run")
        case False
        then have "t = s" "\<not> ok" using s(2) save_rows(2) [OF st t(1)] True t(2) by (auto simp: is_row_def)
        then show ?thesis using safe_u s(1) t(2,3) tr by (auto simp: safe_def starts_v)
      qed (use le in \<open>simp add: covers_def\<close>)
    next
      case False
      then have "t \<in> set (st_schedules (w_store u))" using save_rows(1) [OF st t(1)] by (auto simp: is_row_def)
      then show ?thesis using safe_u t(2,3) False tr by (auto simp: safe_def starts_v)
    qed
    moreover have "sorted_wrt (<) (starts k (w_trace v))" for k
      using safe_u later tr by (auto simp: safe_def starts_v sorted_wrt_append)
    moreover have "s_id ` set (st_schedules st) = s_id ` set (st_schedules (w_store u))" using ids by (metis set_map)
    ultimately have "safe ?srv rest v"
      using safe_u new_u ids tr by (auto simp: safe_def fresh_def v(1,2) starts_v)
    moreover have "current ?srv rest S v"
      unfolding current_def
    proof (intro ballI conjI impI allI)
      fix s assume s: "s \<in> S"
      then show "s_id s \<notin> set (created (w_script v @ rest))" using cur_u by (simp add: current_def v)
      show "covers s d" if "d \<in> set (starts (s_id s) (w_trace v))" for d
        using cur_u s that others [OF s] tr by (auto simp: current_def starts_v split: if_splits)
      fix t l assume t: "t \<in> set (st_schedules (w_store v))" "is_row ?srv (s_id s) t" "s_last_run t = Some l"
      obtain q where "q \<in> set (st_schedules (w_store u))" "t = q \<or> (is_row ?srv i q \<and> t = q\<lparr>s_last_run := Some run\<rparr>)"
        using save_rows(1) [OF st] t(1) v by auto
      then show "covers s (ru_due l)" using cur_u s t(2,3) others [OF s] by (auto simp: current_def is_row_def)
    qed
    ultimately show ?thesis using starts_v answered(4) by (simp add: v performed_def)
  qed
  then show "safe ?srv rest v" "current ?srv rest S v" "\<And>k. performed k (w_trace v) = performed k (w_trace w)"
    "\<And>k. starts k (w_trace v) = starts k (w_trace w) @ (if k = i \<and> r = Some True \<and> ru_result run = Running then [ru_due run] else [])"
    by blast+
qed

subsection \<open>A job carries out one operation at most\<close>

definition idle :: "world \<Rightarrow> world \<Rightarrow> bool" where
  "idle w v \<longleftrightarrow> (\<forall>k. performed k (w_trace v) = performed k (w_trace w))"

definition once :: "string \<Rightarrow> gotime \<Rightarrow> world \<Rightarrow> world \<Rightarrow> bool" where
  "once i d w v \<longleftrightarrow> idle w v \<or> (\<forall>k. performed k (w_trace v) = performed k (w_trace w) @ (if k = i then [d] else []))"

lemma ask_idle:
  assumes "\<And>a st x cs st'. f a st = Some (x, cs, st') \<Longrightarrow> (\<forall>i. performed i cs = [])"
  shows "idle w (snd (ask f w))"
proof (cases "ask f w")
  case (Pair r v)
  then show ?thesis
    by (cases rule: ask_cases) (use assms Pair in \<open>auto simp: idle_def\<close>)
qed

interpretation idleness: quiet_relation idle
proof unfold_locales
  show "idle w (w\<lparr>w_current := a\<rparr>)" "idle w w" for w a by (simp_all add: idle_def)
  show "idle u w" if "idle u v" "idle v w" for u v w using that by (simp add: idle_def)
qed (auto intro!: ask_idle simp: now_is_def get_state_def send_def load_rows_def sleep_def ctx_done_def performed_def split: answer.splits)

lemma once_idle: "idle w v \<Longrightarrow> once i d w v"
  by (simp add: once_def)

lemma once_ret: "once i d w (snd (ret x w))"
  by (rule once_idle) (rule idleness.R_ret)

lemma once_then:
  assumes "idle w (snd (m w))" and "\<And>x v. m w = (Some x, v) \<Longrightarrow> once i d v (snd (f x v))"
  shows "once i d w (snd (do_then m f w))"
  using assms by (cases "m w"; cases "fst (m w)") (auto simp: do_then_def once_def idle_def)

lemma then_once:
  assumes "once i d w (snd (m w))" and "\<And>x v. m w = (Some x, v) \<Longrightarrow> idle v (snd (f x v))"
  shows "once i d w (snd (do_then m f w))"
  using assms by (cases "m w"; cases "fst (m w)") (auto simp: do_then_def once_def idle_def)

lemma run_op_performed:
  "run_op op w = (r, v) \<Longrightarrow> performed k (w_trace v) = performed k (w_trace w)
     @ (case r of None \<Rightarrow> [] | Some (i, e) \<Rightarrow> if k = op_schedule_id op \<and> e \<noteq> Some Err_Busy then [op_due op] else [])"
  unfolding run_op_def by (erule ask_cases) (auto simp: performed_def split: answer.splits)

lemma do_then_Some: "m w = (Some x, v) \<Longrightarrow> do_then m f w = f x v"
  by (simp add: do_then_def)

lemma once_operation_loop: "once (op_schedule_id op) (op_due op) w (snd (operation_loop c op give_up w))"
proof (induction "length (w_script w)" arbitrary: w rule: less_induct)
  case less
  obtain r v where run: "run_op op w = (r, v)" by (cases "run_op op w")
  note perf = run_op_performed [OF run]
  show ?case
  proof (cases r)
    case None
    then show ?thesis using run perf by (subst operation_loop.simps) (simp add: do_then_def once_def idle_def)
  next
    case (Some ie)
    then obtain i e where r: "r = Some (i, e)" by (cases ie) simp
    have use: "length (w_script v) < length (w_script w)" using usesD [OF asks_use(4)] run r by blast
    show ?thesis
    proof (cases "e = Some Err_Busy")
      case True
      let ?next = "\<lambda>ended w. if ended then ret ((blank_run Failed Interrupted)\<lparr>ru_operation := i\<rparr>) w
        else do_then now_is (\<lambda>n w. if \<not> n < give_up then ret (blank_run Failed Busy) w
            else do_then now_is (\<lambda>n w. do_then (sleep_until (n + cf_busy_retry c)) (\<lambda>live w.
                if live then operation_loop c op give_up w else ret (blank_run Failed Interrupted) w) w) w) w"
      have "once (op_schedule_id op) (op_due op) v (snd (do_then ctx_done ?next v))"
        using use by (auto intro!: once_then once_ret idleness.R_asks idleness.R_sleep_until less
            dest!: used_up keepsD [OF keeps_sleep_until])
      moreover have "operation_loop c op give_up w = do_then ctx_done ?next v"
        using r True by (subst operation_loop.simps) (simp add: do_then_Some [where m = "run_op op", OF run [unfolded r]] cong: if_cong)
      ultimately show ?thesis using perf r True by (simp add: once_def idle_def)
    next
      case False
      have "idle v (snd (operation_loop c op give_up w))"
        using False
        by (subst operation_loop.simps)
          (auto simp: do_then_Some [where m = "run_op op", OF run [unfolded r]] intro!: idleness.R_then idleness.R_asks split: option.splits op_error.splits)
      then show ?thesis using perf r False by (simp add: once_def idle_def)
    qed
  qed
qed

lemma once_perform: "once (s_id (j_schedule j)) (j_due j) w (snd (perform c j what note only give_up w))"
  unfolding perform_def
  using once_operation_loop [of "\<lparr>op_what = what, op_actor = actor (s_id (j_schedule j)), op_schedule_id = s_id (j_schedule j),
     op_due = j_due j, op_note = note, op_only_if_played = only\<rparr>" w c give_up] by simp

lemma once_restart_at_last: "once (s_id (j_schedule j)) (j_due j) w (snd (restart_at_last c j warned emptied w))"
  unfolding restart_at_last_def Let_def
  by (auto intro!: once_then then_once [OF once_perform] once_ret idleness.R_then idleness.R_asks idleness.R_wait_idle
      idleness.R_called_off split: option.splits)

lemma once_countdown: "once (s_id (j_schedule j)) (j_due j) w (snd (countdown c j seen w))"
  unfolding countdown_def Let_def
  by (auto intro!: once_then once_ret then_once [OF once_restart_at_last] idleness.R_asks idleness.R_warn_loop idleness.R_last_wait
      split: option.splits sum.splits)

lemma once_execute: "once (s_id (j_schedule j)) (j_due j) w (snd (execute c j w))"
proof -
  have "once (s_id (j_schedule j)) (j_due j) w (snd (restart c j w))"
    unfolding restart_def Let_def
    by (auto intro!: once_then once_ret then_once [OF once_countdown] then_once [OF once_perform] idleness.R_asks
        once_idle [OF idleness.R_people_playing] split: option.splits sum.splits)
  moreover have "once (s_id (j_schedule j)) (j_due j) w (snd (run_backup c j w))"
    unfolding run_backup_def Let_def
    by (auto intro!: once_then then_once [OF once_perform] idleness.R_asks once_idle [OF idleness.R_people_playing] split: sum.splits)
  ultimately show ?thesis
    by (auto simp: execute_def intro!: once_ret once_idle [OF idleness.R_announce] once_idle [OF idleness.R_run_command]
        split: option.splits task.splits)
qed

subsection \<open>A job that was run is not running\<close>

definition gives :: "('a \<Rightarrow> bool) \<Rightarrow> 'a option \<times> world \<Rightarrow> bool" where
  "gives P r \<longleftrightarrow> (\<forall>x. fst r = Some x \<longrightarrow> P x)"

lemma gives_ret: "P x \<Longrightarrow> gives P (ret x w)"
  by (simp add: gives_def ret_def)

lemma gives_then: "(\<And>x v. m w = (Some x, v) \<Longrightarrow> gives P (f x v)) \<Longrightarrow> gives P (do_then m f w)"
  by (auto simp: gives_def do_then_def split: prod.splits option.splits)

lemma ret_result [simp]: "ret x w = (Some y, v) \<longleftrightarrow> y = x \<and> v = w"
  by (auto simp: ret_def)

lemma givesD: "gives P (m w) \<Longrightarrow> m w = (Some x, v) \<Longrightarrow> P x"
  by (simp add: gives_def)

definition finished :: "run \<Rightarrow> bool" where
  "finished r \<longleftrightarrow> ru_result r \<noteq> Running"

text \<open>A run that ended without success.\<close>

definition halted :: "run \<Rightarrow> bool" where
  "halted r \<longleftrightarrow> ru_result r \<noteq> Running \<and> ru_result r \<noteq> Succeeded"

abbreviation (input) stops :: "run option \<Rightarrow> bool" where "stops r \<equiv> (\<forall>x. r = Some x \<longrightarrow> halted x)"

lemma halted_finished [simp, intro]: "halted r \<Longrightarrow> finished r"
  by (simp add: halted_def finished_def)

lemma halted_simps [simp]:
  "halted (blank_run res why) \<longleftrightarrow> res \<noteq> Running \<and> res \<noteq> Succeeded" "halted (r\<lparr>ru_detail := t\<rparr>) = halted r"
  "halted (r\<lparr>ru_operation := t\<rparr>) = halted r" "halted (r\<lparr>ru_players := n\<rparr>) = halted r" "halted (r\<lparr>ru_retry_at := a\<rparr>) = halted r"
  "halted (state_failed e)" "halted (invalid_run t)" "halted (with_seen (r, s)) = halted r"
  by (simp_all add: halted_def blank_run_def state_failed_def invalid_run_def with_seen_def)

lemma offline_halted [simp]: "offline st = Some r \<Longrightarrow> halted r"
  by (auto simp: offline_def split: if_splits)

lemma finished_simps [simp]:
  "finished (blank_run res why) \<longleftrightarrow> res \<noteq> Running" "finished (r\<lparr>ru_detail := t\<rparr>) = finished r" "finished (r\<lparr>ru_operation := t\<rparr>) = finished r"
  "finished (r\<lparr>ru_players := n\<rparr>) = finished r" "finished (r\<lparr>ru_retry_at := a\<rparr>) = finished r" "finished (state_failed e)"
  "finished (invalid_run t)" "finished (with_seen (r, s)) = finished r"
  by (simp_all add: finished_def blank_run_def state_failed_def invalid_run_def with_seen_def)

lemma offline_finished [simp]: "offline st = Some r \<Longrightarrow> finished r"
  by (auto simp: offline_def split: if_splits)

lemma stops_countdown_wait: "gives stops (countdown_wait c j t warned w)"
proof (induction "length (w_script w)" arbitrary: w rule: less_induct)
  case less
  show ?case
    by (subst countdown_wait.simps)
      (auto intro!: gives_then gives_ret less dest!: usesD [OF turned_off_uses] usesD [OF asks_use(1)] usesD [OF asks_use(7)])
qed

lemma countdown_wait_result:
  "countdown_wait c j t warned w = (Some r, v) \<Longrightarrow> length (w_script v) \<le> length (w_script w) \<and> stops r"
  using keepsD [OF keeps_countdown_wait] givesD [where m = "countdown_wait c j t warned", OF stops_countdown_wait] by blast

lemma stops_wait_idle: "gives stops (wait_idle c j warned give_up w)"
proof (induction "length (w_script w)" arbitrary: w rule: less_induct)
  case less
  show ?case
    by (subst wait_idle.simps)
      (auto intro!: gives_then gives_ret less dest!: used_up countdown_wait_result split: option.splits sum.splits)
qed

lemma finished_operation_loop: "gives finished (operation_loop c op give_up w)"
proof (induction "length (w_script w)" arbitrary: w rule: less_induct)
  case less
  show ?case
    by (subst operation_loop.simps)
      (auto intro!: gives_then gives_ret less dest!: used_up keepsD [OF keeps_sleep_until] split: option.splits op_error.splits)
qed

lemma performed_finished: "perform c j what note only give_up w = (Some r, v) \<Longrightarrow> finished r"
  unfolding perform_def by (erule givesD [where m = "operation_loop _ _ _", OF finished_operation_loop])

lemma stops_warn_loop: "gives (\<lambda>(r, _). \<forall>x. r = Inl x \<longrightarrow> halted x) (warn_loop c j warned seen ws w)"
proof (induction ws arbitrary: warned seen w)
  case (Cons s ws)
  then show ?case
    by (cases s) (auto simp: Let_def intro!: gives_then gives_ret dest!: countdown_wait_result split: option.splits sum.splits)
qed (simp add: gives_ret)

lemma warn_loop_halted: "warn_loop c j warned seen ws w = (Some (Inl x, s), v) \<Longrightarrow> halted x"
  using givesD [where m = "warn_loop c j warned seen ws", OF stops_warn_loop] by fastforce

lemma last_wait_halted: "last_wait c j at warned seen w = (Some (Some x, s), v) \<Longrightarrow> halted x"
proof -
  have "gives (\<lambda>(r, _). stops r) (last_wait c j at warned seen w)"
    unfolding last_wait_def by (auto intro!: gives_then gives_ret dest!: countdown_wait_result split: option.splits sum.splits)
  then show "last_wait c j at warned seen w = (Some (Some x, s), v) \<Longrightarrow> halted x"
    using givesD [where m = "last_wait c j at warned seen"] by fastforce
qed

lemma restart_at_last_finished: "restart_at_last c j warned emptied w = (Some x, v) \<Longrightarrow> finished x"
proof -
  have idle: "stops r" if "wait_idle c j warned g u = (Some r, v)" for warned g u r v
    using givesD [where m = "wait_idle c j warned g", OF stops_wait_idle] that by blast
  have "gives finished (restart_at_last c j warned emptied w)"
    unfolding restart_at_last_def Let_def
    by (auto intro!: gives_then gives_ret dest!: idle performed_finished split: option.splits)
  then show "restart_at_last c j warned emptied w = (Some x, v) \<Longrightarrow> finished x" by (simp add: gives_def)
qed

lemma countdown_finished: "countdown c j seen w = (Some (x, s), v) \<Longrightarrow> finished x"
proof -
  have "gives (\<lambda>(r, _). finished r) (countdown c j seen w)"
    unfolding countdown_def Let_def
    by (auto intro!: gives_then gives_ret dest!: warn_loop_halted last_wait_halted restart_at_last_finished
        split: sum.splits option.splits if_splits)
  then show "countdown c j seen w = (Some (x, s), v) \<Longrightarrow> finished x" by (simp add: gives_def)
qed

lemma finished_chat: "gives finished (chat st txt color w)"
  by (auto simp: chat_def intro!: gives_then gives_ret split: sum.splits)

lemma finished_execute: "gives finished (execute c j w)"
proof -
  have people: "gives finished (people_playing c j st v)" for st v
    unfolding people_playing_def by (auto intro!: gives_then gives_ret)
  have "gives finished (restart c j w)"
    unfolding restart_def Let_def
    by (auto intro!: gives_then gives_ret people dest!: countdown_finished performed_finished split: sum.splits option.splits)
  moreover have "gives finished (run_backup c j w)"
    unfolding run_backup_def Let_def
    by (auto intro!: gives_then gives_ret people dest!: performed_finished split: sum.splits)
  moreover have "gives finished (announce j w)" "gives finished (run_command j w)"
    unfolding announce_def run_command_def
    by (auto intro!: gives_then gives_ret finished_chat split: sum.splits option.splits)
  ultimately show ?thesis by (auto simp: execute_def intro!: gives_ret split: option.splits task.splits)
qed

lemma do_then_result: "do_then m f w = (Some y, v) \<longleftrightarrow> (\<exists>x u. m w = (Some x, u) \<and> f x u = (Some y, v))"
  by (auto simp: do_then_def split: prod.splits option.splits)

subsection \<open>A restart or backup succeeded when it was carried out\<close>

text \<open>The operations that were carried out: which, for which schedule and which occurrence.\<close>

definition carried_out :: "call list \<Rightarrow> (op_kind \<times> string \<times> gotime) list" where
  "carried_out cs = concat (map (\<lambda>x. case x of
     Ran op None \<Rightarrow> [(op_what op, op_schedule_id op, op_due op)] | _ \<Rightarrow> []) cs)"

lemma carried_out_simps [simp]: "carried_out [] = []" "carried_out (cs @ ds) = carried_out cs @ carried_out ds"
  by (simp_all add: carried_out_def)

definition unchanged :: "world \<Rightarrow> world \<Rightarrow> bool" where
  "unchanged w v \<longleftrightarrow> carried_out (w_trace v) = carried_out (w_trace w)"

lemma ask_unchanged:
  assumes "\<And>a st x cs st'. f a st = Some (x, cs, st') \<Longrightarrow> carried_out cs = []"
  shows "unchanged w (snd (ask f w))"
proof (cases "ask f w")
  case (Pair r v)
  then show ?thesis
    by (cases rule: ask_cases) (use assms Pair in \<open>auto simp: unchanged_def\<close>)
qed

interpretation unchanging: quiet_relation unchanged
proof unfold_locales
  show "unchanged w (w\<lparr>w_current := a\<rparr>)" "unchanged w w" for w a by (simp_all add: unchanged_def)
  show "unchanged u w" if "unchanged u v" "unchanged v w" for u v w using that by (simp add: unchanged_def)
qed (auto intro!: ask_unchanged simp: now_is_def get_state_def send_def load_rows_def sleep_def ctx_done_def carried_out_def
    split: answer.splits)

text \<open>\<open>tells k s w r\<close>: from \<open>w\<close> the operation \<open>k\<close> was carried out once if the result says success by \<open>s\<close>, and
  otherwise none was.\<close>

definition tells :: "op_kind \<times> string \<times> gotime \<Rightarrow> ('a \<Rightarrow> bool) \<Rightarrow> world \<Rightarrow> 'a option \<times> world \<Rightarrow> bool" where
  "tells k s w r \<longleftrightarrow> (\<forall>x. fst r = Some x \<longrightarrow> carried_out (w_trace (snd r)) = carried_out (w_trace w) @ (if s x then [k] else []))"

abbreviation (input) success :: "run \<Rightarrow> bool" where "success r \<equiv> ru_result r = Succeeded"

lemma tells_ret: "\<not> s x \<Longrightarrow> tells k s w (ret x w)"
  by (simp add: tells_def ret_def)

lemma tells_halted: "halted x \<Longrightarrow> tells k success w (ret x w)"
  by (rule tells_ret) (simp add: halted_def)

lemma tells_then:
  assumes "unchanged w (snd (m w))" and "\<And>x v. m w = (Some x, v) \<Longrightarrow> tells k s v (f x v)"
  shows "tells k s w (do_then m f w)"
  using assms by (cases "m w"; cases "fst (m w)") (auto simp: do_then_def tells_def unchanged_def)

lemma then_tells:
  assumes "tells k s w (m w)" and "\<And>x v. m w = (Some x, v) \<Longrightarrow> unchanged v (snd (f x v))"
    and "\<And>x v y u. m w = (Some x, v) \<Longrightarrow> f x v = (Some y, u) \<Longrightarrow> s' y = s x"
  shows "tells k s' w (do_then m f w)"
proof (cases "m w")
  case (Pair r v)
  then show ?thesis
  proof (cases r)
    case (Some x)
    then show ?thesis using assms(1) assms(2,3) [of x v] Pair
      by (cases "f x v") (auto simp: do_then_def tells_def unchanged_def)
  qed (simp add: do_then_def tells_def)
qed

lemma then_tells_ret:
  assumes "tells k s w (m w)" and "\<And>x. s' (g x) = s x"
  shows "tells k s' w (do_then m (\<lambda>x. ret (g x)) w)"
  by (rule then_tells [where m = m and f = "\<lambda>x. ret (g x)", OF assms(1)]) (auto simp: assms(2) intro: unchanging.R_ret)

lemma run_op_tells: "tells (op_what op, op_schedule_id op, op_due op) (\<lambda>(i, e). e = None) w (run_op op w)"
proof -
  have "run_op op w = (r, v) \<Longrightarrow> carried_out (w_trace v) = carried_out (w_trace w)
     @ (case r of Some (i, None) \<Rightarrow> [(op_what op, op_schedule_id op, op_due op)] | _ \<Rightarrow> [])" for r v
    unfolding run_op_def by (erule ask_cases) (auto simp: carried_out_def split: answer.splits option.splits)
  then show ?thesis by (cases "run_op op w") (auto simp: tells_def split: option.splits)
qed

lemma operation_loop_tells:
  "tells (op_what op, op_schedule_id op, op_due op) success w (operation_loop c op give_up w)"
proof (induction "length (w_script w)" arbitrary: w rule: less_induct)
  case less
  let ?k = "(op_what op, op_schedule_id op, op_due op)"
  obtain r v where run: "run_op op w = (r, v)" by (cases "run_op op w")
  note t = run_op_tells [of op w, unfolded run]
  show ?case
  proof (cases r)
    case None
    then show ?thesis using run by (subst operation_loop.simps) (simp add: do_then_def tells_def)
  next
    case (Some ie)
    then obtain i e where r: "r = Some (i, e)" by (cases ie) simp
    note run' = do_then_Some [where m = "run_op op", OF run [unfolded r]]
    have use: "length (w_script v) < length (w_script w)" using usesD [OF asks_use(4)] run r by blast
    show ?thesis
    proof (cases e)
      case None
      then have "operation_loop c op give_up w = ret ((blank_run Succeeded No_Reason)\<lparr>ru_operation := i\<rparr>) v"
        by (subst operation_loop.simps) (simp add: run')
      then show ?thesis using t r None by (simp add: tells_def ret_def blank_run_def)
    next
      case (Some err)
      have "tells ?k success v (operation_loop c op give_up w)"
        using use Some by (subst operation_loop.simps)
          (auto simp: run' intro!: tells_then tells_halted unchanging.R_asks unchanging.R_sleep_until less
            dest!: used_up keepsD [OF keeps_sleep_until] split: op_error.splits)
      then show ?thesis using t r Some by (simp add: tells_def)
    qed
  qed
qed

lemma perform_tells: "tells (what, s_id (j_schedule j), j_due j) success w (perform c j what note only give_up w)"
  unfolding perform_def
  using operation_loop_tells [of "\<lparr>op_what = what, op_actor = actor (s_id (j_schedule j)), op_schedule_id = s_id (j_schedule j),
     op_due = j_due j, op_note = note, op_only_if_played = only\<rparr>" w c give_up] by simp

lemma restart_at_last_tells: "tells (Op_Restart, s_id (j_schedule j), j_due j) success w (restart_at_last c j warned emptied w)"
proof -
  have idle: "stops r" if "wait_idle c j warned g u = (Some r, v)" for warned g u r v
    using givesD [where m = "wait_idle c j warned g", OF stops_wait_idle] that by blast
  have p: "tells (Op_Restart, s_id (j_schedule j), j_due j) success u
      (do_then (perform c j Op_Restart [] False g) (\<lambda>res. do_then (called_off (h res)) (\<lambda>_. ret res)) u)" for u g h
    by (rule then_tells [where m = "perform c j Op_Restart [] False g" and f = "\<lambda>res. do_then (called_off (h res)) (\<lambda>_. ret res)", OF perform_tells])
      (intro unchanging.R_then unchanging.R_asks unchanging.R_called_off, auto simp: do_then_result)
  show ?thesis unfolding restart_at_last_def Let_def
    by (auto intro!: tells_then tells_halted p unchanging.R_then unchanging.R_asks unchanging.R_wait_idle dest!: idle split: option.splits)
qed

lemma countdown_tells: "tells (Op_Restart, s_id (j_schedule j), j_due j) (\<lambda>(r, _). success r) w (countdown c j seen w)"
  unfolding countdown_def Let_def
  by (auto intro!: tells_then then_tells_ret [OF restart_at_last_tells] unchanging.R_asks unchanging.R_warn_loop
        unchanging.R_last_wait tells_ret dest!: warn_loop_halted last_wait_halted simp: halted_def
      split: sum.splits option.splits)

lemma success_with_seen [simp]: "ru_result (with_seen r) = ru_result (fst r)"
  by (cases r) (simp add: with_seen_def)

lemma people_playing_tells: "tells k success w (people_playing c j st w)"
  unfolding people_playing_def by (auto intro!: tells_then tells_halted unchanging.R_asks)

lemma restart_tells: "tells (Op_Restart, s_id (j_schedule j), j_due j) success w (restart c j w)"
  unfolding restart_def Let_def
  by (auto intro!: tells_then tells_halted people_playing_tells then_tells_ret [OF perform_tells] then_tells_ret [OF countdown_tells]
      unchanging.R_asks split: sum.splits option.splits)

lemma backup_tells: "tells (Op_Backup, s_id (j_schedule j), j_due j) success w (run_backup c j w)"
  unfolding run_backup_def Let_def
  by (auto intro!: tells_then people_playing_tells then_tells_ret [OF perform_tells] unchanging.R_asks split: sum.splits)

lemma execute_tells:
  assumes "s_task (j_schedule j) = Restart \<and> what = Op_Restart \<or> s_task (j_schedule j) = Backup \<and> what = Op_Backup"
  shows "tells (what, s_id (j_schedule j), j_due j) success w (execute c j w)"
  using assms by (auto simp: execute_def intro!: tells_halted restart_tells backup_tells split: option.splits)

subsection \<open>The runner keeps the invariant\<close>

text \<open>What was carried out was begun, each occurrence once and in order.\<close>

definition orderly :: "world \<Rightarrow> bool" where
  "orderly w \<longleftrightarrow> (\<forall>i. sorted_wrt (<) (performed i (w_trace w)) \<and> set (performed i (w_trace w)) \<subseteq> set (starts i (w_trace w)))"

definition good :: "string \<Rightarrow> answer list \<Rightarrow> schedule set \<Rightarrow> world \<Rightarrow> bool" where
  "good srv rest S w \<longleftrightarrow> safe srv rest w \<and> current srv rest S w \<and> orderly w"

lemma good_subset: "good srv rest S w \<Longrightarrow> T \<subseteq> S \<Longrightarrow> good srv rest T w"
  by (auto simp: good_def current_def)

lemma good_evolves: "good srv rest S w \<Longrightarrow> evolves w v \<Longrightarrow> idle w v \<Longrightarrow> good srv rest S v"
proof -
  assume *: "good srv rest S w" "evolves w v" "idle w v"
  then have "starts i (w_trace v) = starts i (w_trace w)" "performed i (w_trace v) = performed i (w_trace w)" for i
    by (auto simp: evolves_def idle_def)
  then show ?thesis using * evolves_keeps [OF *(2)] by (simp add: good_def orderly_def)
qed

text \<open>A save of a run that is over: an interrupted, missed or finished one.\<close>

lemma save_good:
  assumes good: "good (cf_server c) rest S w" and fin: "finished run"
    and later: "\<And>d. d \<in> set (starts i (w_trace w)) \<Longrightarrow> d \<le> ru_due run"
    and new: "i \<notin> set (created (w_script w @ rest))"
    and others: "\<And>s. s \<in> S \<Longrightarrow> s_id s = i \<Longrightarrow> covers s (ru_due run)"
  shows "good (cf_server c) rest S (snd (save c i run w))"
proof -
  obtain r v where s: "save c i run w = (r, v)" by (cases "save c i run w")
  have g: "safe (cf_server c) rest w" "current (cf_server c) rest S w" "orderly w" using good by (simp_all add: good_def)
  have nr: "ru_result run \<noteq> Running" using fin by (simp add: finished_def)
  have le: "\<And>d. d \<in> set (starts i (w_trace w)) \<Longrightarrow> d \<le> ru_due run \<and> (ru_result run = Running \<longrightarrow> d < ru_due run)"
    using later nr by blast
  note save = save_safe [OF g(1,2) le new others s]
  have "performed k (w_trace v) = performed k (w_trace w)" for k by (rule save(3))
  moreover have "starts k (w_trace v) = starts k (w_trace w)" for k
    using nr by (simp only: save(4) simp_thms if_False append_Nil2)
  ultimately have "orderly v" using g(3) by (simp only: orderly_def simp_thms)
  then show ?thesis using save(1,2) unfolding good_def s snd_conv by blast
qed

lemma record_run_snd: "snd (record_run c j run w) = snd (save c (s_id (j_schedule j)) run w)"
  by (cases "save c (s_id (j_schedule j)) run w"; cases "fst (save c (s_id (j_schedule j)) run w)")
    (simp_all add: record_run_def do_then_def ret_def)

text \<open>A job that was planned comes after everything its schedule covers.\<close>

definition upcoming :: "job \<Rightarrow> bool" where
  "upcoming j \<longleftrightarrow> (\<forall>d. covers (j_schedule j) d \<longrightarrow> d < j_due j)"

lemma good_later:
  assumes "good srv rest S w" and "s \<in> S" and "d \<in> set (starts (s_id s) (w_trace w))"
  shows "covers s d"
  using assms by (auto simp: good_def current_def)

lemma good_new: "good srv rest S w \<Longrightarrow> s \<in> S \<Longrightarrow> s_id s \<notin> set (created (w_script w @ rest))"
  by (simp add: good_def current_def)

lemma ask_good:
  assumes "good srv rest S w"
  shows "good srv rest S (snd (now_is w))" "good srv rest S (snd (ctx_done w))" "good srv rest S (snd (sleep d w))"
  using good_evolves [OF assms evolution.R_now idleness.R_now] good_evolves [OF assms evolution.R_done idleness.R_done]
    good_evolves [OF assms evolution.R_sleep idleness.R_sleep] by blast+

lemma then_good:
  assumes "good srv rest S (snd (m w))" and "T \<subseteq> S" and "\<And>x v. good srv rest S v \<Longrightarrow> good srv rest T (snd (f x v))"
  shows "good srv rest T (snd (do_then m f w))"
  using assms good_subset [OF assms(1,2)] by (cases "m w"; cases "fst (m w)") (auto simp: do_then_def)

lemma ret_good: "good srv rest S w \<Longrightarrow> good srv rest S (snd (ret x w))"
  by (simp add: ret_def)

lemma run_job_good:
  assumes good: "good (cf_server c) rest {j_schedule j} w" and up: "upcoming j"
  shows "good (cf_server c) rest {} (snd (run_job c j w))"
proof -
  let ?i = "s_id (j_schedule j)" and ?srv = "cf_server c"
  let ?row = "\<lambda>t. (blank_run Running No_Reason)\<lparr>ru_due := j_due j, ru_started := t\<rparr>"
  obtain r1 w1 where n1: "now_is w = (r1, w1)" by (cases "now_is w")
  have g1: "good ?srv rest {j_schedule j} w1" using ask_good(1) [OF good] n1 by simp
  show ?thesis
  proof (cases r1)
    case None
    then have "snd (run_job c j w) = w1" using n1 by (simp add: run_job_def do_then_def Let_def)
    then show ?thesis using good_subset [OF g1] by simp
  next
    case (Some t)
    obtain r2 w2 where n2: "save c ?i (?row t) w1 = (r2, w2)" by (cases "save c ?i (?row t) w1")
    have g: "safe ?srv rest w1" "current ?srv rest {} w1" "orderly w1" using good_subset [OF g1, of "{}"] by (simp_all add: good_def)
    have earlier: "d < j_due j" if "d \<in> set (starts ?i (w_trace w1))" for d
      using good_later [OF g1 _ that] up by (simp add: upcoming_def)
    have new: "?i \<notin> set (created (w_script w1 @ rest))" using good_new [OF g1] by simp
    have le: "d \<le> ru_due (?row t) \<and> (ru_result (?row t) = Running \<longrightarrow> d < ru_due (?row t))"
      if "d \<in> set (starts ?i (w_trace w1))" for d using earlier [OF that] by simp
    note save = save_safe [OF g(1,2) le new _ n2, simplified]
    note s2 = save(1) and p2 = save(3)
    have st2: "starts k (w_trace w2) = starts k (w_trace w1) @ (if k = ?i \<and> r2 = Some True then [j_due j] else [])" for k
      using save(4) [of k] by (simp add: blank_run_def)
    have g2: "good ?srv rest {} w2" using s2 g(3) by (simp add: good_def current_def orderly_def p2 st2) blast
    show ?thesis
    proof (cases "r2 = Some True")
      case False
      then consider "r2 = None" | "r2 = Some False" by (cases r2) auto
      then show ?thesis
      proof cases
        case 1
        then have "snd (run_job c j w) = w2" using n1 n2 Some by (simp add: run_job_def do_then_def Let_def)
        then show ?thesis using g2 by simp
      next
        case 2
        then obtain f where "snd (run_job c j w) = w2\<lparr>w_runs := f\<rparr>"
          using n1 n2 Some by (simp add: run_job_def do_then_def Let_def change_def)
        then show ?thesis using g2 by (simp add: good_def safe_def current_def orderly_def)
      qed
    next
      case begun: True
      define w3 where "w3 = w2\<lparr>w_current := Some (j, zero_time)\<rparr>"
      obtain r4 w4 where ex: "execute c j w3 = (r4, w4)" by (cases "execute c j w3")
      have ev: "evolves w3 w4" using evolution.R_execute [of w3 c j] ex by simp
      have "safe ?srv rest w3" using s2 by (simp add: w3_def safe_def)
      then have safe4: "safe ?srv rest w4" by (rule evolves_keeps(1) [OF ev])
      have st4: "starts k (w_trace w4) = starts k (w_trace w2)" for k using ev by (auto simp: evolves_def w3_def)
      have "orderly w4"
        unfolding orderly_def
      proof
        fix k
        have k: "sorted_wrt (<) (performed k (w_trace w1))" "set (performed k (w_trace w1)) \<subseteq> set (starts k (w_trace w1))"
          using g(3) by (auto simp: orderly_def)
        have "once ?i (j_due j) w3 w4" using once_execute [of j w3 c] ex by simp
        then have "performed k (w_trace w4) = performed k (w_trace w1) @ [] \<or>
            performed k (w_trace w4) = performed k (w_trace w1) @ (if k = ?i then [j_due j] else [])"
          using p2 [of k] by (auto simp: once_def idle_def w3_def)
        then show "sorted_wrt (<) (performed k (w_trace w4)) \<and> set (performed k (w_trace w4)) \<subseteq> set (starts k (w_trace w4))"
          using k earlier begun subsetD [OF k(2)] by (auto simp: st4 st2 sorted_wrt_append)
      qed
      then have g4: "good ?srv rest {} w4" using safe4 by (simp add: good_def current_def)
      show ?thesis
      proof (cases r4)
        case None
        then have "snd (run_job c j w) = w4"
          using n1 n2 Some begun ex by (simp add: run_job_def do_then_def Let_def set_current_def change_def w3_def)
        then show ?thesis using g4 by simp
      next
        case (Some out)
        define w5 where "w5 = w4\<lparr>w_current := None\<rparr>"
        obtain r6 w6 where n6: "now_is w5 = (r6, w6)" by (cases "now_is w5")
        have job: "snd (run_job c j w) = snd (do_then now_is (\<lambda>n. record_run c j (out\<lparr>ru_due := j_due j, ru_started := t, ru_finished := n\<rparr>)) w5)"
          using n1 n2 \<open>r1 = Some t\<close> begun ex Some by (simp add: run_job_def do_then_def Let_def set_current_def change_def w3_def w5_def)
        have g5: "good ?srv rest {} w5" using g4 by (simp add: w5_def good_def safe_def current_def orderly_def)
        then have g6: "good ?srv rest {} w6" using ask_good(1) n6 by (metis snd_conv)
        show ?thesis
        proof (cases r6)
          case None
          then show ?thesis using job n6 g6 by (simp add: do_then_def)
        next
          case (Some n)
          have fin: "finished (out\<lparr>ru_due := j_due j, ru_started := t, ru_finished := n\<rparr>)"
            using finished_execute [of c j w3] ex \<open>r4 = Some out\<close> by (simp add: gives_def finished_def)
          have ev6: "evolves w4 w6" using evolution.R_now [of w5] n6 evolves_refl [of w4] by (auto simp: w5_def evolves_def)
          have "starts ?i (w_trace w6) = starts ?i (w_trace w2)" using ev6 st4 by (auto simp: evolves_def)
          then have later: "d \<le> j_due j" if "d \<in> set (starts ?i (w_trace w6))" for d
            using that earlier less_imp_le by (auto simp: st2 split: if_splits)
          have "evolves w1 w1" by (rule evolves_refl)
          have "?i \<notin> set (created (w_script w6 @ rest))"
          proof -
            have "starts ?i (w_trace w6) \<noteq> []" using \<open>starts ?i (w_trace w6) = starts ?i (w_trace w2)\<close> begun st2 by simp
            then show ?thesis using g6 by (auto simp: good_def safe_def fresh_def)
          qed
          then have "good ?srv rest {} (snd (save c ?i (out\<lparr>ru_due := j_due j, ru_started := t, ru_finished := n\<rparr>) w6))"
            using save_good [OF g6 fin] later by simp
          then show ?thesis using job n6 Some by (simp add: do_then_def record_run_snd)
        qed
      qed
    qed
  qed
qed

text \<open>The jobs of a decision are upcoming jobs of schedules that were read, one for each.\<close>

lemma planned_upcoming:
  assumes "j \<in> set (d_due (plan zones ss n since)) \<union> set (d_missed (plan zones ss n since))"
  shows "upcoming j" and "j_schedule j \<in> set ss"
proof -
  have p: "j_schedule j \<in> set ss" "job_of zones n (j_schedule j) j" using planned_job [of j zones ss n since] assms by auto
  then show "j_schedule j \<in> set ss" by simp
  obtain r l where last: "last_until r (n + lead (j_schedule j)) (later (cursor (j_schedule j)) (n - max_lookback)) l"
      "j_due j \<noteq> 0" "j_due j = l \<or> later (cursor (j_schedule j)) (n - max_lookback) < j_due j"
    using p(2) by (auto simp: job_of_def)
  have "later (cursor (j_schedule j)) (n - max_lookback) < j_due j"
    using last rule_times.reached_later by (auto simp: last_until_def)
  then have "cursor (j_schedule j) < j_due j" by (auto simp: later_def split: if_splits)
  then show "upcoming j" by (auto simp: upcoming_def covers_def cursor_def later_def Let_def split: if_splits)
qed

lemma mark_interrupted_good:
  assumes "set ss \<subseteq> S" and "distinct (map s_id ss)" and S: "inj_on s_id S"
  shows "good (cf_server c) rest S w \<Longrightarrow> good (cf_server c) rest S (snd (mark_interrupted c ss w))"
  using assms(1)
proof (induction ss arbitrary: w)
  case (Cons s ss)
  show ?case
  proof (cases "s_last_run s")
    case (Some l)
    let ?run = "\<lambda>n. l\<lparr>ru_finished := n, ru_result := Failed, ru_reason := Interrupted\<rparr>"
    have mem: "s \<in> S" using Cons.prems(2) by simp
    have save: "good (cf_server c) rest S (snd (save c (s_id s) (?run n) v))" if g: "good (cf_server c) rest S v" for n v
    proof (rule save_good [OF g])
      show "finished (?run n)" by (simp add: finished_def)
      show "d \<le> ru_due (?run n)" if "d \<in> set (starts (s_id s) (w_trace v))" for d
        using good_later [OF g mem that] Some by (simp add: covers_def)
      show "s_id s \<notin> set (created (w_script v @ rest))" by (rule good_new [OF g mem])
      show "covers t (ru_due (?run n))" if "t \<in> S" "s_id t = s_id s" for t
        using inj_onD [OF S that(2) that(1) mem] Some by (simp add: covers_def)
    qed
    show ?thesis
    proof (cases "ru_result l = Running")
      case True
      have "good (cf_server c) rest S (snd (do_then now_is (\<lambda>n. do_then (record_run c \<lparr>j_schedule = s, j_due = ru_due l, j_start = zero_time, j_reason = No_Reason\<rparr> (?run n))
          (\<lambda>_. mark_interrupted c ss)) w))"
        by (rule then_good [where m = now_is, OF ask_good(1) [OF Cons.prems(1)] subset_refl], rule then_good [OF _ subset_refl])
          (use save Cons in \<open>auto simp: record_run_snd\<close>)
      then show ?thesis using Some True by simp
    qed (use Some Cons in simp)
  qed (use Cons in simp)
qed (simp add: ret_def)

lemma record_missed_good:
  assumes "\<And>j. j \<in> set js \<Longrightarrow> upcoming j \<and> j_schedule j \<in> S" and "distinct (map (\<lambda>j. s_id (j_schedule j)) js)" and "inj_on s_id S"
    and "good (cf_server c) rest S w"
  shows "good (cf_server c) rest (S - j_schedule ` set js) (snd (record_missed c n js w))"
  using assms
proof (induction js arbitrary: S w)
  case (Cons j js)
  let ?s = "j_schedule j" and ?run = "(blank_run Missed (j_reason j))\<lparr>ru_due := j_due j, ru_finished := n\<rparr>"
  have j: "upcoming j" "?s \<in> S" using Cons.prems(1) by auto
  note g = Cons.prems(4)
  have "good (cf_server c) rest (S - {?s}) (snd (save c (s_id ?s) ?run w))"
  proof (rule save_good)
    show "good (cf_server c) rest (S - {?s}) w" using good_subset [OF g] by blast
    show "finished ?run" by (simp add: finished_def blank_run_def)
    show "d \<le> ru_due ?run" if "d \<in> set (starts (s_id ?s) (w_trace w))" for d
      using good_later [OF g j(2) that] j(1) by (auto simp: upcoming_def dest: less_imp_le)
    show "s_id ?s \<notin> set (created (w_script w @ rest))" by (rule good_new [OF g j(2)])
    show "covers t (ru_due ?run)" if "t \<in> S - {?s}" "s_id t = s_id ?s" for t
      using inj_onD [OF Cons.prems(3) that(2)] that(1) j(2) by auto
  qed
  then have step: "good (cf_server c) rest (S - {?s}) (snd (record_run c j ?run w))" by (simp only: record_run_snd)
  have rest_js: "upcoming k \<and> j_schedule k \<in> S - {?s}" if "k \<in> set js" for k
    using Cons.prems(1) [of k] Cons.prems(2) that by (auto simp: image_iff)
  have eq: "S - j_schedule ` set (j # js) = S - {?s} - j_schedule ` set js" by auto
  show ?case
    unfolding record_missed.simps eq
  proof (rule then_good [where m = "record_run _ _ _", OF step])
    show "good (cf_server c) rest (S - {?s} - j_schedule ` set js) (snd (record_missed c n js v))"
      if "good (cf_server c) rest (S - {?s}) v" for v
      by (rule Cons.IH [OF rest_js _ inj_on_subset [OF Cons.prems(3)] that]) (use Cons.prems(2) in auto)
  qed auto
qed (simp add: ret_def)

lemma log_invalid_good: "good srv rest S w \<Longrightarrow> good srv rest S (snd (log_invalid x w))"
  by (simp add: log_invalid_def change_def good_def safe_def current_def orderly_def)

lemma pursue_good:
  assumes good: "good (cf_server c) rest S w"
    and due: "\<And>j. j \<in> set (d_due d) \<Longrightarrow> upcoming j \<and> j_schedule j \<in> S"
  shows "good (cf_server c) rest {} (snd (pursue c n d w))"
proof (cases "d_due d")
  case Nil
  then show ?thesis
    unfolding pursue_def by (auto intro!: then_good [where m = "sleep _", OF ask_good(3) [OF good]] ret_good intro: good_subset)
next
  case (Cons j js)
  then have j: "good (cf_server c) rest {j_schedule j} w" "upcoming j" using good_subset [OF good] due by auto
  show ?thesis
    unfolding pursue_def Cons list.case
    by (rule then_good [where m = "run_job c j", OF run_job_good [OF j] subset_refl])
      (auto intro!: then_good [where m = ctx_done and S = "{}"] ask_good(2) ret_good)
qed

lemma round_good:
  assumes good: "good (cf_server c) rest (set ss) w" and ids: "distinct (map s_id ss)"
  shows "good (cf_server c) rest {} (snd (round c since first ss w))"
  unfolding round_def Let_def
proof (rule then_good [where S = "set ss"])
  have inj: "inj_on s_id (set ss)" using ids by (simp add: distinct_map)
  show "good (cf_server c) rest (set ss) (snd ((if first then mark_interrupted c ss else ret ()) w))"
    using mark_interrupted_good [OF subset_refl ids inj good] good by (simp add: ret_def)
  fix v assume v: "good (cf_server c) rest (set ss) v"
  show "good (cf_server c) rest {} (snd (do_then now_is (\<lambda>n. do_then (log_invalid (d_invalid (plan (cf_zones c) ss n since))) (\<lambda>_.
      do_then (record_missed c n (d_missed (plan (cf_zones c) ss n since))) (\<lambda>_. pursue c n (plan (cf_zones c) ss n since)))) v))"
  proof (rule then_good [where m = now_is, OF ask_good(1) [OF v]])
    fix n u assume u: "good (cf_server c) rest (set ss) u"
    let ?d = "plan (cf_zones c) ss n since"
    have jobs: "upcoming j \<and> j_schedule j \<in> set ss" if "j \<in> set (d_due ?d) \<union> set (d_missed ?d)" for j
      using planned_upcoming [OF that] by simp
    have dis: "distinct (map (\<lambda>j. s_id (j_schedule j)) (d_due ?d @ d_missed ?d))" using plan_one_job_each [OF ids] by blast
    have other: "j_schedule j \<noteq> j_schedule k" if "j \<in> set (d_due ?d)" "k \<in> set (d_missed ?d)" for j k
    proof
      assume "j_schedule j = j_schedule k"
      then have "s_id (j_schedule j) \<in> (\<lambda>j. s_id (j_schedule j)) ` set (d_due ?d) \<inter> (\<lambda>j. s_id (j_schedule j)) ` set (d_missed ?d)"
        using imageI [OF that(1), of "\<lambda>j. s_id (j_schedule j)"] imageI [OF that(2), of "\<lambda>j. s_id (j_schedule j)"] by simp
      then show False using dis unfolding map_append distinct_append set_map by blast
    qed
    show "good (cf_server c) rest {} (snd (do_then (log_invalid (d_invalid ?d)) (\<lambda>_.
        do_then (record_missed c n (d_missed ?d)) (\<lambda>_. pursue c n ?d)) u))"
    proof (rule then_good [where m = "log_invalid _", OF log_invalid_good [OF u]])
      fix t assume t: "good (cf_server c) rest (set ss) t"
      have "good (cf_server c) rest (set ss - j_schedule ` set (d_missed ?d)) (snd (record_missed c n (d_missed ?d) t))"
        by (rule record_missed_good [OF _ _ inj t]) (use jobs dis in auto)
      then show "good (cf_server c) rest {} (snd (do_then (record_missed c n (d_missed ?d)) (\<lambda>_. pursue c n ?d) t))"
      proof (rule then_good [where m = "record_missed _ _ _"])
        show "good (cf_server c) rest {} (snd (pursue c n ?d q))" if "good (cf_server c) rest (set ss - j_schedule ` set (d_missed ?d)) q" for q
          by (rule pursue_good [OF that]) (use jobs other in fastforce)
      qed simp
    qed simp
  qed simp
qed simp

lemma in_memory_covers: "s_id (in_memory runs t) = s_id t" "covers t d \<Longrightarrow> covers (in_memory runs t) d"
  by (auto simp: in_memory_def covers_def split: option.splits)

text \<open>What the runner reads is current, with the runs of its memory laid over it.\<close>

lemma load_good:
  assumes good: "good (cf_server c) rest {} w" and load: "load c w = (Some rows, v)"
  shows "good (cf_server c) rest (case rows of None \<Rightarrow> {} | Some ss \<Rightarrow> set ss) v
    \<and> (\<forall>ss. rows = Some ss \<longrightarrow> distinct (map s_id ss))"
proof -
  let ?srv = "cf_server c"
  obtain r u where r: "load_rows c w = (r, u)" by (cases "load_rows c w")
  have u: "good ?srv rest {} u" using good_evolves [OF good evolution.R_load idleness.R_load] r by (metis snd_conv)
  obtain q where q: "r = Some q" using load r by (cases r) (auto simp: load_def do_then_def)
  have read: "q = None \<or> q = Some (load_schedules ?srv (w_store u))"
    using r unfolding load_rows_def by (cases rule: ask_cases) (auto simp: q split: answer.splits if_splits)
  show ?thesis
  proof (cases q)
    case None
    then have "rows = None" "v = u" using load r q by (auto simp: load_def do_then_def)
    then show ?thesis using u by simp
  next
    case (Some db)
    then have db: "db = load_schedules ?srv (w_store u)" using read by simp
    have own: "set db = {s \<in> set (st_schedules (w_store u)). s_server_id s = ?srv}"
      by (auto simp: db load_schedules_def)
    have all: "filter (\<lambda>s. s_server_id s = ?srv) db = db" using own by (auto intro: filter_True)
    have ids: "distinct (map s_id (st_schedules (w_store u)))" using u by (simp add: good_def safe_def)
    have "mset db \<subseteq># mset (st_schedules (w_store u))" by (simp add: db load_schedules_def mset_filter)
    then have "mset (map s_id db) \<subseteq># mset (map s_id (st_schedules (w_store u)))" by (simp add: image_mset_subseteq_mono)
    then have dist: "distinct (map s_id db)" using mset_distinct_sub ids by blast
    obtain f where rows: "rows = Some (map (in_memory (w_runs u)) db)" and v: "v = u\<lparr>w_runs := f\<rparr>"
      using load r q Some by (auto simp: load_def do_then_def look_def change_def all Let_def)
    have "current ?srv rest (set (map (in_memory (w_runs u)) db)) u"
      unfolding current_def
    proof (intro ballI conjI impI allI)
      fix s assume "s \<in> set (map (in_memory (w_runs u)) db)"
      then obtain t where t: "t \<in> set (st_schedules (w_store u))" "s_server_id t = ?srv" "s = in_memory (w_runs u) t"
        using own by auto
      have safe: "safe ?srv rest u" using u by (simp add: good_def)
      show "s_id s \<notin> set (created (w_script u @ rest))"
        using safe t(1,3) by (auto simp: safe_def fresh_def in_memory_covers(1))
      show "covers s d" if "d \<in> set (starts (s_id s) (w_trace u))" for d
        using safe t that by (auto simp: safe_def in_memory_covers)
      fix t' l assume t': "t' \<in> set (st_schedules (w_store u))" "is_row ?srv (s_id s) t'" "s_last_run t' = Some l"
      then have "t' = t"
        using ids t(1,3) by (auto simp: is_row_def in_memory_covers(1) distinct_map dest: inj_onD)
      then have "covers t (ru_due l)" using t'(3) by (simp add: covers_def)
      then show "covers s (ru_due l)" using t(3) in_memory_covers(2) by simp
    qed
    then have "good ?srv rest (set (map (in_memory (w_runs u)) db)) v"
      using u unfolding v by (simp add: good_def safe_def current_def orderly_def)
    moreover have "distinct (map s_id (map (in_memory (w_runs u)) db))" using dist by (simp add: o_def in_memory_covers(1))
    ultimately show ?thesis by (simp add: rows)
  qed
qed

lemma load_stops_good: "good (cf_server c) rest {} w \<Longrightarrow> load c w = (None, v) \<Longrightarrow> good (cf_server c) rest {} v"
  using good_evolves [OF _ evolution.R_load [of w c] idleness.R_load [of w c]]
  by (cases "load_rows c w"; cases "fst (load_rows c w)")
    (auto simp: load_def do_then_def look_def change_def ret_def Let_def split: option.splits)

lemma after_failed_load_good: "good srv rest {} w \<Longrightarrow> good srv rest {} (snd (after_failed_load w))"
  unfolding after_failed_load_def by (auto intro!: then_good [where S = "{}"] ask_good ret_good)

lemma run_loop_good: "good (cf_server c) rest {} w \<Longrightarrow> good (cf_server c) rest {} (snd (run_loop c since first w))"
proof (induction c since first w rule: run_loop.induct)
  case (1 c since first w)
  let ?good = "good (cf_server c) rest"
  obtain r u where l: "load c w = (r, u)" by (cases "load c w")
  show ?case
  proof (cases r)
    case None
    then show ?thesis using load_stops_good [OF 1(3)] l by (subst run_loop.simps) (simp add: do_then_def)
  next
    case (Some rows)
    show ?thesis
    proof (cases rows)
      case None
      have u: "?good {} u" using load_good [OF 1(3)] l Some None by fastforce
      obtain q t where a: "after_failed_load u = (q, t)" by (cases "after_failed_load u")
      have t: "?good {} t" using after_failed_load_good [OF u] a by simp
      then have "?good {} (snd (run_loop c since first t))" if "q = Some True" using 1(1) l Some None a that by blast
      then show ?thesis using l Some None a t
        by (subst run_loop.simps) (cases q; auto simp: do_then_def ret_def)
    next
      case ss: (Some ss)
      have u: "?good (set ss) u" "distinct (map s_id ss)" using load_good [OF 1(3)] l Some ss by fastforce+
      obtain q t where a: "round c since first ss u = (q, t)" by (cases "round c since first ss u")
      have t: "?good {} t" using round_good [OF u, of since first] a by simp
      then have "?good {} (snd (run_loop c since False t))" if "q = Some True" using 1(2) l Some ss a that by blast
      then show ?thesis using l Some ss a t
        by (subst run_loop.simps) (cases q; auto simp: do_then_def ret_def)
    qed
  qed
qed

subsection \<open>Over any number of processes\<close>

lemma start_process_good:
  assumes "good srv (script @ rest) {} w" and "w_script w = []"
  shows "good srv rest {} (start_process script w)"
  using assms by (simp add: start_process_def good_def safe_def current_def orderly_def)

lemma good_empty_script: "good srv rest {} w \<Longrightarrow> good srv rest {} (w\<lparr>w_script := []\<rparr>)"
  by (auto simp: good_def safe_def current_def orderly_def fresh_def)

lemma run_runner_good: "good (cf_server c) rest {} w \<Longrightarrow> good (cf_server c) rest {} (snd (run_runner c w))"
  unfolding run_runner_def by (rule then_good [where m = now_is, OF ask_good(1)]) (auto intro: run_loop_good)

lemma lives_good:
  "good (cf_server c) (concat scripts) {} (w\<lparr>w_script := []\<rparr>) \<Longrightarrow>
     good (cf_server c) [] {} ((lives c scripts w)\<lparr>w_script := []\<rparr>)"
proof (induction scripts arbitrary: w)
  case (Cons script scripts)
  have start: "start_process script (w\<lparr>w_script := []\<rparr>) = start_process script w" by (simp add: start_process_def)
  have "good (cf_server c) (concat scripts) {} (start_process script w)"
    using start_process_good [of "cf_server c" script "concat scripts" "w\<lparr>w_script := []\<rparr>"] Cons.prems start by simp
  then have "good (cf_server c) (concat scripts) {} ((snd (run_runner c (start_process script w)))\<lparr>w_script := []\<rparr>)"
    by (intro good_empty_script run_runner_good)
  from Cons.IH [OF this] show ?case by (simp add: lives_def)
qed (simp add: lives_def)

text \<open>C27: Over any number of runs of the agent, each of which may die at any point, with any answers
  of clock, server, database and timers and any edits of schedules in between, no occurrence of a
  schedule is begun twice, and its restart or backup is carried out at most once: those carried out
  come in the order of their times, and each was begun before. New schedules have to get ids that
  no schedule had before.\<close>

theorem occurrences_run_at_most_once:
  assumes "distinct (map s_id (st_schedules (w_store w)))" and "w_trace w = []"
    and "fresh (concat scripts) (s_id ` set (st_schedules (w_store w)))"
  shows "sorted_wrt (<) (starts i (w_trace (lives c scripts w)))
    \<and> sorted_wrt (<) (performed i (w_trace (lives c scripts w)))
    \<and> set (performed i (w_trace (lives c scripts w))) \<subseteq> set (starts i (w_trace (lives c scripts w)))"
proof -
  have "good (cf_server c) (concat scripts) {} (w\<lparr>w_script := []\<rparr>)"
    using assms by (simp add: good_def safe_def current_def orderly_def)
  from lives_good [OF this] show ?thesis by (simp add: good_def safe_def orderly_def)
qed

subsection \<open>Every run that began is recorded\<close>

lemma ask_runs: "ask f w = (r, v) \<Longrightarrow> w_runs v = w_runs w"
  by (auto simp: ask_def split: prod.splits list.splits option.splits)

lemma save_row_traced:
  assumes "save_row c i run w = (Some ok, v)"
  shows "w_trace v = w_trace w @ [Saved i run ok]" and "w_runs v = w_runs w"
proof -
  from assms show "w_trace v = w_trace w @ [Saved i run ok]"
    unfolding save_row_def by (rule ask_cases) (auto split: answer.splits prod.splits)
  from assms show "w_runs v = w_runs w" unfolding save_row_def by (rule ask_runs)
qed

lemma save_traced:
  "save c i run w = (Some ok, v) \<Longrightarrow> w_trace v = w_trace w @ [Saved i run ok] \<and> w_runs v = (w_runs w)(i \<mapsto> run)"
  using save_row_traced by (fastforce simp: save_def do_then_def change_def)

text \<open>The last run of a schedule in the database.\<close>

definition last_run_is :: "string \<Rightarrow> string \<Rightarrow> run \<Rightarrow> world \<Rightarrow> bool" where
  "last_run_is srv i run v \<longleftrightarrow> list_all (\<lambda>s. if is_row srv i s then s_last_run s = Some run else True) (st_schedules (w_store v))"

lemma save_last_run:
  assumes "save c i run w = (Some True, v)"
  shows "last_run_is (cf_server c) i run v"
proof -
  obtain u where "save_row c i run u = (Some True, v)" using assms by (auto simp: save_def do_then_result change_def)
  then obtain now fault st where "save_schedule_run (cf_server c) fault now i run st = (w_store v, True)"
    unfolding save_row_def by (rule ask_cases) (auto split: answer.splits prod.splits)
  then show ?thesis using save_rows(2) by (auto simp: last_run_is_def list_all_iff)
qed

text \<open>What a task carries out, if it succeeds.\<close>

fun op_of :: "task \<Rightarrow> op_kind option" where
  "op_of Restart = Some Op_Restart"
| "op_of Backup = Some Op_Backup"
| "op_of _ = None"

definition begun_run :: "job \<Rightarrow> gotime \<Rightarrow> run" where
  "begun_run j t = (blank_run Running No_Reason)\<lparr>ru_due := j_due j, ru_started := t\<rparr>"

definition unsaved_run :: "job \<Rightarrow> gotime \<Rightarrow> run" where
  "unsaved_run j t = (blank_run Failed Run_Error)\<lparr>ru_due := j_due j, ru_started := t, ru_finished := t\<rparr>"

lemma run_job_eq:
  "run_job c j = do_then now_is (\<lambda>t. do_then (save c (s_id (j_schedule j)) (begun_run j t)) (\<lambda>ok.
     if \<not> ok then change (\<lambda>w. w\<lparr>w_runs := (w_runs w)(s_id (j_schedule j) \<mapsto> unsaved_run j t)\<rparr>)
     else do_then (set_current (Some (j, zero_time))) (\<lambda>_. do_then (execute c j) (\<lambda>out. do_then (set_current None) (\<lambda>_.
          do_then now_is (\<lambda>n. record_run c j (out\<lparr>ru_due := j_due j, ru_started := t, ru_finished := n\<rparr>)))))))"
  unfolding run_job_def begun_run_def unsaved_run_def Let_def ..

text \<open>C28: A job that is run begins with a record that says so. If that record could not be saved, nothing is
  asked of the server and the runner remembers the occurrence as failed. Otherwise the job's last call
  saves the outcome that \<open>execute\<close> came to, with the occurrence and the times of its beginning and end,
  and the runner remembers it and is free again; the outcome is not that it is running, and of a restart
  or backup it is success exactly when that operation was carried out, once, for this occurrence. If the
  last save worked, the database has the outcome as the schedule's last run, unless the schedule is gone.\<close>

theorem begun_runs_are_recorded:
  assumes "run_job c j w = (Some (), v)"
  shows "\<exists>t ok w1. w_trace w1 = w_trace w @ [Saved (s_id (j_schedule j)) (begun_run j t) ok]
    \<and> (if \<not> ok then w_trace v = w_trace w1 \<and> w_runs v (s_id (j_schedule j)) = Some (unsaved_run j t)
       else w_current w1 = Some (j, zero_time) \<and>
         (\<exists>out w2 n saved. execute c j w1 = (Some out, w2) \<and> ru_result out \<noteq> Running
          \<and> (let ended = out\<lparr>ru_due := j_due j, ru_started := t, ru_finished := n\<rparr>
             in w_trace v = w_trace w2 @ [Saved (s_id (j_schedule j)) ended saved]
              \<and> w_runs v (s_id (j_schedule j)) = Some ended \<and> w_current v = None
              \<and> (if saved then last_run_is (cf_server c) (s_id (j_schedule j)) ended v else True))
          \<and> (case op_of (s_task (j_schedule j)) of None \<Rightarrow> True
             | Some what \<Rightarrow> carried_out (w_trace w2) = carried_out (w_trace w1)
                 @ (if ru_result out = Succeeded then [(what, s_id (j_schedule j), j_due j)] else []))))"
proof -
  let ?i = "s_id (j_schedule j)"
  from assms obtain t w0 ok w1 where w0: "now_is w = (Some t, w0)" and w1: "save c ?i (begun_run j t) w0 = (Some ok, w1)"
    and rest: "(if \<not> ok then change (\<lambda>w. w\<lparr>w_runs := (w_runs w)(?i \<mapsto> unsaved_run j t)\<rparr>)
        else do_then (set_current (Some (j, zero_time))) (\<lambda>_. do_then (execute c j) (\<lambda>out. do_then (set_current None) (\<lambda>_.
             do_then now_is (\<lambda>n. record_run c j (out\<lparr>ru_due := j_due j, ru_started := t, ru_finished := n\<rparr>)))))) w1 = (Some (), v)"
    unfolding run_job_eq do_then_result by blast
  have same: "w_trace u' = w_trace u \<and> w_current u' = w_current u" if "now_is u = (r, u')" for u r u'
    using that unfolding now_is_def by (auto simp: ask_def split: prod.splits list.splits option.splits answer.splits)
  have tr: "w_trace w1 = w_trace w @ [Saved ?i (begun_run j t) ok]" using save_traced [OF w1] same [OF w0] by simp
  show ?thesis
  proof (cases ok)
    case False
    then show ?thesis using rest tr by (intro exI [of _ t] exI [of _ False] exI [of _ w1]) (auto simp: change_def)
  next
    case True
    define w2 where "w2 = w1\<lparr>w_current := Some (j, zero_time)\<rparr>"
    obtain out w3 n w4 where ex: "execute c j w2 = (Some out, w3)" and n: "now_is (w3\<lparr>w_current := None\<rparr>) = (Some n, w4)"
      and rec: "record_run c j (out\<lparr>ru_due := j_due j, ru_started := t, ru_finished := n\<rparr>) w4 = (Some (), v)"
      using rest True by (auto simp: do_then_result set_current_def change_def w2_def)
    let ?ended = "out\<lparr>ru_due := j_due j, ru_started := t, ru_finished := n\<rparr>"
    obtain saved where saved: "save c ?i ?ended w4 = (Some saved, v)" using rec by (auto simp: record_run_def do_then_result)
    have "w_trace v = w_trace w3 @ [Saved ?i ?ended saved]" "w_runs v ?i = Some ?ended"
      using save_traced [OF saved] same [OF n] by simp_all
    moreover have "w_current v = None"
      using saved same [OF n] by (auto simp: save_def save_row_def do_then_result change_def ask_def
          split: prod.splits list.splits option.splits answer.splits)
    moreover have "if saved then last_run_is (cf_server c) ?i ?ended v else True" using save_last_run saved by auto
    moreover have "ru_result out \<noteq> Running" using finished_execute [of c j w2] ex by (simp add: gives_def finished_def)
    moreover have "case op_of (s_task (j_schedule j)) of None \<Rightarrow> True
             | Some what \<Rightarrow> carried_out (w_trace w3) = carried_out (w_trace w2)
                 @ (if ru_result out = Succeeded then [(what, ?i, j_due j)] else [])"
      using execute_tells [of j _ w2 c] ex by (cases "s_task (j_schedule j)") (auto simp: tells_def)
    moreover have "w_trace w2 = w_trace w @ [Saved ?i (begun_run j t) True]" "w_current w2 = Some (j, zero_time)"
      using tr True by (simp_all add: w2_def)
    ultimately show ?thesis using ex unfolding Let_def
      by (intro exI [of _ t] exI [of _ True] exI [of _ w2]) auto
  qed
qed

subsection \<open>The warnings of a restart\<close>

lemma warning_steps_eq:
  assumes "now \<le> at" and "at - now < 2 ^ 63"
  shows "warning_steps ws at now =
     (let steps = map (\<lambda>d. (at - d, d)) (filter (\<lambda>d. now \<le> at - d) (map (\<lambda>w. w * second) (rev (sort ws))))
      in if (\<exists>w \<in> set ws. at - w * second < now) \<and> (case steps of [] \<Rightarrow> True | (t, _) # _ \<Rightarrow> 5 * second < time_sub t now)
         then (now, at - now) # steps else steps)"
proof -
  have "time_sub at now = at - now" using assms by (simp add: time_sub_small)
  moreover have "(\<lambda>d. \<not> at - d < now) = (\<lambda>d. now \<le> at - d)" by auto
  moreover have "list_ex (\<lambda>d. at - d < now) (map (\<lambda>w. w * second) (rev (sort ws))) \<longleftrightarrow> (\<exists>w \<in> set ws. at - w * second < now)"
    by (auto simp: list_ex_iff)
  ultimately show ?thesis unfolding warning_steps_def Let_def by simp
qed

text \<open>The warnings of a restart come in order, from now on, and each tells exactly how long is left. Every
  configured warning that is not too late is given; when some are, the first one comes within five seconds.\<close>

theorem warnings_tell_the_time_left:
  assumes "now \<le> at" and "at - now < 2 ^ 63" and "\<forall>w \<in> set ws. 0 \<le> w"
  shows "(\<forall>(t, left) \<in> set (warning_steps ws at now). now \<le> t \<and> t \<le> at \<and> left = at - t)
    \<and> sorted (map fst (warning_steps ws at now))
    \<and> (\<forall>w \<in> set ws. now \<le> at - w * second \<longrightarrow> (at - w * second, w * second) \<in> set (warning_steps ws at now))
    \<and> ((\<exists>w \<in> set ws. at - w * second < now) \<longrightarrow> (\<exists>t left rest. warning_steps ws at now = (t, left) # rest \<and> t \<le> now + 5 * second))"
proof -
  define steps where "steps = map (\<lambda>d. (at - d, d)) (filter (\<lambda>d. now \<le> at - d) (map (\<lambda>w. w * second) (rev (sort ws))))"
  define b where "b \<longleftrightarrow> (\<exists>w \<in> set ws. at - w * second < now) \<and> (case steps of [] \<Rightarrow> True | (t, _) # _ \<Rightarrow> 5 * second < time_sub t now)"
  have all: "warning_steps ws at now = (if b then (now, at - now) # steps else steps)"
    using warning_steps_eq [OF assms(1,2), of ws] by (simp only: Let_def steps_def [symmetric] b_def [symmetric])
  have mem: "x \<in> set steps \<longleftrightarrow> (\<exists>w \<in> set ws. now \<le> at - w * second \<and> x = (at - w * second, w * second))" for x
    by (auto simp: steps_def)
  have left: "now \<le> t \<and> t \<le> at \<and> l = at - t" if "(t, l) \<in> set steps" for t l
    using that assms(3) by (auto simp: mem)
  have "sorted_wrt (\<lambda>a b. b \<le> a) (rev (sort ws))" by (simp add: sorted_wrt_rev)
  then have "sorted_wrt (\<lambda>a b. b \<le> a) (map (\<lambda>w. w * second) (rev (sort ws)))"
    unfolding sorted_wrt_map by (rule sorted_wrt_mono_rel [rotated]) simp
  then have "sorted_wrt (\<lambda>a b. b \<le> a) (filter (\<lambda>d. now \<le> at - d) (map (\<lambda>w. w * second) (rev (sort ws))))"
    by (rule sorted_wrt_filter)
  then have sorted: "sorted (map fst steps)"
    unfolding steps_def map_map o_def fst_conv sorted_map by (rule sorted_wrt_mono_rel [rotated]) simp
  have "\<exists>t left rest. warning_steps ws at now = (t, left) # rest \<and> t \<le> now + 5 * second" if late: "\<exists>w \<in> set ws. at - w * second < now"
  proof (cases b)
    case True
    then show ?thesis by (auto simp: all)
  next
    case False
    then obtain t l rest where st: "steps = (t, l) # rest" "\<not> 5 * second < time_sub t now"
      using late by (cases steps) (auto simp: b_def)
    then have "now \<le> t \<and> t \<le> at" using left [of t l] by simp
    then have "time_sub t now = t - now" using assms(2) by (simp add: time_sub_small)
    then show ?thesis using st False by (auto simp: all)
  qed
  moreover have "\<forall>(t, l) \<in> set (warning_steps ws at now). now \<le> t \<and> t \<le> at \<and> l = at - t"
    using left assms(1) by (auto simp: all)
  moreover have "sorted (map fst (warning_steps ws at now))" using sorted left by (auto simp: all)
  moreover have "\<forall>w \<in> set ws. now \<le> at - w * second \<longrightarrow> (at - w * second, w * second) \<in> set (warning_steps ws at now)"
    by (auto simp: all mem)
  ultimately show ?thesis by blast
qed

subsection \<open>Concrete runs\<close>

definition sample_config :: config where
  "sample_config = \<lparr>cf_server = ''srv'', cf_zones = (\<lambda>_. None), cf_busy_retry = 30 * second, cf_busy_give_up = 15 * minute,
     cf_message = (\<lambda>_. []), cf_quote = (\<lambda>s. s)\<rparr>"

definition sample_world :: "schedule list \<Rightarrow> answer list \<Rightarrow> world" where
  "sample_world ss script = \<lparr>w_store = \<lparr>st_schedules = ss, st_runs = [], st_audit = []\<rparr>, w_runs = (\<lambda>_. None), w_current = None,
     w_logged = (\<lambda>_. None), w_script = script, w_trace = []\<rparr>"

definition nightly :: job where
  "nightly = \<lparr>j_schedule = hello\<lparr>s_id := ''night'', s_task := Backup, s_payload := zero_payload\<rparr>, j_due = 7, j_start = 7, j_reason = No_Reason\<rparr>"

theorem occurrences_run_at_most_once_witness:
  "let t = w_trace (lives sample_config
       [[Now_Is past_four, Load_Is True, Now_Is past_four, Now_Is past_four, Save_Is past_four None],
        [Edit (Create (hello\<lparr>s_id := ''other''\<rparr>) past_four), Now_Is past_four, Load_Is True]] (sample_world [hello] []))
   in sorted_wrt (<) (starts ''hello'' t) \<and> sorted_wrt (<) (performed ''hello'' t) \<and> set (performed ''hello'' t) \<subseteq> set (starts ''hello'' t)"
  unfolding Let_def
  by (rule occurrences_run_at_most_once) (simp_all add: sample_world_def fresh_def created_def hello_def)

theorem warnings_tell_the_time_left_witness:
  "sorted (map fst (warning_steps [600, 60] (100 * second) 0)) \<and> (40 * second, 60 * second) \<in> set (warning_steps [600, 60] (100 * second) 0)"
  using warnings_tell_the_time_left [of 0 "100 * second" "[600, 60]"] by simp

lemma nightly_runs:
  "\<exists>v. run_job sample_config nightly (sample_world [] [Now_Is 8, Save_Is 8 None, State_Is (Inl ''down''), Run_Is ''op'' None, Now_Is 9, Save_Is 9 None])
     = (Some (), v)"
  by (simp add: run_job_def do_then_def now_is_def ask_def sample_world_def sample_config_def save_def save_row_def change_def
      save_schedule_run_def nightly_def Let_def set_current_def execute_def validate_payload_def hello_def zero_payload_def
      max_note_def plain_text_def valid_utf8_def rune_values_def run_backup_def get_state_def perform_def operation_loop.simps
      run_op_def ret_def record_run_def)

theorem begun_runs_are_recorded_witness:
  "\<exists>v t n saved ended. run_job sample_config nightly
       (sample_world [] [Now_Is 8, Save_Is 8 None, State_Is (Inl ''down''), Run_Is ''op'' None, Now_Is 9, Save_Is 9 None]) = (Some (), v)
     \<and> w_runs v ''night'' = Some ended \<and> ru_result ended \<noteq> Running \<and> ru_started ended = t"
proof -
  obtain v where v: "run_job sample_config nightly
       (sample_world [] [Now_Is 8, Save_Is 8 None, State_Is (Inl ''down''), Run_Is ''op'' None, Now_Is 9, Save_Is 9 None]) = (Some (), v)"
    using nightly_runs by blast
  have "s_id (j_schedule nightly) = ''night''" by (simp add: nightly_def)
  then show ?thesis
    using v begun_runs_are_recorded [OF v]
    by (auto simp: Let_def unsaved_run_def blank_run_def split: if_splits)
qed

end
