(* ===== verification/Mcp_Limits.thy ===== *)
theory Mcp_Limits
  imports Go_Float "HOL-Library.AList"
begin

section \<open>How often a client may ask the MCP server (internal/mcp/ratelimit.go)\<close>

text \<open>
  The limiter keeps one time per key, when the key is back to its full burst. Its map is a list of
  keys and times without a key twice; the order in which \<open>range\<close> visits the keys is not fixed by
  the language, so an operation that may drop keys takes it as an argument. A method locks the
  limiter, so any use of it is a list of requests. The lemmas: how many requests of a key pass in a
  span of time, that what a refused client is told to wait is exact, and that the map stays small.
\<close>

subsection \<open>Definitions\<close>

definition max_keys :: nat where "max_keys = 10000"

record limiter =
  li_interval :: duration
  li_burst :: duration
  li_next :: "(string \<times> gotime) list"

text \<open>\<open>newLimiter\<close>; a capacity of zero panics, \<open>None\<close>.\<close>

definition new_limiter :: "int \<Rightarrow> duration \<Rightarrow> limiter option" where
  "new_limiter capacity per =
     (if capacity = 0 then None
      else let interval = quot per capacity
           in Some \<lparr>li_interval = interval, li_burst = wrap64 (interval * wrap64 (capacity - 1)), li_next = []\<rparr>)"

definition limiter_check :: "limiter \<Rightarrow> string \<Rightarrow> gotime \<Rightarrow> gotime \<times> duration" where
  "limiter_check l key now =
     (let next = (case map_of (li_next l) key of None \<Rightarrow> zero_time | Some t \<Rightarrow> t);
          next = (if next < now then now else next);
          ahead = time_sub next now
      in if li_burst l < ahead then (next, ahead - li_burst l) else (next, 0))"

text \<open>\<open>gc\<close>'s second loop, over the keys it visits.\<close>

fun drop_keys :: "string list \<Rightarrow> (string \<times> gotime) list \<Rightarrow> (string \<times> gotime) list" where
  "drop_keys [] m = m"
| "drop_keys (k # ks) m = (if length m < max_keys then m else drop_keys ks (AList.delete k m))"

definition gc :: "gotime \<Rightarrow> string list \<Rightarrow> (string \<times> gotime) list \<Rightarrow> (string \<times> gotime) list" where
  "gc now order m = drop_keys order (filter (\<lambda>(k, t). now < t) m)"

text \<open>\<open>take\<close> at a time, with the order in which \<open>gc\<close> would visit the keys.\<close>

definition take_request :: "limiter \<Rightarrow> string \<Rightarrow> gotime \<Rightarrow> string list \<Rightarrow> limiter \<times> bool \<times> duration" where
  "take_request l key now order =
     (case limiter_check l key now of (next, wait) \<Rightarrow>
        if 0 < wait then (l, False, wait)
        else let m = (if map_of (li_next l) key = None \<and> max_keys \<le> length (li_next l) then gc now order (li_next l) else li_next l)
             in (l\<lparr>li_next := AList.update key (next + li_interval l) m\<rparr>, True, 0))"

definition peek :: "limiter \<Rightarrow> string \<Rightarrow> gotime \<Rightarrow> bool \<times> duration" where
  "peek l key now = (case limiter_check l key now of (_, wait) \<Rightarrow> (wait = 0, wait))"

text \<open>\<open>d.Seconds()\<close> for a duration that is not negative, and \<open>retryAfter\<close>.\<close>

definition seconds :: "duration \<Rightarrow> double" where
  "seconds d = double_add (of_int_double (d div second)) (round_ratio (d mod second) second)"

definition retry_after :: "duration \<Rightarrow> int" where
  "retry_after d = (case seconds d of Ratio p q \<Rightarrow> max 1 (- ((- p) div q)) | _ \<Rightarrow> 1)"

subsection \<open>Runs\<close>

text \<open>A request: its key, its time and the order of the keys.\<close>

type_synonym request = "string \<times> gotime \<times> string list"

definition request_step :: "limiter \<Rightarrow> request \<Rightarrow> limiter" where
  "request_step l r = (case r of (key, now, order) \<Rightarrow> fst (take_request l key now order))"

definition passes :: "limiter \<Rightarrow> request \<Rightarrow> bool" where
  "passes l r = (case r of (key, now, order) \<Rightarrow> fst (snd (take_request l key now order)))"

text \<open>How many of a key's requests pass.\<close>

fun passed_requests :: "string \<Rightarrow> limiter \<Rightarrow> request list \<Rightarrow> nat" where
  "passed_requests key l [] = 0"
| "passed_requests key l (r # rs) = (if fst r = key \<and> passes l r then 1 else 0) + passed_requests key (request_step l r) rs"

text \<open>\<open>range\<close> visits every key there is.\<close>

definition visits_all :: "limiter \<Rightarrow> request \<Rightarrow> bool" where
  "visits_all l r = (case r of (key, now, order) \<Rightarrow> fst ` set (li_next l) \<subseteq> set order)"

text \<open>The map has each key once and is not too large.\<close>

definition small_map :: "limiter \<Rightarrow> bool" where
  "small_map l \<longleftrightarrow> distinct (map fst (li_next l)) \<and> length (li_next l) \<le> max_keys"

subsection \<open>The map\<close>

lemma delete_filter: "AList.delete k m = filter (\<lambda>(x, _). x \<noteq> k) m"
  by (auto simp: AList.delete_eq intro!: filter_cong)

lemma drop_keys_subset: "set (drop_keys ks m) \<subseteq> set m"
  by (induction ks m rule: drop_keys.induct) (auto simp: delete_filter)

lemma drop_keys_distinct: "distinct (map fst m) \<Longrightarrow> distinct (map fst (drop_keys ks m))"
  by (induction ks m rule: drop_keys.induct) (auto simp: distinct_delete)

lemma drop_keys_length: "fst ` set m \<subseteq> set ks \<Longrightarrow> length (drop_keys ks m) < max_keys"
proof (induction ks m rule: drop_keys.induct)
  case (1 m)
  then show ?case by (simp add: max_keys_def)
next
  case (2 k ks m)
  show ?case
  proof (cases "length m < max_keys")
    case False
    have "fst ` set (AList.delete k m) \<subseteq> set ks" using 2(2) by (auto simp: delete_filter)
    then show ?thesis using False 2(1) by simp
  qed simp
qed

lemma gc_distinct: "distinct (map fst m) \<Longrightarrow> distinct (map fst (gc now order m))"
  by (auto simp: gc_def intro!: drop_keys_distinct distinct_map_filter)

lemma gc_length: "fst ` set m \<subseteq> set order \<Longrightarrow> length (gc now order m) < max_keys"
  unfolding gc_def by (rule drop_keys_length) auto

lemma length_update_le: "length (AList.update k v m) \<le> (if map_of m k = None then length m + 1 else length m)"
  by (induction m) auto

interpretation keys: guarded_machine request_step visits_all small_map
proof
  fix l r assume l: "small_map l" and r: "visits_all l r"
  obtain key now order where req: "r = (key, now, order)" by (cases r)
  obtain t wait where c: "limiter_check l key now = (t, wait)" by (cases "limiter_check l key now")
  show "small_map (request_step l r)"
    using l r gc_length [of "li_next l" order now] gc_distinct [of "li_next l" now order]
      length_update_le [of key "t + li_interval l" "li_next l"] length_update_le [of key "t + li_interval l" "gc now order (li_next l)"]
    by (auto simp: req c request_step_def take_request_def small_map_def visits_all_def distinct_update Let_def split: if_splits)
qed

subsection \<open>The rate\<close>

text \<open>When a key is back to its full burst, seen at a time.\<close>

definition level :: "limiter \<Rightarrow> string \<Rightarrow> gotime \<Rightarrow> gotime" where
  "level l key now = (case map_of (li_next l) key of None \<Rightarrow> now | Some t \<Rightarrow> max now t)"

lemma level_mono: "s \<le> t \<Longrightarrow> level l key s \<le> level l key t"
  by (auto simp: level_def split: option.splits)

lemma level_ge: "now \<le> level l key now"
  by (auto simp: level_def split: option.splits)

lemma check_level:
  assumes "0 \<le> now"
  shows "limiter_check l key now =
    (level l key now, if li_burst l < time_sub (level l key now) now then time_sub (level l key now) now - li_burst l else 0)"
  using assms by (auto simp: limiter_check_def level_def Let_def max_def split: option.splits)

lemma drop_keys_few: "length m < max_keys \<Longrightarrow> drop_keys ks m = m"
  by (cases ks) auto

lemma step_params: "li_interval (request_step l r) = li_interval l" "li_burst (request_step l r) = li_burst l"
  by (auto simp: request_step_def take_request_def Let_def split: prod.splits)

lemma gc_dom: "map_of (gc now order m) k = Some t \<Longrightarrow> k \<in> dom (map_of m)"
  using drop_keys_subset [of order "filter (\<lambda>(k, t). now < t) m"]
  unfolding gc_def dom_map_of_conv_image_fst by (force dest: map_of_SomeD)

lemma step_keys: "dom (map_of (li_next (request_step l r))) \<subseteq> insert (fst r) (dom (map_of (li_next l)))"
  by (auto simp: request_step_def take_request_def Let_def update_conv' split: prod.splits if_splits dest!: gc_dom)

text \<open>Without a shortage of keys, only its own requests change what a key may do.\<close>

lemma level_gc:
  assumes "distinct (map fst m)" and "length (filter (\<lambda>(k, t). now < t) m) < max_keys"
  shows "(case map_of (gc now order m) key of None \<Rightarrow> now | Some t \<Rightarrow> max now t) = (case map_of m key of None \<Rightarrow> now | Some t \<Rightarrow> max now t)"
proof -
  have "map_of (filter (\<lambda>(k, t). now < t) m) key = (case map_of m key of None \<Rightarrow> None | Some t \<Rightarrow> if now < t then Some t else None)"
    using assms(1) by (induction m) (auto simp: map_of_eq_None_iff split: option.splits)
  then show ?thesis using assms(2) by (auto simp: gc_def drop_keys_few split: option.splits)
qed

lemma level_update:
  "level (l\<lparr>li_next := AList.update k x m\<rparr>) key now = (if k = key then max now x else case map_of m key of None \<Rightarrow> now | Some t \<Rightarrow> max now t)"
  by (simp add: level_def update_conv')

lemma step_level:
  assumes "distinct (map fst (li_next l))" and few: "card (insert (fst r) (dom (map_of (li_next l)))) \<le> max_keys"
    and "0 \<le> fst (snd r)" and "0 \<le> li_interval l" and "0 \<le> li_burst l" and "li_burst l < max_duration"
  shows "level (request_step l r) key (fst (snd r)) =
    (if fst r = key \<and> passes l r then level l key (fst (snd r)) + li_interval l else level l key (fst (snd r)))"
    and "passes l r \<longleftrightarrow> level l (fst r) (fst (snd r)) - fst (snd r) \<le> li_burst l"
proof -
  obtain k now order where r: "r = (k, now, order)" by (cases r)
  let ?m = "filter (\<lambda>(k, t). now < t) (li_next l)"
  have c: "limiter_check l k now = (level l k now, if li_burst l < level l k now - now then time_sub (level l k now) now - li_burst l else 0)"
    using assms(3,5,6) by (simp add: r check_level time_sub_gt_iff)
  have pos: "li_burst l < level l k now - now \<Longrightarrow> 0 < time_sub (level l k now) now - li_burst l"
    using assms(5,6) by (simp add: time_sub_gt_iff)
  show p: "passes l r \<longleftrightarrow> level l (fst r) (fst (snd r)) - fst (snd r) \<le> li_burst l"
    using pos by (auto simp: r passes_def take_request_def c Let_def)
  have small: "length ?m < max_keys" if "map_of (li_next l) k = None"
  proof -
    have "length ?m \<le> length (li_next l)" by simp
    also have "\<dots> = card (dom (map_of (li_next l)))"
      using assms(1) by (metis distinct_card dom_map_of_conv_image_fst length_map set_map)
    also have "\<dots> < card (insert k (dom (map_of (li_next l))))" using that by (simp add: domIff finite_dom_map_of)
    finally show ?thesis using few by (simp add: r)
  qed
  show "level (request_step l r) key (fst (snd r)) =
    (if fst r = key \<and> passes l r then level l key (fst (snd r)) + li_interval l else level l key (fst (snd r)))"
  proof (cases "passes l r")
    case True
    then have "\<not> li_burst l < level l k now - now" using p by (simp add: r)
    then have step: "request_step l r = l\<lparr>li_next := AList.update k (level l k now + li_interval l)
        (if map_of (li_next l) k = None \<and> max_keys \<le> length (li_next l) then gc now order (li_next l) else li_next l)\<rparr>"
      (is "_ = l\<lparr>li_next := AList.update k _ ?m'\<rparr>")
      by (simp add: r request_step_def take_request_def c Let_def)
    have "(case map_of ?m' key of None \<Rightarrow> now | Some t \<Rightarrow> max now t) = level l key now"
      using level_gc [OF assms(1) small, where order = order and key = key] by (auto simp: level_def)
    then show ?thesis
      unfolding step level_update using True level_ge [of now l key] assms(4) by (auto simp: r cong: option.case_cong)
  next
    case False
    then have "li_burst l < level l k now - now" using p by (simp add: r)
    then show ?thesis using False pos by (simp add: r request_step_def take_request_def c)
  qed
qed

text \<open>A limiter whose map and settings are as \<open>newLimiter\<close> makes them.\<close>

definition well_set :: "limiter \<Rightarrow> bool" where
  "well_set l \<longleftrightarrow> distinct (map fst (li_next l)) \<and> 0 \<le> li_interval l \<and> 0 \<le> li_burst l \<and> li_burst l + li_interval l < max_duration"

lemma well_set_step: "well_set l \<Longrightarrow> well_set (request_step l r)"
  by (auto simp: well_set_def request_step_def take_request_def distinct_update gc_distinct Let_def split: prod.splits)

lemma well_set_run: "well_set l \<Longrightarrow> well_set (foldl request_step l rs)"
  by (induction rs arbitrary: l) (auto simp: well_set_step)

lemma run_params: "li_interval (foldl request_step l rs) = li_interval l \<and> li_burst (foldl request_step l rs) = li_burst l"
  by (induction rs arbitrary: l) (auto simp: step_params)

lemma run_keys: "dom (map_of (li_next (foldl request_step l rs))) \<subseteq> fst ` set rs \<union> dom (map_of (li_next l))"
proof (induction rs arbitrary: l)
  case (Cons r rs)
  show ?case using Cons [of "request_step l r"] step_keys [of l r] by auto
qed simp

text \<open>Each request that passes moves the key's time on by an interval, and none passes past its burst.\<close>

lemma passed_room:
  assumes "well_set l" and "sorted (map (fst \<circ> snd) rs)" and "\<forall>r \<in> set rs. s \<le> fst (snd r) \<and> fst (snd r) \<le> e" and "0 \<le> s"
    and "card (fst ` set rs \<union> dom (map_of (li_next l))) \<le> max_keys" and "0 < passed_requests key l rs"
  shows "level l key s + int (passed_requests key l rs) * li_interval l \<le> e + li_burst l + li_interval l"
  using assms
proof (induction rs arbitrary: l s)
  case (Cons r rs)
  let ?l = "request_step l r" and ?t = "fst (snd r)"
  have ws: "well_set ?l" using Cons.prems(1) by (rule well_set_step)
  have "insert (fst r) (dom (map_of (li_next l))) \<subseteq> fst ` set (r # rs) \<union> dom (map_of (li_next l))"
    "fst ` set rs \<union> dom (map_of (li_next ?l)) \<subseteq> fst ` set (r # rs) \<union> dom (map_of (li_next l))"
    using step_keys [of l r] by auto
  then have cards: "card (insert (fst r) (dom (map_of (li_next l)))) \<le> max_keys" "card (fst ` set rs \<union> dom (map_of (li_next ?l))) \<le> max_keys"
    using Cons.prems(5) by (meson card_mono finite_Un finite_imageI finite_set finite_dom_map_of order_trans)+
  have t: "s \<le> ?t" "?t \<le> e" "0 \<le> ?t" using Cons.prems(3,4) by auto
  have lv: "level ?l key ?t = (if fst r = key \<and> passes l r then level l key ?t + li_interval l else level l key ?t)"
    and ps: "passes l r \<longleftrightarrow> level l (fst r) ?t - ?t \<le> li_burst l"
    using step_level(1) [of l r key] step_level(2) [of l r] cards(1) Cons.prems(1) t by (auto simp: well_set_def)
  have mono: "level l key s \<le> level l key ?t" using t by (rule_tac level_mono)
  show ?case
  proof (cases "passed_requests key ?l rs = 0")
    case True
    then have "fst r = key \<and> passes l r" using Cons.prems(6) by (auto split: if_splits)
    then show ?thesis using True ps mono t by auto
  next
    case False
    have "level ?l key ?t + int (passed_requests key ?l rs) * li_interval ?l \<le> e + li_burst ?l + li_interval ?l"
      using Cons.prems(2,3) t by (intro Cons.IH [OF ws _ _ _ cards(2)]) (use False in auto)
    then show ?thesis using lv mono by (auto simp: step_params algebra_simps split: if_splits)
  qed
qed simp

lemma new_limiter_set:
  assumes "new_limiter capacity per = Some l" and "0 < capacity" and "0 \<le> per" and "per < max_duration"
    and "capacity < max_duration"
  shows "well_set l" and "li_interval l = per div capacity" and "li_burst l + li_interval l = capacity * (per div capacity)" and "li_next l = []"
proof -
  have i: "0 \<le> per div capacity" using assms by (simp add: pos_imp_zdiv_nonneg_iff)
  have le: "capacity * (per div capacity) \<le> per" using assms(2) by (simp add: minus_mod_eq_mult_div [symmetric])
  have nn: "0 \<le> (per div capacity) * (capacity - 1)" "(per div capacity) * (capacity - 1) \<le> per"
    using i le assms(2) mult_right_mono [of 1 capacity "per div capacity"] by (auto simp: algebra_simps)
  have w: "wrap64 (per div capacity * wrap64 (capacity - 1)) = per div capacity * (capacity - 1)"
    using nn assms by (simp add: max_duration_def)
  from assms(1) w assms(2,3) show "li_interval l = per div capacity" "li_next l = []" "li_burst l + li_interval l = capacity * (per div capacity)"
    by (auto simp: new_limiter_def Let_def algebra_simps split: if_splits)
  then show "well_set l" using assms w nn i le by (auto simp: new_limiter_def Let_def well_set_def split: if_splits)
qed

text \<open>C30: Whatever was asked before, no more than the capacity and one request more for each interval of
  a span pass in that span, as long as no more keys are in use than the limiter keeps.
\<close>

theorem requests_stay_within_rate:
  assumes "new_limiter capacity per = Some l" and "0 < capacity" and "capacity \<le> per" and "per < max_duration"
    and "sorted (map (fst \<circ> snd) rs)" and "\<forall>r \<in> set rs. s \<le> fst (snd r) \<and> fst (snd r) \<le> s + span" and "0 \<le> s" and "0 \<le> span"
    and "card (fst ` set (qs @ rs)) \<le> max_keys"
  shows "int (passed_requests key (foldl request_step l qs) rs) \<le> capacity + span div (per div capacity)"
proof -
  let ?l = "foldl request_step l qs" and ?n = "int (passed_requests key (foldl request_step l qs) rs)" and ?i = "per div capacity"
  have new: "well_set l" "li_interval l = ?i" "li_burst l + li_interval l = capacity * ?i" "li_next l = []"
    using new_limiter_set [OF assms(1,2)] assms(2,3,4) by auto
  have i: "0 < ?i" using assms(2,3) by (simp add: pos_imp_zdiv_pos_iff)
  show ?thesis
  proof (cases "?n = 0")
    case False
    have "fst ` set rs \<union> dom (map_of (li_next ?l)) \<subseteq> fst ` set (qs @ rs)" using run_keys [of l qs] new(4) by auto
    then have "card (fst ` set rs \<union> dom (map_of (li_next ?l))) \<le> max_keys" using assms(9) by (meson card_mono finite_imageI finite_set order_trans)
    then have "level ?l key s + ?n * li_interval ?l \<le> s + span + li_burst ?l + li_interval ?l"
      using False assms(5,6,7) new(1) by (intro passed_room well_set_run) auto
    then have "?n * ?i \<le> span + capacity * ?i" using level_ge [of s ?l key] run_params [of l qs] new by simp
    then have "(?n - capacity) * ?i \<le> span" by (simp add: algebra_simps)
    then have "?n - capacity \<le> span div ?i" using i zdiv_mono1 [of "(?n - capacity) * ?i" span ?i] by simp
    then show ?thesis by simp
  qed (use assms(2,8) i in \<open>simp add: pos_imp_zdiv_nonneg_iff\<close>)
qed

theorem requests_stay_within_rate_witness:
  "passed_requests ''a'' \<lparr>li_interval = 5, li_burst = 5, li_next = []\<rparr> [(''a'', 100, []), (''a'', 100, []), (''a'', 101, [])] \<le> 2"
  using requests_stay_within_rate [of 2 10 "\<lparr>li_interval = 5, li_burst = 5, li_next = []\<rparr>"
    "[(''a'', 100, []), (''a'', 100, []), (''a'', 101, [])]" 100 1 "[]" "''a''"]
  by (simp add: new_limiter_def max_duration_def max_keys_def)

text \<open>No time of the map lies further ahead than the burst and one interval.\<close>

lemma run_ahead:
  assumes "\<forall>r \<in> set rs. 0 \<le> fst (snd r) \<and> fst (snd r) \<le> now" and "well_set l"
    and "\<forall>(k, t) \<in> set (li_next l). t \<le> now + li_burst l + li_interval l"
  shows "\<forall>(k, t) \<in> set (li_next (foldl request_step l rs)). t \<le> now + li_burst l + li_interval l"
  using assms
proof (induction rs arbitrary: l)
  case (Cons r rs)
  obtain k t order where r: "r = (k, t, order)" by (cases r)
  have t: "0 \<le> t" "t \<le> now" using Cons.prems(1) by (auto simp: r)
  have c: "limiter_check l k t = (level l k t, if li_burst l < level l k t - t then time_sub (level l k t) t - li_burst l else 0)"
    using t Cons.prems(2) by (simp add: check_level time_sub_gt_iff well_set_def)
  have pos: "li_burst l < level l k t - t \<Longrightarrow> 0 < time_sub (level l k t) t - li_burst l"
    using Cons.prems(2) by (simp add: time_sub_gt_iff well_set_def)
  have "set (gc t order (li_next l)) \<subseteq> set (li_next l)" using drop_keys_subset unfolding gc_def by fastforce
  moreover have "(x, y) \<in> set (AList.update k v m) \<Longrightarrow> y = v \<or> (x, y) \<in> set m" for x y v and m :: "(string \<times> gotime) list"
    by (induction m) (auto split: if_splits)
  ultimately have "\<forall>(k, t) \<in> set (li_next (request_step l r)). t \<le> now + li_burst l + li_interval l"
    using Cons.prems(3) t pos by (fastforce simp: r request_step_def take_request_def c Let_def split: if_splits)
  then show ?case
    using Cons.IH [of "request_step l r"] Cons.prems(1,2) by (simp add: well_set_step step_params)
qed simp

text \<open>C31: A client that is refused is told the exact time: a request before it is refused, and one at that
  moment or later passes; asking too early costs it nothing.
\<close>

theorem refused_wait_is_exact:
  assumes "new_limiter capacity per = Some l" and "0 < capacity" and "capacity \<le> per" and "per < max_duration"
    and "\<forall>r \<in> set qs. 0 \<le> fst (snd r) \<and> fst (snd r) \<le> now" and "0 \<le> now" and "now \<le> later"
    and "take_request (foldl request_step l qs) key now order = (l', False, wait)"
  shows "l' = foldl request_step l qs \<and> 0 < wait \<and> (fst (peek l' key later) \<longleftrightarrow> now + wait \<le> later)"
proof -
  let ?l = "foldl request_step l qs"
  have new: "well_set l" "li_next l = []" using new_limiter_set [OF assms(1,2)] assms(2,3,4) by auto
  have ws: "well_set ?l" using new(1) by (rule well_set_run)
  have par: "0 \<le> li_burst ?l" "0 \<le> li_interval ?l" "li_burst ?l + li_interval ?l < max_duration" using ws by (simp_all add: well_set_def)
  have c: "limiter_check ?l key t = (level ?l key t, if li_burst ?l < level ?l key t - t then time_sub (level ?l key t) t - li_burst ?l else 0)"
    if "0 \<le> t" for t
    using that par by (simp add: check_level time_sub_gt_iff)
  from assms(8) have ahead: "li_burst ?l < level ?l key now - now" and l': "l' = ?l"
    and wait: "wait = time_sub (level ?l key now) now - li_burst ?l"
    by (auto simp: take_request_def c [OF assms(6)] Let_def split: if_splits)
  then obtain x where x: "map_of (li_next ?l) key = Some x" "level ?l key now = x" "now < x"
    using par by (auto simp: level_def split: option.splits)
  have "x \<le> now + li_burst ?l + li_interval ?l"
    using run_ahead [OF assms(5) new(1)] new(2) map_of_SomeD [OF x(1)] run_params [of l qs] by auto
  then have "time_sub x now = x - now" using x(3) par by (intro time_sub_small) (simp_all add: max_duration_def)
  then have w: "wait = x - now - li_burst ?l" using wait x(2) by simp
  have "level ?l key later = max later x" using x(1) by (simp add: level_def)
  moreover have "time_sub (level ?l key later) later - li_burst ?l \<noteq> 0" if "li_burst ?l < level ?l key later - later"
    using that par time_sub_gt_iff [of "li_burst ?l" "level ?l key later" later] by simp
  ultimately show ?thesis
    using ahead x w l' par assms(6,7) c [of later] by (auto simp: peek_def split: if_splits)
qed

theorem refused_wait_is_exact_witness:
  "fst (peek \<lparr>li_interval = 5, li_burst = 5, li_next = [(''a'', 110)]\<rparr> ''a'' 105)"
  using refused_wait_is_exact [of 2 10 "\<lparr>li_interval = 5, li_burst = 5, li_next = []\<rparr>"
    "[(''a'', 100, []), (''a'', 100, [])]" 101 105 "''a''" "[]" "\<lparr>li_interval = 5, li_burst = 5, li_next = [(''a'', 110)]\<rparr>" 4]
  by (simp add: new_limiter_def max_duration_def request_step_def take_request_def limiter_check_def time_sub_def min_duration_def
    Let_def max_keys_def)

text \<open>
  However many clients ask, the limiter never keeps more than 10,000 keys.
\<close>

theorem limiter_stays_small:
  assumes "new_limiter capacity per = Some l" and "run_ok request_step visits_all l rs"
  shows "length (li_next (foldl request_step l rs)) \<le> max_keys"
proof -
  have "small_map l" using assms(1) by (auto simp: new_limiter_def small_map_def max_keys_def Let_def split: if_splits)
  from keys.inv_run [OF this assms(2)] show ?thesis by (simp add: small_map_def)
qed

theorem limiter_stays_small_witness:
  "length (li_next (foldl request_step \<lparr>li_interval = 5, li_burst = 5, li_next = []\<rparr> [(''a'', 100, []), (''b'', 100, [''a''])])) \<le> max_keys"
  using limiter_stays_small [of 2 10 "\<lparr>li_interval = 5, li_burst = 5, li_next = []\<rparr>" "[(''a'', 100, []), (''b'', 100, [''a''])]"]
  by (simp add: new_limiter_def visits_all_def request_step_def take_request_def limiter_check_def max_keys_def
    Let_def time_sub_def min_duration_def max_duration_def)

end
