(* ===== verification/Mcp_Sessions.thy ===== *)
theory Mcp_Sessions
  imports Go_Base
begin

section \<open>Sessions and requests of the MCP server (internal/mcp/session.go)\<close>

text \<open>
  The store of an HTTP handler's sessions, and the requests in progress of one client. Both are used
  under a lock, so any use is a list of operations. The store's map is the list of its sessions; the
  order in which \<open>range\<close> visits them is not fixed, so an operation takes a function that arranges them.
  \<open>so_ended\<close> lists the sessions whose context was cancelled, which stops their requests. A new id
  (\<open>rand.Text\<close>) is an argument. The lemmas: the store stays within its limits, whatever is created;
  nobody's sessions are pushed out by another principal's while there is room; a session serves its
  own principal only; a cancelled request goes unanswered, and no other does.
\<close>

subsection \<open>The store\<close>

record session =
  se_id :: string
  se_principal :: string
  se_version :: string
  se_client :: string
  se_created :: gotime
  se_last_seen :: gotime

record session_store =
  so_sessions :: "session list"
  so_ended :: "string list"
  so_idle :: duration
  so_max_age :: duration
  so_max :: int
  so_per_principal :: int

definition new_session_store :: "duration \<Rightarrow> duration \<Rightarrow> int \<Rightarrow> int \<Rightarrow> session_store" where
  "new_session_store idle age most each =
     \<lparr>so_sessions = [], so_ended = [], so_idle = idle, so_max_age = age, so_max = most, so_per_principal = each\<rparr>"

definition expired :: "session_store \<Rightarrow> session \<Rightarrow> gotime \<Rightarrow> bool" where
  "expired st s now \<longleftrightarrow> so_idle st \<le> time_sub now (se_last_seen s) \<or> so_max_age st \<le> time_sub now (se_created s)"

text \<open>\<open>removeLocked\<close>, and \<open>delete\<close> in a loop over all sessions that satisfy a condition.\<close>

definition remove_locked :: "session_store \<Rightarrow> session \<Rightarrow> session_store" where
  "remove_locked st s = st\<lparr>so_sessions := filter (\<lambda>t. se_id t \<noteq> se_id s) (so_sessions st), so_ended := so_ended st @ [se_id s]\<rparr>"

definition remove_where :: "(session \<Rightarrow> bool) \<Rightarrow> session_store \<Rightarrow> session_store" where
  "remove_where P st = foldl remove_locked st (filter P (so_sessions st))"

definition count_locked :: "session_store \<Rightarrow> string \<Rightarrow> int" where
  "count_locked st p = int (length (filter (\<lambda>s. se_principal s = p) (so_sessions st)))"

text \<open>The least recently used session of those visited; of sessions used at the same time the first.\<close>

fun oldest_of :: "string \<Rightarrow> session list \<Rightarrow> session option \<Rightarrow> session option" where
  "oldest_of p [] acc = acc"
| "oldest_of p (s # ss) acc =
     (if p \<noteq> [] \<and> se_principal s \<noteq> p then oldest_of p ss acc
      else case acc of
        None \<Rightarrow> oldest_of p ss (Some s)
      | Some o' \<Rightarrow> oldest_of p ss (if se_last_seen s < se_last_seen o' then Some s else acc))"

definition evict_locked :: "(session list \<Rightarrow> session list) \<Rightarrow> string \<Rightarrow> session_store \<Rightarrow> session_store" where
  "evict_locked arrange p st = (case oldest_of p (arrange (so_sessions st)) None of None \<Rightarrow> st | Some s \<Rightarrow> remove_locked st s)"

text \<open>\<open>create\<close>'s two loops; one that evicts nothing would never end, which is no value here.\<close>

partial_function (option) evict_while ::
  "(session_store \<Rightarrow> bool) \<Rightarrow> (session list \<Rightarrow> session list) \<Rightarrow> string \<Rightarrow> session_store \<Rightarrow> session_store option" where
  "evict_while full arrange p st = (if full st then evict_while full arrange p (evict_locked arrange p st) else Some st)"

definition create_session ::
  "(session list \<Rightarrow> session list) \<Rightarrow> string \<Rightarrow> string \<Rightarrow> string \<Rightarrow> string \<Rightarrow> gotime \<Rightarrow> session_store \<Rightarrow> session_store option" where
  "create_session arrange i p version client now st =
     (let st = remove_where (\<lambda>s. expired st s now) st
      in case evict_while (\<lambda>st. so_per_principal st \<le> count_locked st p) arrange p st of
           None \<Rightarrow> None
         | Some st \<Rightarrow> (case evict_while (\<lambda>st. so_max st \<le> int (length (so_sessions st))) arrange [] st of
             None \<Rightarrow> None
           | Some st \<Rightarrow> Some (st\<lparr>so_sessions := filter (\<lambda>t. se_id t \<noteq> i) (so_sessions st) @
               [\<lparr>se_id = i, se_principal = p, se_version = version, se_client = client, se_created = now, se_last_seen = now\<rparr>]\<rparr>)))"

definition find_session :: "string \<Rightarrow> session_store \<Rightarrow> session option" where
  "find_session i st = find (\<lambda>s. se_id s = i) (so_sessions st)"

definition get_session :: "string \<Rightarrow> string \<Rightarrow> gotime \<Rightarrow> session_store \<Rightarrow> session_store \<times> session option" where
  "get_session i p now st = (case find_session i st of
      None \<Rightarrow> (st, None)
    | Some s \<Rightarrow>
        if se_principal s \<noteq> p then (st, None)
        else if expired st s now then (remove_locked st s, None)
        else (st\<lparr>so_sessions := map (\<lambda>t. if se_id t = i then t\<lparr>se_last_seen := now\<rparr> else t) (so_sessions st)\<rparr>, Some (s\<lparr>se_last_seen := now\<rparr>)))"

definition remove_session :: "string \<Rightarrow> string \<Rightarrow> session_store \<Rightarrow> session_store \<times> bool" where
  "remove_session i p st = (case find_session i st of
      None \<Rightarrow> (st, False)
    | Some s \<Rightarrow> if se_principal s \<noteq> p then (st, False) else (remove_locked st s, True))"

definition remove_principal :: "string \<Rightarrow> session_store \<Rightarrow> session_store \<times> nat" where
  "remove_principal p st = (remove_where (\<lambda>s. se_principal s = p) st, length (filter (\<lambda>s. se_principal s = p) (so_sessions st)))"

definition close_all :: "session_store \<Rightarrow> session_store" where
  "close_all st = remove_where (\<lambda>_. True) st"

subsection \<open>Uses of a store\<close>

datatype session_op =
    Create_Session "session list \<Rightarrow> session list" string string string string gotime
  | Get_Session string string gotime
  | Remove_Session string string
  | Remove_Principal string
  | Close_All

text \<open>A \<open>create\<close> that does not return leaves the store locked: no later use changes it.\<close>

fun session_step :: "session_store \<Rightarrow> session_op \<Rightarrow> session_store" where
  "session_step st (Create_Session arrange i p v c now) = (case create_session arrange i p v c now st of None \<Rightarrow> st | Some st' \<Rightarrow> st')"
| "session_step st (Get_Session i p now) = fst (get_session i p now st)"
| "session_step st (Remove_Session i p) = fst (remove_session i p st)"
| "session_step st (Remove_Principal p) = fst (remove_principal p st)"
| "session_step st Close_All = close_all st"

text \<open>\<open>range\<close> visits each session.\<close>

definition visits_each :: "(session list \<Rightarrow> session list) \<Rightarrow> bool" where
  "visits_each arrange \<longleftrightarrow> (\<forall>ss. set (arrange ss) = set ss)"

fun op_visits :: "session_store \<Rightarrow> session_op \<Rightarrow> bool" where
  "op_visits st (Create_Session arrange i p v c now) = visits_each arrange"
| "op_visits st _ = True"

subsection \<open>Removing\<close>

lemma remove_locked_sessions: "so_sessions (remove_locked st s) = filter (\<lambda>t. se_id t \<noteq> se_id s) (so_sessions st)"
  by (simp add: remove_locked_def)

lemma remove_all_sessions:
  "so_sessions (foldl remove_locked st ss) = filter (\<lambda>t. se_id t \<notin> se_id ` set ss) (so_sessions st)"
  by (induction ss arbitrary: st) (auto simp: remove_locked_sessions intro: filter_cong)

lemma remove_all_ended: "so_ended (foldl remove_locked st ss) = so_ended st @ map se_id ss"
  by (induction ss arbitrary: st) (simp_all add: remove_locked_def)

lemma remove_params [simp]:
  "so_idle (remove_locked st s) = so_idle st" "so_max_age (remove_locked st s) = so_max_age st"
  "so_max (remove_locked st s) = so_max st" "so_per_principal (remove_locked st s) = so_per_principal st"
  by (simp_all add: remove_locked_def)

lemma remove_all_params [simp]:
  "so_idle (foldl remove_locked st ss) = so_idle st" "so_max_age (foldl remove_locked st ss) = so_max_age st"
  "so_max (foldl remove_locked st ss) = so_max st" "so_per_principal (foldl remove_locked st ss) = so_per_principal st"
  by (induction ss arbitrary: st) simp_all

definition distinct_ids :: "session_store \<Rightarrow> bool" where
  "distinct_ids st \<longleftrightarrow> distinct (map se_id (so_sessions st))"

lemma same_id: "distinct_ids st \<Longrightarrow> s \<in> set (so_sessions st) \<Longrightarrow> t \<in> set (so_sessions st) \<Longrightarrow> se_id s = se_id t \<Longrightarrow> s = t"
  by (auto simp: distinct_ids_def distinct_map dest: inj_onD)

lemma remove_where_sessions:
  assumes "distinct_ids st"
  shows "so_sessions (remove_where P st) = filter (\<lambda>s. \<not> P s) (so_sessions st)"
  unfolding remove_where_def remove_all_sessions using same_id [OF assms] by (intro filter_cong) auto

lemma remove_where_params [simp]:
  "so_idle (remove_where P st) = so_idle st" "so_max_age (remove_where P st) = so_max_age st"
  "so_max (remove_where P st) = so_max st" "so_per_principal (remove_where P st) = so_per_principal st"
  by (simp_all add: remove_where_def)

lemma distinct_part: "distinct_ids st \<Longrightarrow> so_sessions st' = filter P (so_sessions st) \<Longrightarrow> distinct_ids st'"
  by (auto simp: distinct_ids_def distinct_map intro: inj_on_subset)

subsection \<open>Evicting\<close>

definition one_of_them :: "string \<Rightarrow> session \<Rightarrow> bool" where
  "one_of_them p s \<longleftrightarrow> p = [] \<or> se_principal s = p"

lemma oldest_of_Some:
  "oldest_of p ss (Some o') = Some s \<Longrightarrow> (s = o' \<or> s \<in> set ss \<and> one_of_them p s) \<and> se_last_seen s \<le> se_last_seen o'
    \<and> (\<forall>t \<in> set ss. one_of_them p t \<longrightarrow> se_last_seen s \<le> se_last_seen t)"
proof (induction ss arbitrary: o')
  case (Cons t ss)
  show ?case
    using Cons.prems Cons.IH [of t] Cons.IH [of o'] by (auto simp: one_of_them_def split: if_splits)
qed simp

lemma oldest_of_Some_not_None: "oldest_of p ss (Some o') \<noteq> None"
  by (induction ss arbitrary: o') auto

lemma oldest_of_least:
  "oldest_of p ss None = Some s \<Longrightarrow> s \<in> set ss \<and> one_of_them p s \<and> (\<forall>t \<in> set ss. one_of_them p t \<longrightarrow> se_last_seen s \<le> se_last_seen t)"
proof (induction ss)
  case (Cons t ss)
  then show ?case using oldest_of_Some [of p ss t s] by (auto simp: one_of_them_def split: if_splits)
qed simp

lemma oldest_of_None: "oldest_of p ss None = None \<longleftrightarrow> (\<forall>t \<in> set ss. \<not> one_of_them p t)"
  by (induction ss) (auto simp: one_of_them_def oldest_of_Some_not_None)

text \<open>What a loop that evicts leaves: it ends, and those it ended were the least recently used.\<close>

definition evicts :: "string \<Rightarrow> session_store \<Rightarrow> session_store \<Rightarrow> bool" where
  "evicts p st st' \<longleftrightarrow> (\<exists>P. so_sessions st' = filter P (so_sessions st))
     \<and> so_idle st' = so_idle st \<and> so_max_age st' = so_max_age st \<and> so_max st' = so_max st \<and> so_per_principal st' = so_per_principal st
     \<and> (\<forall>s \<in> set (so_sessions st) - set (so_sessions st'). one_of_them p s
         \<and> (\<forall>t \<in> set (so_sessions st'). one_of_them p t \<longrightarrow> se_last_seen s \<le> se_last_seen t))"

lemma evicts_refl: "evicts p st st"
  by (auto simp: evicts_def intro: exI [of _ "\<lambda>_. True"])

lemma evicts_subset: "evicts p st st' \<Longrightarrow> set (so_sessions st') \<subseteq> set (so_sessions st)"
  by (auto simp: evicts_def)

lemma evicts_trans:
  assumes "evicts p a b" and "evicts p b c"
  shows "evicts p a c"
proof -
  have "\<exists>P. so_sessions c = filter P (so_sessions a)"
    using assms unfolding evicts_def by (metis filter_filter)
  moreover have "one_of_them p s \<and> (\<forall>t \<in> set (so_sessions c). one_of_them p t \<longrightarrow> se_last_seen s \<le> se_last_seen t)"
    if "s \<in> set (so_sessions a) - set (so_sessions c)" for s
  proof (cases "s \<in> set (so_sessions b)")
    case True
    then show ?thesis using that assms(2) by (simp add: evicts_def)
  next
    case False
    then show ?thesis using that assms(1) evicts_subset [OF assms(2)] by (auto simp: evicts_def)
  qed
  ultimately show ?thesis using assms by (simp add: evicts_def)
qed

lemma evict_loop:
  assumes "visits_each arrange" and "distinct_ids st"
    and "\<And>st'. evicts p st st' \<Longrightarrow> full st' \<Longrightarrow> \<exists>s \<in> set (so_sessions st'). one_of_them p s"
  shows "\<exists>st'. evict_while full arrange p st = Some st' \<and> \<not> full st' \<and> evicts p st st' \<and> (full st \<or> st' = st)"
  using assms(2,3)
proof (induction "length (so_sessions st)" arbitrary: st rule: less_induct)
  case less
  show ?case
  proof (cases "full st")
    case True
    then obtain s where s: "oldest_of p (arrange (so_sessions st)) None = Some s"
      using less.prems(2) [OF evicts_refl] assms(1) oldest_of_None [of p "arrange (so_sessions st)"]
      by (auto simp: visits_each_def)
    have in': "s \<in> set (so_sessions st)" and old: "one_of_them p s" "\<forall>t \<in> set (so_sessions st). one_of_them p t \<longrightarrow> se_last_seen s \<le> se_last_seen t"
      using oldest_of_least [OF s] assms(1) by (auto simp: visits_each_def)
    let ?st = "remove_locked st s"
    have out: "set (so_sessions st) - set (so_sessions ?st) = {s}"
      using same_id [OF less.prems(1)] in' by (auto simp: remove_locked_sessions)
    have sub: "set (so_sessions ?st) \<subseteq> set (so_sessions st)" by (auto simp: remove_locked_sessions)
    have step: "evicts p st ?st" using old out sub
      by (fastforce simp: evicts_def remove_locked_sessions)
    have trans: "evicts p ?st st' \<Longrightarrow> evicts p st st'" for st' using step by (rule evicts_trans)
    have "length (so_sessions ?st) < length (so_sessions st)"
      using in' by (auto simp: remove_locked_sessions intro!: length_filter_less)
    moreover have "distinct_ids ?st" using less.prems(1) by (rule distinct_part) (rule remove_locked_sessions)
    ultimately obtain st' where "evict_while full arrange p ?st = Some st'" "\<not> full st'" "evicts p ?st st'"
      using less.hyps [of ?st] less.prems(2) trans by blast
    then show ?thesis using True trans s by (subst evict_while.simps) (auto simp: evict_locked_def)
  qed (auto simp: evict_while.simps evicts_refl)
qed

lemma length_filter_part: "length (filter Q (filter P xs)) \<le> length (filter Q xs)"
  by (induction xs) auto

lemma count_part: "so_sessions st' = filter P (so_sessions st) \<Longrightarrow> count_locked st' q \<le> count_locked st q"
  using length_filter_part [of "\<lambda>s. se_principal s = q" P "so_sessions st"] by (simp add: count_locked_def)

lemma evicts_counts: "evicts p st st' \<Longrightarrow> count_locked st' q \<le> count_locked st q \<and> length (so_sessions st') \<le> length (so_sessions st)"
  by (auto simp: evicts_def count_part)

lemma evicts_distinct: "evicts p st st' \<Longrightarrow> distinct_ids st \<Longrightarrow> distinct_ids st'"
  by (auto simp: evicts_def intro: distinct_part)

text \<open>What \<open>create\<close> does, step by step.\<close>

lemma create_steps:
  assumes "visits_each arrange" and "distinct_ids st" and "0 < so_max st" and "0 < so_per_principal st"
  obtains st1 st2 where "evicts p (remove_where (\<lambda>s. expired st s now) st) st1" and "count_locked st1 p < so_per_principal st"
    and "evicts [] st1 st2" and "int (length (so_sessions st2)) < so_max st"
    and "so_max st \<le> int (length (so_sessions st1)) \<or> st2 = st1"
    and "create_session arrange i p v c now st = Some (st2\<lparr>so_sessions := filter (\<lambda>t. se_id t \<noteq> i) (so_sessions st2) @
       [\<lparr>se_id = i, se_principal = p, se_version = v, se_client = c, se_created = now, se_last_seen = now\<rparr>]\<rparr>)"
proof -
  let ?st0 = "remove_where (\<lambda>s. expired st s now) st"
  have d: "distinct_ids ?st0" using assms(2) by (rule distinct_part) (rule remove_where_sessions [OF assms(2)])
  have some: "\<exists>s \<in> set (so_sessions st'). one_of_them p s" if "evicts p ?st0 st'" and "so_per_principal st' \<le> count_locked st' p" for st'
  proof -
    have "0 < count_locked st' p" using that assms(4) by (auto simp: evicts_def)
    then have "filter (\<lambda>s. se_principal s = p) (so_sessions st') \<noteq> []" by (simp add: count_locked_def)
    then show ?thesis by (auto simp: filter_empty_conv one_of_them_def)
  qed
  obtain st1 where st1: "evict_while (\<lambda>st. so_per_principal st \<le> count_locked st p) arrange p ?st0 = Some st1"
      "\<not> so_per_principal st1 \<le> count_locked st1 p" "evicts p ?st0 st1"
    using evict_loop [of arrange ?st0 p "\<lambda>st. so_per_principal st \<le> count_locked st p", OF assms(1) d] some by blast
  have any: "\<exists>s \<in> set (so_sessions st'). one_of_them [] s" if "evicts [] st1 st'" and "so_max st' \<le> int (length (so_sessions st'))" for st'
  proof -
    have "so_sessions st' \<noteq> []" using that assms(3) st1(3) by (auto simp: evicts_def)
    then show ?thesis by (cases "so_sessions st'") (auto simp: one_of_them_def)
  qed
  obtain st2 where st2: "evict_while (\<lambda>st. so_max st \<le> int (length (so_sessions st))) arrange [] st1 = Some st2"
      "\<not> so_max st2 \<le> int (length (so_sessions st2))" "evicts [] st1 st2" "so_max st1 \<le> int (length (so_sessions st1)) \<or> st2 = st1"
    using evict_loop [of arrange st1 "[]" "\<lambda>st. so_max st \<le> int (length (so_sessions st))", OF assms(1) evicts_distinct [OF st1(3) d]] any by blast
  show thesis
    using st1 st2 by (intro that [of st1 st2]) (auto simp: create_session_def Let_def evicts_def)
qed

subsection \<open>Limits\<close>

definition within_limits :: "int \<Rightarrow> int \<Rightarrow> session_store \<Rightarrow> bool" where
  "within_limits most each st \<longleftrightarrow> distinct_ids st \<and> so_max st = most \<and> so_per_principal st = each \<and> 0 < most \<and> 0 < each
     \<and> int (length (so_sessions st)) \<le> so_max st \<and> (\<forall>p. count_locked st p \<le> so_per_principal st)"

definition no_larger :: "session_store \<Rightarrow> session_store \<Rightarrow> bool" where
  "no_larger st' st \<longleftrightarrow> (\<exists>P. so_sessions st' = filter P (so_sessions st)) \<and> so_max st' = so_max st \<and> so_per_principal st' = so_per_principal st"

lemma no_larger_within:
  assumes "within_limits most each st" and "no_larger st' st"
  shows "within_limits most each st'"
proof -
  obtain P where P: "so_sessions st' = filter P (so_sessions st)" using assms(2) by (auto simp: no_larger_def)
  have "count_locked st' p \<le> so_per_principal st" for p
    using count_part [OF P, of p] assms(1) by (auto simp: within_limits_def intro: order_trans)
  moreover have "int (length (so_sessions st')) \<le> so_max st"
    using assms(1) length_filter_le [of P "so_sessions st"] by (simp add: P within_limits_def del: length_filter_le)
  ultimately show ?thesis using assms distinct_part [OF _ P] by (auto simp: within_limits_def no_larger_def)
qed

lemma added_within:
  assumes "within_limits most each st" and "int (length (so_sessions st)) < so_max st" and "count_locked st (se_principal s) < so_per_principal st"
  shows "within_limits most each (st\<lparr>so_sessions := filter (\<lambda>t. se_id t \<noteq> se_id s) (so_sessions st) @ [s]\<rparr>)" (is "within_limits most each ?st")
proof -
  let ?part = "st\<lparr>so_sessions := filter (\<lambda>t. se_id t \<noteq> se_id s) (so_sessions st)\<rparr>"
  have w: "within_limits most each ?part" using assms(1) by (rule no_larger_within) (auto simp: no_larger_def)
  have "count_locked ?st p = count_locked ?part p + (if se_principal s = p then 1 else 0)" for p by (simp add: count_locked_def)
  moreover have "count_locked ?part (se_principal s) \<le> count_locked st (se_principal s)" by (rule count_part) simp
  ultimately have "count_locked ?st p \<le> so_per_principal st" for p using w assms(3) by (auto simp: within_limits_def)
  moreover have "int (length (so_sessions ?part)) < so_max st"
    using assms(2) length_filter_le [of "\<lambda>t. se_id t \<noteq> se_id s" "so_sessions st"] by (simp del: length_filter_le)
  ultimately show ?thesis using w by (auto simp: within_limits_def distinct_ids_def)
qed

lemma no_larger_removed: "no_larger (remove_locked st s) st" "no_larger (remove_where P st) st" "no_larger st st"
proof -
  show "no_larger (remove_locked st s) st" by (auto simp: no_larger_def remove_locked_sessions)
  show "no_larger (remove_where P st) st" unfolding no_larger_def remove_where_params by (auto simp: remove_where_def remove_all_sessions)
  show "no_larger st st" by (auto simp: no_larger_def intro: exI [of _ "\<lambda>_. True"])
qed

lemma touched_within:
  assumes "within_limits most each st" and "\<And>s. se_id (f s) = se_id s \<and> se_principal (f s) = se_principal s"
  shows "within_limits most each (st\<lparr>so_sessions := map f (so_sessions st)\<rparr>)"
  using assms by (auto simp: within_limits_def distinct_ids_def count_locked_def filter_map o_def)

interpretation sessions: guarded_machine session_step op_visits "within_limits most each" for most each
proof
  fix st oper assume st: "within_limits most each st" and ok: "op_visits st oper"
  show "within_limits most each (session_step st oper)"
  proof (cases oper)
    case (Create_Session arrange i p v c now)
    then have "visits_each arrange" using ok by simp
    moreover have d: "distinct_ids st" "0 < so_max st" "0 < so_per_principal st" using st by (auto simp: within_limits_def)
    ultimately obtain st1 st2 where e1: "evicts p (remove_where (\<lambda>s. expired st s now) st) st1" and n: "count_locked st1 p < so_per_principal st"
      and e2: "evicts [] st1 st2" and len: "int (length (so_sessions st2)) < so_max st"
      and new: "create_session arrange i p v c now st = Some (st2\<lparr>so_sessions := filter (\<lambda>t. se_id t \<noteq> i) (so_sessions st2) @
       [\<lparr>se_id = i, se_principal = p, se_version = v, se_client = c, se_created = now, se_last_seen = now\<rparr>]\<rparr>)"
      by (rule create_steps [of arrange st p now i v c]) blast
    have "no_larger st2 st"
      using e1 e2 no_larger_removed(2) [of "\<lambda>s. expired st s now" st] by (auto simp: evicts_def no_larger_def)
    with st have w: "within_limits most each st2" by (rule no_larger_within)
    have "count_locked st2 p < so_per_principal st" using evicts_counts [OF e2, of p] n by simp
    then show ?thesis
      using added_within [OF w, of "\<lparr>se_id = i, se_principal = p, se_version = v, se_client = c, se_created = now, se_last_seen = now\<rparr>"]
        len \<open>no_larger st2 st\<close> by (simp add: Create_Session new no_larger_def)
  next
    case (Get_Session i p now)
    then show ?thesis
      using st no_larger_within [OF st no_larger_removed(1)] touched_within [OF st, of "\<lambda>t. if se_id t = i then t\<lparr>se_last_seen := now\<rparr> else t"]
      by (auto simp: get_session_def split: option.splits)
  next
    case (Remove_Session i p)
    then show ?thesis
      using st no_larger_within [OF st no_larger_removed(1)] by (auto simp: remove_session_def split: option.splits)
  next
    case (Remove_Principal p)
    then show ?thesis using no_larger_within [OF st no_larger_removed(2)] by (simp add: remove_principal_def)
  next
    case Close_All
    then show ?thesis using no_larger_within [OF st no_larger_removed(2)] by (simp add: close_all_def)
  qed
qed

text \<open>C32: Whatever clients do, a handler never holds more sessions than its limit, nor more of one
  principal than that limit, and \<open>create\<close> always returns.
\<close>

theorem sessions_stay_within_limits:
  assumes "0 < most" and "0 < each" and "run_ok session_step op_visits (new_session_store idle age most each) opers"
    and "st = foldl session_step (new_session_store idle age most each) opers" and "visits_each arrange"
  shows "int (length (so_sessions st)) \<le> most \<and> count_locked st q \<le> each \<and> distinct (map se_id (so_sessions st))
    \<and> create_session arrange i p v c now st \<noteq> None"
proof -
  have "within_limits most each (new_session_store idle age most each)"
    using assms(1,2) by (simp add: within_limits_def new_session_store_def distinct_ids_def count_locked_def)
  from sessions.inv_run [OF this assms(3)] have w: "within_limits most each st" by (simp add: assms(4))
  then have "distinct_ids st" "0 < so_max st" "0 < so_per_principal st" by (auto simp: within_limits_def)
  from create_steps [OF assms(5) this, of p now i v c] have "create_session arrange i p v c now st \<noteq> None" by (metis option.distinct(1))
  then show ?thesis using w by (auto simp: within_limits_def distinct_ids_def)
qed

theorem sessions_stay_within_limits_witness:
  "int (length (so_sessions (foldl session_step (new_session_store 10 100 1 1)
     [Create_Session (\<lambda>ss. ss) ''x'' ''ann'' ''v'' ''c'' 5, Create_Session rev ''y'' ''bob'' ''v'' ''c'' 6]))) \<le> 1"
  using sessions_stay_within_limits [of 1 1 10 100 "[Create_Session (\<lambda>ss. ss) ''x'' ''ann'' ''v'' ''c'' 5, Create_Session rev ''y'' ''bob'' ''v'' ''c'' 6]",
    OF _ _ _ refl, of rev]
  by (simp add: visits_each_def del: session_step.simps)

text \<open>C33: A new session ends another principal's live session only when the handler already holds as many
  live sessions as it may, and then one that nobody left has used less recently.
\<close>

theorem only_a_full_store_ends_others:
  assumes "within_limits most each st" and "visits_each arrange" and "p \<noteq> []"
    and "create_session arrange i p v c now st = Some st'"
    and "s \<in> set (so_sessions st)" and "se_principal s \<noteq> p" and "\<not> expired st s now" and "se_id s \<noteq> i" and "s \<notin> set (so_sessions st')"
  shows "most \<le> int (length (filter (\<lambda>t. \<not> expired st t now) (so_sessions st)))
    \<and> (\<forall>t \<in> set (so_sessions st'). se_id t \<noteq> i \<longrightarrow> se_last_seen s \<le> se_last_seen t)"
proof -
  have d: "distinct_ids st" "0 < so_max st" "0 < so_per_principal st" "so_max st = most" using assms(1) by (auto simp: within_limits_def)
  from create_steps [OF assms(2) d(1,2,3), of p now i v c] obtain st1 st2
    where e1: "evicts p (remove_where (\<lambda>s. expired st s now) st) st1" and e2: "evicts [] st1 st2"
      and full: "so_max st \<le> int (length (so_sessions st1)) \<or> st2 = st1"
      and st': "st' = st2\<lparr>so_sessions := filter (\<lambda>t. se_id t \<noteq> i) (so_sessions st2) @
       [\<lparr>se_id = i, se_principal = p, se_version = v, se_client = c, se_created = now, se_last_seen = now\<rparr>]\<rparr>"
    using assms(4) by (metis option.inject)
  have live: "so_sessions (remove_where (\<lambda>s. expired st s now) st) = filter (\<lambda>s. \<not> expired st s now) (so_sessions st)"
    by (rule remove_where_sessions [OF d(1)])
  have in1: "s \<in> set (so_sessions st1)"
    using e1 assms(3,5,6,7) by (auto simp: evicts_def one_of_them_def live)
  have out2: "s \<notin> set (so_sessions st2)" using assms(8,9) by (auto simp: st')
  with in1 full have "most \<le> int (length (so_sessions st1))" using d(4) by auto
  also have "\<dots> \<le> int (length (filter (\<lambda>t. \<not> expired st t now) (so_sessions st)))"
    using evicts_counts [OF e1] live by simp
  finally show ?thesis using e2 in1 out2 by (auto simp: evicts_def one_of_them_def st')
qed

text \<open>A full handler of one session: Ann's makes room for Bob's.\<close>

definition anns_store :: session_store where
  "anns_store = (new_session_store 10 100 1 1)\<lparr>so_sessions :=
     [\<lparr>se_id = ''x'', se_principal = ''ann'', se_version = ''v'', se_client = ''c'', se_created = 5, se_last_seen = 5\<rparr>]\<rparr>"

lemma ann_makes_room:
  "create_session rev ''y'' ''bob'' ''v'' ''c'' 6 anns_store = Some (anns_store\<lparr>so_ended := [''x''], so_sessions :=
     [\<lparr>se_id = ''y'', se_principal = ''bob'', se_version = ''v'', se_client = ''c'', se_created = 6, se_last_seen = 6\<rparr>]\<rparr>)"
proof -
  have keep: "remove_where (\<lambda>s. expired anns_store s 6) anns_store = anns_store"
    by (simp add: remove_where_def anns_store_def new_session_store_def expired_def time_sub_def min_duration_def max_duration_def)
  have 1: "evict_while (\<lambda>st. so_per_principal st \<le> count_locked st ''bob'') rev ''bob'' anns_store = Some anns_store"
    by (subst evict_while.simps) (simp add: anns_store_def new_session_store_def count_locked_def)
  have ev: "evict_locked rev [] anns_store = anns_store\<lparr>so_sessions := [], so_ended := [''x'']\<rparr>"
    by (simp add: evict_locked_def anns_store_def new_session_store_def remove_locked_def)
  have 2: "evict_while (\<lambda>st. so_max st \<le> int (length (so_sessions st))) rev [] anns_store = Some (anns_store\<lparr>so_sessions := [], so_ended := [''x'']\<rparr>)"
    by (subst evict_while.simps, subst evict_while.simps) (simp add: ev, simp add: anns_store_def new_session_store_def)
  show ?thesis by (simp add: create_session_def keep 1 2)
qed

theorem only_a_full_store_ends_others_witness:
  "1 \<le> length (filter (\<lambda>t. \<not> expired anns_store t 6) (so_sessions anns_store))"
  using only_a_full_store_ends_others [of 1 1 anns_store rev "''bob''" "''y''" "''v''" "''c''" 6, OF _ _ _ ann_makes_room,
    of "hd (so_sessions anns_store)"]
  by (simp add: visits_each_def within_limits_def distinct_ids_def anns_store_def new_session_store_def count_locked_def
      expired_def time_sub_def min_duration_def max_duration_def)

subsection \<open>Requests in progress\<close>

text \<open>
  Every request ever begun is numbered, as the code's pointers tell requests of the same id apart. The
  function \<open>begin\<close> returns knows its request's number.
\<close>

record inflight =
  if_key :: string
  if_cancelled :: bool

record requests =
  rq_begun :: "inflight list"
  rq_inflight :: "string \<Rightarrow> nat option"

definition new_requests :: requests where
  "new_requests = \<lparr>rq_begun = [], rq_inflight = (\<lambda>_. None)\<rparr>"

definition begin_request :: "string \<Rightarrow> requests \<Rightarrow> requests \<times> nat option" where
  "begin_request key rs =
     (if rq_inflight rs key \<noteq> None then (rs, None)
      else (rs\<lparr>rq_begun := rq_begun rs @ [\<lparr>if_key = key, if_cancelled = False\<rparr>], rq_inflight := (rq_inflight rs)(key \<mapsto> length (rq_begun rs))\<rparr>,
            Some (length (rq_begun rs))))"

definition finish_request :: "nat \<Rightarrow> requests \<Rightarrow> requests \<times> bool" where
  "finish_request n rs =
     (rs\<lparr>rq_inflight := (rq_inflight rs)(if_key (rq_begun rs ! n) := None)\<rparr>, if_cancelled (rq_begun rs ! n))"

definition cancel_request :: "string \<Rightarrow> requests \<Rightarrow> requests \<times> bool" where
  "cancel_request key rs = (case rq_inflight rs key of
      None \<Rightarrow> (rs, False)
    | Some n \<Rightarrow> (rs\<lparr>rq_begun := (rq_begun rs)[n := (rq_begun rs ! n)\<lparr>if_cancelled := True\<rparr>]\<rparr>, True))"

datatype request_event = Begin_Request string | Cancel_Request string | Finish_Request nat

fun request_event_step :: "requests \<Rightarrow> request_event \<Rightarrow> requests" where
  "request_event_step rs (Begin_Request key) = fst (begin_request key rs)"
| "request_event_step rs (Cancel_Request key) = fst (cancel_request key rs)"
| "request_event_step rs (Finish_Request n) = fst (finish_request n rs)"

text \<open>The server calls what \<open>begin\<close> returned once, when it is done with the request.\<close>

fun finishes_once :: "requests \<Rightarrow> request_event \<Rightarrow> bool" where
  "finishes_once rs (Finish_Request n) = (n < length (rq_begun rs) \<and> rq_inflight rs (if_key (rq_begun rs ! n)) = Some n)"
| "finishes_once rs _ = True"

definition requests_ok :: "requests \<Rightarrow> bool" where
  "requests_ok rs \<longleftrightarrow> (\<forall>k n. rq_inflight rs k = Some n \<longrightarrow> n < length (rq_begun rs) \<and> if_key (rq_begun rs ! n) = k)"

interpretation requests: guarded_machine request_event_step finishes_once requests_ok
proof
  fix rs e assume "requests_ok rs" "finishes_once rs e"
  then show "requests_ok (request_event_step rs e)"
    by (cases e) (auto simp: requests_ok_def begin_request_def cancel_request_def finish_request_def nth_append nth_list_update
        less_SucI split: option.splits if_splits)
qed

lemma in_progress:
  assumes "requests_ok rs" and "rq_inflight rs k = Some n" and "run_ok request_event_step finishes_once rs es" and "Finish_Request n \<notin> set es"
  shows "if_cancelled (rq_begun (foldl request_event_step rs es) ! n) \<longleftrightarrow> if_cancelled (rq_begun rs ! n) \<or> Cancel_Request k \<in> set es"
  using assms
proof (induction es arbitrary: rs)
  case (Cons e es)
  let ?rs = "request_event_step rs e"
  have ok: "requests_ok ?rs" using Cons.prems(1,3) requests.inv_step by simp
  have n: "n < length (rq_begun rs)" "if_key (rq_begun rs ! n) = k" using Cons.prems(1,2) by (auto simp: requests_ok_def)
  have "rq_inflight ?rs k = Some n"
    using Cons.prems n by (cases e) (auto simp: begin_request_def cancel_request_def finish_request_def split: option.splits)
  moreover have "if_cancelled (rq_begun ?rs ! n) \<longleftrightarrow> if_cancelled (rq_begun rs ! n) \<or> e = Cancel_Request k"
    using Cons.prems(1,2) n by (cases e) (auto simp: begin_request_def cancel_request_def finish_request_def nth_append nth_list_update
        requests_ok_def split: option.splits if_splits)
  ultimately show ?case using Cons.IH [OF ok] Cons.prems(3,4) by auto
qed simp

text \<open>
  A request that was begun goes unanswered exactly when the client cancelled its id while it was
  in progress, however requests overlap and ids are used again.
\<close>

theorem cancelled_requests_go_unanswered:
  assumes "run_ok request_event_step finishes_once new_requests (ds @ Begin_Request k # es)"
    and "begin_request k (foldl request_event_step new_requests ds) = (rs, Some n)" and "Finish_Request n \<notin> set es"
  shows "snd (finish_request n (foldl request_event_step rs es)) \<longleftrightarrow> Cancel_Request k \<in> set es"
proof -
  let ?rs = "foldl request_event_step new_requests ds"
  have run: "run_ok request_event_step finishes_once new_requests ds" "run_ok request_event_step finishes_once rs es"
    using assms(1,2) by (simp_all add: run_ok_append run_simps)
  have "requests_ok new_requests" by (simp add: requests_ok_def new_requests_def)
  from requests.inv_run [OF this run(1)] have ok: "requests_ok rs"
    using requests.inv_step [of ?rs "Begin_Request k"] assms(2) by simp
  have "rq_inflight rs k = Some n" "\<not> if_cancelled (rq_begun rs ! n)"
    using assms(2) by (auto simp: begin_request_def split: if_splits)
  then show ?thesis using in_progress [OF ok _ run(2) assms(3)] by (simp add: finish_request_def)
qed

theorem cancelled_requests_go_unanswered_witness:
  "snd (finish_request 0 (foldl request_event_step (fst (begin_request ''7'' new_requests)) [Begin_Request ''8'', Cancel_Request ''7'']))"
  using cancelled_requests_go_unanswered [of "[]" "''7''" "[Begin_Request ''8'', Cancel_Request ''7'']" "fst (begin_request ''7'' new_requests)" 0]
  by (simp add: begin_request_def new_requests_def run_simps)

end
