(* ===== verification/Port_Share.thy ===== *)
theory Port_Share
  imports Go_Base "HOL-Library.Word"
begin

section \<open>One port for TLS and plain connections (internal/portshare/portshare.go)\<close>

text \<open>
  A \<open>Splitter\<close> accepts connections, reads a byte of each in a goroutine of its own and hands it to
  one of two listeners, while anyone may close it or a listener at any moment. A step of the relation
  is what one goroutine does between two points where others can get in: a critical section, a
  channel operation, a call on a socket. \<open>sp_todo\<close> is what the one run of \<open>Close\<close> has left to do. The
  theorems: what is handed over is open, whole and on the right side; and once the Splitter was
  closed, its goroutines end and leave every connection handed over or closed.
\<close>

subsection \<open>State\<close>

datatype side = Tls_Side | Plain_Side

definition tls_handshake :: "8 word" where "tls_handshake = 0x16"

text \<open>How far a connection's goroutine is: \<open>route\<close>, and \<open>deliver\<close> at its end.\<close>

datatype phase = Started | Awaiting | Received "8 word" | Failed_Read | Delivering side "8 word" | Handed side "8 word" | Dropped

record conn =
  cn_phase :: phase
  cn_open :: bool

datatype close_action = Close_Listener | Close_Conn nat | Shut_Side side

record splitter =
  sp_listening :: bool
  sp_closed :: bool
  sp_pending :: "nat set"
  sp_todo :: "close_action list option"
  sp_shut :: "side \<Rightarrow> bool"
  sp_accepting :: "side \<Rightarrow> nat"
  sp_conns :: "nat \<Rightarrow> conn option"

definition split_new :: splitter where
  "split_new = \<lparr>sp_listening = True, sp_closed = False, sp_pending = {}, sp_todo = None, sp_shut = (\<lambda>_. False),
     sp_accepting = (\<lambda>_. 0), sp_conns = (\<lambda>_. None)\<rparr>"

definition put_conn :: "nat \<Rightarrow> phase \<Rightarrow> bool \<Rightarrow> splitter \<Rightarrow> splitter" where
  "put_conn c p op s = s\<lparr>sp_conns := (sp_conns s)(c \<mapsto> \<lparr>cn_phase = p, cn_open = op\<rparr>)\<rparr>"

text \<open>\<open>track\<close>: the state afterwards, and false once the Splitter is closed.\<close>

definition track :: "nat \<Rightarrow> bool \<Rightarrow> splitter \<Rightarrow> splitter \<times> bool" where
  "track c add s =
     (if sp_closed s then (s, False)
      else (s\<lparr>sp_pending := (if add then insert c (sp_pending s) else sp_pending s - {c})\<rparr>, True))"

definition side_of :: "8 word \<Rightarrow> side" where
  "side_of b = (if b = tls_handshake then Tls_Side else Plain_Side)"

fun run_action :: "close_action \<Rightarrow> splitter \<Rightarrow> splitter" where
  "run_action Close_Listener s = s\<lparr>sp_listening := False\<rparr>"
| "run_action (Close_Conn c) s = s\<lparr>sp_conns := (sp_conns s)(c := map_option (\<lambda>x. x\<lparr>cn_open := False\<rparr>) (sp_conns s c))\<rparr>"
| "run_action (Shut_Side d) s = s\<lparr>sp_shut := (sp_shut s)(d := True)\<rparr>"

text \<open>The pause of \<open>serve\<close> after an error that may pass.\<close>

definition next_delay :: "duration \<Rightarrow> duration" where
  "next_delay delay = min (max (2 * delay) (5 * millisecond)) second"

subsection \<open>Steps\<close>

text \<open>
  A socket that was closed, a timeout and an error all make the read of the first byte fail. An
  \<open>Accept\<close> that has passed its first check may still take a connection after its listener was shut, as
  \<open>select\<close> chooses among what is ready.
\<close>

inductive split_step :: "splitter \<Rightarrow> splitter \<Rightarrow> bool" where
  accept: "sp_listening s \<Longrightarrow> sp_conns s c = None \<Longrightarrow> split_step s (put_conn c Started True s)"
| track_new: "sp_conns s c = Some \<lparr>cn_phase = Started, cn_open = op\<rparr> \<Longrightarrow> track c True s = (t, True)
    \<Longrightarrow> split_step s (put_conn c Awaiting op t)"
| refuse_new: "sp_conns s c = Some \<lparr>cn_phase = Started, cn_open = op\<rparr> \<Longrightarrow> track c True s = (t, False)
    \<Longrightarrow> split_step s (put_conn c Dropped False t)"
| receive: "sp_conns s c = Some \<lparr>cn_phase = Awaiting, cn_open = True\<rparr> \<Longrightarrow> split_step s (put_conn c (Received b) True s)"
| fail: "sp_conns s c = Some \<lparr>cn_phase = Awaiting, cn_open = op\<rparr> \<Longrightarrow> split_step s (put_conn c Failed_Read op s)"
| route_on: "sp_conns s c = Some \<lparr>cn_phase = Received b, cn_open = op\<rparr> \<Longrightarrow> track c False s = (t, True)
    \<Longrightarrow> split_step s (put_conn c (Delivering (side_of b) b) op t)"
| route_closed: "sp_conns s c = Some \<lparr>cn_phase = Received b, cn_open = op\<rparr> \<Longrightarrow> track c False s = (t, False)
    \<Longrightarrow> split_step s (put_conn c Dropped False t)"
| route_failed: "sp_conns s c = Some \<lparr>cn_phase = Failed_Read, cn_open = op\<rparr>
    \<Longrightarrow> split_step s (put_conn c Dropped False (fst (track c False s)))"
| accept_call: "\<not> sp_shut s d \<Longrightarrow> split_step s (s\<lparr>sp_accepting := (sp_accepting s)(d := sp_accepting s d + 1)\<rparr>)"
| hand_over: "sp_conns s c = Some \<lparr>cn_phase = Delivering d b, cn_open = op\<rparr> \<Longrightarrow> 0 < sp_accepting s d
    \<Longrightarrow> split_step s (put_conn c (Handed d b) op (s\<lparr>sp_accepting := (sp_accepting s)(d := sp_accepting s d - 1)\<rparr>))"
| accept_ends: "0 < sp_accepting s d \<Longrightarrow> sp_shut s d
    \<Longrightarrow> split_step s (s\<lparr>sp_accepting := (sp_accepting s)(d := sp_accepting s d - 1)\<rparr>)"
| give_up: "sp_conns s c = Some \<lparr>cn_phase = Delivering d b, cn_open = op\<rparr> \<Longrightarrow> split_step s (put_conn c Dropped False s)"
| listener_close: "\<not> sp_shut s d \<Longrightarrow> split_step s (s\<lparr>sp_shut := (sp_shut s)(d := True)\<rparr>)"
| close: "sp_todo s = None \<Longrightarrow> set cs = sp_pending s \<Longrightarrow> distinct cs
    \<Longrightarrow> split_step s (s\<lparr>sp_closed := True, sp_pending := {},
          sp_todo := Some (Close_Listener # map Close_Conn cs @ [Shut_Side Tls_Side, Shut_Side Plain_Side])\<rparr>)"
| close_next: "sp_todo s = Some (a # as) \<Longrightarrow> split_step s (run_action a (s\<lparr>sp_todo := Some as\<rparr>))"

definition split_reachable :: "splitter \<Rightarrow> bool" where
  "split_reachable s \<longleftrightarrow> split_step\<^sup>*\<^sup>* split_new s"

subsection \<open>What holds in every state\<close>

text \<open>
  What a connection's phase says of its socket. \<open>closed\<close>: the Splitter is; \<open>dc\<close>: \<open>Close\<close> is going to
  close the connection; \<open>pd\<close>: it would.
\<close>

fun phase_ok :: "bool \<Rightarrow> bool \<Rightarrow> bool \<Rightarrow> bool \<Rightarrow> phase \<Rightarrow> bool" where
  "phase_ok closed dc pd op Started = op"
| "phase_ok closed dc pd op Awaiting = (if closed then dc \<or> \<not> op else op \<and> pd)"
| "phase_ok closed dc pd op (Received b) = (closed \<or> op)"
| "phase_ok closed dc pd op Failed_Read = True"
| "phase_ok closed dc pd op (Delivering d b) = (op \<and> d = side_of b)"
| "phase_ok closed dc pd op (Handed d b) = (op \<and> d = side_of b)"
| "phase_ok closed dc pd op Dropped = (\<not> op)"

text \<open>The phases in which \<open>Close\<close> may close the socket.\<close>

fun closable :: "phase \<Rightarrow> bool" where
  "closable Awaiting = True"
| "closable (Received b) = True"
| "closable Failed_Read = True"
| "closable Dropped = True"
| "closable _ = False"

definition due :: "splitter \<Rightarrow> nat \<Rightarrow> bool" where
  "due s c \<longleftrightarrow> (\<exists>as. sp_todo s = Some as \<and> Close_Conn c \<in> set as)"

definition conns_ok :: "splitter \<Rightarrow> bool" where
  "conns_ok s \<longleftrightarrow> (\<forall>c x. sp_conns s c = Some x \<longrightarrow> phase_ok (sp_closed s) (due s c) (c \<in> sp_pending s) (cn_open x) (cn_phase x))"

definition closing_ok :: "splitter \<Rightarrow> bool" where
  "closing_ok s \<longleftrightarrow> (\<forall>c. due s c \<or> c \<in> sp_pending s \<longrightarrow> (\<exists>x. sp_conns s c = Some x \<and> closable (cn_phase x)))"

definition todo_ok :: "splitter \<Rightarrow> bool" where
  "todo_ok s \<longleftrightarrow> (sp_closed s \<longleftrightarrow> sp_todo s \<noteq> None) \<and> (sp_closed s \<longrightarrow> sp_pending s = {}) \<and> finite (dom (sp_conns s))
     \<and> (\<forall>as. sp_todo s = Some as \<longrightarrow> (sp_listening s \<longrightarrow> Close_Listener \<in> set as) \<and> (\<forall>d. sp_shut s d \<or> Shut_Side d \<in> set as))"

lemma phase_ok_open: "phase_ok False dc pd op p \<Longrightarrow> phase_ok False dc' pd op p"
  by (cases p) auto

lemma phase_ok_closed: "phase_ok True dc pd op p \<Longrightarrow> phase_ok True dc pd' op p"
  by (cases p) auto

lemma phase_ok_closes: "phase_ok False dc pd op p \<Longrightarrow> phase_ok True pd pd' op p"
  by (cases p) auto

lemma phase_ok_shut: "phase_ok True dc pd op p \<Longrightarrow> closable p \<Longrightarrow> phase_ok True dc' pd False p"
  by (cases p) auto

lemma todo_ok_step: "split_step s t \<Longrightarrow> todo_ok s \<Longrightarrow> todo_ok t"
proof (induction rule: split_step.induct)
  case (close_next s a as)
  then show ?case by (cases a) (auto simp: todo_ok_def dom_def elim!: rev_finite_subset)
qed (auto simp: todo_ok_def put_conn_def track_def split: if_splits, (metis (full_types) side.exhaust)+)

lemma closing_ok_step: "split_step s t \<Longrightarrow> todo_ok s \<Longrightarrow> closing_ok s \<Longrightarrow> closing_ok t"
proof (induction rule: split_step.induct)
  case (close_next s a as)
  then show ?case by (cases a) (fastforce simp: closing_ok_def due_def)+
next
  case (close s cs)
  then show ?case by (auto simp: closing_ok_def due_def todo_ok_def)
qed (auto simp: closing_ok_def due_def todo_ok_def put_conn_def track_def split: if_splits, (fastforce+)?)

lemma conns_okD:
  "conns_ok s \<Longrightarrow> sp_conns s c = Some x \<Longrightarrow> phase_ok (sp_closed s) (due s c) (c \<in> sp_pending s) (cn_open x) (cn_phase x)"
  by (simp add: conns_ok_def)

lemma conns_ok_put:
  assumes "conns_ok s" and "sp_closed t = sp_closed s \<and> sp_todo t = sp_todo s \<and> sp_conns t = sp_conns s"
    and "sp_pending t = sp_pending s \<or> sp_pending t = insert c (sp_pending s) \<or> sp_pending t = sp_pending s - {c}"
    and "case sp_conns s c of None \<Rightarrow> phase_ok (sp_closed s) (due s c) (c \<in> sp_pending t) op p
      | Some x \<Rightarrow> phase_ok (sp_closed s) (due s c) (c \<in> sp_pending s) (cn_open x) (cn_phase x) \<longrightarrow>
          phase_ok (sp_closed s) (due s c) (c \<in> sp_pending t) op p"
  shows "conns_ok (put_conn c p op t)"
proof -
  have "phase_ok (sp_closed s) (due s c) (c \<in> sp_pending t) op p"
    using assms(1,4) by (auto dest: conns_okD split: option.splits)
  moreover have "due t = due s" using assms(2) by (auto simp: due_def fun_eq_iff)
  moreover have "due (put_conn c p op t) = due t" by (auto simp: due_def put_conn_def fun_eq_iff)
  ultimately show ?thesis
    using assms by (auto simp: conns_ok_def put_conn_def)
qed

lemma conns_ok_same:
  "conns_ok s \<Longrightarrow> conns_ok (s\<lparr>sp_accepting := f\<rparr>)" "conns_ok s \<Longrightarrow> conns_ok (s\<lparr>sp_shut := g\<rparr>)"
  by (simp_all add: conns_ok_def due_def)

lemma conns_ok_step: "split_step s t \<Longrightarrow> todo_ok s \<Longrightarrow> closing_ok s \<Longrightarrow> conns_ok s \<Longrightarrow> conns_ok t"
proof (induction rule: split_step.induct)
  case (close_next s a as)
  then have closed: "sp_closed s" and due: "due s c \<longleftrightarrow> Close_Conn c \<in> set (a # as)" for c
    by (auto simp: todo_ok_def due_def)
  show ?case
  proof (cases a)
    case (Close_Conn c)
    then obtain x where x: "sp_conns s c = Some x" "closable (cn_phase x)"
      using close_next(3) due [of c] by (auto simp: closing_ok_def)
    then have "phase_ok True (due s c) (c \<in> sp_pending s) (cn_open x) (cn_phase x)" using close_next(4) closed by (auto simp: conns_ok_def)
    note shut = phase_ok_shut [OF this x(2)]
    have "phase_ok True (Close_Conn c' \<in> set as) (c' \<in> sp_pending s) (cn_open y) (cn_phase y)"
      if "sp_conns s c' = Some y" "c' \<noteq> c" for c' y
    proof -
      have "phase_ok (sp_closed s) (due s c') (c' \<in> sp_pending s) (cn_open y) (cn_phase y)"
        using close_next(4) that(1) by (auto simp: conns_ok_def)
      then show ?thesis using closed due [of c'] that(2) by (simp add: Close_Conn)
    qed
    then show ?thesis using shut closed x by (auto simp: Close_Conn conns_ok_def due_def)
  qed (use close_next(4) closed due in \<open>auto simp: conns_ok_def due_def\<close>)
next
  case (close s cs)
  then have "\<not> sp_closed s" by (simp add: todo_ok_def)
  then show ?case using close by (auto simp: conns_ok_def due_def image_iff intro: phase_ok_closes)
qed (auto simp: track_def conns_ok_same intro!: conns_ok_put split: if_splits)

lemma split_ok: "split_reachable s \<Longrightarrow> todo_ok s \<and> closing_ok s \<and> conns_ok s"
  unfolding split_reachable_def
proof (induction rule: rtranclp_induct)
  case base
  then show ?case by (simp add: todo_ok_def closing_ok_def conns_ok_def due_def split_new_def)
qed (blast intro: todo_ok_step closing_ok_step conns_ok_step)

lemma reachable_later: "split_reachable s \<Longrightarrow> split_step\<^sup>*\<^sup>* s t \<Longrightarrow> split_reachable t"
  by (auto simp: split_reachable_def)

subsection \<open>What is handed over\<close>

lemma handed_stays:
  "split_step s t \<Longrightarrow> todo_ok s \<Longrightarrow> closing_ok s \<Longrightarrow> sp_conns s c = Some x \<Longrightarrow> cn_phase x = Handed d b \<Longrightarrow> sp_conns t c = Some x"
proof (induction rule: split_step.induct)
  case (close_next s a as)
  then have "due s c' \<Longrightarrow> c' \<noteq> c" for c' by (fastforce simp: closing_ok_def)
  then show ?case using close_next by (cases a) (auto simp: due_def)
qed (auto simp: put_conn_def track_def split: if_splits)

text \<open>C34: A connection that an \<open>Accept\<close> took came from the listener its first byte asks for, is open, and
  is never closed or given to anyone else by the Splitter afterwards.
\<close>

theorem handed_connections_are_kept:
  assumes "split_reachable s" and "sp_conns s c = Some x" and "cn_phase x = Handed d b" and "split_step\<^sup>*\<^sup>* s t"
  shows "d = (if b = 0x16 then Tls_Side else Plain_Side) \<and> sp_conns t c = Some x \<and> cn_open x"
proof -
  have "phase_ok (sp_closed s) (due s c) (c \<in> sp_pending s) (cn_open x) (cn_phase x)"
    using split_ok [OF assms(1)] assms(2) by (auto simp: conns_ok_def)
  moreover from assms(4) have "sp_conns t c = Some x"
  proof (induction rule: rtranclp_induct)
    case (step t u)
    have "todo_ok t" "closing_ok t" using split_ok [OF reachable_later [OF assms(1) step(1)]] by auto
    then show ?case using handed_stays [OF step(2)] step(3) assms(3) by blast
  qed (rule assms(2))
  ultimately show ?thesis using assms(3) by (simp add: side_of_def tls_handshake_def)
qed

subsection \<open>After Close\<close>

fun weight :: "phase \<Rightarrow> nat" where
  "weight Started = 1"
| "weight Awaiting = 2"
| "weight (Received b) = 1"
| "weight Failed_Read = 1"
| "weight (Delivering d b) = 1"
| "weight (Handed d b) = 0"
| "weight Dropped = 0"

definition work :: "splitter \<Rightarrow> nat" where
  "work s = (\<Sum>c \<in> dom (sp_conns s). weight (cn_phase (the (sp_conns s c)))) + sp_accepting s Tls_Side + sp_accepting s Plain_Side"

lemma work_put:
  assumes "finite (dom (sp_conns s))" and "sp_conns s c = Some x"
  shows "work (put_conn c p op s) + weight (cn_phase x) = work s + weight p"
proof -
  let ?D = "dom (sp_conns s)"
  have c: "c \<in> ?D" using assms(2) by auto
  have "(\<Sum>i \<in> ?D - {c}. weight (cn_phase (the (((sp_conns s)(c \<mapsto> \<lparr>cn_phase = p, cn_open = op\<rparr>)) i))))
      = (\<Sum>i \<in> ?D - {c}. weight (cn_phase (the (sp_conns s i))))"
    by (rule sum.cong) auto
  then show ?thesis
    using assms c by (simp add: work_def put_conn_def insert_absorb sum.remove [OF assms(1) c])
qed

lemma work_accepting: "work (s\<lparr>sp_accepting := f\<rparr>) + sp_accepting s Tls_Side + sp_accepting s Plain_Side = work s + f Tls_Side + f Plain_Side"
  by (simp add: work_def)

lemma finish_step:
  assumes "split_step s t" and "todo_ok s" and "sp_todo s = Some []"
  shows "work t < work s"
  using assms
proof (induction rule: split_step.induct)
  case (hand_over s c d b op)
  then show ?case
    using work_put [of "s\<lparr>sp_accepting := (sp_accepting s)(d := sp_accepting s d - 1)\<rparr>" c "\<lparr>cn_phase = Delivering d b, cn_open = op\<rparr>" "Handed d b" op]
      work_accepting [of "(sp_accepting s)(d := sp_accepting s d - 1)" s]
    by (cases d) (auto simp: todo_ok_def)
next
  case (accept_ends s d)
  then show ?case using work_accepting [of "(sp_accepting s)(d := sp_accepting s d - 1)" s] by (cases d) auto
next
  case (accept s c)
  then show ?case by (auto simp: todo_ok_def)
next
  case (accept_call s d)
  then show ?case by (auto simp: todo_ok_def)
next
  case (listener_close s d)
  then show ?case by (auto simp: todo_ok_def)
next
  case (track_new s c op t)
  then show ?case by (auto simp: todo_ok_def track_def)
next
  case (route_on s c b op t)
  then show ?case by (auto simp: todo_ok_def track_def)
next
  case (refuse_new s c op t)
  then show ?case using work_put [of s c "\<lparr>cn_phase = Started, cn_open = op\<rparr>" Dropped False] by (auto simp: todo_ok_def track_def split: if_splits)
next
  case (receive s c b)
  then show ?case using work_put [of s c "\<lparr>cn_phase = Awaiting, cn_open = True\<rparr>" "Received b" True] by (auto simp: todo_ok_def)
next
  case (fail s c op)
  then show ?case using work_put [of s c "\<lparr>cn_phase = Awaiting, cn_open = op\<rparr>" Failed_Read op] by (auto simp: todo_ok_def)
next
  case (route_closed s c b op t)
  then show ?case using work_put [of s c "\<lparr>cn_phase = Received b, cn_open = op\<rparr>" Dropped False] by (auto simp: todo_ok_def track_def split: if_splits)
next
  case (route_failed s c op)
  then show ?case using work_put [of s c "\<lparr>cn_phase = Failed_Read, cn_open = op\<rparr>" Dropped False] by (auto simp: todo_ok_def track_def split: if_splits)
next
  case (give_up s c d b op)
  then show ?case using work_put [of s c "\<lparr>cn_phase = Delivering d b, cn_open = op\<rparr>" Dropped False] by (auto simp: todo_ok_def)
qed (auto simp: todo_ok_def)

lemma todo_done: "split_step s t \<Longrightarrow> sp_todo s = Some [] \<Longrightarrow> sp_todo t = Some []"
  by (induction rule: split_step.induct) (auto simp: put_conn_def track_def split: if_splits)

lemma todo_done_later: "split_step\<^sup>*\<^sup>* s t \<Longrightarrow> sp_todo s = Some [] \<Longrightarrow> sp_todo t = Some []"
  by (induction rule: rtranclp_induct) (auto intro: todo_done)

text \<open>As long as work is left, a goroutine can go on.\<close>

lemma work_goes_on:
  assumes "todo_ok s" and "sp_todo s = Some []" and "0 < work s"
  shows "\<exists>t. split_step s t"
proof (cases "sp_accepting s Tls_Side = 0 \<and> sp_accepting s Plain_Side = 0")
  case True
  then have "(\<Sum>c \<in> dom (sp_conns s). weight (cn_phase (the (sp_conns s c)))) \<noteq> 0" using assms(3) by (simp add: work_def)
  then obtain c x where x: "sp_conns s c = Some x" "weight (cn_phase x) \<noteq> 0"
    by (rule sum.not_neutral_contains_not_neutral) auto
  obtain op where x': "x = \<lparr>cn_phase = cn_phase x, cn_open = op\<rparr>" by (metis conn.surjective old.unit.exhaust)
  have closed: "track c add s = (s, False)" for add using assms by (auto simp: todo_ok_def track_def)
  show ?thesis
    using x x' closed by (cases "cn_phase x") (metis split_step.intros weight.simps)+
next
  case False
  then obtain d where "0 < sp_accepting s d" by auto
  moreover have "sp_shut s d" using assms(1,2) by (auto simp: todo_ok_def)
  ultimately show ?thesis by (blast intro: split_step.accept_ends)
qed

text \<open>C35: Once \<open>Close\<close> returned, everything winds down: every step of a goroutine leaves less to do, a
  goroutine can go on until none is left, no socket is open any more that a goroutine waits to read
  from, and in the end every connection was handed over or is closed.
\<close>

theorem closed_splitters_wind_down:
  assumes "split_reachable s" and "sp_todo s = Some []" and "split_step\<^sup>*\<^sup>* s t"
  shows "(\<forall>u. split_step t u \<longrightarrow> work u < work t) \<and> (0 < work t \<longrightarrow> (\<exists>u. split_step t u))
    \<and> (\<forall>c x. sp_conns t c = Some x \<longrightarrow> (cn_phase x = Awaiting \<longrightarrow> \<not> cn_open x)
        \<and> (work t = 0 \<longrightarrow> (\<exists>d b. cn_phase x = Handed d b) \<or> \<not> cn_open x))"
proof -
  have ok: "todo_ok t" "conns_ok t" using split_ok [OF reachable_later [OF assms(1,3)]] by auto
  have todo: "sp_todo t = Some []" using assms(2,3) todo_done_later by blast
  have "(cn_phase x = Awaiting \<longrightarrow> \<not> cn_open x) \<and> (work t = 0 \<longrightarrow> (\<exists>d b. cn_phase x = Handed d b) \<or> \<not> cn_open x)"
    if x: "sp_conns t c = Some x" for c x
  proof -
    have p: "phase_ok True False (c \<in> sp_pending t) (cn_open x) (cn_phase x)"
      using ok todo x by (auto simp: conns_ok_def todo_ok_def due_def)
    have "weight (cn_phase x) = 0" if "work t = 0"
      using that ok(1) x by (auto simp: work_def todo_ok_def dom_def)
    with p show ?thesis by (cases "cn_phase x") auto
  qed
  then show ?thesis using finish_step [OF _ ok(1) todo] work_goes_on [OF ok(1) todo] by blast
qed

subsection \<open>Examples\<close>

definition awaiting :: splitter where
  "awaiting = put_conn 0 Awaiting True ((put_conn 0 Started True split_new)\<lparr>sp_pending := {0}\<rparr>)"

lemma awaiting_reachable: "split_step\<^sup>*\<^sup>* split_new awaiting"
proof -
  have "split_step split_new (put_conn 0 Started True split_new)"
    by (rule split_step.accept) (simp_all add: split_new_def)
  moreover have "split_step (put_conn 0 Started True split_new) awaiting"
    unfolding awaiting_def by (rule split_step.track_new [where op = True]) (simp_all add: put_conn_def track_def split_new_def)
  ultimately show ?thesis by simp
qed

text \<open>A TLS connection that was handed over.\<close>

definition taken :: splitter where
  "taken = put_conn 0 (Handed Tls_Side 0x16) True (awaiting\<lparr>sp_pending := {}\<rparr>)"

lemma taken_reachable: "split_step\<^sup>*\<^sup>* awaiting taken"
proof -
  let ?s1 = "put_conn 0 (Received 0x16) True awaiting"
  let ?s2 = "put_conn 0 (Delivering Tls_Side 0x16) True (awaiting\<lparr>sp_pending := {}\<rparr>)"
  let ?s3 = "?s2\<lparr>sp_accepting := (sp_accepting ?s2)(Tls_Side := sp_accepting ?s2 Tls_Side + 1)\<rparr>"
  have "split_step awaiting ?s1" by (rule split_step.receive) (simp add: awaiting_def put_conn_def)
  moreover have "split_step ?s1 ?s2"
    using split_step.route_on [of ?s1 0 "0x16" True "?s1\<lparr>sp_pending := {}\<rparr>"]
    by (simp add: awaiting_def put_conn_def track_def split_new_def side_of_def tls_handshake_def)
  moreover have "split_step ?s2 ?s3" by (rule split_step.accept_call) (simp add: awaiting_def put_conn_def split_new_def)
  moreover have "split_step ?s3 taken"
    using split_step.hand_over [of ?s3 0 Tls_Side "0x16" True] by (simp add: awaiting_def taken_def put_conn_def split_new_def fun_upd_idem)
  ultimately show ?thesis by (meson converse_rtranclp_into_rtranclp rtranclp.rtrancl_refl)
qed

definition closing :: "splitter \<Rightarrow> nat list \<Rightarrow> splitter" where
  "closing s cs = s\<lparr>sp_closed := True, sp_pending := {}, sp_todo := Some (Close_Listener # map Close_Conn cs @ [Shut_Side Tls_Side, Shut_Side Plain_Side])\<rparr>"

theorem handed_connections_are_kept_witness:
  "sp_conns (closing taken []) 0 = Some \<lparr>cn_phase = Handed Tls_Side 0x16, cn_open = True\<rparr>"
proof -
  have "split_step taken (closing taken [])"
    unfolding closing_def by (rule split_step.close) (simp_all add: taken_def awaiting_def put_conn_def split_new_def)
  moreover have "sp_conns taken 0 = Some \<lparr>cn_phase = Handed Tls_Side 0x16, cn_open = True\<rparr>"
    by (simp add: taken_def put_conn_def)
  ultimately show ?thesis
    using handed_connections_are_kept [of taken 0 "\<lparr>cn_phase = Handed Tls_Side 0x16, cn_open = True\<rparr>" Tls_Side "0x16" "closing taken []"]
      rtranclp_trans [OF awaiting_reachable taken_reachable]
    by (simp add: split_reachable_def r_into_rtranclp)
qed

text \<open>A connection that had sent nothing when the Splitter was closed.\<close>

definition closed_early :: splitter where
  "closed_early = (fold run_action [Close_Listener, Close_Conn 0, Shut_Side Tls_Side, Shut_Side Plain_Side] (closing awaiting [0]))\<lparr>sp_todo := Some []\<rparr>"

lemma run_todo: "split_step\<^sup>*\<^sup>* (s\<lparr>sp_todo := Some as\<rparr>) ((fold run_action as s)\<lparr>sp_todo := Some []\<rparr>)"
proof (induction as arbitrary: s)
  case (Cons a as)
  have "split_step (s\<lparr>sp_todo := Some (a # as)\<rparr>) (run_action a ((s\<lparr>sp_todo := Some (a # as)\<rparr>)\<lparr>sp_todo := Some as\<rparr>))"
    by (rule split_step.close_next) simp
  also have "run_action a ((s\<lparr>sp_todo := Some (a # as)\<rparr>)\<lparr>sp_todo := Some as\<rparr>) = (run_action a s)\<lparr>sp_todo := Some as\<rparr>"
    by (cases a) simp_all
  finally show ?case using Cons [of "run_action a s"] by simp
qed simp

lemma closed_early_reachable: "split_reachable closed_early"
proof -
  have "split_step awaiting (closing awaiting [0])"
    unfolding closing_def by (rule split_step.close) (simp_all add: awaiting_def put_conn_def split_new_def)
  moreover have "split_step\<^sup>*\<^sup>* (closing awaiting [0]) closed_early"
    using run_todo [of "[Close_Listener, Close_Conn 0, Shut_Side Tls_Side, Shut_Side Plain_Side]" "closing awaiting [0]"]
    by (simp add: closed_early_def closing_def)
  ultimately show ?thesis
    using awaiting_reachable unfolding split_reachable_def by (meson converse_rtranclp_into_rtranclp rtranclp_trans)
qed

theorem closed_splitters_wind_down_witness:
  "sp_conns closed_early 0 = Some \<lparr>cn_phase = Awaiting, cn_open = False\<rparr>"
  using closed_splitters_wind_down [OF closed_early_reachable _ rtranclp.rtrancl_refl]
  by (simp add: closed_early_def closing_def awaiting_def put_conn_def)

subsection \<open>The first byte\<close>

text \<open>
  \<open>peekedConn.Read\<close> into a buffer of a size: the byte that was read to route the connection, then what
  the connection gives, at most \<open>k\<close> bytes of the \<open>rest\<close> that is still to come.
\<close>

record peeked =
  pk_first :: "8 word"
  pk_used :: bool

definition peeked_read :: "nat \<Rightarrow> nat \<Rightarrow> peeked \<Rightarrow> 8 word list \<Rightarrow> 8 word list \<times> peeked \<times> 8 word list" where
  "peeked_read len k p rest =
     (if \<not> pk_used p \<and> 0 < len then ([pk_first p], p\<lparr>pk_used := True\<rparr>, rest)
      else (take (min len k) rest, p, drop (min len k) rest))"

fun read_all :: "(nat \<times> nat) list \<Rightarrow> peeked \<Rightarrow> 8 word list \<Rightarrow> 8 word list \<times> peeked \<times> 8 word list" where
  "read_all [] p rest = ([], p, rest)"
| "read_all ((len, k) # rs) p rest = (case peeked_read len k p rest of (bs, p, rest) \<Rightarrow>
     (case read_all rs p rest of (cs, q) \<Rightarrow> (bs @ cs, q)))"

lemma read_all_bytes:
  "0 < fst (hd rs) \<and> rs \<noteq> [] \<or> pk_used p \<Longrightarrow> list_all (\<lambda>(len, k). 0 < len) rs \<Longrightarrow> read_all rs p rest = (bs, q, left)
    \<Longrightarrow> bs @ left = (if pk_used p then rest else pk_first p # rest)"
proof (induction rs arbitrary: p rest bs)
  case (Cons r rs)
  obtain len k where r: "r = (len, k)" by (cases r)
  obtain bs1 p1 rest1 where 1: "peeked_read len k p rest = (bs1, p1, rest1)" by (cases "peeked_read len k p rest")
  have used: "pk_used p1" using 1 Cons.prems(2) by (auto simp: r peeked_read_def split: if_splits)
  obtain cs where cs: "read_all rs p1 rest1 = (cs, q, left)" "bs = bs1 @ cs" using Cons.prems(3) by (auto simp: r 1 split: prod.splits)
  have "cs @ left = rest1" using Cons.IH [of p1 rest1 cs] used Cons.prems(2) cs by simp
  then show ?case using 1 cs Cons.prems(2) by (auto simp: r peeked_read_def split: if_splits) (metis append_assoc append_take_drop_id)
qed simp

end
