(* ===== verification/Zip_Dir.thy ===== *)
theory Zip_Dir
  imports Go_Base "HOL-Library.Word"
begin

section \<open>A zip's table of contents (internal/zipdir/zipdir.go)\<close>

text \<open>
  \<open>Check\<close> reads a zip's end records and walks its central directory before archive/zip may read it. A
  file is its bytes, which may be fewer than the size the caller was told: a read past them fails.
  \<open>listed\<close> is how many entries a reader finds that reads on until one is malformed, as archive/zip
  does. The theorems: which files are accepted, exactly; and a reader of an accepted file finds as
  many entries as the file declares, within the limits.
\<close>

subsection \<open>Definitions\<close>

type_synonym file_bytes = "8 word list"

record dir_limits =
  dl_bytes :: int
  dl_entries :: int

definition metadata_limits :: dir_limits where
  "metadata_limits = \<lparr>dl_bytes = 16 * 2 ^ 20, dl_entries = 100000\<rparr>"

datatype zip_problem = Not_Zip | Split | Too_Many_Entries int | Too_Large | Misplaced | Malformed | More_Entries | Fewer_Entries
  | Zip64_Outside | Zip64_Malformed

datatype zip_error = Refused zip_problem | Read_Failed

definition end_len :: int where "end_len = 22"
definition end64_loc_len :: int where "end64_loc_len = 20"
definition end64_len :: int where "end64_len = 56"
definition header_len :: int where "header_len = 46"
definition header_signature :: int where "header_signature = 0x02014b50"
definition end64_loc_signature :: int where "end64_loc_signature = 0x07064b50"
definition end64_end_signature :: int where "end64_end_signature = 0x06064b50"
definition max_end_search :: int where "max_end_search = 65 * 1024"

text \<open>Little-endian numbers of some bytes at an offset.\<close>

definition le_val :: "file_bytes \<Rightarrow> int" where
  "le_val bs = foldr (\<lambda>b v. uint b + 256 * v) bs 0"

definition le_at :: "nat \<Rightarrow> nat \<Rightarrow> file_bytes \<Rightarrow> int" where
  "le_at n i bs = le_val (take n (drop i bs))"

definition read_at :: "file_bytes \<Rightarrow> int \<Rightarrow> int \<Rightarrow> zip_error + file_bytes" where
  "read_at f off n = (if 0 \<le> off \<and> off + n \<le> int (length f) then Inr (take (nat n) (drop (nat off) f)) else Inl Read_Failed)"

text \<open>The last end record's signature at or before an index.\<close>

fun find_end :: "file_bytes \<Rightarrow> nat \<Rightarrow> nat option" where
  "find_end tail i = (if take 4 (drop i tail) = [0x50, 0x4b, 5, 6] then Some i
     else case i of 0 \<Rightarrow> None | Suc j \<Rightarrow> find_end tail j)"

declare find_end.simps [simp del]

text \<open>What the end records say: where they start, the two disk numbers, the records here and in all, the directory's size and offset.\<close>

record end_record =
  er_end :: int
  er_disk :: int
  er_dir_disk :: int
  er_records_here :: int
  er_records :: int
  er_dir_size :: int
  er_dir_offset :: int

text \<open>The old end record, from the tail of the file.\<close>

definition old_end :: "file_bytes \<Rightarrow> int \<Rightarrow> zip_error + end_record" where
  "old_end f sz =
     (if sz < end_len then Inl (Refused Not_Zip)
      else let n = min sz max_end_search
      in case read_at f (sz - n) n of
        Inl e \<Rightarrow> Inl e
      | Inr tail \<Rightarrow> (case find_end tail (length tail - nat end_len) of
          None \<Rightarrow> Inl (Refused Not_Zip)
        | Some p \<Rightarrow>
            if int (length tail) < int p + end_len + le_at 2 (p + 20) tail then Inl (Refused Not_Zip)
            else Inr \<lparr>er_end = sz - int (length tail) + int p, er_disk = le_at 2 (p + 4) tail, er_dir_disk = le_at 2 (p + 6) tail,
                 er_records_here = le_at 2 (p + 8) tail, er_records = le_at 2 (p + 10) tail,
                 er_dir_size = le_at 4 (p + 12) tail, er_dir_offset = le_at 4 (p + 16) tail\<rparr>))"

text \<open>An \<open>int64\<close> of eight bytes may be negative.\<close>

definition signed64 :: "int \<Rightarrow> int" where
  "signed64 v = (if v < 2 ^ 63 then v else v - 2 ^ 64)"

text \<open>The zip64 end record instead, where the old one points to one.\<close>

definition new_end :: "file_bytes \<Rightarrow> int \<Rightarrow> end_record \<Rightarrow> zip_error + end_record" where
  "new_end f sz r =
     (let loc = er_end r - end64_loc_len
      in if \<not> (er_records r = 0xffff \<or> er_dir_size r = 0xffff \<or> er_dir_offset r = 0xffffffff) \<or> loc < 0 then Inr r
      else case read_at f loc end64_loc_len of
        Inl e \<Rightarrow> Inl e
      | Inr lb \<Rightarrow>
          let at = signed64 (le_at 8 8 lb)
          in if \<not> (le_at 4 0 lb = end64_loc_signature \<and> le_at 4 4 lb = 0 \<and> le_at 4 16 lb = 1 \<and> 0 \<le> at) then Inr r
          else if sz - end64_len < at then Inl (Refused Zip64_Outside)
          else case read_at f at end64_len of
            Inl e \<Rightarrow> Inl e
          | Inr eb \<Rightarrow>
              if le_at 4 0 eb \<noteq> end64_end_signature then Inl (Refused Zip64_Malformed)
              else Inr \<lparr>er_end = at, er_disk = le_at 4 16 eb, er_dir_disk = le_at 4 20 eb, er_records_here = le_at 8 24 eb,
                   er_records = le_at 8 32 eb, er_dir_size = le_at 8 40 eb, er_dir_offset = le_at 8 48 eb\<rparr>)"

definition end_record_of :: "file_bytes \<Rightarrow> int \<Rightarrow> zip_error + end_record" where
  "end_record_of f sz = (case old_end f sz of Inl e \<Rightarrow> Inl e | Inr r \<Rightarrow> new_end f sz r)"

definition rest_len :: "file_bytes \<Rightarrow> int" where
  "rest_len hdr = le_at 2 28 hdr + le_at 2 30 hdr + le_at 2 32 hdr"

text \<open>The walk over the entries: \<open>left\<close> bytes of the directory, the entries so far, what the file still holds.\<close>

function walk :: "int \<Rightarrow> int \<Rightarrow> int \<Rightarrow> file_bytes \<Rightarrow> zip_error + int" where
  "walk records left n bs =
     (if left \<le> 0 then Inr n
      else if n = records then Inl (Refused More_Entries)
      else if left < header_len then Inl (Refused Malformed)
      else if int (length bs) < header_len then Inl Read_Failed
      else if le_at 4 0 bs \<noteq> header_signature then Inl (Refused Malformed)
      else let rest = rest_len (take (nat header_len) bs); left = left - (header_len + rest)
      in if left < 0 then Inl (Refused Malformed)
         else if int (length bs) < header_len + rest then Inl Read_Failed
         else walk records left (n + 1) (drop (nat (header_len + rest)) bs))"
  by pat_completeness auto

lemma le_val_nonneg: "0 \<le> le_val bs"
  by (induction bs) (simp_all add: le_val_def)

lemma rest_len_nonneg: "0 \<le> rest_len hdr"
  by (simp add: rest_len_def le_at_def le_val_nonneg)

lemma entry_length: "0 < header_len + rest_len hdr" "- header_len < rest_len hdr" "0 < nat (header_len + rest_len hdr)"
  using rest_len_nonneg [of hdr] by (simp_all add: header_len_def)

termination walk
  by (relation "measure (\<lambda>(records, left, n, bs). nat left)") (auto simp: entry_length)

declare walk.simps [simp del]

definition check_zip :: "file_bytes \<Rightarrow> int \<Rightarrow> dir_limits \<Rightarrow> zip_error + int" where
  "check_zip f sz lim = (case end_record_of f sz of
      Inl e \<Rightarrow> Inl e
    | Inr r \<Rightarrow>
        if er_disk r \<noteq> 0 \<or> er_dir_disk r \<noteq> 0 \<or> er_records_here r \<noteq> er_records r then Inl (Refused Split)
        else if max (dl_entries lim) 0 < er_records r then Inl (Refused (Too_Many_Entries (er_records r)))
        else if max (dl_bytes lim) 0 < er_dir_size r then Inl (Refused Too_Large)
        else if er_end r < er_dir_offset r \<or> er_dir_size r \<noteq> er_end r - er_dir_offset r then Inl (Refused Misplaced)
        else case walk (er_records r) (er_dir_size r) 0 (take (nat (er_dir_size r)) (drop (nat (er_dir_offset r)) f)) of
          Inl e \<Rightarrow> Inl e
        | Inr n \<Rightarrow> if n \<noteq> er_records r then Inl (Refused Fewer_Entries) else Inr (er_records r))"

subsection \<open>Entries\<close>

text \<open>A directory of \<open>n\<close> entries: one after another, each a header and the bytes it announces.\<close>

inductive entries :: "nat \<Rightarrow> file_bytes \<Rightarrow> bool" where
  no_entry: "entries 0 []"
| one_more: "int (length hdr) = header_len \<Longrightarrow> le_at 4 0 hdr = header_signature \<Longrightarrow> int (length tail) = rest_len hdr
    \<Longrightarrow> entries n bs \<Longrightarrow> entries (Suc n) (hdr @ tail @ bs)"

text \<open>A reader that reads entries until one is malformed or cut short finds so many.\<close>

function listed :: "file_bytes \<Rightarrow> nat" where
  "listed bs =
     (if int (length bs) < header_len \<or> le_at 4 0 bs \<noteq> header_signature
         \<or> int (length bs) < header_len + rest_len (take (nat header_len) bs) then 0
      else Suc (listed (drop (nat (header_len + rest_len (take (nat header_len) bs))) bs)))"
  by pat_completeness auto
termination
  by (relation "measure length") (auto simp: entry_length intro!: diff_less)

declare listed.simps [simp del]

subsection \<open>Walking\<close>

lemma le_at_take: "i + n \<le> k \<Longrightarrow> le_at n i (take k bs) = le_at n i bs"
  by (simp add: le_at_def drop_take min_absorb1)

lemma le_at_append: "i + n \<le> length bs \<Longrightarrow> le_at n i (bs @ cs) = le_at n i bs"
  by (simp add: le_at_def)

lemma rest_len_header: "nat header_len \<le> length bs \<Longrightarrow> rest_len (take (nat header_len) bs) = rest_len bs"
  by (simp add: rest_len_def le_at_take header_len_def)

lemma entries_step:
  assumes "0 < left" and "left = int (length bs)"
  shows "entries k bs \<longleftrightarrow> (\<exists>j. k = Suc j \<and> header_len \<le> left \<and> le_at 4 0 bs = header_signature
    \<and> header_len + rest_len (take (nat header_len) bs) \<le> left \<and> entries j (drop (nat (header_len + rest_len (take (nat header_len) bs))) bs))"
proof
  assume "entries k bs"
  then show "\<exists>j. k = Suc j \<and> header_len \<le> left \<and> le_at 4 0 bs = header_signature
    \<and> header_len + rest_len (take (nat header_len) bs) \<le> left \<and> entries j (drop (nat (header_len + rest_len (take (nat header_len) bs))) bs)"
  proof cases
    case (one_more hdr tail n cs)
    have len: "length hdr = 46" "nat header_len = 46" using one_more(3) by (simp_all add: header_len_def)
    then have hdr: "take (nat header_len) bs = hdr" by (simp add: one_more(2))
    have "le_at 4 0 bs = header_signature" using one_more(4) len by (simp add: one_more(2) le_at_append)
    moreover have "nat (header_len + rest_len hdr) = length (hdr @ tail)" using one_more(3,5) by simp
    ultimately show ?thesis using one_more assms hdr by auto
  qed (use assms in auto)
next
  assume "\<exists>j. k = Suc j \<and> header_len \<le> left \<and> le_at 4 0 bs = header_signature
    \<and> header_len + rest_len (take (nat header_len) bs) \<le> left \<and> entries j (drop (nat (header_len + rest_len (take (nat header_len) bs))) bs)"
  then obtain j where k: "k = Suc j" and sig: "le_at 4 0 bs = header_signature" and le: "header_len + rest_len (take (nat header_len) bs) \<le> left"
    and rest: "entries j (drop (nat (header_len + rest_len (take (nat header_len) bs))) bs)" by auto
  let ?hdr = "take (nat header_len) bs" and ?r = "nat (rest_len (take (nat header_len) bs))"
  have "int (length ?hdr) = header_len" "le_at 4 0 ?hdr = header_signature" "int (length (take ?r (drop (nat header_len) bs))) = rest_len ?hdr"
    using le sig assms(2) rest_len_nonneg [of ?hdr] by (simp_all add: header_len_def le_at_take)
  moreover have "drop (nat (header_len + rest_len ?hdr)) bs = drop ?r (drop (nat header_len) bs)"
    using rest_len_nonneg [of ?hdr] by (simp add: header_len_def nat_add_distrib add.commute)
  ultimately have "entries (Suc j) (?hdr @ take ?r (drop (nat header_len) bs) @ drop ?r (drop (nat header_len) bs))"
    using rest by (intro entries.one_more) metis+
  then show "entries k bs" unfolding append_take_drop_id k .
qed

lemma no_entries: "entries k [] \<longleftrightarrow> k = 0"
proof
  assume "entries k []"
  then show "k = 0" by cases (auto simp: header_len_def)
qed (simp add: entries.no_entry)

lemma walk_entries:
  assumes "left = int (length bs)" and "n \<le> records"
  shows "walk records left n bs = Inr m \<longleftrightarrow> n \<le> m \<and> m \<le> records \<and> entries (nat (m - n)) bs"
  using assms
proof (induction records left n bs rule: walk.induct)
  case (1 records left n bs)
  show ?case
  proof (cases "left \<le> 0")
    case True
    then have "walk records left n bs = Inr n" by (simp add: walk.simps [of records left n bs])
    moreover have "bs = []" using True 1(2) by simp
    ultimately show ?thesis using 1(3) by (auto simp: no_entries)
  next
    case False
    let ?d = "header_len + rest_len (take (nat header_len) bs)"
    have e: "entries (nat (m - n)) bs \<longleftrightarrow> (\<exists>j. nat (m - n) = Suc j \<and> header_len \<le> left \<and> le_at 4 0 bs = header_signature
        \<and> ?d \<le> left \<and> entries j (drop (nat ?d) bs))"
      using False 1(2) by (intro entries_step) auto
    show ?thesis
    proof (cases "n = records \<or> left < header_len \<or> le_at 4 0 bs \<noteq> header_signature \<or> left < ?d")
      case True
      then have "\<exists>err. walk records left n bs = Inl err"
        unfolding walk.simps [of records left n bs] using False 1(2) by (auto simp: Let_def)
      moreover have "n = records \<or> \<not> entries (nat (m - n)) bs" using True e by auto
      moreover have "\<not> (n < m \<and> m \<le> n)" by simp
      ultimately show ?thesis using e by auto
    next
      case False2: False
      then have "walk records left n bs = walk records (left - ?d) (n + 1) (drop (nat ?d) bs)"
        unfolding walk.simps [of records left n bs] using False 1(2) by (simp add: Let_def)
      also have "\<dots> = Inr m \<longleftrightarrow> n + 1 \<le> m \<and> m \<le> records \<and> entries (nat (m - (n + 1))) (drop (nat ?d) bs)"
        using False False2 1(2,3) rest_len_nonneg [of "take (nat header_len) bs"]
        by (intro 1(1)) (auto simp: header_len_def)
      also have "\<dots> \<longleftrightarrow> n \<le> m \<and> m \<le> records \<and> entries (nat (m - n)) bs"
      proof -
        have "nat (m - n) = Suc j \<longleftrightarrow> n + 1 \<le> m \<and> j = nat (m - (n + 1))" for j by auto
        then show ?thesis using False2 1(3) by (auto simp: e)
      qed
      finally show ?thesis .
    qed
  qed
qed

lemma listed_entries:
  assumes "entries n bs" and "int (length cs) < header_len \<or> le_at 4 0 cs \<noteq> header_signature"
  shows "listed (bs @ cs) = n"
  using assms(1)
proof (induction n bs rule: entries.induct)
  case no_entry
  show ?case using assms(2) by (subst listed.simps) auto
next
  case (one_more hdr tail n bs)
  have len: "length hdr = 46" "nat header_len = 46" using one_more(1) by (simp_all add: header_len_def)
  have "nat (header_len + rest_len hdr) = length (hdr @ tail)" using one_more(1,3) by simp
  then show ?case using one_more len by (subst listed.simps) (simp add: le_at_append header_len_def)
qed

lemma entries_unique: "entries n bs \<Longrightarrow> entries m bs \<Longrightarrow> n = m"
  using listed_entries [of n bs "[]"] listed_entries [of m bs "[]"] by (simp add: header_len_def)

subsection \<open>The end records\<close>

lemma find_end_Some: "find_end tail i = Some p \<Longrightarrow> p \<le> i \<and> take 4 (drop p tail) = [0x50, 0x4b, 5, 6]"
proof (induction tail i rule: find_end.induct)
  case (1 tail i)
  show ?case
  proof (cases "take 4 (drop i tail) = [0x50, 0x4b, 5, 6]")
    case True
    then show ?thesis using 1(2) by (simp add: find_end.simps [of tail i])
  next
    case False
    then obtain j where "i = Suc j" "find_end tail j = Some p"
      using 1(2) by (auto simp: find_end.simps [of tail i] split: nat.splits)
    then show ?thesis using 1(1) [OF False] by auto
  qed
qed

text \<open>What follows the directory of a record is no entry.\<close>

definition sound_end :: "file_bytes \<Rightarrow> end_record \<Rightarrow> bool" where
  "sound_end f r \<longleftrightarrow> 0 \<le> er_end r \<and> er_end r \<le> int (length f) \<and> 0 \<le> er_dir_offset r \<and> 0 \<le> er_dir_size r \<and> 0 \<le> er_records r
     \<and> le_at 4 0 (drop (nat (er_end r)) f) \<noteq> header_signature"

lemma le_at_nonneg [simp]: "0 \<le> le_at n i bs"
  by (simp add: le_at_def le_val_nonneg)

lemma old_end_sound: "old_end f (int (length f)) = Inr r \<Longrightarrow> sound_end f r"
proof -
  assume old: "old_end f (int (length f)) = Inr r"
  define n where "n = min (int (length f)) max_end_search"
  define k where "k = nat (int (length f) - n)"
  define tail where "tail = take (nat n) (drop k f)"
  have n: "0 \<le> n" "n \<le> int (length f)" by (auto simp: n_def max_end_search_def)
  have read: "read_at f (int (length f) - n) n = Inr tail" using n by (simp add: read_at_def tail_def k_def)
  have len: "length tail = nat n" using n by (simp add: tail_def k_def)
  from old have "\<exists>p. find_end tail (length tail - nat end_len) = Some p \<and> \<not> int (length tail) < int p + end_len + le_at 2 (p + 20) tail
    \<and> er_end r = int (length f) - int (length tail) + int p \<and> er_dir_size r = le_at 4 (p + 12) tail
    \<and> er_dir_offset r = le_at 4 (p + 16) tail \<and> er_records r = le_at 2 (p + 10) tail"
    unfolding old_end_def Let_def n_def [symmetric] read sum.case by (auto split: if_splits option.splits)
  then obtain p where p: "find_end tail (length tail - nat end_len) = Some p" and fit: "\<not> int (length tail) < int p + end_len + le_at 2 (p + 20) tail"
    and r: "er_end r = int (length f) - int (length tail) + int p" "er_dir_size r = le_at 4 (p + 12) tail" "er_dir_offset r = le_at 4 (p + 16) tail"
      "er_records r = le_at 2 (p + 10) tail" by (elim exE conjE)
  have room: "p + 22 \<le> nat n" using fit len le_at_nonneg [of 2 "p + 20" tail] unfolding end_len_def by linarith
  have e: "nat (er_end r) = k + p" "0 \<le> er_end r" "er_end r \<le> int (length f)" using n len room by (auto simp: r(1) k_def)
  have "drop p tail = take (nat n - p) (drop (k + p) f)" unfolding tail_def drop_take drop_drop by (simp add: add.commute)
  then have "take 4 (drop (k + p) f) = take 4 (drop p tail)" using room by simp
  then have "le_at 4 0 (drop (nat (er_end r)) f) = 0x06054b50"
    using find_end_Some [OF p] by (simp add: le_at_def e(1) le_val_def)
  then show ?thesis using e(2,3) by (simp add: sound_end_def r(2-4) header_signature_def)
qed

lemma new_end_sound: "new_end f (int (length f)) r = Inr q \<Longrightarrow> sound_end f r \<Longrightarrow> sound_end f q"
proof -
  assume new: "new_end f (int (length f)) r = Inr q" and r: "sound_end f r"
  show "sound_end f q"
  proof (cases "q = r")
    case False
    then obtain at eb where at: "0 \<le> at" "\<not> int (length f) - end64_len < at" and eb: "read_at f at end64_len = Inr eb"
      and sig: "le_at 4 0 eb = end64_end_signature"
      and q: "er_end q = at" "er_dir_size q = le_at 8 40 eb" "er_dir_offset q = le_at 8 48 eb" "er_records q = le_at 8 32 eb"
      using new unfolding new_end_def Let_def by (auto split: if_splits sum.splits)
    have "take 4 eb = take 4 (drop (nat at) f)" using eb at by (auto simp: read_at_def end64_len_def split: if_splits)
    then have "le_at 4 0 (drop (nat at) f) = end64_end_signature" using sig by (simp add: le_at_def)
    then show ?thesis using at by (simp add: sound_end_def q end64_end_signature_def header_signature_def end64_len_def)
  qed (use r in simp)
qed

lemma end_record_sound: "end_record_of f (int (length f)) = Inr r \<Longrightarrow> sound_end f r"
  by (auto simp: end_record_of_def intro: new_end_sound old_end_sound split: sum.splits)

subsection \<open>What Check accepts\<close>

definition directory :: "file_bytes \<Rightarrow> end_record \<Rightarrow> file_bytes" where
  "directory f r = take (nat (er_dir_size r)) (drop (nat (er_dir_offset r)) f)"

text \<open>C36: A zip is accepted exactly when it is in one piece, its end records declare a number of entries and
  a size within the limits, its directory ends where they start, and it holds that many entries.
\<close>

theorem check_zip_accepts_iff:
  "check_zip f (int (length f)) lim = Inr n \<longleftrightarrow> (\<exists>r. end_record_of f (int (length f)) = Inr r
     \<and> er_disk r = 0 \<and> er_dir_disk r = 0 \<and> er_records_here r = n \<and> er_records r = n
     \<and> n \<le> max (dl_entries lim) 0 \<and> er_dir_size r \<le> max (dl_bytes lim) 0
     \<and> er_dir_offset r + er_dir_size r = er_end r \<and> entries (nat n) (directory f r))"
proof (cases "end_record_of f (int (length f))")
  case (Inr r)
  have sound: "sound_end f r" using Inr by (rule end_record_sound)
  show ?thesis
  proof (cases "er_dir_offset r + er_dir_size r = er_end r")
    case True
    then have "er_dir_size r = int (length (directory f r))"
      using sound by (auto simp: directory_def sound_end_def)
    from walk_entries [OF this, of 0 "er_records r"] have "walk (er_records r) (er_dir_size r) 0 (directory f r) = Inr m
        \<longleftrightarrow> 0 \<le> m \<and> m \<le> er_records r \<and> entries (nat m) (directory f r)" for m
      using sound by (simp add: sound_end_def)
    then have "(case walk (er_records r) (er_dir_size r) 0 (directory f r) of Inl e \<Rightarrow> Inl e
        | Inr m \<Rightarrow> if m \<noteq> er_records r then Inl (Refused Fewer_Entries) else Inr (er_records r)) = Inr n
      \<longleftrightarrow> er_records r = n \<and> entries (nat n) (directory f r)"
      using sound entries_unique by (cases "walk (er_records r) (er_dir_size r) 0 (directory f r)") (force simp: sound_end_def)+
    then show ?thesis
      using True sound by (auto simp: check_zip_def Inr directory_def [symmetric] sound_end_def)
  qed (use sound in \<open>auto simp: check_zip_def Inr sound_end_def\<close>)
qed (simp add: check_zip_def)

text \<open>C37: A reader that takes the entries of an accepted zip from the start of its directory until one is
  malformed, as archive/zip does, finds as many as the zip declares, which are within the limits.
\<close>

theorem accepted_zips_list_what_they_declare:
  assumes "check_zip f (int (length f)) lim = Inr n" and "end_record_of f (int (length f)) = Inr r"
  shows "int (listed (drop (nat (er_dir_offset r)) f)) = n \<and> n \<le> max (dl_entries lim) 0"
proof -
  have sound: "sound_end f r" using assms(2) by (rule end_record_sound)
  from assms have n: "er_records r = n" "n \<le> max (dl_entries lim) 0" "er_dir_offset r + er_dir_size r = er_end r"
    and es: "entries (nat n) (directory f r)" by (auto simp: check_zip_accepts_iff)
  have "nat (er_end r) = nat (er_dir_size r) + nat (er_dir_offset r)" using n(3) sound by (auto simp: sound_end_def)
  then have "drop (nat (er_dir_offset r)) f = directory f r @ drop (nat (er_end r)) f"
    unfolding directory_def by (metis append_take_drop_id drop_drop)
  then have "listed (drop (nat (er_dir_offset r)) f) = nat n"
    using listed_entries [OF es] sound by (simp add: sound_end_def)
  then show ?thesis using n sound by (simp add: sound_end_def)
qed

text \<open>A zip whose directory is a single entry without a name.\<close>

definition one_entry_zip :: file_bytes where
  "one_entry_zip = [0x50, 0x4b, 1, 2] @ replicate 42 0 @ [0x50, 0x4b, 5, 6, 0, 0, 0, 0, 1, 0, 1, 0, 46] @ replicate 9 0"

lemma one_entry_end: "end_record_of one_entry_zip (int (length one_entry_zip)) =
  Inr \<lparr>er_end = 46, er_disk = 0, er_dir_disk = 0, er_records_here = 1, er_records = 1, er_dir_size = 46, er_dir_offset = 0\<rparr>"
  by code_simp

lemma one_entry_accepted: "check_zip one_entry_zip (int (length one_entry_zip)) metadata_limits = Inr 1"
  by code_simp

theorem accepted_zips_list_what_they_declare_witness: "listed one_entry_zip = 1"
  using accepted_zips_list_what_they_declare [OF one_entry_accepted one_entry_end] by simp

end
