(* ===== verification/Go_Addr.thy ===== *)
theory Go_Addr
  imports Go_Text
begin

section \<open>Prelude: package net/netip\<close>

text \<open>\<open>netip.ParseAddr\<close>: an address is its bytes, an IPv6 one with its zone; \<open>None\<close> is an error.\<close>

datatype ip_addr = Ip4 "nat list" | Ip6 "nat list" string

definition parse_octet :: "string \<Rightarrow> nat option" where
  "parse_octet s =
     (if s \<noteq> [] \<and> list_all is_digit s \<and> (hd s = CHR ''0'' \<longrightarrow> length s = 1) \<and> digits_val s \<le> 255 then Some (digits_val s) else None)"

definition parse_ip4 :: "string \<Rightarrow> nat list option" where
  "parse_ip4 s = (let os = map parse_octet (split_on (CHR ''.'') s)
     in if length os = 4 \<and> None \<notin> set os then Some (map the os) else None)"

definition hex_digit :: "char \<Rightarrow> nat option" where
  "hex_digit c = (if is_digit c then Some (code c - 48)
     else if 97 \<le> code c \<and> code c \<le> 102 then Some (code c - 87)
     else if 65 \<le> code c \<and> code c \<le> 70 then Some (code c - 55) else None)"

definition hex_val :: "string \<Rightarrow> nat" where
  "hex_val s = foldl (\<lambda>v c. 16 * v + the (hex_digit c)) 0 s"

lemma drop_shorter: "drop n s = c # cs \<Longrightarrow> length cs < length s"
  using length_drop [of n s] by simp

text \<open>The groups of an IPv6 address: what is left of the text, the bytes so far, and where \<open>::\<close> stood.\<close>

function ip6_groups :: "string \<Rightarrow> nat list \<Rightarrow> nat option \<Rightarrow> (string \<times> nat list \<times> nat option) option" where
  "ip6_groups s ip gap =
     (if 16 \<le> length ip then Some (s, ip, gap)
      else let ds = takeWhile (\<lambda>c. hex_digit c \<noteq> None) s; rest = drop (length ds) s; ip' = ip @ [hex_val ds div 256, hex_val ds mod 256]
      in if ds = [] \<or> 4 < length ds then None
         else case rest of
           [] \<Rightarrow> Some ([], ip', gap)
         | c # cs \<Rightarrow>
             if c = CHR ''.'' then
               (if gap = None \<and> length ip \<noteq> 12 \<or> 16 < length ip + 4 then None
                else case parse_ip4 s of None \<Rightarrow> None | Some f \<Rightarrow> Some ([], ip @ f, gap))
             else if c \<noteq> CHR '':'' \<or> cs = [] then None
             else if hd cs = CHR '':'' then
               (if gap \<noteq> None then None
                else if tl cs = [] then Some ([], ip', Some (length ip'))
                else ip6_groups (tl cs) ip' (Some (length ip')))
             else ip6_groups cs ip' gap)"
  by pat_completeness auto

termination
  by (relation "measure (\<lambda>(s, ip, gap). length s)") (auto dest!: drop_shorter [OF sym])

declare ip6_groups.simps [simp del]

definition parse_ip6 :: "string \<Rightarrow> ip_addr option" where
  "parse_ip6 s =
     (let (addr, zone, has_zone) = cut (CHR ''%'') s
      in if has_zone \<and> zone = [] then None
         else if has_prefix addr ''::'' \<and> length addr = 2 then Some (Ip6 (replicate 16 0) zone)
         else case (if has_prefix addr ''::'' then ip6_groups (drop 2 addr) [] (Some 0) else ip6_groups addr [] None) of
           None \<Rightarrow> None
         | Some (left, ip, gap) \<Rightarrow>
             if left \<noteq> [] then None
             else if length ip < 16 then
               (case gap of None \<Rightarrow> None | Some g \<Rightarrow> Some (Ip6 (take g ip @ replicate (16 - length ip) 0 @ drop g ip) zone))
             else if gap \<noteq> None then None else Some (Ip6 ip zone))"

definition parse_addr :: "string \<Rightarrow> ip_addr option" where
  "parse_addr s = (case find (\<lambda>c. c \<in> set ''.:%'') s of
      None \<Rightarrow> None
    | Some c \<Rightarrow> if c = CHR ''.'' then map_option Ip4 (parse_ip4 s) else if c = CHR '':'' then parse_ip6 s else None)"

lemma parse_ip4_length: "parse_ip4 s = Some os \<Longrightarrow> length os = 4"
  by (auto simp: parse_ip4_def Let_def split: if_splits)

end
