(* ===== verification/Dns_Zone.thy ===== *)
theory Dns_Zone
  imports Go_Addr Mutf8
begin

section \<open>The DNS server for one zone (internal/dnszone/dnszone.go)\<close>

text \<open>
  A zone's checks, the index an \<open>Answerer\<close> keeps of it, the parsing of queries and the reply to one.
  Packets and names are strings, which are bytes. \<open>unicode.ToLower\<close> beyond ASCII is a parameter. A
  loop that would not end and a panic are \<open>None\<close>; so is a slice or an index beyond a packet's end. The theorems: a query is answered from the records
  of its name, or of the wildcard below the nearest name above it; every packet is answered, within
  the size asked for; and the names written into replies are names a query can ask for.
\<close>

unbundle bit_operations_syntax

subsection \<open>Records and zones\<close>

definition type_a :: nat where "type_a = 1"
definition type_ns :: nat where "type_ns = 2"
definition type_soa :: nat where "type_soa = 6"
definition type_txt :: nat where "type_txt = 16"
definition type_aaaa :: nat where "type_aaaa = 28"
definition type_srv :: nat where "type_srv = 33"
definition type_any :: nat where "type_any = 255"
definition class_in :: nat where "class_in = 1"

definition rcode_form_err :: nat where "rcode_form_err = 1"
definition rcode_nx_domain :: nat where "rcode_nx_domain = 3"
definition rcode_not_imp :: nat where "rcode_not_imp = 4"
definition rcode_refused :: nat where "rcode_refused = 5"

definition dns_header_len :: nat where "dns_header_len = 12"
definition max_udp :: nat where "max_udp = 512"
definition max_records :: nat where "max_records = 10000"
definition default_ttl :: int where "default_ttl = 60"
definition zone_ttl :: int where "zone_ttl = 3600"

record dns_record =
  dr_name :: string
  dr_type :: string
  dr_value :: string
  dr_port :: int
  dr_ttl :: int

record dns_zone =
  dz_name :: string
  dz_nameserver :: string
  dz_serial :: nat
  dz_records :: "dns_record list"

datatype host_error = Host_Length | Part_Length | Bad_Part string

datatype zone_error =
    Bad_Zone string host_error | Top_Level string | Bad_Nameserver string host_error | Too_Many_Records
  | Bad_Name string host_error | Long_Name string | Bad_Life string | Bad_Address string string string
  | Bad_Target string string host_error | Bad_Port string int | Bad_Text string | Bad_Type string string

text \<open>The characters of a label of \<open>n\<close> bytes, from its byte \<open>i\<close>.\<close>

fun label_chars :: "bool \<Rightarrow> nat \<Rightarrow> nat \<Rightarrow> (nat \<times> string) list \<Rightarrow> bool" where
  "label_chars underscores n i [] = True"
| "label_chars underscores n i ((c, bs) # rs) =
     (((97 \<le> c \<and> c \<le> 122 \<or> 48 \<le> c \<and> c \<le> 57) \<or> (c = 45 \<and> 0 < i \<and> i < n - 1) \<or> (c = 95 \<and> underscores \<and> i = 0))
      \<and> label_chars underscores n (i + length bs) rs)"

fun check_parts :: "bool \<Rightarrow> string list \<Rightarrow> host_error option" where
  "check_parts underscores [] = None"
| "check_parts underscores (l # ls) =
     (if l = [] \<or> 63 < length l then Some Part_Length
      else if \<not> label_chars underscores (length l) 0 (runes l) then Some (Bad_Part l)
      else check_parts underscores ls)"

definition check_labels :: "string \<Rightarrow> bool \<Rightarrow> host_error option" where
  "check_labels name underscores = check_parts underscores (split_on (CHR ''.'') name)"

definition check_host :: "string \<Rightarrow> host_error option" where
  "check_host name = (if name = [] \<or> 253 < length name then Some Host_Length else check_labels name False)"

text \<open>The name whose labels are checked: without a wildcard's star.\<close>

definition starless :: "string \<Rightarrow> string" where
  "starless name = (if name = ''*'' then [] else case cut_prefix name ''*.'' of
      Some rest \<Rightarrow> if rest \<noteq> [] then rest else name
    | None \<Rightarrow> name)"

definition printable_text :: "string \<Rightarrow> bool" where
  "printable_text v \<longleftrightarrow> list_all (\<lambda>c. 0x20 \<le> c \<and> c \<le> 0x7e) (rune_values v)"

definition addr_fits :: "string \<Rightarrow> string \<Rightarrow> bool" where
  "addr_fits typ value = (case parse_addr value of
      None \<Rightarrow> False
    | Some (Ip4 os) \<Rightarrow> typ = ''A''
    | Some (Ip6 os zn) \<Rightarrow> typ \<noteq> ''A'' \<and> zn = [])"

definition check_value :: "dns_record \<Rightarrow> zone_error option" where
  "check_value r =
     (if dr_type r \<in> {''A'', ''AAAA''} then
        (if addr_fits (dr_type r) (dr_value r) then None else Some (Bad_Address (dr_type r) (dr_name r) (dr_value r)))
      else if dr_type r = ''SRV'' then
        (case check_host (dr_value r) of
           Some e \<Rightarrow> Some (Bad_Target (dr_name r) (dr_value r) e)
         | None \<Rightarrow> if dr_port r < 1 \<or> 65535 < dr_port r then Some (Bad_Port (dr_name r) (dr_port r)) else None)
      else if dr_type r = ''TXT'' then
        (if 255 < length (dr_value r) \<or> \<not> printable_text (dr_value r) then Some (Bad_Text (dr_name r)) else None)
      else Some (Bad_Type (dr_name r) (dr_type r)))"

definition check_record :: "dns_record \<Rightarrow> string \<Rightarrow> zone_error option" where
  "check_record r zone =
     (case (if starless (dr_name r) = [] then None else check_labels (starless (dr_name r)) True) of
        Some e \<Rightarrow> Some (Bad_Name (dr_name r) e)
      | None \<Rightarrow>
          if 253 < length (dr_name r) + 1 + length zone then Some (Long_Name (dr_name r))
          else if dr_ttl r \<noteq> 0 \<and> (dr_ttl r < 30 \<or> 86400 < dr_ttl r) then Some (Bad_Life (dr_name r))
          else check_value r)"

fun first_problem :: "string \<Rightarrow> dns_record list \<Rightarrow> zone_error option" where
  "first_problem zone [] = None"
| "first_problem zone (r # rs) = (case check_record r zone of Some e \<Rightarrow> Some e | None \<Rightarrow> first_problem zone rs)"

definition check_zone :: "dns_zone \<Rightarrow> zone_error option" where
  "check_zone z = (case check_host (dz_name z) of
      Some e \<Rightarrow> Some (Bad_Zone (dz_name z) e)
    | None \<Rightarrow>
        if CHR ''.'' \<notin> set (dz_name z) then Some (Top_Level (dz_name z))
        else (case check_host (dz_nameserver z) of
            Some e \<Rightarrow> Some (Bad_Nameserver (dz_nameserver z) e)
          | None \<Rightarrow> if max_records < length (dz_records z) then Some Too_Many_Records
              else first_problem (dz_name z) (dz_records z)))"

subsection \<open>The answerer\<close>

text \<open>\<open>strings.ToLower\<close>, with \<open>unicode.ToLower\<close> of runes beyond ASCII as a parameter.\<close>

definition lower_byte :: "char \<Rightarrow> char" where
  "lower_byte c = (if 65 \<le> code c \<and> code c \<le> 90 then char_of (code c + 32) else c)"

definition to_lower :: "(nat \<Rightarrow> nat) \<Rightarrow> string \<Rightarrow> string" where
  "to_lower low s = (if ascii s then map lower_byte s
     else concat (map (\<lambda>r. encode_rune (if r < 128 then code (lower_byte (char_of r)) else low r)) (rune_values s)))"

record answerer =
  an_zone :: dns_zone
  an_extra :: "dns_record list"
  an_names :: "string \<rightharpoonup> dns_record list"
  an_nodes :: "string set"

definition zero_zone :: dns_zone where
  "zero_zone = \<lparr>dz_name = [], dz_nameserver = [], dz_serial = 0, dz_records = []\<rparr>"

definition zero_answerer :: answerer where
  "zero_answerer = \<lparr>an_zone = zero_zone, an_extra = [], an_names = Map.empty, an_nodes = {}\<rparr>"

text \<open>\<open>n[strings.IndexByte(n, '.')+1:]\<close>; without a dot, all of it.\<close>

definition after_dot :: "string \<Rightarrow> string" where
  "after_dot n = (case dropWhile (\<lambda>c. c \<noteq> CHR ''.'') n of [] \<Rightarrow> n | _ # m \<Rightarrow> m)"

text \<open>The nodes with the names from \<open>n\<close> up to, and without, the zone's.\<close>

partial_function (option) names_up :: "string \<Rightarrow> string \<Rightarrow> string set \<Rightarrow> string set option" where
  "names_up z n nodes = (if n = z then Some nodes else names_up z (after_dot n) (insert n nodes))"

definition full_name :: "string \<Rightarrow> dns_record \<Rightarrow> string" where
  "full_name z r = (if dr_name r \<noteq> [] then dr_name r @ ''.'' @ z else z)"

fun index_records :: "string \<Rightarrow> dns_record list \<Rightarrow> (string \<rightharpoonup> dns_record list) \<Rightarrow> string set
    \<Rightarrow> ((string \<rightharpoonup> dns_record list) \<times> string set) option" where
  "index_records z [] names nodes = Some (names, nodes)"
| "index_records z (r # rs) names nodes =
     (let full = full_name z r;
          names = names(full \<mapsto> (case names full of None \<Rightarrow> [] | Some xs \<Rightarrow> xs) @ [r])
      in case names_up z full nodes of None \<Rightarrow> None | Some nodes \<Rightarrow> index_records z rs names nodes)"

definition index :: "answerer \<Rightarrow> answerer option" where
  "index a = (let z = dz_name (an_zone a)
     in if z = [] then Some (a\<lparr>an_names := Map.empty, an_nodes := {}\<rparr>)
        else case index_records z (dz_records (an_zone a) @ an_extra a) Map.empty {z} of
          None \<Rightarrow> None
        | Some (names, nodes) \<Rightarrow> Some (a\<lparr>an_names := names, an_nodes := nodes\<rparr>))"

definition set_zone :: "(nat \<Rightarrow> nat) \<Rightarrow> dns_zone \<Rightarrow> answerer \<Rightarrow> answerer option" where
  "set_zone low z a = index (a\<lparr>an_zone := z\<lparr>dz_name := to_lower low (dz_name z)\<rparr>\<rparr>)"

definition set_extra :: "dns_record list \<Rightarrow> answerer \<Rightarrow> answerer option" where
  "set_extra rs a = index (a\<lparr>an_extra := rs\<rparr>)"

subsection \<open>Queries\<close>

definition be16 :: "nat \<Rightarrow> string" where
  "be16 v = [char_of (v div 256), char_of v]"

definition be32 :: "nat \<Rightarrow> string" where
  "be32 v = [char_of (v div 2 ^ 24), char_of (v div 2 ^ 16), char_of (v div 2 ^ 8), char_of v]"

text \<open>
  \<open>q[i]\<close>, \<open>q[i:j]\<close> and \<open>binary.BigEndian.Uint16(q[i:j])\<close>. Beyond the packet Go panics, or, where the
  packet lies in a larger buffer, a packet_slice has what was in the buffer before: here both are \<open>None\<close>.
\<close>

definition byte_at :: "string \<Rightarrow> nat \<Rightarrow> nat option" where
  "byte_at q i = (if i < length q then Some (code (q ! i)) else None)"

definition packet_slice :: "string \<Rightarrow> nat \<Rightarrow> nat \<Rightarrow> string option" where
  "packet_slice q i j = (if i \<le> j \<and> j \<le> length q then Some (take (j - i) (drop i q)) else None)"

definition u16_at :: "string \<Rightarrow> nat \<Rightarrow> nat" where
  "u16_at q i = 256 * code (q ! i) + code (q ! (i + 1))"

definition u16_slice :: "string \<Rightarrow> nat \<Rightarrow> nat \<Rightarrow> nat option" where
  "u16_slice q i j = (case packet_slice q i j of
      None \<Rightarrow> None
    | Some b \<Rightarrow> if length b < 2 then None else Some (u16_at b 0))"

record question =
  qs_raw :: string
  qs_name :: string
  qs_type :: nat
  qs_class :: nat
  qs_end :: nat

text \<open>The labels from an index on, and where the name ends: \<open>Some None\<close> for a malformed name.\<close>

function parse_parts :: "(nat \<Rightarrow> nat) \<Rightarrow> string \<Rightarrow> nat \<Rightarrow> (string list \<times> nat) option option" where
  "parse_parts low q i =
     (if length q \<le> i then Some None
      else case byte_at q i of
        None \<Rightarrow> None
      | Some n \<Rightarrow>
          if n = 0 then Some (Some ([], i + 1))
          else if 63 < n \<or> length q < i + 1 + n \<or> 255 < i + 1 + n - dns_header_len then Some None
          else case packet_slice q (i + 1) (i + 1 + n) of
            None \<Rightarrow> None
          | Some l \<Rightarrow> (case parse_parts low q (i + 1 + n) of
              None \<Rightarrow> None
            | Some None \<Rightarrow> Some None
            | Some (Some (ls, e)) \<Rightarrow> Some (Some (to_lower low l # ls, e))))"
  by pat_completeness auto
termination by (relation "measure (\<lambda>(low, q, i). length q - i)") auto

declare parse_parts.simps [simp del]

text \<open>The question with its type and class, whose name ends at \<open>i\<close>.\<close>

definition question_at :: "string \<Rightarrow> string list \<Rightarrow> nat \<Rightarrow> question option" where
  "question_at q labels i =
     (case (packet_slice q dns_header_len i, u16_slice q i (i + 2), u16_slice q (i + 2) (i + 4)) of
        (Some raw, Some t, Some c) \<Rightarrow>
          Some \<lparr>qs_raw = raw, qs_name = join ''.'' labels, qs_type = t, qs_class = c, qs_end = i + 4\<rparr>
      | _ \<Rightarrow> None)"

definition parse_query :: "(nat \<Rightarrow> nat) \<Rightarrow> string \<Rightarrow> question option option" where
  "parse_query low q =
     (if length q < dns_header_len then Some None
      else case (byte_at q 2, u16_slice q 4 6) of
        (Some b, Some asked) \<Rightarrow>
          if b AND 0x80 \<noteq> 0 \<or> asked \<noteq> 1 then Some None
          else (case parse_parts low q dns_header_len of
              None \<Rightarrow> None
            | Some None \<Rightarrow> Some None
            | Some (Some (labels, i)) \<Rightarrow> if length q < i + 4 then Some None else map_option Some (question_at q labels i))
      | _ \<Rightarrow> None)"

subsection \<open>Replies\<close>

record rr =
  rr_name :: string
  rr_type :: nat
  rr_ttl :: nat
  rr_data :: string

definition reply_header :: "string \<Rightarrow> nat \<Rightarrow> bool \<Rightarrow> bool \<Rightarrow> nat \<Rightarrow> nat \<Rightarrow> nat \<Rightarrow> string option" where
  "reply_header q rcode aa question an ns ar = (case (packet_slice q 0 2, byte_at q 2) of
      (Some i, Some b) \<Rightarrow>
        let flags = 0x80 OR (b AND 0x79)
        in Some (i @ [char_of (if aa then flags OR 0x04 else flags), char_of rcode]
             @ (if question then be16 1 else be16 0) @ be16 an @ be16 ns @ be16 ar)
    | _ \<Rightarrow> None)"

definition rr_bytes :: "rr \<Rightarrow> string" where
  "rr_bytes r = rr_name r @ be16 (rr_type r) @ be16 class_in @ be32 (rr_ttl r) @ be16 (length (rr_data r)) @ rr_data r"

definition reply :: "string \<Rightarrow> question \<Rightarrow> nat \<Rightarrow> bool \<Rightarrow> rr list \<Rightarrow> rr list \<Rightarrow> string option" where
  "reply q qs rcode aa answers authority =
     (case (reply_header q rcode aa True (length answers) (length authority) 0, packet_slice q dns_header_len (qs_end qs)) of
        (Some h, Some asked) \<Rightarrow> Some (h @ asked @ concat (map rr_bytes (answers @ authority)))
      | _ \<Rightarrow> None)"

definition trim_dot :: "string \<Rightarrow> string" where
  "trim_dot name = (if name \<noteq> [] \<and> last name = CHR ''.'' then butlast name else name)"

definition encode_name :: "string \<Rightarrow> string" where
  "encode_name name = concat (map (\<lambda>l. char_of (length l) # l) (split_on (CHR ''.'') (trim_dot name))) @ [char_of (0 :: nat)]"

definition ttl_of :: "dns_record \<Rightarrow> int" where
  "ttl_of r = (if dr_ttl r = 0 then default_ttl else dr_ttl r)"

definition uint32 :: "int \<Rightarrow> nat" where
  "uint32 v = nat (v mod 2 ^ 32)"

definition soa :: "answerer \<Rightarrow> rr" where
  "soa a = \<lparr>rr_name = encode_name (dz_name (an_zone a)), rr_type = type_soa, rr_ttl = uint32 zone_ttl,
     rr_data = encode_name (dz_nameserver (an_zone a)) @ encode_name (''hostmaster.'' @ dz_name (an_zone a))
       @ concat (map be32 [dz_serial (an_zone a), 3600, 600, 604800, uint32 default_ttl])\<rparr>"

text \<open>\<open>As4\<close> panics for an address that has no such form; \<open>As16\<close> has none.\<close>

definition mapped_prefix :: "nat list" where
  "mapped_prefix = replicate 10 0 @ [255, 255]"

fun as4 :: "ip_addr \<Rightarrow> nat list option" where
  "as4 (Ip4 os) = Some os"
| "as4 (Ip6 os zn) = (if take 12 os = mapped_prefix then Some (drop 12 os) else None)"

fun as16 :: "ip_addr \<Rightarrow> nat list" where
  "as16 (Ip4 os) = mapped_prefix @ os"
| "as16 (Ip6 os zn) = os"

definition wire :: "dns_record \<Rightarrow> (nat \<times> string) option" where
  "wire r =
     (if dr_type r = ''A'' then
        (case parse_addr (dr_value r) of
           None \<Rightarrow> None
         | Some ip \<Rightarrow> map_option (\<lambda>os. (type_a, map char_of os)) (as4 ip))
      else if dr_type r = ''AAAA'' then map_option (\<lambda>ip. (type_aaaa, map char_of (as16 ip))) (parse_addr (dr_value r))
      else if dr_type r = ''SRV'' then
        Some (type_srv, be32 0 @ be16 (nat (dr_port r mod 2 ^ 16)) @ encode_name (dr_value r))
      else if dr_type r = ''TXT'' then Some (type_txt, char_of (length (dr_value r)) # dr_value r)
      else Some (0, []))"

fun matching :: "question \<Rightarrow> dns_record list \<Rightarrow> rr list option" where
  "matching qs [] = Some []"
| "matching qs (r # rs) = (case wire r of
      None \<Rightarrow> None
    | Some (t, data) \<Rightarrow>
        map_option (\<lambda>as. (if t = qs_type qs then [\<lparr>rr_name = qs_raw qs, rr_type = t, rr_ttl = uint32 (ttl_of r), rr_data = data\<rparr>] else []) @ as)
          (matching qs rs))"

text \<open>The nearest name above that the zone has.\<close>

partial_function (option) closest :: "string set \<Rightarrow> string \<Rightarrow> string option" where
  "closest nodes ce = (if ce \<in> nodes then Some ce else closest nodes (after_dot ce))"

definition look_up :: "answerer \<Rightarrow> string \<Rightarrow> (dns_record list \<times> bool) option" where
  "look_up a name =
     (let get = (\<lambda>n. case an_names a n of None \<Rightarrow> [] | Some rs \<Rightarrow> rs)
      in if name \<in> an_nodes a then Some (get name, True)
         else case closest (an_nodes a) name of
           None \<Rightarrow> None
         | Some ce \<Rightarrow> Some (get (''*.'' @ ce), an_names a (''*.'' @ ce) \<noteq> None))"

definition has_suffix :: "string \<Rightarrow> string \<Rightarrow> bool" where
  "has_suffix s p \<longleftrightarrow> length p \<le> length s \<and> drop (length s - length p) s = p"

definition inside :: "string \<Rightarrow> string \<Rightarrow> bool" where
  "inside zone name \<longleftrightarrow> zone \<noteq> [] \<and> (name = zone \<or> has_suffix name (''.'' @ zone))"

definition apex_records :: "answerer \<Rightarrow> question \<Rightarrow> rr list" where
  "apex_records a qs =
     (if qs_name qs \<noteq> dz_name (an_zone a) then []
      else if qs_type qs = type_soa then [soa a]
      else if qs_type qs = type_ns then
        [\<lparr>rr_name = qs_raw qs, rr_type = type_ns, rr_ttl = uint32 zone_ttl, rr_data = encode_name (dz_nameserver (an_zone a))\<rparr>]
      else [])"

text \<open>The reply with these answers, cut short where it is too long.\<close>

definition truncated :: "string \<Rightarrow> string option" where
  "truncated out = map_option (\<lambda>b. out[2 := char_of (b OR 0x02)]) (byte_at out 2)"

definition finish_reply :: "answerer \<Rightarrow> string \<Rightarrow> question \<Rightarrow> rr list \<Rightarrow> bool \<Rightarrow> nat \<Rightarrow> string option" where
  "finish_reply a q qs answers there most =
     (let rcode = (if answers = [] \<and> \<not> there then rcode_nx_domain else 0);
          authority = (if answers = [] then [soa a] else [])
      in case reply q qs rcode True answers authority of
           None \<Rightarrow> None
         | Some out \<Rightarrow>
             if most < length out then (case reply q qs rcode True [] [] of None \<Rightarrow> None | Some out \<Rightarrow> truncated out)
             else Some out)"

text \<open>\<open>Answer\<close>: no value where it does not return, \<open>Some None\<close> for no reply.\<close>

definition dns_answer :: "(nat \<Rightarrow> nat) \<Rightarrow> answerer \<Rightarrow> string \<Rightarrow> nat \<Rightarrow> string option option" where
  "dns_answer low a q most =
     (if length q < dns_header_len then Some None
      else case byte_at q 2 of
        None \<Rightarrow> None
      | Some b \<Rightarrow>
          if b AND 0x80 \<noteq> 0 then Some None
          else case parse_query low q of
            None \<Rightarrow> None
          | Some None \<Rightarrow> map_option Some (reply_header q rcode_form_err False False 0 0 0)
          | Some (Some qs) \<Rightarrow>
              if b div 8 AND 0x0f \<noteq> 0 then map_option Some (reply q qs rcode_not_imp False [] [])
              else if \<not> inside (dz_name (an_zone a)) (qs_name qs) \<or> qs_class qs \<noteq> class_in
                then map_option Some (reply q qs rcode_refused False [] [])
              else if qs_type qs = type_any then map_option Some (reply q qs rcode_not_imp True [] [])
              else (case look_up a (qs_name qs) of
                  None \<Rightarrow> None
                | Some (recs, there) \<Rightarrow> (case matching qs recs of
                    None \<Rightarrow> None
                  | Some as \<Rightarrow> map_option Some (finish_reply a q qs (apex_records a qs @ as) there most))))"

subsection \<open>Names above names\<close>

text \<open>A name is another, or lies below it.\<close>

definition at_or_below :: "string \<Rightarrow> string \<Rightarrow> bool" where
  "at_or_below n m \<longleftrightarrow> n = m \<or> (\<exists>p. n = p @ ''.'' @ m)"

lemma after_dot_Cons: "after_dot (c # n) = (if c = CHR ''.'' then n else if CHR ''.'' \<in> set n then after_dot n else c # n)"
proof (cases "CHR ''.'' \<in> set n")
  case True
  then have "dropWhile (\<lambda>c. c \<noteq> CHR ''.'') n \<noteq> []" by (auto simp: dropWhile_eq_Nil_conv)
  then obtain d m where "dropWhile (\<lambda>c. c \<noteq> CHR ''.'') n = d # m" by (meson list.exhaust)
  then show ?thesis using True by (simp add: after_dot_def)
next
  case False
  then have e: "dropWhile (\<lambda>c. c \<noteq> CHR ''.'') n = []" by (auto simp: dropWhile_eq_Nil_conv)
  show ?thesis using False by (simp add: after_dot_def e)
qed

lemma after_dot_split: "CHR ''.'' \<in> set n \<Longrightarrow> \<exists>p. n = p @ ''.'' @ after_dot n"
proof (induction n)
  case (Cons c n)
  then show ?case by (cases "c = CHR ''.''") (auto simp: after_dot_Cons intro: exI [of _ "c # _"])
qed simp

lemma at_or_below_refl [simp]: "at_or_below n n"
  by (simp add: at_or_below_def)

lemma at_or_below_dot: "at_or_below n m \<Longrightarrow> n \<noteq> m \<Longrightarrow> CHR ''.'' \<in> set n"
  by (auto simp: at_or_below_def)

lemma at_or_below_length: "at_or_below n m \<Longrightarrow> n \<noteq> m \<Longrightarrow> length m < length n"
  by (auto simp: at_or_below_def)

lemma after_dot_below: "at_or_below (after_dot (p @ ''.'' @ m)) m"
proof (induction p)
  case (Cons c p)
  then show ?case by (auto simp: after_dot_Cons at_or_below_def)
qed (simp add: after_dot_Cons)

lemma after_dot_shorter: "CHR ''.'' \<in> set n \<Longrightarrow> length (after_dot n) < length n"
  using after_dot_split [of n] by (auto dest: arg_cong [of _ _ length])

lemma at_or_below_step:
  assumes "CHR ''.'' \<in> set n"
  shows "at_or_below n m \<longleftrightarrow> m = n \<or> at_or_below (after_dot n) m"
proof -
  obtain p where p: "n = p @ ''.'' @ after_dot n" using after_dot_split [OF assms] by blast
  have "at_or_below n m" if m: "at_or_below (after_dot n) m"
  proof (cases "after_dot n = m")
    case True
    then show ?thesis using p unfolding at_or_below_def by metis
  next
    case False
    then obtain p' where "after_dot n = p' @ ''.'' @ m" using m by (auto simp: at_or_below_def)
    then have "n = (p @ ''.'' @ p') @ ''.'' @ m" using p by simp
    then show ?thesis unfolding at_or_below_def by blast
  qed
  then show ?thesis using after_dot_below [of _ m] unfolding at_or_below_def by auto
qed

lemma inside_below: "inside zone name \<longleftrightarrow> zone \<noteq> [] \<and> at_or_below name zone"
proof -
  have "has_suffix name p \<longleftrightarrow> (\<exists>k. name = k @ p)" for p
    unfolding has_suffix_def by (metis append_take_drop_id diff_diff_cancel append_eq_conv_conj length_append add_diff_cancel_right' le_add2)
  then show ?thesis by (auto simp: inside_def at_or_below_def)
qed

subsection \<open>The index\<close>

lemma names_up_all:
  "at_or_below n z \<Longrightarrow> names_up z n nodes = Some (nodes \<union> {m. at_or_below n m \<and> at_or_below m z \<and> m \<noteq> z})"
proof (induction "length n" arbitrary: n nodes rule: less_induct)
  case less
  show ?case
  proof (cases "n = z")
    case True
    then have "{m. at_or_below n m \<and> at_or_below m z \<and> m \<noteq> z} = {}" using at_or_below_length by (blast dest: order_less_asym)
    then have "nodes \<union> {m. at_or_below n m \<and> at_or_below m z \<and> m \<noteq> z} = nodes" by blast
    then show ?thesis using True by (subst names_up.simps) simp
  next
    case False
    have dot: "CHR ''.'' \<in> set n" using at_or_below_dot less.prems False by blast
    have up: "at_or_below (after_dot n) z" using at_or_below_step [OF dot] less.prems False by auto
    have "names_up z (after_dot n) (insert n nodes)
        = Some (insert n nodes \<union> {m. at_or_below (after_dot n) m \<and> at_or_below m z \<and> m \<noteq> z})"
      by (rule less.hyps) (use after_dot_shorter [OF dot] up in auto)
    moreover have "insert n nodes \<union> {m. at_or_below (after_dot n) m \<and> at_or_below m z \<and> m \<noteq> z}
        = nodes \<union> {m. at_or_below n m \<and> at_or_below m z \<and> m \<noteq> z}"
      using at_or_below_step [OF dot] less.prems False by auto
    ultimately show ?thesis using False by (simp add: names_up.simps [of z n])
  qed
qed

text \<open>What a zone has, from its records alone: the records of a name, and the names with records at or below them.\<close>

definition records_at :: "string \<Rightarrow> dns_record list \<Rightarrow> string \<Rightarrow> dns_record list" where
  "records_at z rs n = filter (\<lambda>r. full_name z r = n) rs"

definition zone_has :: "string \<Rightarrow> dns_record list \<Rightarrow> string \<Rightarrow> bool" where
  "zone_has z rs m \<longleftrightarrow> m = z \<or> at_or_below m z \<and> (\<exists>r \<in> set rs. at_or_below (full_name z r) m)"

lemma full_name_below: "at_or_below (full_name z r) z"
  by (auto simp: full_name_def at_or_below_def)

lemma index_records_all:
  "index_records z rs names nodes = Some
     (\<lambda>n. if records_at z rs n = [] then names n else Some ((case names n of None \<Rightarrow> [] | Some xs \<Rightarrow> xs) @ records_at z rs n),
      nodes \<union> {m. zone_has z rs m \<and> m \<noteq> z})"
proof (induction rs arbitrary: names nodes)
  case Nil
  then show ?case by (auto simp: records_at_def zone_has_def)
next
  case (Cons r rs)
  have "{m. at_or_below (full_name z r) m \<and> at_or_below m z \<and> m \<noteq> z} \<union> {m. zone_has z rs m \<and> m \<noteq> z}
      = {m. zone_has z (r # rs) m \<and> m \<noteq> z}"
    by (auto simp: zone_has_def)
  then show ?case
    by (auto simp: Let_def names_up_all [OF full_name_below] Cons.IH records_at_def Un_assoc fun_eq_iff split: option.splits)
qed

definition all_records :: "answerer \<Rightarrow> dns_record list" where
  "all_records a = dz_records (an_zone a) @ an_extra a"

definition indexed :: "answerer \<Rightarrow> bool" where
  "indexed a \<longleftrightarrow> (dz_name (an_zone a) \<noteq> [] \<longrightarrow>
     (\<forall>n. an_names a n = (let rs = records_at (dz_name (an_zone a)) (all_records a) n in if rs = [] then None else Some rs))
     \<and> an_nodes a = Collect (zone_has (dz_name (an_zone a)) (all_records a)))"

lemma index_indexed: "\<exists>a'. index a = Some a' \<and> indexed a' \<and> an_zone a' = an_zone a \<and> an_extra a' = an_extra a"
  by (auto simp: index_def Let_def index_records_all indexed_def all_records_def zone_has_def)

text \<open>The answerer's life: zones and extra records are set.\<close>

datatype dns_op = Set_Zone dns_zone | Set_Extra "dns_record list"

fun dns_step :: "(nat \<Rightarrow> nat) \<Rightarrow> answerer \<Rightarrow> dns_op \<Rightarrow> answerer" where
  "dns_step low a (Set_Zone z) = (case set_zone low z a of None \<Rightarrow> a | Some a' \<Rightarrow> a')"
| "dns_step low a (Set_Extra rs) = (case set_extra rs a of None \<Rightarrow> a | Some a' \<Rightarrow> a')"

lemma step_set_zone:
  "an_zone (dns_step low a (Set_Zone z)) = z\<lparr>dz_name := to_lower low (dz_name z)\<rparr>" "an_extra (dns_step low a (Set_Zone z)) = an_extra a"
  using index_indexed [of "a\<lparr>an_zone := z\<lparr>dz_name := to_lower low (dz_name z)\<rparr>\<rparr>"] by (auto simp: set_zone_def)

interpretation answerers: machine "dns_step low" indexed for low
proof unfold_locales
  fix a op
  show "indexed (dns_step low a op)"
  proof (cases op)
    case (Set_Zone z)
    then show ?thesis using index_indexed [of "a\<lparr>an_zone := z\<lparr>dz_name := to_lower low (dz_name z)\<rparr>\<rparr>"] by (auto simp: set_zone_def)
  next
    case (Set_Extra rs)
    then show ?thesis using index_indexed [of "a\<lparr>an_extra := rs\<rparr>"] by (auto simp: set_extra_def)
  qed
qed

lemma indexed_run: "indexed (foldl (dns_step low) zero_answerer ops)"
  by (rule answerers.inv_any_run) (simp add: indexed_def zero_answerer_def zero_zone_def)

subsection \<open>Looking names up\<close>

lemma closest_found:
  assumes "nodes = Collect P" and "P z"
  shows "at_or_below n z \<Longrightarrow> \<exists>c. closest nodes n = Some c \<and> P c \<and> at_or_below n c \<and> (\<forall>m. P m \<and> at_or_below n m \<longrightarrow> length m \<le> length c)"
proof (induction "length n" arbitrary: n rule: less_induct)
  case less
  show ?case
  proof (cases "P n")
    case True
    then show ?thesis using assms(1) at_or_below_length [of n]
      by (subst closest.simps) (auto intro!: less_imp_le_nat simp: le_eq_less_or_eq)
  next
    case False
    then have dot: "CHR ''.'' \<in> set n" using at_or_below_dot less.prems assms(2) by metis
    have "at_or_below (after_dot n) z" using at_or_below_step [OF dot] less.prems assms(2) False by auto
    then obtain c where "closest nodes (after_dot n) = Some c" "P c" "at_or_below (after_dot n) c"
      "\<forall>m. P m \<and> at_or_below (after_dot n) m \<longrightarrow> length m \<le> length c"
      using less.hyps after_dot_shorter [OF dot] by blast
    then show ?thesis using False assms(1) at_or_below_step [OF dot] by (subst closest.simps) auto
  qed
qed

text \<open>
  The records a query of a name is answered from, said of the records alone: the name's own where the
  zone has the name, and else those of the wildcard right below the longest name above it the zone has.
\<close>

definition found :: "string \<Rightarrow> dns_record list \<Rightarrow> string \<Rightarrow> dns_record list \<Rightarrow> bool \<Rightarrow> bool" where
  "found z rs n recs there \<longleftrightarrow>
     (if zone_has z rs n then recs = records_at z rs n \<and> there
      else \<exists>c. zone_has z rs c \<and> at_or_below n c \<and> (\<forall>m. zone_has z rs m \<and> at_or_below n m \<longrightarrow> length m \<le> length c)
        \<and> recs = records_at z rs (''*.'' @ c) \<and> (there \<longleftrightarrow> recs \<noteq> []))"

lemma look_up_found:
  assumes "indexed a" and "inside (dz_name (an_zone a)) n"
  shows "\<exists>recs there. look_up a n = Some (recs, there) \<and> found (dz_name (an_zone a)) (all_records a) n recs there"
proof -
  let ?z = "dz_name (an_zone a)" and ?rs = "all_records a"
  have z: "?z \<noteq> []" "at_or_below n ?z" using assms(2) by (auto simp: inside_below)
  then have ix: "an_nodes a = Collect (zone_has ?z ?rs)"
    "\<And>m. an_names a m = (if records_at ?z ?rs m = [] then None else Some (records_at ?z ?rs m))"
    using assms(1) by (auto simp: indexed_def Let_def)
  show ?thesis
  proof (cases "zone_has ?z ?rs n")
    case True
    then show ?thesis by (auto simp: look_up_def found_def ix)
  next
    case False
    obtain c where "closest (an_nodes a) n = Some c" "zone_has ?z ?rs c" "at_or_below n c"
      "\<forall>m. zone_has ?z ?rs m \<and> at_or_below n m \<longrightarrow> length m \<le> length c"
      using closest_found [OF ix(1) _ z(2)] by (auto simp: zone_has_def)
    then show ?thesis using False by (auto simp: look_up_def found_def ix)
  qed
qed

lemma found_records: "found z rs n recs there \<Longrightarrow> set recs \<subseteq> set rs"
  by (auto simp: found_def records_at_def split: if_splits)

subsection \<open>Records of a reply\<close>

definition type_number :: "string \<Rightarrow> nat" where
  "type_number t = (if t = ''A'' then type_a else if t = ''AAAA'' then type_aaaa else if t = ''SRV'' then type_srv
     else if t = ''TXT'' then type_txt else 0)"

lemma wire_checked: "check_record r z = None \<Longrightarrow> \<exists>data. wire r = Some (type_number (dr_type r), data)"
  by (auto simp: check_record_def check_value_def addr_fits_def wire_def type_number_def split: if_splits option.splits ip_addr.splits)

definition answer_of :: "question \<Rightarrow> dns_record \<Rightarrow> rr" where
  "answer_of qs r = \<lparr>rr_name = qs_raw qs, rr_type = qs_type qs, rr_ttl = uint32 (ttl_of r), rr_data = snd (the (wire r))\<rparr>"

lemma matching_checked:
  "\<forall>r \<in> set rs. check_record r z = None
    \<Longrightarrow> matching qs rs = Some (map (answer_of qs) (filter (\<lambda>r. type_number (dr_type r) = qs_type qs) rs))"
  by (induction rs) (auto simp: answer_of_def dest!: wire_checked)

subsection \<open>No slice goes beyond the packet\<close>

lemma byte_at_Some: "byte_at q i = Some b \<longleftrightarrow> i < length q \<and> b = code (q ! i)"
  by (auto simp: byte_at_def)

lemma packet_slice_Some: "packet_slice q i j = Some b \<longleftrightarrow> i \<le> j \<and> j \<le> length q \<and> b = take (j - i) (drop i q)"
  by (auto simp: packet_slice_def)

lemma u16_slice_Some: "u16_slice q i j = Some v \<longleftrightarrow> i + 2 \<le> j \<and> j \<le> length q \<and> v = u16_at q i"
  by (auto simp: u16_slice_def packet_slice_def u16_at_def)

lemmas slices = byte_at_Some packet_slice_Some u16_slice_Some

lemma parse_parts_returns: "dns_header_len \<le> i \<Longrightarrow> parse_parts low q i \<noteq> None"
proof (induction low q i rule: parse_parts.induct)
  case (1 low q i)
  show ?case
  proof (cases "length q \<le> i \<or> code (q ! i) = 0 \<or> 63 < code (q ! i) \<or> length q < i + 1 + code (q ! i)
      \<or> 255 < i + 1 + code (q ! i) - dns_header_len")
    case True
    then show ?thesis by (auto simp: parse_parts.simps [of low q i] byte_at_def)
  next
    case False
    then have "parse_parts low q (i + 1 + code (q ! i)) \<noteq> None"
      using 1(2) by (intro 1(1)) (auto simp: byte_at_def packet_slice_def)
    then show ?thesis using False by (auto simp: parse_parts.simps [of low q i] byte_at_def packet_slice_def split: option.splits)
  qed
qed

lemma parse_parts_end:
  "parse_parts low q i = Some (Some (ls, e)) \<Longrightarrow> dns_header_len \<le> i \<Longrightarrow> i \<le> dns_header_len + 255
    \<Longrightarrow> i < e \<and> e \<le> length q \<and> e \<le> dns_header_len + 256"
proof (induction low q i arbitrary: ls rule: parse_parts.induct)
  case (1 low q i)
  let ?n = "code (q ! i)"
  show ?case
  proof (cases "?n = 0")
    case True
    then show ?thesis using 1(2-4) by (auto simp: parse_parts.simps [of low q i] byte_at_def split: if_splits)
  next
    case False
    then obtain ls' where l: "i < length q" "\<not> (63 < ?n \<or> length q < i + 1 + ?n \<or> 255 < i + 1 + ?n - dns_header_len)"
      "parse_parts low q (i + 1 + ?n) = Some (Some (ls', e))"
      using 1(2) by (auto simp: parse_parts.simps [of low q i] byte_at_def packet_slice_def split: if_splits option.splits)
    then have "i + 1 + ?n < e \<and> e \<le> length q \<and> e \<le> dns_header_len + 256"
      using 1(3) False by (intro 1(1)) (auto simp: byte_at_def packet_slice_def)
    then show ?thesis by simp
  qed
qed

lemma parse_query_returns: "parse_query low q \<noteq> None"
proof -
  have "question_at q labels i \<noteq> None" if "dns_header_len \<le> i" "i + 4 \<le> length q" for labels i
    using that by (auto simp: question_at_def packet_slice_def u16_slice_def split: option.splits)
  moreover have "dns_header_len \<le> i" if "parse_parts low q dns_header_len = Some (Some (labels, i))" for labels i
    using parse_parts_end [OF that] by simp
  ultimately show ?thesis using parse_parts_returns [of dns_header_len low q]
    by (auto simp: parse_query_def byte_at_def u16_slice_def packet_slice_def dns_header_len_def split: option.splits)
qed

lemma parse_query_end:
  assumes "parse_query low q = Some (Some qs)"
  shows "dns_header_len \<le> qs_end qs" "qs_end qs \<le> length q" "qs_end qs \<le> dns_header_len + 260" "dns_header_len \<le> length q"
    "code (q ! 2) AND 0x80 = 0"
proof -
  obtain labels i where p: "parse_parts low q dns_header_len = Some (Some (labels, i))" "\<not> length q < i + 4"
    "question_at q labels i = Some qs" "\<not> length q < dns_header_len" "code (q ! 2) AND 0x80 = 0"
    using assms by (auto simp: parse_query_def slices split: if_splits option.splits)
  have "qs_end qs = i + 4" using p(3) by (auto simp: question_at_def split: option.splits)
  then show "dns_header_len \<le> qs_end qs" "qs_end qs \<le> length q" "qs_end qs \<le> dns_header_len + 260" "dns_header_len \<le> length q"
    "code (q ! 2) AND 0x80 = 0"
    using parse_parts_end [OF p(1)] p(2,4,5) by simp_all
qed

subsection \<open>Sizes and flags\<close>

lemma top_bit: "x AND 0x80 \<noteq> 0 \<longleftrightarrow> bit x 7" for x :: nat
  using and_exp_eq_0_iff_not_bit [of x 7] by simp

lemma bit_code: "bit (code (char_of n)) 7 = bit n 7" for n :: nat
proof -
  have "n mod 256 = take_bit 8 n" by (simp add: take_bit_eq_mod)
  then show ?thesis by (simp add: bit_take_bit_iff)
qed

lemma bit_flags: "bit (0x80 OR x) 7" for x :: nat
proof -
  have "bit (0x80 :: nat) 7" by (simp add: bit_iff_odd)
  then show ?thesis by (simp add: bit_or_iff)
qed

text \<open>Bytes that are a reply to \<open>q\<close>: with its id, marked as a reply.\<close>

definition replies_to :: "string \<Rightarrow> string \<Rightarrow> bool" where
  "replies_to q out \<longleftrightarrow> dns_header_len \<le> length out \<and> take 2 out = take 2 q \<and> bit (code (out ! 2)) 7"

lemma header_shape:
  assumes "dns_header_len \<le> length q"
  shows "\<exists>out. reply_header q rcode aa question an ns ar = Some out \<and> replies_to q out \<and> length out = dns_header_len"
proof -
  let ?flags = "0x80 OR (code (q ! 2) AND 0x79)"
  let ?out = "take 2 q @ [char_of (if aa then ?flags OR 0x04 else ?flags), char_of rcode]
             @ (if question then be16 1 else be16 0) @ be16 an @ be16 ns @ be16 ar"
  have q: "2 < length q" "packet_slice q 0 2 = Some (take 2 q)" using assms by (simp_all add: dns_header_len_def packet_slice_def)
  then have h: "reply_header q rcode aa question an ns ar = Some ?out"
    by (simp add: reply_header_def byte_at_def Let_def)
  have "?out ! 2 = char_of (0x80 OR (if aa then (code (q ! 2) AND 0x79) OR 0x04 else code (q ! 2) AND 0x79))"
    using q by (simp add: nth_append or.assoc)
  then have "bit (code (?out ! 2)) 7" by (simp only: bit_code bit_flags)
  then show ?thesis using h q by (simp add: replies_to_def dns_header_len_def be16_def)
qed

lemma reply_shape:
  assumes "parse_query low q = Some (Some qs)"
  shows "\<exists>out. reply q qs rcode aa as au = Some out \<and> replies_to q out \<and> (as = [] \<and> au = [] \<longrightarrow> length out \<le> max_udp)"
proof -
  note e = parse_query_end [OF assms]
  obtain h where h: "reply_header q rcode aa True (length as) (length au) 0 = Some h" "replies_to q h" "length h = dns_header_len"
    using header_shape [OF e(4)] by blast
  have "packet_slice q dns_header_len (qs_end qs) = Some (take (qs_end qs - dns_header_len) (drop dns_header_len q))"
    using e by (simp add: packet_slice_def)
  then have "reply q qs rcode aa as au
      = Some (h @ take (qs_end qs - dns_header_len) (drop dns_header_len q) @ concat (map rr_bytes (as @ au)))"
    using h(1) by (simp add: reply_def)
  moreover have "replies_to q (h @ rest)" for rest using h(2) by (simp add: replies_to_def dns_header_len_def nth_append)
  ultimately show ?thesis using e h(3) by (auto simp: dns_header_len_def max_udp_def)
qed

lemma truncated_shape:
  assumes "replies_to q out"
  shows "\<exists>out'. truncated out = Some out' \<and> replies_to q out' \<and> length out' = length out"
proof -
  have l: "2 < length out" using assms by (simp add: replies_to_def dns_header_len_def)
  let ?out = "out[2 := char_of (code (out ! 2) OR 0x02)]"
  have "truncated out = Some ?out" using l by (simp add: truncated_def byte_at_def)
  moreover have "\<not> bit (2 :: nat) 7" by (simp add: bit_iff_odd)
  then have "bit (code (?out ! 2)) 7 \<longleftrightarrow> bit (code (out ! 2)) 7" using l by (simp add: bit_code bit_or_iff del: of_char_of)
  ultimately show ?thesis using assms l by (auto simp: replies_to_def)
qed

lemma finish_shape:
  assumes "parse_query low q = Some (Some qs)"
  shows "\<exists>out. finish_reply a q qs as there most = Some out \<and> replies_to q out \<and> length out \<le> max most max_udp"
proof -
  let ?rc = "if as = [] \<and> \<not> there then rcode_nx_domain else 0" and ?au = "if as = [] then [soa a] else []"
  obtain out where o: "reply q qs ?rc True as ?au = Some out" "replies_to q out" using reply_shape [OF assms] by blast
  obtain bare where b: "reply q qs ?rc True [] [] = Some bare" "replies_to q bare" "length bare \<le> max_udp"
    using reply_shape [OF assms, of ?rc True "[]" "[]"] by auto
  obtain cut where c: "truncated bare = Some cut" "replies_to q cut" "length cut = length bare" using truncated_shape [OF b(2)] by blast
  show ?thesis
  proof (cases "most < length out")
    case True
    then show ?thesis using o b c by (intro exI [of _ cut]) (simp add: finish_reply_def Let_def)
  next
    case False
    then show ?thesis using o by (intro exI [of _ out]) (simp add: finish_reply_def Let_def)
  qed
qed

subsection \<open>What a query is answered\<close>

text \<open>C38: A query in the zone is answered from the records of its name, those of its type, all of them and
  in their order; a name the zone has not got from the wildcard below the nearest name above it; and
  the zone's own name from its SOA and nameserver as well. Whatever zones and records were set before.
\<close>

theorem queries_are_answered_from_the_zone:
  assumes "a = foldl (dns_step low) zero_answerer ops" and "\<forall>r \<in> set (all_records a). check_record r (dz_name (an_zone a)) = None"
    and "parse_query low q = Some (Some qs)" and "code (q ! 2) div 8 AND 0x0f = 0"
    and "inside (dz_name (an_zone a)) (qs_name qs)" and "qs_class qs = class_in" and "qs_type qs \<noteq> type_any"
  shows "\<exists>recs there out. found (dz_name (an_zone a)) (all_records a) (qs_name qs) recs there
    \<and> finish_reply a q qs
        (apex_records a qs @ map (answer_of qs) (filter (\<lambda>r. type_number (dr_type r) = qs_type qs) recs)) there most = Some out
    \<and> dns_answer low a q most = Some (Some out)"
proof -
  obtain recs there where f: "look_up a (qs_name qs) = Some (recs, there)" "found (dz_name (an_zone a)) (all_records a) (qs_name qs) recs there"
    using look_up_found indexed_run assms(1,5) by blast
  let ?as = "apex_records a qs @ map (answer_of qs) (filter (\<lambda>r. type_number (dr_type r) = qs_type qs) recs)"
  obtain out where out: "finish_reply a q qs ?as there most = Some out" using finish_shape [OF assms(3)] by blast
  note e = parse_query_end [OF assms(3)]
  then have b: "byte_at q 2 = Some (code (q ! 2))" by (simp add: byte_at_def dns_header_len_def)
  have "matching qs recs = Some (map (answer_of qs) (filter (\<lambda>r. type_number (dr_type r) = qs_type qs) recs))"
    by (rule matching_checked) (use found_records [OF f(2)] assms(2) in blast)
  then have "dns_answer low a q most = Some (Some out)" using assms(3-7) f(1) e b out by (simp add: dns_answer_def)
  then show ?thesis using f(2) out by blast
qed

text \<open>C39: Whatever zones and records were set, every packet that is a query is answered, and no other: no
  loop runs on, nothing panics and nothing beyond the packet is read. A reply has the query's id, is
  marked as a reply, so that no other answerer answers it, and is not larger than it may be, 512 bytes
  or more.
\<close>

theorem every_query_is_answered:
  assumes "a = foldl (dns_step low) zero_answerer ops" and "\<forall>r \<in> set (all_records a). check_record r (dz_name (an_zone a)) = None"
  shows "\<exists>r. dns_answer low a q most = Some r \<and> (r = None \<longleftrightarrow> length q < dns_header_len \<or> code (q ! 2) AND 0x80 \<noteq> 0)
    \<and> (\<forall>out. r = Some out \<longrightarrow> take 2 out = take 2 q \<and> code (out ! 2) AND 0x80 \<noteq> 0 \<and> length out \<le> max most max_udp)"
proof (cases "length q < dns_header_len \<or> code (q ! 2) AND 0x80 \<noteq> 0")
  case False
  then have q: "dns_header_len \<le> length q" by simp
  have b: "byte_at q 2 = Some (code (q ! 2))" using q by (simp add: byte_at_def dns_header_len_def)
  have "\<exists>out. dns_answer low a q most = Some (Some out) \<and> replies_to q out \<and> length out \<le> max most max_udp"
  proof (cases "parse_query low q")
    case None
    then show ?thesis using parse_query_returns by blast
  next
    case (Some r)
    show ?thesis
    proof (cases r)
      case None
      then show ?thesis using False b Some header_shape [OF q, of rcode_form_err False False 0 0 0]
        by (auto simp: dns_answer_def max_udp_def dns_header_len_def)
    next
      case (Some qs)
      then have parsed: "parse_query low q = Some (Some qs)" using \<open>parse_query low q = Some r\<close> by simp
      have short: "\<exists>out. reply q qs rcode aa [] [] = Some out \<and> replies_to q out \<and> length out \<le> max most max_udp" for rcode aa
        using reply_shape [OF parsed, of rcode aa "[]" "[]"] by (auto simp: le_max_iff_disj)
      show ?thesis
      proof (cases "inside (dz_name (an_zone a)) (qs_name qs)")
        case True
        obtain recs there where f: "look_up a (qs_name qs) = Some (recs, there)" "found (dz_name (an_zone a)) (all_records a) (qs_name qs) recs there"
          using look_up_found indexed_run assms(1) True by blast
        have "matching qs recs = Some (map (answer_of qs) (filter (\<lambda>r. type_number (dr_type r) = qs_type qs) recs))"
          by (rule matching_checked) (use found_records [OF f(2)] assms(2) in blast)
        then show ?thesis using False b parsed f(1) short [of rcode_not_imp] short [of rcode_refused] finish_shape [OF parsed]
          by (auto simp: dns_answer_def)
      next
        case outside: False
        then show ?thesis using False b parsed short [of rcode_not_imp] short [of rcode_refused] by (auto simp: dns_answer_def)
      qed
    qed
  qed
  then obtain out where "dns_answer low a q most = Some (Some out)" "take 2 out = take 2 q" "bit (code (out ! 2)) 7" "length out \<le> max most max_udp"
    by (auto simp: replies_to_def)
  then show ?thesis using False top_bit [of "code (out ! 2)"] by (intro exI [of _ "Some out"]) simp
qed (auto simp: dns_answer_def byte_at_def dns_header_len_def)

subsection \<open>Names written and read\<close>

lemma label_chars_plain:
  "label_chars u n i (runes l) \<Longrightarrow> list_all (\<lambda>c. code c < 128 \<and> \<not> (65 \<le> code c \<and> code c \<le> 90)) l"
proof (induction l arbitrary: i)
  case (Cons c l)
  show ?case
  proof (cases "code c < 128")
    case True
    then show ?thesis using Cons by (auto simp del: runes.simps(2))
  next
    case False
    then have "128 \<le> fst (decode_rune (map of_char (take 4 (c # l))))" using decode_rune_ge [of "code c"] by simp
    then show ?thesis using Cons.prems by (auto simp: Let_def split: prod.splits)
  qed
qed simp

lemma to_lower_plain: "list_all (\<lambda>c. code c < 128 \<and> \<not> (65 \<le> code c \<and> code c \<le> 90)) l \<Longrightarrow> to_lower low l = l"
  by (auto simp: to_lower_def ascii_def list_all_iff lower_byte_def intro!: map_idI)

definition plain_label :: "(nat \<Rightarrow> nat) \<Rightarrow> string \<Rightarrow> bool" where
  "plain_label low l \<longleftrightarrow> l \<noteq> [] \<and> length l \<le> 63 \<and> to_lower low l = l"

lemma check_parts_plain: "check_parts u ls = None \<Longrightarrow> list_all (plain_label low) ls"
  by (induction ls) (auto simp: plain_label_def to_lower_plain [OF label_chars_plain] split: if_splits)

definition wire_label :: "string \<Rightarrow> string" where
  "wire_label l = char_of (length l) # l"

lemma parse_parts_wire:
  "list_all (plain_label low) ls \<Longrightarrow> dns_header_len \<le> length h
    \<Longrightarrow> length h + length (concat (map wire_label ls)) \<le> dns_header_len + 255
    \<Longrightarrow> parse_parts low (h @ concat (map wire_label ls) @ char_of (0 :: nat) # rest) (length h)
      = Some (Some (ls, length h + length (concat (map wire_label ls)) + 1))"
proof (induction ls arbitrary: h)
  case Nil
  then show ?case by (simp add: parse_parts.simps [of _ _ "length h"] byte_at_def)
next
  case (Cons l ls)
  let ?h = "h @ wire_label l"
  have l: "l \<noteq> []" "length l \<le> 63" "to_lower low l = l" using Cons.prems(1) by (auto simp: plain_label_def)
  have "parse_parts low (?h @ concat (map wire_label ls) @ char_of (0 :: nat) # rest) (length ?h)
      = Some (Some (ls, length ?h + length (concat (map wire_label ls)) + 1))"
    by (rule Cons.IH) (use Cons.prems in auto)
  then show ?case using l Cons.prems(2,3)
    by (simp add: parse_parts.simps [of _ _ "length h"] byte_at_def packet_slice_def wire_label_def [of l] nth_append)
qed

lemma wire_length: "length (concat (map wire_label (split_on c s))) = length s + 1"
  by (induction s) (auto simp: wire_label_def split: list.splits)

lemma split_on_snoc: "split_on c (s @ [c]) = split_on c s @ [[]]"
  by (induction s) (auto split: list.splits)

lemma checked_host:
  assumes "check_host name = None"
  shows "list_all (plain_label low) (split_on (CHR ''.'') name)" and "length name \<le> 253" and "trim_dot name = name"
proof -
  show p: "list_all (plain_label low) (split_on (CHR ''.'') name)" "length name \<le> 253"
    using assms check_parts_plain by (auto simp: check_host_def check_labels_def split: if_splits)
  have "last name \<noteq> CHR ''.''" if "name \<noteq> []"
  proof
    assume "last name = CHR ''.''"
    then have "split_on (CHR ''.'') name = split_on (CHR ''.'') (butlast name) @ [[]]"
      using append_butlast_last_id [OF that] split_on_snoc [of "CHR ''.''" "butlast name"] by simp
    then show False using p(1) by (simp add: plain_label_def)
  qed
  then show "trim_dot name = name" by (cases "name = []") (simp_all add: trim_dot_def)
qed

lemma u16_be16: "v < 2 ^ 16 \<Longrightarrow> i = length h \<Longrightarrow> u16_at (h @ be16 v @ rest) i = v"
  by (simp add: u16_at_def be16_def nth_append)

text \<open>C40: The names a zone's checks accept, which replies carry as SRV targets and nameservers, are names
  a query can ask for: a query for one is read as that name, its type and its class.
\<close>

theorem written_names_are_read_back:
  assumes "check_host name = None" and "length h = dns_header_len" and "code (h ! 2) AND 0x80 = 0" and "u16_at h 4 = 1"
    and "t < 2 ^ 16" and "c < 2 ^ 16"
  shows "parse_query low (h @ encode_name name @ be16 t @ be16 c @ rest)
    = Some (Some \<lparr>qs_raw = encode_name name, qs_name = name, qs_type = t, qs_class = c, qs_end = length (h @ encode_name name) + 4\<rparr>)"
proof -
  note n = checked_host [OF assms(1)]
  let ?ls = "split_on (CHR ''.'') name" and ?q = "h @ encode_name name @ be16 t @ be16 c @ rest" and ?i = "length (h @ encode_name name)"
  have e: "encode_name name = concat (map wire_label ?ls) @ [char_of (0 :: nat)]"
    by (simp add: encode_name_def n(3) wire_label_def [abs_def])
  have parts: "parse_parts low ?q dns_header_len = Some (Some (?ls, ?i))"
    using parse_parts_wire [where low = low and ls = ?ls and h = h and rest = "be16 t @ be16 c @ rest"] n(1) [of low] n(2) assms(2)
    by (simp add: e wire_length)
  have "u16_at ?q ?i = t" "u16_at ?q (?i + 2) = c"
    using u16_be16 [of t ?i "h @ encode_name name" "be16 c @ rest"] u16_be16 [of c "?i + 2" "h @ encode_name name @ be16 t" rest] assms(5,6)
    by (simp_all add: be16_def)
  moreover have len: "?i + 4 \<le> length ?q" by (simp add: be16_def)
  moreover have "packet_slice ?q dns_header_len ?i = Some (encode_name name)" using assms(2) by (simp add: packet_slice_def)
  ultimately have "question_at ?q ?ls ?i
      = Some \<lparr>qs_raw = encode_name name, qs_name = name, qs_type = t, qs_class = c, qs_end = ?i + 4\<rparr>"
    by (simp add: question_at_def u16_slice_Some [THEN iffD2] join_split_on)
  moreover have "u16_slice ?q 4 6 = Some 1" "byte_at ?q 2 = Some (code (h ! 2))"
    using assms(2,4) by (simp_all add: u16_slice_def packet_slice_def byte_at_def u16_at_def nth_append dns_header_len_def)
  ultimately show ?thesis using parts len assms(2,3) by (simp add: parse_query_def)
qed

subsection \<open>A zone at work\<close>

definition sample_zone :: dns_zone where
  "sample_zone = \<lparr>dz_name = ''ex.me'', dz_nameserver = ''ns.ex.me'', dz_serial = 1,
     dz_records = [\<lparr>dr_name = ''_minecraft._tcp.alex'', dr_type = ''SRV'', dr_value = ''vm.ex.me'', dr_port = 25565, dr_ttl = 0\<rparr>,
       \<lparr>dr_name = ''*'', dr_type = ''TXT'', dr_value = ''hi'', dr_port = 0, dr_ttl = 0\<rparr>]\<rparr>"

definition sample_head :: string where
  "sample_head = map char_of [7, 9, 1, 0, 0, 1, 0, 0, 0, 0, 0, 0 :: nat]"

definition sample_query :: string where
  "sample_query = sample_head @ encode_name ''bob.ex.me'' @ be16 16 @ be16 1"

definition sample_answerer :: answerer where
  "sample_answerer = foldl (dns_step (\<lambda>r. r)) zero_answerer [Set_Zone sample_zone]"

lemma sample_checked: "check_zone sample_zone = None"
  by code_simp

lemma first_problem_none: "first_problem z rs = None \<longleftrightarrow> (\<forall>r \<in> set rs. check_record r z = None)"
  by (induction rs) (auto split: option.splits)

lemma sample_answerer_zone: "an_zone sample_answerer = sample_zone" "all_records sample_answerer = dz_records sample_zone"
proof -
  have "to_lower (\<lambda>r. r) (dz_name sample_zone) = dz_name sample_zone" by code_simp
  then show "an_zone sample_answerer = sample_zone" "all_records sample_answerer = dz_records sample_zone"
    using step_set_zone [of "\<lambda>r. r" zero_answerer sample_zone]
    by (simp_all add: sample_answerer_def all_records_def del: dns_step.simps) (simp_all add: zero_answerer_def)
qed

lemma sample_records_checked: "\<forall>r \<in> set (all_records sample_answerer). check_record r (dz_name (an_zone sample_answerer)) = None"
  using sample_checked by (auto simp: sample_answerer_zone check_zone_def first_problem_none split: option.splits if_splits)

lemma sample_parsed: "parse_query (\<lambda>r. r) sample_query
    = Some (Some \<lparr>qs_raw = encode_name ''bob.ex.me'', qs_name = ''bob.ex.me'', qs_type = 16, qs_class = 1, qs_end = 27\<rparr>)"
  by code_simp

theorem queries_are_answered_from_the_zone_witness:
  "\<exists>recs there out. found ''ex.me'' (dz_records sample_zone) ''bob.ex.me'' recs there
    \<and> dns_answer (\<lambda>r. r) sample_answerer sample_query 512 = Some (Some out) \<and> (finish_reply sample_answerer sample_query
        \<lparr>qs_raw = encode_name ''bob.ex.me'', qs_name = ''bob.ex.me'', qs_type = 16, qs_class = 1, qs_end = 27\<rparr>
        (apex_records sample_answerer \<lparr>qs_raw = encode_name ''bob.ex.me'', qs_name = ''bob.ex.me'', qs_type = 16, qs_class = 1, qs_end = 27\<rparr>
         @ map (answer_of \<lparr>qs_raw = encode_name ''bob.ex.me'', qs_name = ''bob.ex.me'', qs_type = 16, qs_class = 1, qs_end = 27\<rparr>)
            (filter (\<lambda>r. type_number (dr_type r) = 16) recs)) there 512) = Some out"
proof -
  have "code (sample_query ! 2) div 8 AND 0x0f = 0" "inside ''ex.me'' ''bob.ex.me''" "dz_name sample_zone = ''ex.me''"
    by (code_simp, code_simp, simp add: sample_zone_def)
  then show ?thesis
    using queries_are_answered_from_the_zone [OF sample_answerer_def sample_records_checked sample_parsed, of 512]
    by (auto simp: sample_answerer_zone class_in_def type_any_def)
qed

theorem every_query_is_answered_witness:
  "\<exists>out. dns_answer (\<lambda>r. r) sample_answerer sample_query 512 = Some (Some out) \<and> length out \<le> 512"
proof -
  have "dns_header_len \<le> length sample_query" "code (sample_query ! 2) AND 0x80 = 0" by code_simp+
  then show ?thesis
    using every_query_is_answered [OF sample_answerer_def sample_records_checked, of sample_query 512] by (auto simp: max_udp_def)
qed

theorem written_names_are_read_back_witness:
  "parse_query (\<lambda>r. r) (sample_head @ encode_name ''vm.ex.me'' @ be16 1 @ be16 1 @ [])
    = Some (Some \<lparr>qs_raw = encode_name ''vm.ex.me'', qs_name = ''vm.ex.me'', qs_type = 1, qs_class = 1, qs_end = length (sample_head @ encode_name ''vm.ex.me'') + 4\<rparr>)"
  by (rule written_names_are_read_back) (code_simp, code_simp, code_simp, code_simp, simp_all)

text \<open>A label may hold a dot: the name of two labels, \<open>alex.ex\<close> and \<open>me\<close>, passes for one in the zone.\<close>

lemma dotted_label_inside: "map_option (map_option (\<lambda>qs. inside ''ex.me'' (qs_name qs)))
    (parse_query (\<lambda>r. r) (sample_head @ char_of (7 :: nat) # ''alex.ex'' @ char_of (2 :: nat) # ''me'' @ char_of (0 :: nat) # be16 16 @ be16 1)) = Some (Some True)"
  by code_simp

text \<open>A name of 256 bytes is read, one more than DNS allows.\<close>

lemma long_name_read: "map_option (map_option (\<lambda>qs. length (qs_raw qs))) (parse_query (\<lambda>r. r)
    (sample_head @ concat (replicate 3 (char_of (63 :: nat) # replicate 63 (CHR ''a'')) @ [char_of (62 :: nat) # replicate 62 (CHR ''b'')])
      @ char_of (0 :: nat) # be16 1 @ be16 1)) = Some (Some 256)"
  by code_simp

end
