(* ===== verification/Spec2Isabelle.thy ===== *)
theory Spec2Isabelle
  imports Two_Factor Sleep_Policy Wake_Limit Sleep_Protocol Plan Retention_Estimate Team Friend_Links
    Version Entity_Fix Runner_Once Mcp_Limits Mcp_Sessions Port_Share Zip_Dir Dns_Zone
begin

text \<open>
  A verification development for Playkeeper, a self-hosted dashboard for Minecraft servers.

  \<^bold>\<open>The program.\<close> Three processes make a machine: the \<^emph>\<open>agent\<close> (internal/agent, root) runs the game
  servers in containers, keeps their schedules and backups and puts them to sleep; the \<^emph>\<open>panel\<close>
  (internal/panel, no rights of its own) serves the dashboard, signs people in and asks the agent
  over a socket; the \<^emph>\<open>installer\<close> sets both up. Both keep their state in SQLite. Their decisions are
  made by packages that hold no connections: schedule, backup/retention, sleep, twofactor and totp,
  invites, update, nbt and region. The development models these packages, and where a decision is
  spread over the statements of a handler (counting the uses of a link, changing a member, saving
  a run, rewriting a region file) the handler's statements too. Paths below are under
  src/internal.

  \<^bold>\<open>How the code is written here.\<close> A struct is a \<open>record\<close>, an enumeration a \<open>datatype\<close> (with a
  constructor for any other text, where the code keeps one), a function a definition that computes,
  an error a constructor on the left of a sum. An operation on stored state takes it and returns the
  one to store. Go's int is an \<open>int\<close>, cut to 64 bits by \<open>wrap64\<close> where nothing bounds an operand; a
  time is its nanoseconds since year 1, and \<open>Sub\<close> saturates; machine bytes and words are \<open>8 word\<close> and
  so on. A Go string is a list of bytes, and a range over it decodes UTF-8 (\<open>runes\<close>). What is random,
  asked of the outside or kept in another process is an argument or an event. Goroutines that hold
  a lock, and statements of a database, are steps; their interleavings are lists of steps.

  \<^bold>\<open>The prelude.\<close>
  \<^item> Go_Base: integers, times, stable sorting, and the locales \<open>guarded_machine\<close>, \<open>machine\<close> (a step
    function and an invariant every step keeps) and \<open>comparator\<close> (what \<open>slices.SortFunc\<close> needs of a
    comparison). Components that are state machines or sort interpret them.
  \<^item> Go_Text: UTF-8, classes of runes, packages strings and strconv. Go_Crypto: SHA-1, HMAC, SHA-256,
    hex and base32. Go_Float: \<open>float64\<close> as the fraction it stands for, with rounding. Go_Zone, Go_Dates
    and Wall_Clock: the calendar, zones, printing dates, and a wall-clock time's instant. Regexp: the
    leftmost-first matcher of package regexp, with replacement. Minecraft_Names, Mutf8: player names,
    UUIDs and Java's variant of UTF-8. Go_Addr: \<open>netip.ParseAddr\<close>.

  \<^bold>\<open>Signing in.\<close> Totp (totp/totp.go), Recovery_Codes and Two_Factor (twofactor). A stored \<open>factor\<close>
  goes through \<open>begin_setup\<close>, \<open>confirm\<close>, \<open>sign_in\<close>, \<open>disable\<close>, \<open>renew_recovery_codes\<close>; \<open>tf_step\<close> runs
  them one at a time, as the panel's lock makes them. The lemmas: codes of the app and recovery codes
  are accepted once, over any run; wrong codes lock for one to sixteen minutes and end in a block;
  nothing passes without a code; a setup can be finished by the phone that scanned it.

  \<^bold>\<open>Schedules.\<close> Cron and Timing compile a timing into a rule and search the next run (2930 days at
  most, which is the code's bound); Schedules and Chat check what is saved; Plan says what runs now,
  what was missed and when to look again, and its search ends because every occurrence it meets is
  later. Schedule_Store holds the SQL statements on schedules and runs, Log_Lines and Clean_Output
  what is stored of a console's reply. Runner is the whole loop of schedule/runner.go: every question
  it asks (the clock, the server, the database, a timer, whether it shall stop) is answered by the
  next entry of a script, with edits of the schedules in between, so a script is one life of the
  process, cut off where the script ends. Its loops use up an answer in each round, so the functions
  are total. Its lemmas are proved in the locales \<open>quiet_relation\<close> and \<open>job_relation\<close>, which say what
  relation holds over all steps, and interpreted for the script's length, for the store's evolution
  and for idleness. Runner_Once: over any number of lives, crashes and failed saves an occurrence is
  begun at most once, what is begun is recorded, and warnings say how long is left.

  \<^bold>\<open>Sleep.\<close> Sleep_Policy (sleep/policy.go): the tracker that watches the player count. Wake_Limit
  (sleep/limit.go, manager.go): who may wake a server and how often. Sleep_Protocol (sleep/protocol.go):
  the packets of the stand-in, read with every length bounded.

  \<^bold>\<open>Backups.\<close> Retention, Retention_Text and Retention_Estimate (backup/retention): which backups are
  kept and deleted on this machine and off it, why, and how many a rule comes to. The lemmas: the
  last verified copy of a world is never deleted, what is protected stays, a rule keeps what it says.

  \<^bold>\<open>Invites and the team.\<close> Invite_Roles, Invites, Join_Requests (invites): roles, scopes, codes,
  links for friends and members, and join requests. Friend_Links (panel/friends.go, join.go): the
  statements that count a link's uses, in any interleaving of handlers. Team (panel/team.go,
  workspace.go): what an account may do, and changing, confirming and removing members. The lemmas: nobody gives rights they lack, links let
  in no more friends than they say, a refused link tells nothing.

  \<^bold>\<open>Worlds.\<close> Nbt and Nbt_Write (nbt/nbt.go), Region and Entities (region/region.go), Entity_Fix
  (agent/removeentity.go): reading and writing level data within limits, one chunk of a region file,
  and the fix that takes a broken entity out. The lemmas: read trees are well typed and within the
  limits of depth, bytes and memory; written trees are read back; setting a chunk changes one entry of
  the map from chunks to data; a fix loses the matching entities only.

  \<^bold>\<open>Doors.\<close> Mcp_Limits and Mcp_Sessions (mcp/ratelimit.go, session.go): how often a client of the MCP
  server may ask, and its sessions and requests; the map orders Go leaves open are arguments. Port_Share
  (portshare): a Splitter's goroutines as the inductive relation \<open>split_step\<close>. Zip_Dir (zipdir): the
  check of a zip's table of contents. Dns_Zone (dnszone): the DNS server for one zone, from the checks
  of its records to the bytes of a reply. The lemmas: no span of time sees more requests than the rate
  says, and a refusal's wait is exact; the store of sessions stays within its limits at the cost of
  the right sessions; a connection handed over is whole and kept, and a closed Splitter winds down;
  a zip is accepted exactly when its directory is what it says; a query is answered from exactly the
  records the zone has for it, every query within its size, and names are read back as written.

  \<^bold>\<open>Releases.\<close> Version (update/version.go): the order of versions.

  \<^bold>\<open>What the theorems assume.\<close> The zone database is a parameter with sorted transitions (\<open>tz_ok\<close>); new
  ids and random codes are fresh where a theorem says so; compress/gzip and compress/zlib read back
  what they wrote; Mojang's lookup and the Unicode class of printable runes are parameters. Each
  such hypothesis is met by a concrete function in the theorem's witness. Bounds: the planner looks
  back 400 days, NBT reading takes its limits as arguments, strings of NBT are under 65536 bytes.

  \<^bold>\<open>Not modelled.\<close> The HTTP handlers of the agent and the panel beyond the statements above, Docker,
  sockets and TLS, file and archive I/O, clients of web services, SQL itself (a table is a list or a
  map), encoding/json, log texts, and the English texts of errors where the constructor determines
  them. Normalising typed-in timings and schedules needs \<open>strings.ToLower\<close> on arbitrary text and is
  left out, as is the classification of log lines (\<open>Parse\<close>). Add-ons, modpacks, templates, imports of
  worlds and diagnosis plan over answers of web services and archives; they are listed as not
  modelled in the manifest, each with its reason.
\<close>

end
